(* ===== verification/Prelude.thy ===== *)
theory Prelude
  imports Main "HOL-Library.Word"
begin

text \<open>
  Shared vocabulary of the EdgeFlow development: the machine integer types of the C++ sources,
  the exceptions they throw as values, and the generic facts on lists, options and 64-bit words
  that the component theories use.
\<close>

section \<open>Machine integers\<close>

text \<open>\<open>std::size_t\<close> and \<open>std::uint64_t\<close> are 64 bits wide on every target the build files name.\<close>

type_synonym u64 = "64 word"
type_synonym u16 = "16 word"

text \<open>Half of the range: positions below it read the same as \<open>size_t\<close> and as \<open>ptrdiff_t\<close>.\<close>

abbreviation half_range :: nat where
  "half_range \<equiv> 2 ^ 63"

section \<open>Exceptions as values\<close>

datatype cpp_exception =
    Invalid_Argument string
  | Out_Of_Range string
  | Runtime_Error string

type_synonym 'a result = "cpp_exception + 'a"

fun what :: "cpp_exception \<Rightarrow> string" where
  "what (Invalid_Argument msg) = msg"
| "what (Out_Of_Range msg) = msg"
| "what (Runtime_Error msg) = msg"

text \<open>The line a \<open>main\<close> prints on the error stream and the status it returns.\<close>

definition main_status :: "string \<Rightarrow> 'a result \<Rightarrow> string \<times> nat" where
  "main_status program r = (case r of
     Inl e \<Rightarrow> (program @ '': '' @ what e @ [CHR 0x0A], 1) | Inr _ \<Rightarrow> ([], 0))"

definition bind_result :: "'a result \<Rightarrow> ('a \<Rightarrow> 'b result) \<Rightarrow> 'b result" where
  "bind_result r f = (case r of Inl e \<Rightarrow> Inl e | Inr v \<Rightarrow> f v)"

lemma bind_result_simps [simp]:
  "bind_result (Inl e) f = Inl e"
  "bind_result (Inr v) f = f v"
  by (simp_all add: bind_result_def)

lemma bind_result_Inr_iff:
  "bind_result r f = Inr w \<longleftrightarrow> (\<exists>v. r = Inr v \<and> f v = Inr w)"
  by (cases r) auto

section \<open>Collections of rewrite rules\<close>

named_theorems queue_defs \<open>definitions of the queue operations, unfolded in one go\<close>
named_theorems stats_defs \<open>definitions of the counter operations\<close>

section \<open>Words below half of the range\<close>

lemma unat_of_nat_u64 [simp]:
  "n < 2 ^ 64 \<Longrightarrow> unat (of_nat n :: u64) = n"
  by (simp add: unat_of_nat take_bit_nat_eq_self)

lemma unat_less_u64: "unat (w :: u64) < 2 ^ 64"
  using unsigned_less [of w] by simp

lemma sint_of_nat_u64:
  assumes "n < half_range"
  shows "sint (of_nat n :: u64) = int n"
proof -
  have "int n < 2 ^ 63" using assms by (metis of_nat_less_iff of_nat_numeral of_nat_power)
  then show ?thesis
    by (simp add: signed_of_nat signed_take_bit_int_eq_self)
qed

lemma of_nat_u64_inject:
  assumes "m < 2 ^ 64" and "n < 2 ^ 64"
  shows "(of_nat m :: u64) = of_nat n \<longleftrightarrow> m = n"
  using assms by (metis unat_of_nat_u64)

lemma of_nat_Suc_u64: "(of_nat n :: u64) + 1 = of_nat (Suc n)"
  by simp

lemma unat_power2_u64:
  assumes "j < 64"
  shows "unat ((2::u64) ^ j) = 2 ^ j"
proof -
  have "(2::nat) ^ j < 2 ^ 64" using assms by (intro power_strict_increasing) auto
  then have "unat (of_nat (2 ^ j) :: u64) = 2 ^ j" by (rule unat_of_nat_u64)
  then show ?thesis by simp
qed

text \<open>Masking with \<open>2 ^ k - 1\<close> is the remainder modulo \<open>2 ^ k\<close>.\<close>

lemma unat_and_mask_u64:
  assumes "n < 2 ^ 64" and "k \<le> 63"
  shows "unat (Bit_Operations.and (of_nat n :: u64) (2 ^ k - 1)) = n mod 2 ^ k"
proof -
  have "Bit_Operations.and (of_nat n :: u64) (2 ^ k - 1) = take_bit k (of_nat n)"
    by (simp add: take_bit_eq_mask mask_eq_exp_minus_1)
  then have "unat (Bit_Operations.and (of_nat n :: u64) (2 ^ k - 1)) = take_bit k (unat (of_nat n :: u64))"
    by (simp add: unsigned_take_bit_eq)
  with assms show ?thesis by (simp add: take_bit_eq_mod)
qed

section \<open>Windows of a ring\<close>

text \<open>Two positions of one window of length \<open>N\<close> that share a slot are the same position.\<close>

lemma mod_window_inject:
  fixes d i j N :: nat
  assumes "d \<le> i" "i < d + N" "d \<le> j" "j < d + N" "i mod N = j mod N"
  shows "i = j"
proof -
  have "a = b" if "a \<le> b" "b < a + N" "a mod N = b mod N" for a b :: nat
  proof -
    from that(1,3) have "N dvd b - a" by (metis mod_eq_dvd_iff_nat)
    moreover from that(1,2) have "b - a < N" by linarith
    ultimately have "b - a = 0" by (metis dvd_imp_le neq0_conv not_less)
    with that(1) show ?thesis by simp
  qed
  from this [of i j] this [of j i] assms show ?thesis
    by (metis le_cases less_le_trans add_le_mono1)
qed

lemma mod_window_eq_iff:
  fixes d i j N :: nat
  assumes "d \<le> i" "i < d + N" "d \<le> j" "j < d + N"
  shows "i mod N = j mod N \<longleftrightarrow> i = j"
  using mod_window_inject [OF assms] by blast

lemma mod_window_start:
  fixes d i N :: nat
  assumes "i mod N = d mod N" "d \<le> i" "i < d + N"
  shows "i = d"
  using assms by (intro mod_window_inject [of d i N d]) auto

section \<open>Lists\<close>

lemma upt_shift_front:
  "d < e \<Longrightarrow> map f [d..<e] = f d # map f [Suc d..<e]"
  by (simp add: upt_conv_Cons)

lemma map_upt_cong:
  "(\<And>i. d \<le> i \<Longrightarrow> i < e \<Longrightarrow> f i = g i) \<Longrightarrow> map f [d..<e] = map g [d..<e]"
  by simp

lemma sum_list_map_update:
  fixes f :: "'b \<Rightarrow> 'c :: comm_monoid_add"
  assumes "i < length xs"
  shows "sum_list (map f (xs[i := x])) + f (xs ! i) = sum_list (map f xs) + f x"
  using assms
proof (induction xs arbitrary: i)
  case (Cons y ys)
  then show ?case by (cases i) (auto simp: ac_simps)
qed simp

end
