(* ===== verification/Queue_Types.thy ===== *)
theory Queue_Types
  imports Prelude
begin

text \<open>
  The vocabulary of \<^verbatim>\<open>queue_types.hpp\<close>, the operations the C++ concept
  \<^verbatim>\<open>EventQueue\<close> (\<^verbatim>\<open>queue_concept.hpp\<close>) demands as a record of functions, and the
  contract written in that header's comment as the locale \<open>event_queue_contract\<close>: what
  push, pop and shutdown do to the list of queued items.
\<close>

section \<open>Policies and outcomes\<close>

datatype BackpressurePolicy = Block | DropOldest | DropNewest

datatype PushResult = Accepted | DroppedOldest | RejectedBackpressure

section \<open>The concept\<close>

text \<open>
  How a call can end: it returns, or the calling thread parks on a condition variable, or it
  spins without ever returning (the retry loops of the lock-free queue have no other exit).
\<close>

datatype 'r call = Returns 'r | Parks | Diverges

definition of_loop :: "'r option \<Rightarrow> 'r call" where
  "of_loop r = (case r of None \<Rightarrow> Diverges | Some v \<Rightarrow> Returns v)"

lemma of_loop_simps [simp]: "of_loop (Some v) = Returns v" "of_loop None = Diverges"
  by (simp_all add: of_loop_def)

text \<open>
  A queue type \<open>'q\<close> of items \<open>'a\<close>. The C++ objects are mutable, so each operation that changes
  the queue returns the new one.
\<close>

record ('q, 'a) EventQueue =
  q_push :: "'q \<Rightarrow> 'a \<Rightarrow> (PushResult \<times> 'q) call"
  q_pop :: "'q \<Rightarrow> ('a option \<times> 'q) call"
  q_shutdown :: "'q \<Rightarrow> 'q"
  q_size :: "'q \<Rightarrow> nat"
  q_capacity :: "'q \<Rightarrow> nat"

section \<open>What a bounded queue promises\<close>

definition spec_push :: "nat \<Rightarrow> BackpressurePolicy \<Rightarrow> 'a list \<Rightarrow> 'a \<Rightarrow> PushResult \<times> 'a list" where
  "spec_push cap p xs x =
     (if length xs < cap then (Accepted, xs @ [x])
      else if p = DropOldest then (DroppedOldest, tl xs @ [x])
      else (RejectedBackpressure, xs))"

definition spec_pop :: "bool \<Rightarrow> 'a list \<Rightarrow> ('a option \<times> 'a list) call" where
  "spec_pop is_closed xs =
     (case xs of [] \<Rightarrow> (if is_closed then Returns (None, []) else Parks)
      | y # ys \<Rightarrow> Returns (Some y, ys))"

lemma spec_pop_simps [simp]:
  "spec_pop c (y # ys) = Returns (Some y, ys)"
  "spec_pop True [] = Returns (None, [])"
  "spec_pop False [] = Parks"
  by (simp_all add: spec_pop_def)

lemma spec_push_length:
  assumes "spec_push cap p xs x = (r, ys)" and "length xs \<le> cap" and "0 < cap"
  shows "length ys \<le> cap"
  using assms by (auto simp: spec_push_def split: if_splits)

section \<open>Traces of operations\<close>

text \<open>
  A sequence of calls on one queue and what each of them lets its caller see. A call that does
  not return leaves the queue as it is.
\<close>

datatype 'a queue_op = Do_Push 'a | Do_Pop | Do_Shutdown | Do_Size

datatype 'a queue_obs =
    Saw_Push "PushResult call"
  | Saw_Pop "'a option call"
  | Saw_Unit
  | Saw_Size nat

fun run_op :: "('q, 'a) EventQueue \<Rightarrow> 'a queue_op \<Rightarrow> 'q \<Rightarrow> 'a queue_obs \<times> 'q" where
  "run_op Q (Do_Push x) q =
     (case q_push Q q x of Returns (r, q') \<Rightarrow> (Saw_Push (Returns r), q')
      | Parks \<Rightarrow> (Saw_Push Parks, q) | Diverges \<Rightarrow> (Saw_Push Diverges, q))"
| "run_op Q Do_Pop q =
     (case q_pop Q q of Returns (r, q') \<Rightarrow> (Saw_Pop (Returns r), q')
      | Parks \<Rightarrow> (Saw_Pop Parks, q) | Diverges \<Rightarrow> (Saw_Pop Diverges, q))"
| "run_op Q Do_Shutdown q = (Saw_Unit, q_shutdown Q q)"
| "run_op Q Do_Size q = (Saw_Size (q_size Q q), q)"

fun run_ops :: "('q, 'a) EventQueue \<Rightarrow> 'a queue_op list \<Rightarrow> 'q \<Rightarrow> 'a queue_obs list \<times> 'q" where
  "run_ops Q [] q = ([], q)"
| "run_ops Q (c # cs) q =
     (let (ob, q') = run_op Q c q; (obs, q'') = run_ops Q cs q' in (ob # obs, q''))"

text \<open>The same trace on the list of items and the shutdown flag alone.\<close>

fun spec_op :: "nat \<Rightarrow> BackpressurePolicy \<Rightarrow> 'a queue_op \<Rightarrow> 'a list \<times> bool \<Rightarrow>
    'a queue_obs \<times> 'a list \<times> bool" where
  "spec_op cap p (Do_Push x) (xs, c) =
     (let (r, ys) = spec_push cap p xs x in (Saw_Push (Returns r), ys, c))"
| "spec_op cap p Do_Pop (xs, c) =
     (case xs of [] \<Rightarrow> (if c then (Saw_Pop (Returns None), [], c) else (Saw_Pop Parks, [], c))
      | y # ys \<Rightarrow> (Saw_Pop (Returns (Some y)), ys, c))"
| "spec_op cap p Do_Shutdown (xs, c) = (Saw_Unit, xs, True)"
| "spec_op cap p Do_Size (xs, c) = (Saw_Size (length xs), xs, c)"

fun spec_ops :: "nat \<Rightarrow> BackpressurePolicy \<Rightarrow> 'a queue_op list \<Rightarrow> 'a list \<times> bool \<Rightarrow>
    'a queue_obs list \<times> 'a list \<times> bool" where
  "spec_ops cap p [] s = ([], s)"
| "spec_ops cap p (c # cs) s =
     (let (ob, s') = spec_op cap p c s; (obs, s'') = spec_ops cap p cs s' in (ob # obs, s''))"

definition push_count :: "'a queue_op list \<Rightarrow> nat" where
  "push_count cs = length (filter (\<lambda>c. case c of Do_Push _ \<Rightarrow> True | _ \<Rightarrow> False) cs)"

lemma push_count_simps [simp]:
  "push_count [] = 0"
  "push_count (Do_Push x # cs) = Suc (push_count cs)"
  "push_count (Do_Pop # cs) = push_count cs"
  "push_count (Do_Shutdown # cs) = push_count cs"
  "push_count (Do_Size # cs) = push_count cs"
  by (simp_all add: push_count_def)

section \<open>The contract\<close>

text \<open>
  \<open>invar n q\<close>: the queue is well formed and \<open>n\<close> more pushes stay within the range of its position
  counters (a queue without such counters ignores \<open>n\<close>). \<open>contents\<close> is the list of queued
  items, oldest first; \<open>is_closed\<close> says that shutdown was called.
\<close>

locale event_queue_contract =
  fixes Q :: "('q, 'a) EventQueue"
    and policy :: "'q \<Rightarrow> BackpressurePolicy"
    and contents :: "'q \<Rightarrow> 'a list"
    and is_closed :: "'q \<Rightarrow> bool"
    and invar :: "nat \<Rightarrow> 'q \<Rightarrow> bool"
  assumes capacity_pos: "invar n q \<Longrightarrow> 0 < q_capacity Q q"
    and contents_bounded: "invar n q \<Longrightarrow> length (contents q) \<le> q_capacity Q q"
    and size_contents: "invar n q \<Longrightarrow> q_size Q q = length (contents q)"
    and invar_weaken: "invar (Suc n) q \<Longrightarrow> invar n q"
    and push_returns: "invar (Suc n) q \<Longrightarrow> \<exists>r q'. q_push Q q x = Returns (r, q')"
    and push_contents: "invar (Suc n) q \<Longrightarrow> q_push Q q x = Returns (r, q') \<Longrightarrow>
      spec_push (q_capacity Q q) (policy q) (contents q) x = (r, contents q')"
    and push_frame: "invar (Suc n) q \<Longrightarrow> q_push Q q x = Returns (r, q') \<Longrightarrow>
      is_closed q' = is_closed q \<and> policy q' = policy q \<and> q_capacity Q q' = q_capacity Q q \<and> invar n q'"
    and pop_contents: "invar n q \<Longrightarrow>
      map_call (\<lambda>(v, q'). (v, contents q')) (q_pop Q q) = spec_pop (is_closed q) (contents q)"
    and pop_frame: "invar n q \<Longrightarrow> q_pop Q q = Returns (v, q') \<Longrightarrow>
      is_closed q' = is_closed q \<and> policy q' = policy q \<and> q_capacity Q q' = q_capacity Q q \<and> invar n q'"
    and shutdown_frame: "invar n q \<Longrightarrow> contents (q_shutdown Q q) = contents q \<and>
      is_closed (q_shutdown Q q) \<and> policy (q_shutdown Q q) = policy q \<and>
      q_capacity Q (q_shutdown Q q) = q_capacity Q q \<and> invar n (q_shutdown Q q)"
begin

lemma pop_parks_iff: "invar n q \<Longrightarrow> q_pop Q q = Parks \<longleftrightarrow> contents q = [] \<and> \<not> is_closed q"
  using pop_contents [of n q] by (cases "contents q"; cases "is_closed q"; cases "q_pop Q q") auto

lemma pop_nullopt_iff:
  "invar n q \<Longrightarrow> (\<exists>q'. q_pop Q q = Returns (None, q')) \<longleftrightarrow> contents q = [] \<and> is_closed q"
  using pop_contents [of n q] by (cases "contents q"; cases "is_closed q"; cases "q_pop Q q") auto

lemma pop_never_diverges: "invar n q \<Longrightarrow> q_pop Q q \<noteq> Diverges"
  using pop_contents [of n q] by (cases "contents q"; cases "is_closed q") auto

lemma pop_item:
  assumes "invar n q" and "contents q = y # ys"
  obtains q' where "q_pop Q q = Returns (Some y, q')" and "contents q' = ys"
    and "is_closed q' = is_closed q" and "invar n q'"
proof -
  from pop_contents [OF assms(1)] assms(2) obtain q' where
    q': "q_pop Q q = Returns (Some y, q')" "contents q' = ys"
    by (cases "q_pop Q q") auto
  with pop_frame [OF assms(1) q'(1)] that show ?thesis by blast
qed

lemma pop_Some_item:
  assumes "invar n q" and "q_pop Q q = Returns (Some y, q')"
  shows "contents q = y # contents q'" and "is_closed q' = is_closed q" and "invar n q'"
  using pop_contents [OF assms(1)] pop_frame [OF assms] assms(2)
  by (auto simp: spec_pop_def split: list.splits if_splits)

lemma pop_Some_nullopt:
  assumes "invar n q" and "q_pop Q q = Returns (None, q')"
  shows "contents q = []" and "contents q' = []" and "is_closed q" and "is_closed q'" and "invar n q'"
  using pop_contents [OF assms(1)] pop_frame [OF assms] assms(2)
  by (auto simp: spec_pop_def split: list.splits if_splits)

text \<open>One call refines the call on the list; a whole trace then does.\<close>

lemma run_op_refines:
  assumes "invar (push_count [c] + m) q"
  shows "fst (run_op Q c q) = fst (spec_op (q_capacity Q q) (policy q) c (contents q, is_closed q))
    \<and> (contents (snd (run_op Q c q)), is_closed (snd (run_op Q c q)))
      = snd (spec_op (q_capacity Q q) (policy q) c (contents q, is_closed q))
    \<and> policy (snd (run_op Q c q)) = policy q
    \<and> q_capacity Q (snd (run_op Q c q)) = q_capacity Q q
    \<and> invar m (snd (run_op Q c q))"
proof (cases c)
  case (Do_Push x)
  with assms push_returns [of m q x] obtain r q' where "q_push Q q x = Returns (r, q')" by auto
  then show ?thesis
    using assms Do_Push push_contents [of m q x r q'] push_frame [of m q x r q'] by simp
next
  case Do_Pop
  with assms have inv: "invar m q" by simp
  show ?thesis
  proof (cases "q_pop Q q")
    case (Returns vq)
    obtain v q' where vq: "vq = (v, q')" by fastforce
    with Returns pop_contents [OF inv] pop_frame [OF inv, of v q'] Do_Pop show ?thesis
      by (cases "contents q"; cases "is_closed q") auto
  next
    case Parks
    with pop_parks_iff [OF inv] inv Do_Pop show ?thesis by simp
  next
    case Diverges
    with pop_never_diverges [OF inv] show ?thesis by simp
  qed
next
  case Do_Shutdown
  then show ?thesis using assms shutdown_frame [of m q] by simp
next
  case Do_Size
  then show ?thesis using assms size_contents [of m q] by simp
qed

lemma run_ops_refines:
  assumes "invar (push_count cs + m) q"
  shows "fst (run_ops Q cs q) = fst (spec_ops (q_capacity Q q) (policy q) cs (contents q, is_closed q))
    \<and> (contents (snd (run_ops Q cs q)), is_closed (snd (run_ops Q cs q)))
      = snd (spec_ops (q_capacity Q q) (policy q) cs (contents q, is_closed q))
    \<and> policy (snd (run_ops Q cs q)) = policy q
    \<and> q_capacity Q (snd (run_ops Q cs q)) = q_capacity Q q
    \<and> invar m (snd (run_ops Q cs q))"
  using assms
proof (induction cs arbitrary: q)
  case Nil
  then show ?case by simp
next
  case (Cons c cs)
  obtain ob q' where op: "run_op Q c q = (ob, q')" by fastforce
  obtain obs q'' where ops: "run_ops Q cs q' = (obs, q'')" by fastforce
  have "push_count (c # cs) = push_count [c] + push_count cs"
    by (cases c) simp_all
  with Cons.prems have "invar (push_count [c] + (push_count cs + m)) q"
    by (simp add: add.assoc)
  from run_op_refines [OF this] op
  have step: "spec_op (q_capacity Q q) (policy q) c (contents q, is_closed q)
      = (ob, contents q', is_closed q')"
    and frame: "policy q' = policy q" "q_capacity Q q' = q_capacity Q q"
    and inv: "invar (push_count cs + m) q'"
    by (auto simp: prod_eq_iff)
  from Cons.IH [OF inv] ops frame
  have "spec_ops (q_capacity Q q) (policy q) cs (contents q', is_closed q')
      = (obs, contents q'', is_closed q'')"
    and "policy q'' = policy q" "q_capacity Q q'' = q_capacity Q q" "invar m q''"
    by (auto simp: prod_eq_iff)
  with op ops step show ?case by simp
qed

end

end
