(* ===== verification/Bounded_Queue.thy ===== *)
theory Bounded_Queue
  imports Queue_Types
begin

text \<open>
  \<^verbatim>\<open>core/include/edgeflow/bounded_queue.hpp\<close>: the mutex-guarded deque. Every member function
  runs under the queue's one mutex, so each is one atomic step on the record below; the
  condition variable and the threads that wait on it are the theory \<open>Bounded_Queue_Monitor\<close>.
\<close>

section \<open>State and operations\<close>

record 'a BoundedQueue =
  bq_cap :: nat
  bq_policy :: BackpressurePolicy
  bq_items :: "'a list"
  bq_shutting_down :: bool

definition bq_new :: "nat \<Rightarrow> BackpressurePolicy \<Rightarrow> 'a BoundedQueue result" where
  "bq_new cap p =
     (if cap = 0 then Inl (Invalid_Argument ''capacity must be greater than 0'')
      else Inr \<lparr>bq_cap = cap, bq_policy = p, bq_items = [], bq_shutting_down = False\<rparr>)"

definition bq_push :: "'a BoundedQueue \<Rightarrow> 'a \<Rightarrow> PushResult \<times> 'a BoundedQueue" where
  "bq_push q item =
     (if length (bq_items q) < bq_cap q
      then (Accepted, q\<lparr>bq_items := bq_items q @ [item]\<rparr>)
      else if bq_policy q = DropOldest
      then (DroppedOldest, q\<lparr>bq_items := tl (bq_items q) @ [item]\<rparr>)
      else (RejectedBackpressure, q))"

text \<open>The predicate of the wait in \<open>pop()\<close>; while it is false the caller stays blocked.\<close>

definition bq_pop_ready :: "'a BoundedQueue \<Rightarrow> bool" where
  "bq_pop_ready q \<longleftrightarrow> bq_items q \<noteq> [] \<or> bq_shutting_down q"

definition bq_pop :: "'a BoundedQueue \<Rightarrow> ('a option \<times> 'a BoundedQueue) option" where
  "bq_pop q =
     (if bq_pop_ready q
      then Some (case bq_items q of [] \<Rightarrow> (None, q)
                 | item # rest \<Rightarrow> (Some item, q\<lparr>bq_items := rest\<rparr>))
      else None)"

definition bq_shutdown :: "'a BoundedQueue \<Rightarrow> 'a BoundedQueue" where
  "bq_shutdown q = q\<lparr>bq_shutting_down := True\<rparr>"

definition bq_size :: "'a BoundedQueue \<Rightarrow> nat" where
  "bq_size q = length (bq_items q)"

definition bq_capacity :: "'a BoundedQueue \<Rightarrow> nat" where
  "bq_capacity q = bq_cap q"

text \<open>\<open>BoundedQueue\<close> as an argument for a template constrained by \<open>EventQueue\<close>.\<close>

definition bounded_queue_ops :: "('a BoundedQueue, 'a) EventQueue" where
  "bounded_queue_ops = \<lparr>q_push = (\<lambda>q x. Returns (bq_push q x)),
     q_pop = (\<lambda>q. case bq_pop q of None \<Rightarrow> Parks | Some r \<Rightarrow> Returns r),
     q_shutdown = bq_shutdown, q_size = bq_size, q_capacity = bq_capacity\<rparr>"

lemmas bq_op_defs [queue_defs] =
  bounded_queue_ops_def bq_push_def bq_pop_def bq_pop_ready_def bq_shutdown_def bq_size_def
  bq_capacity_def

section \<open>Invariant\<close>

definition bq_inv :: "'a BoundedQueue \<Rightarrow> bool" where
  "bq_inv q \<longleftrightarrow> 0 < bq_cap q \<and> length (bq_items q) \<le> bq_cap q"

lemma bq_new_inv: "bq_new cap p = Inr q \<Longrightarrow> bq_inv q"
  by (auto simp: bq_new_def bq_inv_def split: if_splits)

lemma bq_push_inv: "bq_inv q \<Longrightarrow> bq_push q x = (r, q') \<Longrightarrow> bq_inv q'"
  by (auto simp: bq_push_def bq_inv_def split: if_splits)

lemma bq_pop_inv: "bq_inv q \<Longrightarrow> bq_pop q = Some (r, q') \<Longrightarrow> bq_inv q'"
  by (auto simp: bq_pop_def bq_inv_def split: if_splits list.splits)

section \<open>The queue keeps the contract\<close>

interpretation bq: event_queue_contract bounded_queue_ops bq_policy bq_items bq_shutting_down
  "\<lambda>_. bq_inv"
  by unfold_locales
     (auto simp: queue_defs bq_inv_def spec_push_def spec_pop_def split: if_splits list.splits)

end
