(* ===== verification/Bounded_Queue_Monitor.thy ===== *)
theory Bounded_Queue_Monitor
  imports Bounded_Queue
begin

text \<open>
  The condition variable of \<^verbatim>\<open>BoundedQueue\<close>: any number of threads (named by numbers) call
  push, pop and shutdown on one queue. A thread inside \<open>not_empty_.wait\<close> is either waiting or
  woken (notified, or woken spuriously, and about to take the mutex and test the predicate
  again). Each step is one critical section of the mutex. The invariant counts woken threads
  against queued items, which rules out a lost wakeup.
\<close>

section \<open>States and steps\<close>

record 'a bq_monitor =
  mon_q :: "'a BoundedQueue"
  mon_waiting :: "nat set"
  mon_woken :: "nat set"

text \<open>\<open>notify_one\<close>: some waiting thread is woken, if there is one.\<close>

definition notify_one :: "nat set \<Rightarrow> nat set \<Rightarrow> nat set \<Rightarrow> nat set \<Rightarrow> bool" where
  "notify_one W K W' K' \<longleftrightarrow>
     W = {} \<and> W' = {} \<and> K' = K \<or> (\<exists>t \<in> W. W' = W - {t} \<and> K' = insert t K)"

inductive bq_mon_step :: "'a bq_monitor \<Rightarrow> 'a bq_monitor \<Rightarrow> bool" where
  push_stored:
    "bq_push (mon_q s) x = (r, q') \<Longrightarrow> r \<noteq> RejectedBackpressure \<Longrightarrow>
     notify_one (mon_waiting s) (mon_woken s) W K \<Longrightarrow>
     bq_mon_step s (s\<lparr>mon_q := q', mon_waiting := W, mon_woken := K\<rparr>)"
| push_rejected:
    "bq_push (mon_q s) x = (RejectedBackpressure, q') \<Longrightarrow> bq_mon_step s (s\<lparr>mon_q := q'\<rparr>)"
| pop_return:
    "t \<notin> mon_waiting s \<Longrightarrow> t \<notin> mon_woken s \<Longrightarrow> bq_pop (mon_q s) = Some (v, q') \<Longrightarrow>
     bq_mon_step s (s\<lparr>mon_q := q'\<rparr>)"
| pop_wait:
    "t \<notin> mon_waiting s \<Longrightarrow> t \<notin> mon_woken s \<Longrightarrow> bq_pop (mon_q s) = None \<Longrightarrow>
     bq_mon_step s (s\<lparr>mon_waiting := insert t (mon_waiting s)\<rparr>)"
| woken_return:
    "t \<in> mon_woken s \<Longrightarrow> bq_pop (mon_q s) = Some (v, q') \<Longrightarrow>
     bq_mon_step s (s\<lparr>mon_q := q', mon_woken := mon_woken s - {t}\<rparr>)"
| woken_wait:
    "t \<in> mon_woken s \<Longrightarrow> bq_pop (mon_q s) = None \<Longrightarrow>
     bq_mon_step s (s\<lparr>mon_waiting := insert t (mon_waiting s), mon_woken := mon_woken s - {t}\<rparr>)"
| spurious_wakeup:
    "t \<in> mon_waiting s \<Longrightarrow>
     bq_mon_step s (s\<lparr>mon_waiting := mon_waiting s - {t}, mon_woken := insert t (mon_woken s)\<rparr>)"
| shutdown:
    "bq_mon_step s (s\<lparr>mon_q := bq_shutdown (mon_q s), mon_waiting := {},
       mon_woken := mon_woken s \<union> mon_waiting s\<rparr>)"

inductive bq_mon_reach :: "'a BoundedQueue \<Rightarrow> 'a bq_monitor \<Rightarrow> bool" for q0 where
  start: "bq_mon_reach q0 \<lparr>mon_q = q0, mon_waiting = {}, mon_woken = {}\<rparr>"
| step: "bq_mon_reach q0 s \<Longrightarrow> bq_mon_step s s' \<Longrightarrow> bq_mon_reach q0 s'"

section \<open>The counting invariant\<close>

definition mon_inv :: "'a bq_monitor \<Rightarrow> bool" where
  "mon_inv s \<longleftrightarrow> bq_inv (mon_q s) \<and> finite (mon_waiting s) \<and> finite (mon_woken s) \<and>
     mon_waiting s \<inter> mon_woken s = {} \<and>
     (bq_shutting_down (mon_q s) \<longrightarrow> mon_waiting s = {}) \<and>
     (mon_waiting s \<noteq> {} \<longrightarrow> length (bq_items (mon_q s)) \<le> card (mon_woken s))"

lemma notify_one_inv:
  assumes "notify_one W K W' K'" and "finite W" and "finite K" and "W \<inter> K = {}"
  shows "finite W' \<and> finite K' \<and> W' \<inter> K' = {} \<and> W' \<subseteq> W \<and>
    (W \<noteq> {} \<longrightarrow> card K' = Suc (card K))"
proof -
  have "card (insert t K) = Suc (card K)" if "t \<in> W" for t
    using that assms by (simp add: card_insert_if disjoint_iff)
  with assms show ?thesis by (auto simp: notify_one_def)
qed

lemma bq_push_items:
  "bq_push q x = (r, q') \<Longrightarrow> bq_inv q \<Longrightarrow>
   length (bq_items q') \<le> Suc (length (bq_items q)) \<and> bq_shutting_down q' = bq_shutting_down q"
  by (auto simp: bq_push_def bq_inv_def split: if_splits)

lemma bq_pop_items:
  "bq_pop q = Some (v, q') \<Longrightarrow>
   length (bq_items q') = length (bq_items q) - 1 \<and> bq_shutting_down q' = bq_shutting_down q"
  by (auto simp: bq_pop_def split: if_splits list.splits)

lemma bq_pop_blocks: "bq_pop q = None \<longleftrightarrow> bq_items q = [] \<and> \<not> bq_shutting_down q"
  by (auto simp: bq_pop_def bq_pop_ready_def)

lemma mon_inv_push:
  assumes inv: "mon_inv s" and push: "bq_push (mon_q s) x = (r, q')"
    and ntf: "notify_one (mon_waiting s) (mon_woken s) W K"
  shows "mon_inv (s\<lparr>mon_q := q', mon_waiting := W, mon_woken := K\<rparr>)"
proof -
  from inv have fin: "finite (mon_waiting s)" "finite (mon_woken s)"
      "mon_waiting s \<inter> mon_woken s = {}" and q: "bq_inv (mon_q s)"
    by (auto simp: mon_inv_def)
  note n = notify_one_inv [OF ntf fin] and p = bq_push_items [OF push q]
  have "length (bq_items q') \<le> card K" if "W \<noteq> {}"
  proof -
    from that n have "mon_waiting s \<noteq> {}" by auto
    with inv n p show ?thesis by (auto simp: mon_inv_def)
  qed
  with inv n p bq_push_inv [OF q push] show ?thesis by (auto simp: mon_inv_def)
qed

lemma mon_inv_step: "bq_mon_step s s' \<Longrightarrow> mon_inv s \<Longrightarrow> mon_inv s'"
proof (induction rule: bq_mon_step.induct)
  case (push_stored s x r q' W K)
  show ?case by (rule mon_inv_push [OF push_stored(4,1,3)])
next
  case (push_rejected s x q')
  then have "q' = mon_q s" by (auto simp: bq_push_def split: if_splits)
  with push_rejected show ?case by simp
next
  case (pop_return t s v q')
  then show ?case
    using bq_pop_items [OF pop_return(3)] bq_pop_inv [OF _ pop_return(3)]
    by (auto simp: mon_inv_def)
next
  case (pop_wait t s)
  then show ?case by (auto simp: mon_inv_def bq_pop_blocks)
next
  case (woken_return t s v q')
  have "length (bq_items q') \<le> card (mon_woken s - {t})"
    if "mon_waiting s \<noteq> {}"
    using that woken_return bq_pop_items [OF woken_return(2)]
    by (auto simp: mon_inv_def card_Diff_singleton)
  then show ?case
    using woken_return bq_pop_items [OF woken_return(2)] bq_pop_inv [OF _ woken_return(2)]
    by (auto simp: mon_inv_def)
next
  case (woken_wait t s)
  then show ?case by (auto simp: mon_inv_def bq_pop_blocks)
next
  case (spurious_wakeup t s)
  then show ?case by (auto simp: mon_inv_def card_insert_if)
next
  case (shutdown s)
  then show ?case by (auto simp: mon_inv_def bq_shutdown_def bq_inv_def)
qed

lemma mon_inv_reach: "bq_mon_reach q0 s \<Longrightarrow> bq_new cap p = Inr q0 \<Longrightarrow> mon_inv s"
proof (induction rule: bq_mon_reach.induct)
  case start
  then show ?case
    by (auto simp: mon_inv_def bq_new_inv bq_new_def split: if_splits)
next
  case (step s s')
  then show ?case by (blast intro: mon_inv_step)
qed

section \<open>No lost wakeup\<close>

text \<open>C39: In every reachable state of the mutex queue and the threads that use it, as long as some
  thread waits in \<^verbatim>\<open>pop()\<close>, there are at least as many woken threads as queued items: every
  item that arrived while a thread slept has a wakeup still on its way to a consumer. After
  \<^verbatim>\<open>shutdown()\<close> no thread is left waiting.\<close>

theorem monitor_no_lost_wakeup:
  assumes "bq_new cap p = Inr q0" and "bq_mon_reach q0 s"
  shows "(mon_waiting s \<noteq> {} \<longrightarrow> length (bq_items (mon_q s)) \<le> card (mon_woken s)) \<and>
    (bq_shutting_down (mon_q s) \<longrightarrow> mon_waiting s = {})"
  using mon_inv_reach [OF assms(2,1)] by (auto simp: mon_inv_def)

definition mon_example :: "nat bq_monitor" where
  "mon_example = \<lparr>mon_q = \<lparr>bq_cap = 2, bq_policy = Block, bq_items = [7], bq_shutting_down = False\<rparr>,
     mon_waiting = {1}, mon_woken = {0}\<rparr>"

lemma mon_example_reach:
  "bq_mon_reach \<lparr>bq_cap = 2, bq_policy = Block, bq_items = [], bq_shutting_down = False\<rparr> mon_example"
    (is "bq_mon_reach ?q0 _")
proof -
  let ?s0 = "\<lparr>mon_q = ?q0, mon_waiting = {}, mon_woken = {}\<rparr> :: nat bq_monitor"
  have "bq_mon_step ?s0 (?s0\<lparr>mon_waiting := {0}\<rparr>)"
    using pop_wait [of 0 ?s0] by (simp add: bq_pop_blocks)
  with bq_mon_reach.start have 1: "bq_mon_reach ?q0 (?s0\<lparr>mon_waiting := {0}\<rparr>)"
    by (rule bq_mon_reach.step)
  have "bq_mon_step (?s0\<lparr>mon_waiting := {0}\<rparr>) (?s0\<lparr>mon_waiting := {0, 1}\<rparr>)"
    using pop_wait [of 1 "?s0\<lparr>mon_waiting := {0}\<rparr>"] by (simp add: bq_pop_blocks insert_commute)
  with 1 have 2: "bq_mon_reach ?q0 (?s0\<lparr>mon_waiting := {0, 1}\<rparr>)"
    by (rule bq_mon_reach.step)
  have "notify_one {0, 1} {} {1} {0}"
    by (auto simp: notify_one_def)
  then have "bq_mon_step (?s0\<lparr>mon_waiting := {0, 1}\<rparr>) mon_example"
    using push_stored [of "?s0\<lparr>mon_waiting := {0, 1}\<rparr>" 7 Accepted "?q0\<lparr>bq_items := [7]\<rparr>" "{1}" "{0}"]
    by (simp add: bq_push_def mon_example_def)
  with 2 show ?thesis by (rule bq_mon_reach.step)
qed

theorem monitor_no_lost_wakeup_witness:
  "mon_waiting mon_example \<noteq> {} \<and> length (bq_items (mon_q mon_example)) \<le> card (mon_woken mon_example)"
proof -
  have "bq_new 2 Block = Inr \<lparr>bq_cap = 2, bq_policy = Block, bq_items = [], bq_shutting_down = False\<rparr>"
    by (simp add: bq_new_def)
  from monitor_no_lost_wakeup [OF this mon_example_reach] show ?thesis
    by (simp add: mon_example_def)
qed

text \<open>Whenever an item is queued while some thread waits, a woken thread can take its next step
  now, and that step returns the oldest item: the wakeup that reached it was not in vain, whatever
  the other threads did in between.\<close>

theorem monitor_woken_thread_takes_item:
  assumes "bq_new cap p = Inr q0" and "bq_mon_reach q0 s"
    and "mon_waiting s \<noteq> {}" and "bq_items (mon_q s) = y # ys"
  shows "\<exists>t \<in> mon_woken s. \<exists>q'. bq_pop (mon_q s) = Some (Some y, q') \<and> bq_items q' = ys \<and>
    bq_mon_step s (s\<lparr>mon_q := q', mon_woken := mon_woken s - {t}\<rparr>)"
proof -
  from mon_inv_reach [OF assms(2,1)] assms(3,4) have "0 < card (mon_woken s)"
    by (auto simp: mon_inv_def)
  then obtain t where t: "t \<in> mon_woken s" by (auto simp: card_gt_0_iff)
  from assms(4) have pop: "bq_pop (mon_q s) = Some (Some y, (mon_q s)\<lparr>bq_items := ys\<rparr>)"
    by (simp add: bq_pop_def bq_pop_ready_def)
  from bq_mon_step.woken_return [OF t pop] t pop show ?thesis by auto
qed

theorem monitor_woken_thread_takes_item_witness:
  "\<exists>t \<in> mon_woken mon_example. \<exists>q'. bq_pop (mon_q mon_example) = Some (Some 7, q') \<and> bq_items q' = [] \<and>
    bq_mon_step mon_example (mon_example\<lparr>mon_q := q', mon_woken := mon_woken mon_example - {t}\<rparr>)"
proof (rule monitor_woken_thread_takes_item [OF _ mon_example_reach])
  show "bq_new 2 Block = Inr \<lparr>bq_cap = 2, bq_policy = Block, bq_items = [], bq_shutting_down = False\<rparr>"
    by (simp add: bq_new_def)
qed (simp_all add: mon_example_def)

end
