(* ===== verification/Lock_Free_Queue.thy ===== *)
theory Lock_Free_Queue
  imports Queue_Types
begin

text \<open>
  \<^verbatim>\<open>core/include/edgeflow/lock_free_bounded_queue.hpp\<close>, one call at a time: the ring with its
  per-slot sequence numbers at their width of 64 bits, \<open>try_push\<close> and \<open>try_pop\<close> with their retry
  loops, and the public operations built on them. The theory proves that this queue keeps the
  contract of \<open>Queue_Types\<close>. Threads that run these operations at the same time are the theories
  \<open>Lock_Free_Ring\<close> (the ring) and \<open>Lock_Free_Parking\<close> (\<open>waiters_\<close>, the mutex and the condition
  variable). Between two calls of one thread no consumer is parked, so \<open>waiters_\<close> is 0 here and
  \<open>notify_one_waiter()\<close> returns at its first test.
\<close>

unbundle bit_operations_syntax

section \<open>State\<close>

record 'a Slot =
  slot_sequence :: u64
  slot_storage :: 'a

record 'a LockFreeQueue =
  lf_buffer :: "'a Slot list"
  lf_mask :: u64
  lf_policy :: BackpressurePolicy
  lf_enqueue_pos :: u64
  lf_dequeue_pos :: u64
  lf_shutting_down :: bool

definition kMaxCapacity :: u64 where
  "kMaxCapacity = push_bit 30 1"

definition kSpinAttempts :: nat where
  "kSpinAttempts = 64"

section \<open>Construction\<close>

text \<open>\<^verbatim>\<open>while (rounded < capacity) rounded <<= 1;\<close> as it runs on \<open>size_t\<close>; \<open>None\<close> is a loop that
  never ends (a capacity above \<open>2 ^ 63\<close> would shift the bit out).\<close>

partial_function (option) round_up :: "u64 \<Rightarrow> u64 \<Rightarrow> u64 option" where
  [code]: "round_up capacity rounded =
     (if rounded < capacity then round_up capacity (push_bit 1 rounded) else Some rounded)"

definition validated_capacity :: "u64 \<Rightarrow> u64 result option" where
  "validated_capacity capacity =
     (if capacity = 0 then Some (Inl (Invalid_Argument ''capacity must be greater than 0''))
      else if capacity > kMaxCapacity
      then Some (Inl (Invalid_Argument ''capacity exceeds maximum of 1073741824''))
      else map_option (\<lambda>rounded. Inr (if rounded < 2 then 2 else rounded)) (round_up capacity 1))"

text \<open>The ring preallocates its slots with \<open>T{}\<close>, the argument \<open>dflt\<close>.\<close>

definition lf_ring :: "'a \<Rightarrow> u64 \<Rightarrow> BackpressurePolicy \<Rightarrow> 'a LockFreeQueue" where
  "lf_ring dflt sz p =
     \<lparr>lf_buffer = map (\<lambda>i. \<lparr>slot_sequence = of_nat i, slot_storage = dflt\<rparr>) [0..<unat sz],
      lf_mask = sz - 1, lf_policy = p, lf_enqueue_pos = 0, lf_dequeue_pos = 0,
      lf_shutting_down = False\<rparr>"

definition lf_new :: "'a \<Rightarrow> u64 \<Rightarrow> BackpressurePolicy \<Rightarrow> 'a LockFreeQueue result option" where
  "lf_new dflt capacity p =
     map_option (\<lambda>r. bind_result r (\<lambda>sz. Inr (lf_ring dflt sz p))) (validated_capacity capacity)"

section \<open>The lock-free fast path\<close>

text \<open>The difference of two positions read as \<open>ptrdiff_t\<close>. The C++ subtraction is defined when the
  result fits 64 bits, which \<open>seq_diff_no_overflow\<close> below shows for every call in range.\<close>

definition seq_diff :: "u64 \<Rightarrow> u64 \<Rightarrow> int" where
  "seq_diff s p = sint s - sint p"

partial_function (option) lf_try_push_loop ::
    "'a LockFreeQueue \<Rightarrow> 'a \<Rightarrow> u64 \<Rightarrow> (bool \<times> 'a LockFreeQueue) option" where
  [code]: "lf_try_push_loop q item pos =
     (let i = unat (pos AND lf_mask q);
          diff = seq_diff (slot_sequence (lf_buffer q ! i)) pos
      in if diff = 0
         then (if lf_enqueue_pos q = pos
               then Some (True, q\<lparr>lf_buffer := (lf_buffer q)[i := \<lparr>slot_sequence = pos + 1, slot_storage = item\<rparr>],
                      lf_enqueue_pos := pos + 1\<rparr>)
               else lf_try_push_loop q item (lf_enqueue_pos q))
         else if diff < 0 then Some (False, q)
         else lf_try_push_loop q item (lf_enqueue_pos q))"

definition lf_try_push :: "'a LockFreeQueue \<Rightarrow> 'a \<Rightarrow> (bool \<times> 'a LockFreeQueue) option" where
  "lf_try_push q item = lf_try_push_loop q item (lf_enqueue_pos q)"

partial_function (option) lf_try_pop_loop ::
    "'a LockFreeQueue \<Rightarrow> u64 \<Rightarrow> ('a option \<times> 'a LockFreeQueue) option" where
  [code]: "lf_try_pop_loop q pos =
     (let i = unat (pos AND lf_mask q);
          slot = lf_buffer q ! i;
          diff = seq_diff (slot_sequence slot) (pos + 1)
      in if diff = 0
         then (if lf_dequeue_pos q = pos
               then Some (Some (slot_storage slot), q\<lparr>lf_buffer := (lf_buffer q)[i := slot\<lparr>slot_sequence := pos + lf_mask q + 1\<rparr>],
                      lf_dequeue_pos := pos + 1\<rparr>)
               else lf_try_pop_loop q (lf_dequeue_pos q))
         else if diff < 0 then Some (None, q)
         else lf_try_pop_loop q (lf_dequeue_pos q))"

definition lf_try_pop :: "'a LockFreeQueue \<Rightarrow> ('a option \<times> 'a LockFreeQueue) option" where
  "lf_try_pop q = lf_try_pop_loop q (lf_dequeue_pos q)"

section \<open>The public operations\<close>

definition lf_push :: "'a LockFreeQueue \<Rightarrow> 'a \<Rightarrow> (PushResult \<times> 'a LockFreeQueue) call" where
  "lf_push q item =
     (case lf_try_push q item of
        None \<Rightarrow> Diverges
      | Some (True, q1) \<Rightarrow> Returns (Accepted, q1)
      | Some (False, q1) \<Rightarrow>
          if lf_policy q1 = DropOldest
          then (case lf_try_pop q1 of
                  None \<Rightarrow> Diverges
                | Some (None, q2) \<Rightarrow> Returns (RejectedBackpressure, q2)
                | Some (Some _, q2) \<Rightarrow>
                    (case lf_try_push q2 item of
                       None \<Rightarrow> Diverges
                     | Some (True, q3) \<Rightarrow> Returns (DroppedOldest, q3)
                     | Some (False, q3) \<Rightarrow> Returns (RejectedBackpressure, q3)))
          else Returns (RejectedBackpressure, q1))"

text \<open>One pass of the parking loop: register, look again, and either park or leave.\<close>

definition lf_pop_park :: "'a LockFreeQueue \<Rightarrow> ('a option \<times> 'a LockFreeQueue) call" where
  "lf_pop_park q =
     (case lf_try_pop q of
        None \<Rightarrow> Diverges
      | Some (item, q') \<Rightarrow>
          if item = None \<and> \<not> lf_shutting_down q' then Parks
          else if item \<noteq> None then Returns (item, q')
          else of_loop (lf_try_pop q'))"

text \<open>The bounded spin in front of it.\<close>

fun lf_pop_spin :: "nat \<Rightarrow> 'a LockFreeQueue \<Rightarrow> ('a option \<times> 'a LockFreeQueue) call" where
  "lf_pop_spin 0 q = lf_pop_park q"
| "lf_pop_spin (Suc attempts) q =
     (case lf_try_pop q of
        None \<Rightarrow> Diverges
      | Some (Some item, q') \<Rightarrow> Returns (Some item, q')
      | Some (None, q') \<Rightarrow>
          if lf_shutting_down q' then of_loop (lf_try_pop q') else lf_pop_spin attempts q')"

definition lf_pop :: "'a LockFreeQueue \<Rightarrow> ('a option \<times> 'a LockFreeQueue) call" where
  "lf_pop q = lf_pop_spin kSpinAttempts q"

definition lf_shutdown :: "'a LockFreeQueue \<Rightarrow> 'a LockFreeQueue" where
  "lf_shutdown q = q\<lparr>lf_shutting_down := True\<rparr>"

definition lf_size :: "'a LockFreeQueue \<Rightarrow> u64" where
  "lf_size q = (let enqueued = lf_enqueue_pos q; dequeued = lf_dequeue_pos q
                in if enqueued > dequeued then enqueued - dequeued else 0)"

definition lf_capacity :: "'a LockFreeQueue \<Rightarrow> u64" where
  "lf_capacity q = lf_mask q + 1"

definition lock_free_queue_ops :: "('a LockFreeQueue, 'a) EventQueue" where
  "lock_free_queue_ops = \<lparr>q_push = lf_push, q_pop = lf_pop, q_shutdown = lf_shutdown,
     q_size = (\<lambda>q. unat (lf_size q)), q_capacity = (\<lambda>q. unat (lf_capacity q))\<rparr>"

section \<open>Capacity\<close>

text \<open>The loop stops at the least power of two that is large enough.\<close>

lemma push_bit_power: "push_bit 1 ((2::u64) ^ j) = 2 ^ Suc j"
  by (simp add: push_bit_eq_mult)

lemma round_up_power:
  assumes "unat capacity \<le> 2 ^ 30" and "j \<le> 30" and "j = 0 \<or> 2 ^ (j - 1) < unat capacity"
  shows "\<exists>k \<le> 30. round_up capacity (2 ^ j) = Some (2 ^ k) \<and> unat capacity \<le> 2 ^ k \<and>
    (k = 0 \<or> 2 ^ (k - 1) < unat capacity)"
  using assms
proof (induction "30 - j" arbitrary: j rule: less_induct)
  case less
  have u: "unat ((2::u64) ^ j) = 2 ^ j" using less.prems by (simp add: unat_power2_u64)
  show ?case
  proof (cases "2 ^ j < unat capacity")
    case True
    have "j \<noteq> 30" using True less.prems(1) by auto
    with less.prems have j: "30 - Suc j < 30 - j" "Suc j \<le> 30" by auto
    have "round_up capacity (2 ^ j) = round_up capacity (2 ^ Suc j)"
      using True u by (subst round_up.simps) (simp add: word_less_nat_alt push_bit_power mult.commute)
    with less.hyps [OF j(1) less.prems(1) j(2)] True show ?thesis by simp
  next
    case False
    then have "round_up capacity (2 ^ j) = Some (2 ^ j)"
      using u by (subst round_up.simps) (simp add: word_less_nat_alt)
    with False less.prems show ?thesis by (intro exI [of _ j]) auto
  qed
qed

lemma unat_kMaxCapacity [simp]: "unat kMaxCapacity = 2 ^ 30"
  by (simp add: kMaxCapacity_def push_bit_eq_mult unat_power2_u64)

lemma validated_capacity_ok:
  assumes "0 < unat c" and "unat c \<le> 2 ^ 30"
  obtains k where "1 \<le> k" and "k \<le> 30" and "validated_capacity c = Some (Inr (2 ^ k))"
    and "unat c \<le> 2 ^ k" and "k = 1 \<or> 2 ^ (k - 1) < unat c"
proof -
  have c: "c \<noteq> 0" "\<not> kMaxCapacity < c"
    using assms by (auto simp: word_less_nat_alt)
  obtain k where k: "k \<le> 30" "round_up c 1 = Some (2 ^ k)" "unat c \<le> 2 ^ k"
    "k = 0 \<or> 2 ^ (k - 1) < unat c"
    using round_up_power [of c 0] assms by auto
  show ?thesis
  proof (cases "k = 0")
    case True
    with k c that [of 1] show ?thesis by (simp add: validated_capacity_def)
  next
    case False
    then have "(2::nat) ^ 1 \<le> 2 ^ k" by (intro power_increasing) auto
    with k(1) have "\<not> (2 ^ k :: u64) < 2"
      by (simp add: word_less_nat_alt unat_power2_u64)
    with False k c that [of k] show ?thesis by (simp add: validated_capacity_def)
  qed
qed

section \<open>Invariant\<close>

text \<open>The slot of position \<open>i\<close>, and the items of the positions between the two cursors.\<close>

definition lf_slot :: "'a LockFreeQueue \<Rightarrow> nat \<Rightarrow> 'a Slot" where
  "lf_slot q i = lf_buffer q ! (i mod length (lf_buffer q))"

definition lf_contents :: "'a LockFreeQueue \<Rightarrow> 'a list" where
  "lf_contents q = map (\<lambda>i. slot_storage (lf_slot q i)) [unat (lf_dequeue_pos q)..<unat (lf_enqueue_pos q)]"

definition lf_shape :: "nat \<Rightarrow> 'a LockFreeQueue \<Rightarrow> bool" where
  "lf_shape k q \<longleftrightarrow> 1 \<le> k \<and> k \<le> 30 \<and> length (lf_buffer q) = 2 ^ k \<and> lf_mask q = 2 ^ k - 1"

text \<open>
  Positions from the dequeue cursor to the enqueue cursor are published (\<open>sequence = i + 1\<close>), the
  rest of the window is free for the producer (\<open>sequence = i\<close>); \<open>n\<close> more pushes stay below half of
  the range of \<open>size_t\<close>.
\<close>

definition lf_inv :: "nat \<Rightarrow> 'a LockFreeQueue \<Rightarrow> bool" where
  "lf_inv n q \<longleftrightarrow> (\<exists>k. lf_shape k q) \<and>
     (let N = length (lf_buffer q); d = unat (lf_dequeue_pos q); e = unat (lf_enqueue_pos q)
      in d \<le> e \<and> e \<le> d + N \<and> e + N + n < half_range \<and>
         (\<forall>i. d \<le> i \<and> i < e \<longrightarrow> slot_sequence (lf_slot q i) = of_nat (Suc i)) \<and>
         (\<forall>i. e \<le> i \<and> i < d + N \<longrightarrow> slot_sequence (lf_slot q i) = of_nat i))"

lemma lf_invE:
  assumes "lf_inv n q"
  obtains k d e where "lf_shape k q" and "lf_dequeue_pos q = of_nat d" and "lf_enqueue_pos q = of_nat e"
    and "unat (lf_dequeue_pos q) = d" and "unat (lf_enqueue_pos q) = e"
    and "d \<le> e" and "e \<le> d + length (lf_buffer q)" and "e + length (lf_buffer q) + n < half_range"
    and "\<And>i. d \<le> i \<Longrightarrow> i < e \<Longrightarrow> slot_sequence (lf_slot q i) = of_nat (Suc i)"
    and "\<And>i. e \<le> i \<Longrightarrow> i < d + length (lf_buffer q) \<Longrightarrow> slot_sequence (lf_slot q i) = of_nat i"
proof -
  have "lf_dequeue_pos q = of_nat (unat (lf_dequeue_pos q))"
    "lf_enqueue_pos q = of_nat (unat (lf_enqueue_pos q))" by simp_all
  with assms that show ?thesis unfolding lf_inv_def Let_def by blast
qed

lemma lf_shape_length: "lf_shape k q \<Longrightarrow> 2 \<le> length (lf_buffer q)"
  using power_increasing [of 1 k "2::nat"] by (auto simp: lf_shape_def)

lemma lf_shape_index:
  assumes "lf_shape k q" and "i < half_range"
  shows "unat (of_nat i AND lf_mask q) = i mod length (lf_buffer q)"
  using assms unat_and_mask_u64 [of i k] by (simp add: lf_shape_def)

lemma seq_diff_of_nat:
  "m < half_range \<Longrightarrow> n < half_range \<Longrightarrow> seq_diff (of_nat m) (of_nat n) = int m - int n"
  by (simp only: seq_diff_def sint_of_nat_u64)

lemma seq_diff_no_overflow:
  assumes "m < half_range" and "n < half_range"
  shows "- (2 ^ 63) \<le> seq_diff (of_nat m) (of_nat n) \<and> seq_diff (of_nat m) (of_nat n) < 2 ^ 63"
  using assms by (simp add: seq_diff_of_nat)

lemma lf_capacity_length: "lf_shape k q \<Longrightarrow> unat (lf_capacity q) = length (lf_buffer q)"
  by (auto simp: lf_capacity_def lf_shape_def unat_power2_u64)

lemma lf_size_contents: "lf_inv n q \<Longrightarrow> unat (lf_size q) = length (lf_contents q)"
proof (erule lf_invE)
  fix k d e
  assume "unat (lf_dequeue_pos q) = d" "unat (lf_enqueue_pos q) = e" "d \<le> e"
  then show ?thesis
    by (auto simp: lf_size_def lf_contents_def Let_def word_less_nat_alt word_le_nat_alt unat_sub)
qed

section \<open>What the fast path does\<close>

text \<open>Writing the slot of one position of a window leaves the other positions' slots alone.\<close>

lemma lf_slot_update:
  assumes "d \<le> i" "i < d + length (lf_buffer q)" "d \<le> j" "j < d + length (lf_buffer q)"
  shows "lf_slot (q\<lparr>lf_buffer := (lf_buffer q)[j mod length (lf_buffer q) := sl]\<rparr>) i =
    (if i = j then sl else lf_slot q i)"
proof -
  have "0 < length (lf_buffer q)" using assms by linarith
  then have "i mod length (lf_buffer q) < length (lf_buffer q)" by simp
  then show ?thesis
    using mod_window_eq_iff [OF assms] by (auto simp: lf_slot_def nth_list_update)
qed

lemma lf_slot_frame [simp]:
  "lf_slot (q\<lparr>lf_enqueue_pos := a\<rparr>) i = lf_slot q i"
  "lf_slot (q\<lparr>lf_dequeue_pos := a\<rparr>) i = lf_slot q i"
  "lf_slot (q\<lparr>lf_shutting_down := b\<rparr>) i = lf_slot q i"
  by (simp_all add: lf_slot_def)

definition lf_frame :: "'a LockFreeQueue \<Rightarrow> 'a LockFreeQueue \<Rightarrow> bool" where
  "lf_frame q q' \<longleftrightarrow> lf_policy q' = lf_policy q \<and> lf_shutting_down q' = lf_shutting_down q \<and>
     lf_mask q' = lf_mask q \<and> length (lf_buffer q') = length (lf_buffer q)"

lemma lf_frame_shape: "lf_frame q q' \<Longrightarrow> lf_shape k q' = lf_shape k q"
  by (auto simp: lf_frame_def lf_shape_def)

lemma lf_contents_length:
  "unat (lf_dequeue_pos q) = d \<Longrightarrow> unat (lf_enqueue_pos q) = e \<Longrightarrow> length (lf_contents q) = e - d"
  by (simp add: lf_contents_def)

lemma lf_inv_weaken: "lf_inv (Suc n) q \<Longrightarrow> lf_inv n q"
  by (auto simp: lf_inv_def Let_def)

text \<open>How the invariant is re-established, from the cursors as natural numbers.\<close>

lemma lf_invI:
  assumes "lf_shape k q" "unat (lf_dequeue_pos q) = d" "unat (lf_enqueue_pos q) = e"
    "d \<le> e" "e \<le> d + length (lf_buffer q)" "e + length (lf_buffer q) + n < half_range"
    "\<And>i. d \<le> i \<Longrightarrow> i < e \<Longrightarrow> slot_sequence (lf_slot q i) = of_nat (Suc i)"
    "\<And>i. e \<le> i \<Longrightarrow> i < d + length (lf_buffer q) \<Longrightarrow> slot_sequence (lf_slot q i) = of_nat i"
  shows "lf_inv n q"
  using assms unfolding lf_inv_def Let_def by blast

lemma lf_try_push_accepts:
  assumes inv: "lf_inv (Suc n) q" and room: "length (lf_contents q) < length (lf_buffer q)"
  obtains q' where "lf_try_push q x = Some (True, q')" and "lf_contents q' = lf_contents q @ [x]"
    and "lf_inv n q'" and "lf_frame q q'"
proof -
  from inv obtain k d e where k: "lf_shape k q"
    and de: "lf_dequeue_pos q = of_nat d" "lf_enqueue_pos q = of_nat e"
      "unat (lf_dequeue_pos q) = d" "unat (lf_enqueue_pos q) = e"
    and le: "d \<le> e" "e \<le> d + length (lf_buffer q)" "e + length (lf_buffer q) + Suc n < half_range"
    and full: "\<And>i. d \<le> i \<Longrightarrow> i < e \<Longrightarrow> slot_sequence (lf_slot q i) = of_nat (Suc i)"
    and free: "\<And>i. e \<le> i \<Longrightarrow> i < d + length (lf_buffer q) \<Longrightarrow> slot_sequence (lf_slot q i) = of_nat i"
    by (rule lf_invE) blast
  let ?N = "length (lf_buffer q)"
  let ?sl = "\<lparr>slot_sequence = of_nat e + 1, slot_storage = x\<rparr>"
  let ?q' = "q\<lparr>lf_buffer := (lf_buffer q)[e mod ?N := ?sl], lf_enqueue_pos := of_nat e + 1\<rparr>"
  from room de le have e: "e < d + ?N" by (simp add: lf_contents_length [OF de(3,4)])
  have idx: "unat (of_nat e AND lf_mask q) = e mod ?N"
    using le by (intro lf_shape_index [OF k]) simp
  have seq: "slot_sequence (lf_buffer q ! (e mod ?N)) = of_nat e"
    using free [of e] e by (simp add: lf_slot_def)
  have "lf_try_push q x = Some (True, ?q')"
    unfolding lf_try_push_def
    by (subst lf_try_push_loop.simps) (simp add: Let_def idx seq seq_diff_def de(2) cong: if_cong)
  moreover have slot: "lf_slot ?q' i = (if i = e then ?sl else lf_slot q i)"
    if "d \<le> i" "i < d + ?N" for i
    using le e by (simp add: lf_slot_update [OF that])
  moreover have pos: "unat (lf_enqueue_pos ?q') = Suc e"
    using le by (simp add: of_nat_Suc_u64 del: of_nat_Suc)
  moreover have "lf_contents ?q' = lf_contents q @ [x]"
    using slot le e pos de(3,4) by (auto simp: lf_contents_def)
  moreover have fr: "lf_frame q ?q'" by (simp add: lf_frame_def)
  moreover have "lf_inv n ?q'"
  proof (rule lf_invI [of k _ d "Suc e"])
    fix i assume i: "d \<le> i" "i < Suc e"
    then show "slot_sequence (lf_slot ?q' i) = of_nat (Suc i)"
      using slot [of i] full [of i] e by (cases "i = e") (auto simp: add.commute)
  next
    fix i assume i: "Suc e \<le> i" "i < d + length (lf_buffer ?q')"
    then show "slot_sequence (lf_slot ?q' i) = of_nat i"
      using slot [of i] free [of i] le by simp
  qed (use le e in \<open>simp_all add: de lf_frame_shape [OF fr] k pos [simplified]\<close>)
  ultimately show ?thesis using that by blast
qed

lemma lf_try_push_full:
  assumes inv: "lf_inv n q" and full: "length (lf_contents q) = length (lf_buffer q)"
  shows "lf_try_push q x = Some (False, q)"
proof -
  from inv obtain k d e where k: "lf_shape k q"
    and de: "lf_dequeue_pos q = of_nat d" "lf_enqueue_pos q = of_nat e"
      "unat (lf_dequeue_pos q) = d" "unat (lf_enqueue_pos q) = e"
    and le: "d \<le> e" "e \<le> d + length (lf_buffer q)" "e + length (lf_buffer q) + n < half_range"
    and pub: "\<And>i. d \<le> i \<Longrightarrow> i < e \<Longrightarrow> slot_sequence (lf_slot q i) = of_nat (Suc i)"
    by (rule lf_invE) blast
  let ?N = "length (lf_buffer q)"
  have N: "2 \<le> ?N" using k by (rule lf_shape_length)
  from full le have e: "e = d + ?N" by (simp add: lf_contents_length [OF de(3,4)])
  have idx: "unat (of_nat e AND lf_mask q) = d mod ?N"
    using le e lf_shape_index [OF k, of e] by simp
  have seq: "slot_sequence (lf_buffer q ! (d mod ?N)) = of_nat (Suc d)"
    using pub [of d] e N by (force simp: lf_slot_def)
  have "seq_diff (of_nat (Suc d)) (of_nat e) = int (Suc d) - int e"
    using le e N by (intro seq_diff_of_nat) linarith+
  then have "seq_diff (of_nat (Suc d)) (of_nat e) < 0" using e N by simp
  then show ?thesis
    unfolding lf_try_push_def
    by (subst lf_try_push_loop.simps) (simp add: Let_def idx seq de(2) del: of_nat_Suc)
qed

lemma lf_try_pop_item:
  assumes inv: "lf_inv n q" and ne: "lf_contents q = y # ys"
  obtains q' where "lf_try_pop q = Some (Some y, q')" and "lf_contents q' = ys"
    and "lf_inv n q'" and "lf_frame q q'" and "lf_enqueue_pos q' = lf_enqueue_pos q"
proof -
  from inv obtain k d e where k: "lf_shape k q"
    and de: "lf_dequeue_pos q = of_nat d" "lf_enqueue_pos q = of_nat e"
      "unat (lf_dequeue_pos q) = d" "unat (lf_enqueue_pos q) = e"
    and le: "d \<le> e" "e \<le> d + length (lf_buffer q)" "e + length (lf_buffer q) + n < half_range"
    and full: "\<And>i. d \<le> i \<Longrightarrow> i < e \<Longrightarrow> slot_sequence (lf_slot q i) = of_nat (Suc i)"
    and free: "\<And>i. e \<le> i \<Longrightarrow> i < d + length (lf_buffer q) \<Longrightarrow> slot_sequence (lf_slot q i) = of_nat i"
    by (rule lf_invE) blast
  let ?N = "length (lf_buffer q)"
  have d: "d < e" using ne de le by (cases "d = e") (auto simp: lf_contents_def)
  let ?sl = "(lf_slot q d)\<lparr>slot_sequence := of_nat d + lf_mask q + 1\<rparr>"
  let ?q' = "q\<lparr>lf_buffer := (lf_buffer q)[d mod ?N := ?sl], lf_dequeue_pos := of_nat d + 1\<rparr>"
  have idx: "unat (of_nat d AND lf_mask q) = d mod ?N"
    using le d by (intro lf_shape_index [OF k]) simp
  have seq: "slot_sequence (lf_buffer q ! (d mod ?N)) = of_nat d + 1"
    using full [of d] d by (simp add: lf_slot_def add.commute)
  have y: "y = slot_storage (lf_slot q d)" "ys = map (\<lambda>i. slot_storage (lf_slot q i)) [Suc d..<e]"
    using ne d de by (simp_all add: lf_contents_def upt_conv_Cons)
  have pop: "lf_try_pop q = Some (Some y, ?q')"
    unfolding lf_try_pop_def
    by (subst lf_try_pop_loop.simps)
       (simp add: Let_def idx seq seq_diff_def de(1) y lf_slot_def cong: if_cong)
  have msk: "of_nat d + lf_mask q + 1 = (of_nat (d + ?N) :: u64)"
    using k by (simp add: lf_shape_def)
  have slot: "lf_slot ?q' i = (if i = d then ?sl else lf_slot q i)"
    if "d \<le> i" "i < d + ?N" for i
    using le d by (simp only: lf_slot_frame, intro lf_slot_update [OF that]) linarith+
  have wrap: "lf_slot ?q' (d + ?N) = lf_slot ?q' d" by (simp add: lf_slot_def)
  have pos: "unat (lf_dequeue_pos ?q') = Suc d"
    using le d by (simp add: of_nat_Suc_u64 del: of_nat_Suc)
  have cont: "lf_contents ?q' = ys"
    using slot le d pos de(4) by (auto simp: lf_contents_def y)
  have fr: "lf_frame q ?q'" by (simp add: lf_frame_def)
  have inv': "lf_inv n ?q'"
  proof (rule lf_invI [of k _ "Suc d" e])
    fix i assume i: "e \<le> i" "i < Suc d + length (lf_buffer ?q')"
    show "slot_sequence (lf_slot ?q' i) = of_nat i"
    proof (cases "i = d + ?N")
      case True
      have "lf_slot ?q' i = ?sl" unfolding True wrap using slot [of d] le d by force
      with msk True show ?thesis by simp
    next
      case False
      then show ?thesis using i slot [of i] free [of i] le d by simp
    qed
  qed (use le d full slot in \<open>simp_all add: de lf_frame_shape [OF fr] k pos [simplified]\<close>)
  show ?thesis by (rule that [OF pop cont inv' fr]) simp
qed

lemma lf_try_pop_empty:
  assumes inv: "lf_inv n q" and e: "lf_contents q = []"
  shows "lf_try_pop q = Some (None, q)"
proof -
  from inv obtain k d e where k: "lf_shape k q"
    and de: "lf_dequeue_pos q = of_nat d" "unat (lf_dequeue_pos q) = d" "unat (lf_enqueue_pos q) = e"
    and le: "d \<le> e" "e + length (lf_buffer q) + n < half_range"
    and free: "\<And>i. e \<le> i \<Longrightarrow> i < d + length (lf_buffer q) \<Longrightarrow> slot_sequence (lf_slot q i) = of_nat i"
    by (rule lf_invE) blast
  let ?N = "length (lf_buffer q)"
  have N: "2 \<le> ?N" using k by (rule lf_shape_length)
  from e le de have ed: "e = d" by (auto simp: lf_contents_def)
  have idx: "unat (of_nat d AND lf_mask q) = d mod ?N"
    using le ed by (intro lf_shape_index [OF k]) simp
  have seq: "slot_sequence (lf_buffer q ! (d mod ?N)) = of_nat d"
    using free [of d] N ed by (force simp: lf_slot_def)
  have "seq_diff (of_nat d) (of_nat (Suc d)) = -1"
    using le ed N by (subst seq_diff_of_nat) auto
  then show ?thesis
    unfolding lf_try_pop_def
    by (subst lf_try_pop_loop.simps) (simp add: Let_def idx seq de(1) add.commute)
qed

section \<open>The queue keeps the contract\<close>

lemma lf_inv_bounded: "lf_inv n q \<Longrightarrow> length (lf_contents q) \<le> length (lf_buffer q)"
  by (auto simp: lf_inv_def Let_def lf_contents_def)

lemma lf_inv_shape: "lf_inv n q \<Longrightarrow> \<exists>k. lf_shape k q"
  by (simp add: lf_inv_def Let_def)

lemma lf_inv_capacity: "lf_inv n q \<Longrightarrow> unat (lf_capacity q) = length (lf_buffer q)"
  using lf_inv_shape lf_capacity_length by blast

lemma lf_inv_length: "lf_inv n q \<Longrightarrow> 2 \<le> length (lf_buffer q)"
  using lf_inv_shape lf_shape_length by blast

lemma lf_push_refines:
  assumes inv: "lf_inv (Suc n) q"
  obtains r q' where "lf_push q x = Returns (r, q')"
    and "spec_push (unat (lf_capacity q)) (lf_policy q) (lf_contents q) x = (r, lf_contents q')"
    and "lf_inv n q'" and "lf_frame q q'"
proof (cases "length (lf_contents q) < length (lf_buffer q)")
  case True
  with inv obtain q' where "lf_try_push q x = Some (True, q')" "lf_contents q' = lf_contents q @ [x]"
    "lf_inv n q'" "lf_frame q q'"
    by (rule lf_try_push_accepts)
  with True that show ?thesis
    by (simp add: lf_push_def spec_push_def lf_inv_capacity [OF inv])
next
  case False
  with lf_inv_bounded [OF inv] have full: "length (lf_contents q) = length (lf_buffer q)" by simp
  note tp = lf_try_push_full [OF inv full, of x]
  show ?thesis
  proof (cases "lf_policy q = DropOldest")
    case True
    obtain y ys where ys: "lf_contents q = y # ys"
      using full lf_inv_length [OF inv] by (cases "lf_contents q") auto
    with inv obtain q2 where q2: "lf_try_pop q = Some (Some y, q2)" "lf_contents q2 = ys"
      "lf_inv (Suc n) q2" "lf_frame q q2"
      by (rule lf_try_pop_item)
    have "length (lf_contents q2) < length (lf_buffer q2)"
      using q2 ys full by (simp add: lf_frame_def)
    with q2(3) obtain q3 where q3: "lf_try_push q2 x = Some (True, q3)"
      "lf_contents q3 = lf_contents q2 @ [x]" "lf_inv n q3" "lf_frame q2 q3"
      by (rule lf_try_push_accepts)
    have "lf_push q x = Returns (DroppedOldest, q3)"
      using tp True q2 q3 by (simp add: lf_push_def)
    moreover have "lf_frame q q3" using q2 q3 by (simp add: lf_frame_def)
    ultimately show ?thesis
      using that q2 q3 ys full True by (simp add: spec_push_def lf_inv_capacity [OF inv])
  next
    case False
    then show ?thesis
      using that [of RejectedBackpressure q] tp full lf_inv_weaken [OF inv]
      by (simp add: lf_push_def spec_push_def lf_inv_capacity [OF inv] lf_frame_def)
  qed
qed

lemma lf_pop_spin_item:
  assumes "lf_inv n q" and "lf_contents q = y # ys"
  obtains q' where "lf_pop_spin m q = Returns (Some y, q')" and "lf_contents q' = ys"
    and "lf_inv n q'" and "lf_frame q q'"
proof -
  from assms obtain q' where "lf_try_pop q = Some (Some y, q')" "lf_contents q' = ys"
    "lf_inv n q'" "lf_frame q q'"
    by (rule lf_try_pop_item)
  with that show ?thesis by (cases m) (simp_all add: lf_pop_park_def)
qed

lemma lf_pop_spin_empty:
  assumes "lf_inv n q" and "lf_contents q = []"
  shows "lf_pop_spin m q = (if lf_shutting_down q then Returns (None, q) else Parks)"
  using lf_try_pop_empty [OF assms] by (induction m) (simp_all add: lf_pop_park_def)

lemma lf_pop_cases:
  assumes "lf_inv n q"
  obtains (item) y ys q' where "lf_contents q = y # ys" "lf_pop q = Returns (Some y, q')"
      "lf_contents q' = ys" "lf_inv n q'" "lf_frame q q'"
    | (empty) "lf_contents q = []" "lf_pop q = (if lf_shutting_down q then Returns (None, q) else Parks)"
proof (cases "lf_contents q")
  case Nil
  with lf_pop_spin_empty [OF assms] empty show ?thesis by (simp add: lf_pop_def)
next
  case (Cons y ys)
  from lf_pop_spin_item [OF assms Cons, of kSpinAttempts] item [OF Cons] show ?thesis
    unfolding lf_pop_def by blast
qed

lemma lf_shutdown_contents [simp]: "lf_contents (lf_shutdown q) = lf_contents q"
  by (simp add: lf_contents_def lf_shutdown_def)

lemma lf_shutdown_inv: "lf_inv n q \<Longrightarrow> lf_inv n (lf_shutdown q)"
  by (simp add: lf_inv_def lf_shutdown_def lf_shape_def)

lemma lf_frame_capacity: "lf_frame q q' \<Longrightarrow> lf_capacity q' = lf_capacity q"
  by (simp add: lf_frame_def lf_capacity_def)

interpretation lfq: event_queue_contract lock_free_queue_ops lf_policy lf_contents lf_shutting_down lf_inv
proof (unfold_locales, goal_cases)
  case (1 n q)
  then show ?case
    using lf_inv_length [of n q] by (auto simp: lock_free_queue_ops_def lf_inv_capacity)
next
  case (2 n q)
  then show ?case by (simp add: lock_free_queue_ops_def lf_inv_capacity lf_inv_bounded)
next
  case (3 n q)
  then show ?case by (simp add: lock_free_queue_ops_def lf_size_contents)
next
  case (4 n q)
  then show ?case by (rule lf_inv_weaken)
next
  case (5 n q x)
  then show ?case by (metis lf_push_refines lock_free_queue_ops_def EventQueue.select_convs(1))
next
  case (6 n q x r q')
  from 6(1) obtain r' q'' where "lf_push q x = Returns (r', q'')"
    "spec_push (unat (lf_capacity q)) (lf_policy q) (lf_contents q) x = (r', lf_contents q'')"
    by (rule lf_push_refines)
  with 6(2) show ?case by (simp add: lock_free_queue_ops_def)
next
  case (7 n q x r q')
  from 7(1) obtain r' q'' where "lf_push q x = Returns (r', q'')" "lf_inv n q''" "lf_frame q q''"
    by (rule lf_push_refines)
  with 7(2) show ?case
    by (simp add: lock_free_queue_ops_def lf_frame_def lf_capacity_def)
next
  case (8 n q)
  then show ?case by (cases rule: lf_pop_cases) (simp_all add: lock_free_queue_ops_def)
next
  case (9 n q v q')
  from 9(1) show ?case
    using 9
    by (cases rule: lf_pop_cases)
       (auto simp: lock_free_queue_ops_def lf_frame_def lf_capacity_def split: if_splits)
next
  case (10 n q)
  then show ?case
    using lf_shutdown_inv [of n q]
    by (simp add: lock_free_queue_ops_def) (simp add: lf_shutdown_def lf_capacity_def)
qed

section \<open>Fresh queues\<close>

lemma lf_new_Inr:
  assumes "lf_new dflt c p = Some (Inr q)"
  obtains k where "1 \<le> k" "k \<le> 30" "q = lf_ring dflt (2 ^ k) p" "unat c \<le> 2 ^ k"
    "k = 1 \<or> 2 ^ (k - 1) < unat c"
proof -
  from assms have c: "0 < unat c" "unat c \<le> 2 ^ 30"
    by (auto simp: lf_new_def validated_capacity_def word_less_nat_alt unat_gt_0 split: if_splits)
  then obtain k where k: "1 \<le> k" "k \<le> 30" "validated_capacity c = Some (Inr (2 ^ k))"
    "unat c \<le> 2 ^ k" "k = 1 \<or> 2 ^ (k - 1) < unat c"
    by (rule validated_capacity_ok)
  with assms have "q = lf_ring dflt (2 ^ k) p" by (simp add: lf_new_def)
  with k that show ?thesis by blast
qed

lemma lf_new_answers:
  "(\<exists>r. lf_new dflt c p = Some r) \<and>
   ((\<exists>q. lf_new dflt c p = Some (Inr q)) \<longleftrightarrow> 0 < unat c \<and> unat c \<le> 2 ^ 30)"
proof (cases "0 < unat c \<and> unat c \<le> 2 ^ 30")
  case True
  then obtain k where "validated_capacity c = Some (Inr (2 ^ k))" using validated_capacity_ok [of c] by blast
  with True show ?thesis by (simp add: lf_new_def)
next
  case False
  then have "c = 0 \<or> kMaxCapacity < c" by (auto simp: word_less_nat_alt unat_gt_0)
  with False show ?thesis by (auto simp: lf_new_def validated_capacity_def)
qed

lemma lf_ring_shape: "1 \<le> k \<Longrightarrow> k \<le> 30 \<Longrightarrow> lf_shape k (lf_ring dflt (2 ^ k) p)"
  by (simp add: lf_shape_def lf_ring_def unat_power2_u64)

lemma lf_ring_simps [simp]:
  "lf_enqueue_pos (lf_ring dflt sz p) = 0" "lf_dequeue_pos (lf_ring dflt sz p) = 0"
  "lf_policy (lf_ring dflt sz p) = p" "lf_mask (lf_ring dflt sz p) = sz - 1"
  "length (lf_buffer (lf_ring dflt sz p)) = unat sz"
  "lf_contents (lf_ring dflt sz p) = []" "\<not> lf_shutting_down (lf_ring dflt sz p)"
  "i < unat sz \<Longrightarrow> slot_sequence (lf_buffer (lf_ring dflt sz p) ! i) = of_nat i"
  by (simp_all add: lf_ring_def lf_contents_def)

lemma lf_ring_inv:
  assumes "1 \<le> k" "k \<le> 30" "n \<le> 2 ^ 62"
  shows "lf_inv n (lf_ring dflt (2 ^ k) p)"
proof -
  have "(2::nat) ^ k \<le> 2 ^ 30" using assms(2) by (intro power_increasing) auto
  with assms show ?thesis
    by (intro lf_invI [OF lf_ring_shape, of k _ _ 0 0])
       (simp_all add: lf_slot_def unat_power2_u64)
qed

section \<open>Properties\<close>

text \<open>A lock-free queue asked for a capacity between 1 and 1073741824 is built (the rounding loop
  ends), empty, with the least power of two that is at least the request and at least 2 as its
  capacity, ready for at least \<open>2 ^ 62\<close> pushes.\<close>

theorem lf_new_capacity:
  assumes "0 < unat c" and "unat c \<le> 2 ^ 30"
  shows "\<exists>q k. lf_new dflt c p = Some (Inr q) \<and> 1 \<le> k \<and> unat (lf_capacity q) = 2 ^ k \<and>
    unat c \<le> 2 ^ k \<and> (k = 1 \<or> 2 ^ (k - 1) < unat c) \<and> lf_contents q = [] \<and> lf_inv (2 ^ 62) q"
proof -
  from assms obtain k where k: "1 \<le> k" "k \<le> 30" "validated_capacity c = Some (Inr (2 ^ k))"
    "unat c \<le> 2 ^ k" "k = 1 \<or> 2 ^ (k - 1) < unat c"
    by (rule validated_capacity_ok)
  then have "lf_new dflt c p = Some (Inr (lf_ring dflt (2 ^ k) p))" by (simp add: lf_new_def)
  moreover have "unat (lf_capacity (lf_ring dflt (2 ^ k) p)) = 2 ^ k"
    using k by (simp add: lf_capacity_def unat_power2_u64)
  ultimately show ?thesis
    using k lf_ring_inv [of k "2 ^ 62"] by (intro exI conjI) auto
qed

theorem lf_new_capacity_witness:
  "\<exists>q k. lf_new (0::nat) 50 Block = Some (Inr q) \<and> 1 \<le> k \<and> unat (lf_capacity q) = 2 ^ k \<and>
    unat (50::u64) \<le> 2 ^ k \<and> (k = 1 \<or> 2 ^ (k - 1) < unat (50::u64)) \<and> lf_contents q = [] \<and> lf_inv (2 ^ 62) q"
  by (rule lf_new_capacity) simp_all

section \<open>Why two slots at least\<close>

lemma lf_try_pop_loop_spins:
  assumes "lf_dequeue_pos q = pos" and "seq_diff (slot_sequence (lf_buffer q ! unat (pos AND lf_mask q))) (pos + 1) > 0"
  shows "lf_try_pop_loop q pos = None"
proof -
  have "q' \<noteq> q \<or> pos' \<noteq> pos" if "lf_try_pop_loop q' pos' = Some r" for q' pos' r
    using that
  proof (rule lf_try_pop_loop.raw_induct [where P = "\<lambda>q' pos' r. q' \<noteq> q \<or> pos' \<noteq> pos", rotated], goal_cases)
    case (1 loop q' pos' r)
    from 1(2) 1(1) [of q pos r] assms show ?case
      by (cases "q' = q \<and> pos' = pos") (simp_all add: Let_def)
  qed
  from this [of q pos] show ?thesis by (cases "lf_try_pop_loop q pos") auto
qed

text \<open>The floor of two slots in \<^verbatim>\<open>validated_capacity()\<close> is needed. On a ring of one slot a second
  push is accepted although the first item has not been taken, it overwrites that item, and from
  then on \<^verbatim>\<open>try_pop()\<close> never returns: its cursor no longer matches any sequence the slot will carry.\<close>

theorem single_slot_ring_breaks:
  "\<exists>q1 q2. lf_try_push (lf_ring dflt 1 p) x = Some (True, q1) \<and> lf_try_push q1 y = Some (True, q2) \<and>
     map slot_storage (lf_buffer q2) = [y] \<and> lf_try_pop q2 = None"
proof -
  let ?q1 = "\<lparr>lf_buffer = [\<lparr>slot_sequence = 1, slot_storage = x\<rparr>], lf_mask = 0, lf_policy = p,
    lf_enqueue_pos = 1, lf_dequeue_pos = 0, lf_shutting_down = False\<rparr>"
  let ?q2 = "\<lparr>lf_buffer = [\<lparr>slot_sequence = 2, slot_storage = y\<rparr>], lf_mask = 0, lf_policy = p,
    lf_enqueue_pos = 2, lf_dequeue_pos = 0, lf_shutting_down = False\<rparr>"
  have 1: "lf_try_push (lf_ring dflt 1 p) x = Some (True, ?q1)"
    by (simp add: lf_try_push_def lf_ring_def lf_try_push_loop.simps seq_diff_def)
  have 2: "lf_try_push ?q1 y = Some (True, ?q2)"
    by (simp add: lf_try_push_def lf_try_push_loop.simps seq_diff_def)
  have "lf_try_pop ?q2 = None"
    unfolding lf_try_pop_def by (rule lf_try_pop_loop_spins) (simp_all add: seq_diff_def)
  with 1 2 show ?thesis by (intro exI [of _ ?q1] exI [of _ ?q2]) simp
qed

end
