(* ===== verification/Lock_Free_Ring.thy ===== *)
theory Lock_Free_Ring
  imports Lock_Free_Queue
begin

text \<open>
  The ring of \<^verbatim>\<open>LockFreeBoundedQueue\<close> under any number of producers and consumers. Each thread
  runs \<open>try_push\<close> and \<open>try_pop\<close> one shared access at a time: the load of a cursor, the load of a
  slot's sequence, the compare-and-swap (which may fail, spuriously too), the plain access to the
  slot's storage and the store that publishes or releases the slot. Steps interleave freely.
  The accesses are sequentially consistent here; the source's acquire and release orderings give
  the same order between a slot's store and the loads that see it.

  Two history variables record what happened: \<open>rg_pushed\<close> lists the items in the order in which
  their positions were claimed, \<open>rg_popped\<close> the positions and values of the completed pops.
\<close>

unbundle bit_operations_syntax

section \<open>Threads and shared state\<close>

datatype 'a ring_pc =
    Idle
  | Push_Read 'a u64          \<comment> \<open>enqueue position loaded\<close>
  | Push_Test 'a u64 u64      \<comment> \<open>position and slot sequence loaded\<close>
  | Push_Write 'a u64         \<comment> \<open>position claimed, storage not yet written\<close>
  | Push_Publish u64          \<comment> \<open>storage written, sequence not yet stored\<close>
  | Pop_Read u64
  | Pop_Test u64 u64
  | Pop_Take u64
  | Pop_Release 'a u64

record 'a ring =
  rg_buffer :: "'a Slot list"
  rg_mask :: u64
  rg_enqueue_pos :: u64
  rg_dequeue_pos :: u64
  rg_pc :: "nat \<Rightarrow> 'a ring_pc"
  rg_pushed :: "'a list"
  rg_popped :: "(nat \<times> 'a) list"

definition rg_index :: "'a ring \<Rightarrow> u64 \<Rightarrow> nat" where
  "rg_index s pos = unat (pos AND rg_mask s)"

definition rg_sequence :: "'a ring \<Rightarrow> u64 \<Rightarrow> u64" where
  "rg_sequence s pos = slot_sequence (rg_buffer s ! rg_index s pos)"

definition rg_set_sequence :: "'a ring \<Rightarrow> u64 \<Rightarrow> u64 \<Rightarrow> 'a ring" where
  "rg_set_sequence s pos v =
     s\<lparr>rg_buffer := (rg_buffer s)[rg_index s pos := (rg_buffer s ! rg_index s pos)\<lparr>slot_sequence := v\<rparr>]\<rparr>"

definition rg_set_storage :: "'a ring \<Rightarrow> u64 \<Rightarrow> 'a \<Rightarrow> 'a ring" where
  "rg_set_storage s pos x =
     s\<lparr>rg_buffer := (rg_buffer s)[rg_index s pos := (rg_buffer s ! rg_index s pos)\<lparr>slot_storage := x\<rparr>]\<rparr>"

definition rg_goto :: "nat \<Rightarrow> 'a ring_pc \<Rightarrow> 'a ring \<Rightarrow> 'a ring" where
  "rg_goto t pc s = s\<lparr>rg_pc := (rg_pc s)(t := pc)\<rparr>"

section \<open>Steps\<close>

text \<open>The steps of \<open>try_push\<close>, in the order of its source lines, then those of \<open>try_pop\<close>.\<close>

inductive ring_step :: "'a ring \<Rightarrow> 'a ring \<Rightarrow> bool" where
  push_load: "rg_pc s t = Idle \<Longrightarrow> ring_step s (rg_goto t (Push_Read x (rg_enqueue_pos s)) s)"
| push_sequence: "rg_pc s t = Push_Read x pos \<Longrightarrow>
    ring_step s (rg_goto t (Push_Test x pos (rg_sequence s pos)) s)"
| push_claim: "rg_pc s t = Push_Test x pos sq \<Longrightarrow> seq_diff sq pos = 0 \<Longrightarrow> rg_enqueue_pos s = pos \<Longrightarrow>
    ring_step s (rg_goto t (Push_Write x pos)
      (s\<lparr>rg_enqueue_pos := pos + 1, rg_pushed := rg_pushed s @ [x]\<rparr>))"
| push_cas_fails: "rg_pc s t = Push_Test x pos sq \<Longrightarrow> seq_diff sq pos = 0 \<Longrightarrow>
    ring_step s (rg_goto t (Push_Read x (rg_enqueue_pos s)) s)"
| push_full: "rg_pc s t = Push_Test x pos sq \<Longrightarrow> seq_diff sq pos < 0 \<Longrightarrow> ring_step s (rg_goto t Idle s)"
| push_retry: "rg_pc s t = Push_Test x pos sq \<Longrightarrow> seq_diff sq pos > 0 \<Longrightarrow>
    ring_step s (rg_goto t (Push_Read x (rg_enqueue_pos s)) s)"
| push_write: "rg_pc s t = Push_Write x pos \<Longrightarrow>
    ring_step s (rg_goto t (Push_Publish pos) (rg_set_storage s pos x))"
| push_publish: "rg_pc s t = Push_Publish pos \<Longrightarrow>
    ring_step s (rg_goto t Idle (rg_set_sequence s pos (pos + 1)))"
| pop_load: "rg_pc s t = Idle \<Longrightarrow> ring_step s (rg_goto t (Pop_Read (rg_dequeue_pos s)) s)"
| pop_sequence: "rg_pc s t = Pop_Read pos \<Longrightarrow>
    ring_step s (rg_goto t (Pop_Test pos (rg_sequence s pos)) s)"
| pop_claim: "rg_pc s t = Pop_Test pos sq \<Longrightarrow> seq_diff sq (pos + 1) = 0 \<Longrightarrow> rg_dequeue_pos s = pos \<Longrightarrow>
    ring_step s (rg_goto t (Pop_Take pos) (s\<lparr>rg_dequeue_pos := pos + 1\<rparr>))"
| pop_cas_fails: "rg_pc s t = Pop_Test pos sq \<Longrightarrow> seq_diff sq (pos + 1) = 0 \<Longrightarrow>
    ring_step s (rg_goto t (Pop_Read (rg_dequeue_pos s)) s)"
| pop_empty: "rg_pc s t = Pop_Test pos sq \<Longrightarrow> seq_diff sq (pos + 1) < 0 \<Longrightarrow> ring_step s (rg_goto t Idle s)"
| pop_retry: "rg_pc s t = Pop_Test pos sq \<Longrightarrow> seq_diff sq (pos + 1) > 0 \<Longrightarrow>
    ring_step s (rg_goto t (Pop_Read (rg_dequeue_pos s)) s)"
| pop_take: "rg_pc s t = Pop_Take pos \<Longrightarrow>
    ring_step s (rg_goto t (Pop_Release (slot_storage (rg_buffer s ! rg_index s pos)) pos) s)"
| pop_release: "rg_pc s t = Pop_Release x pos \<Longrightarrow>
    ring_step s (rg_goto t Idle
      ((rg_set_sequence s pos (pos + rg_mask s + 1))\<lparr>rg_popped := rg_popped s @ [(unat pos, x)]\<rparr>))"

text \<open>The ring of a fresh queue, with every thread outside it.\<close>

definition ring_init :: "'a LockFreeQueue \<Rightarrow> 'a ring" where
  "ring_init q = \<lparr>rg_buffer = lf_buffer q, rg_mask = lf_mask q, rg_enqueue_pos = lf_enqueue_pos q,
     rg_dequeue_pos = lf_dequeue_pos q, rg_pc = (\<lambda>_. Idle), rg_pushed = [], rg_popped = []\<rparr>"

inductive ring_reach :: "'a LockFreeQueue \<Rightarrow> 'a ring \<Rightarrow> bool" for q0 where
  start: "ring_reach q0 (ring_init q0)"
| step: "ring_reach q0 s \<Longrightarrow> ring_step s s' \<Longrightarrow> ring_reach q0 s'"

section \<open>Invariant\<close>

abbreviation rg_N :: "'a ring \<Rightarrow> nat" where
  "rg_N s \<equiv> length (rg_buffer s)"

abbreviation rg_e :: "'a ring \<Rightarrow> nat" where
  "rg_e s \<equiv> length (rg_pushed s)"

abbreviation rg_d :: "'a ring \<Rightarrow> nat" where
  "rg_d s \<equiv> unat (rg_dequeue_pos s)"

abbreviation rg_sq :: "'a ring \<Rightarrow> nat \<Rightarrow> nat" where
  "rg_sq s j \<equiv> unat (slot_sequence (rg_buffer s ! j))"

abbreviation rg_st :: "'a ring \<Rightarrow> nat \<Rightarrow> 'a" where
  "rg_st s j \<equiv> slot_storage (rg_buffer s ! j)"

text \<open>The thread holds position \<open>i\<close> as a producer, as a consumer.\<close>

fun pushing :: "'a ring_pc \<Rightarrow> nat \<Rightarrow> bool" where
  "pushing (Push_Write x pos) i \<longleftrightarrow> unat pos = i"
| "pushing (Push_Publish pos) i \<longleftrightarrow> unat pos = i"
| "pushing _ i \<longleftrightarrow> False"

fun popping :: "'a ring_pc \<Rightarrow> nat \<Rightarrow> bool" where
  "popping (Pop_Take pos) i \<longleftrightarrow> unat pos = i"
| "popping (Pop_Release x pos) i \<longleftrightarrow> unat pos = i"
| "popping _ i \<longleftrightarrow> False"

fun pc_ok :: "'a ring \<Rightarrow> 'a ring_pc \<Rightarrow> bool" where
  "pc_ok s Idle \<longleftrightarrow> True"
| "pc_ok s (Push_Read x p) \<longleftrightarrow> unat p \<le> rg_e s"
| "pc_ok s (Push_Test x p q) \<longleftrightarrow> unat p \<le> rg_e s \<and> unat q \<le> rg_sq s (unat p mod rg_N s)"
| "pc_ok s (Push_Write x p) \<longleftrightarrow> unat p < rg_e s \<and> rg_pushed s ! unat p = x \<and>
     rg_sq s (unat p mod rg_N s) = unat p"
| "pc_ok s (Push_Publish p) \<longleftrightarrow> unat p < rg_e s \<and> rg_st s (unat p mod rg_N s) = rg_pushed s ! unat p \<and>
     rg_sq s (unat p mod rg_N s) = unat p"
| "pc_ok s (Pop_Read p) \<longleftrightarrow> unat p \<le> rg_d s"
| "pc_ok s (Pop_Test p q) \<longleftrightarrow> unat p \<le> rg_d s \<and> unat q \<le> rg_sq s (unat p mod rg_N s)"
| "pc_ok s (Pop_Take p) \<longleftrightarrow> unat p < rg_d s \<and> rg_sq s (unat p mod rg_N s) = Suc (unat p)"
| "pc_ok s (Pop_Release x p) \<longleftrightarrow> unat p < rg_d s \<and> x = rg_pushed s ! unat p \<and>
     rg_sq s (unat p mod rg_N s) = Suc (unat p)"

text \<open>Slot \<open>j\<close> waits for the push of position \<open>i\<close>; it holds the item of position \<open>i\<close>.\<close>

definition slot_free :: "'a ring \<Rightarrow> nat \<Rightarrow> nat \<Rightarrow> bool" where
  "slot_free s j i \<longleftrightarrow> i mod rg_N s = j \<and> rg_sq s j = i \<and> rg_d s \<le> i \<and> i < rg_d s + rg_N s \<and>
     rg_e s \<le> i + rg_N s \<and> (i < rg_e s \<longrightarrow> (\<exists>t. pushing (rg_pc s t) i))"

definition slot_full :: "'a ring \<Rightarrow> nat \<Rightarrow> nat \<Rightarrow> bool" where
  "slot_full s j i \<longleftrightarrow> i mod rg_N s = j \<and> rg_sq s j = Suc i \<and> i < rg_e s \<and> rg_e s \<le> i + rg_N s \<and>
     rg_d s \<le> i + rg_N s \<and> rg_st s j = rg_pushed s ! i \<and>
     (i < rg_d s \<longrightarrow> (\<exists>t. popping (rg_pc s t) i))"

definition ring_shape :: "'a ring \<Rightarrow> bool" where
  "ring_shape s \<longleftrightarrow> (\<exists>k. 1 \<le> k \<and> k \<le> 30 \<and> rg_N s = 2 ^ k \<and> rg_mask s = 2 ^ k - 1)"

definition ring_inv :: "'a ring \<Rightarrow> bool" where
  "ring_inv s \<longleftrightarrow> ring_shape s \<and> rg_enqueue_pos s = of_nat (rg_e s) \<and>
     rg_d s \<le> rg_e s \<and> rg_e s \<le> rg_d s + rg_N s \<and>
     (\<forall>j < rg_N s. (\<exists>i. slot_free s j i) \<or> (\<exists>i. slot_full s j i)) \<and>
     (\<forall>t. pc_ok s (rg_pc s t)) \<and>
     (\<forall>t t' i. pushing (rg_pc s t) i \<longrightarrow> pushing (rg_pc s t') i \<longrightarrow> t = t') \<and>
     (\<forall>t t' i. popping (rg_pc s t) i \<longrightarrow> popping (rg_pc s t') i \<longrightarrow> t = t')"

text \<open>The completed pops: distinct positions, each with the item pushed there; every position below
  the dequeue cursor is completed or held by one consumer.\<close>

definition pops_inv :: "'a ring \<Rightarrow> bool" where
  "pops_inv s \<longleftrightarrow> distinct (map fst (rg_popped s)) \<and>
     (\<forall>(p, x) \<in> set (rg_popped s). p < rg_d s \<and> x = rg_pushed s ! p \<and> (\<forall>t. \<not> popping (rg_pc s t) p)) \<and>
     (\<forall>p < rg_d s. p \<in> fst ` set (rg_popped s) \<or> (\<exists>t. popping (rg_pc s t) p))"

section \<open>Accessors of the updated states\<close>

lemma rg_goto_simps [simp]:
  "rg_buffer (rg_goto t pc s) = rg_buffer s"
  "rg_mask (rg_goto t pc s) = rg_mask s"
  "rg_enqueue_pos (rg_goto t pc s) = rg_enqueue_pos s"
  "rg_dequeue_pos (rg_goto t pc s) = rg_dequeue_pos s"
  "rg_pushed (rg_goto t pc s) = rg_pushed s"
  "rg_popped (rg_goto t pc s) = rg_popped s"
  "rg_pc (rg_goto t pc s) = (rg_pc s)(t := pc)"
  by (simp_all add: rg_goto_def)

lemma rg_set_simps [simp]:
  "length (rg_buffer (rg_set_sequence s p v)) = rg_N s"
  "rg_mask (rg_set_sequence s p v) = rg_mask s"
  "rg_enqueue_pos (rg_set_sequence s p v) = rg_enqueue_pos s"
  "rg_dequeue_pos (rg_set_sequence s p v) = rg_dequeue_pos s"
  "rg_pushed (rg_set_sequence s p v) = rg_pushed s"
  "rg_popped (rg_set_sequence s p v) = rg_popped s"
  "rg_pc (rg_set_sequence s p v) = rg_pc s"
  "length (rg_buffer (rg_set_storage s p x)) = rg_N s"
  "rg_mask (rg_set_storage s p x) = rg_mask s"
  "rg_enqueue_pos (rg_set_storage s p x) = rg_enqueue_pos s"
  "rg_dequeue_pos (rg_set_storage s p x) = rg_dequeue_pos s"
  "rg_pushed (rg_set_storage s p x) = rg_pushed s"
  "rg_popped (rg_set_storage s p x) = rg_popped s"
  "rg_pc (rg_set_storage s p x) = rg_pc s"
  by (simp_all add: rg_set_sequence_def rg_set_storage_def)

lemma ring_shapeD:
  assumes "ring_shape s"
  shows "2 \<le> rg_N s" and "rg_index s p = unat p mod rg_N s"
    and "rg_mask s + 1 = of_nat (rg_N s)"
proof -
  from assms obtain k where k: "1 \<le> k" "k \<le> 30" "rg_N s = 2 ^ k" "rg_mask s = 2 ^ k - 1"
    by (auto simp: ring_shape_def)
  show "2 \<le> rg_N s" using power_increasing [of 1 k "2::nat"] k by simp
  have "unat p < 2 ^ 64" by (rule unat_less_u64)
  from unat_and_mask_u64 [OF this, of k] k show "rg_index s p = unat p mod rg_N s"
    by (simp add: rg_index_def)
  show "rg_mask s + 1 = of_nat (rg_N s)" using k by simp
qed

lemma rg_slot_updates:
  assumes "ring_shape s"
  shows "rg_sq (rg_set_sequence s p v) j = (if j = unat p mod rg_N s then unat v else rg_sq s j)"
    and "rg_st (rg_set_sequence s p v) j = rg_st s j"
    and "rg_sq (rg_set_storage s p x) j = rg_sq s j"
    and "rg_st (rg_set_storage s p x) j = (if j = unat p mod rg_N s then x else rg_st s j)"
proof -
  have "unat p mod rg_N s < rg_N s"
    using ring_shapeD(1) [OF assms] by (intro mod_less_divisor) linarith
  then show "rg_sq (rg_set_sequence s p v) j = (if j = unat p mod rg_N s then unat v else rg_sq s j)"
    and "rg_st (rg_set_sequence s p v) j = rg_st s j"
    and "rg_sq (rg_set_storage s p x) j = rg_sq s j"
    and "rg_st (rg_set_storage s p x) j = (if j = unat p mod rg_N s then x else rg_st s j)"
    by (auto simp: rg_set_sequence_def rg_set_storage_def ring_shapeD(2) [OF assms] nth_list_update)
qed

lemma Suc_mod_neq: "2 \<le> (N::nat) \<Longrightarrow> Suc i mod N \<noteq> i mod N"
  by (metis Suc_1 Suc_n_not_le_n add.commute dvd_1_iff_1 mod_eq_dvd_iff_nat le_add2 plus_1_eq_Suc
      add_diff_cancel_left' nat_dvd_1_iff_1)

lemma unat_Suc_u64: "Suc (unat (p::u64)) < 2 ^ 64 \<Longrightarrow> unat (p + 1) = Suc (unat p)"
  by (metis of_nat_Suc_u64 of_nat_unat ucast_id unat_of_nat_u64)

section \<open>Steps that only move a thread\<close>

lemma ring_inv_goto:
  assumes "ring_inv s" and "pc_ok s pc"
    and "\<And>i. pushing pc i = pushing (rg_pc s t) i" and "\<And>i. popping pc i = popping (rg_pc s t) i"
  shows "ring_inv (rg_goto t pc s)"
proof -
  have same: "pushing (((rg_pc s)(t := pc)) t') i = pushing (rg_pc s t') i"
    "popping (((rg_pc s)(t := pc)) t') i = popping (rg_pc s t') i" for t' i
    using assms(3,4) by simp_all
  have ok: "pc_ok (rg_goto t pc s) c = pc_ok s c" for c by (cases c) simp_all
  have pcs: "\<forall>t'. pc_ok s (((rg_pc s)(t := pc)) t')"
    using assms(1,2) by (simp add: ring_inv_def)
  show ?thesis
    using assms(1) pcs
    by (simp add: ring_inv_def ring_shape_def slot_free_def slot_full_def ok same del: fun_upd_apply)
qed

lemma pops_inv_goto:
  assumes "pops_inv s" and "\<And>i. popping pc i = popping (rg_pc s t) i"
  shows "pops_inv (rg_goto t pc s)"
proof -
  have same: "popping (((rg_pc s)(t := pc)) t') i = popping (rg_pc s t') i" for t' i
    using assms(2) by simp
  show ?thesis using assms(1) by (simp add: pops_inv_def same del: fun_upd_apply)
qed

section \<open>Consequences of the invariant\<close>

lemma ring_invD:
  assumes "ring_inv s"
  shows "ring_shape s" "rg_enqueue_pos s = of_nat (rg_e s)" "rg_d s \<le> rg_e s"
    "rg_e s \<le> rg_d s + rg_N s" "pc_ok s (rg_pc s t)" "2 \<le> rg_N s"
  using assms ring_shapeD(1) by (auto simp: ring_inv_def)

lemma ring_inv_slot:
  assumes "ring_inv s" and "j < rg_N s"
  obtains (free) i where "slot_free s j i" | (full) i where "slot_full s j i"
  using assms by (auto simp: ring_inv_def)

lemma ring_inv_push_unique:
  "ring_inv s \<Longrightarrow> pushing (rg_pc s t) i \<Longrightarrow> pushing (rg_pc s t') i \<Longrightarrow> t = t'"
  unfolding ring_inv_def by blast

lemma ring_inv_pop_unique:
  "ring_inv s \<Longrightarrow> popping (rg_pc s t) i \<Longrightarrow> popping (rg_pc s t') i \<Longrightarrow> t = t'"
  unfolding ring_inv_def by blast

lemma ring_invI:
  assumes "ring_shape s" "rg_enqueue_pos s = of_nat (rg_e s)" "rg_d s \<le> rg_e s"
    "rg_e s \<le> rg_d s + rg_N s"
    "\<And>j. j < rg_N s \<Longrightarrow> (\<exists>i. slot_free s j i) \<or> (\<exists>i. slot_full s j i)"
    "\<And>t. pc_ok s (rg_pc s t)"
    "\<And>t t' i. pushing (rg_pc s t) i \<Longrightarrow> pushing (rg_pc s t') i \<Longrightarrow> t = t'"
    "\<And>t t' i. popping (rg_pc s t) i \<Longrightarrow> popping (rg_pc s t') i \<Longrightarrow> t = t'"
  shows "ring_inv s"
  unfolding ring_inv_def using assms by blast

text \<open>A producer that saw the slot of the enqueue position ready finds it ready at the claim; the
  same for a consumer at the dequeue position.\<close>

lemma slot_at_enqueue:
  assumes inv: "ring_inv s" and sq: "rg_e s \<le> rg_sq s (rg_e s mod rg_N s)"
  shows "slot_free s (rg_e s mod rg_N s) (rg_e s)"
proof -
  note D = ring_invD [OF inv]
  have "rg_e s mod rg_N s < rg_N s" using D(6) by (intro mod_less_divisor) linarith
  with inv show ?thesis
  proof (cases rule: ring_inv_slot)
    case (free i)
    then have "i mod rg_N s = rg_e s mod rg_N s" "rg_e s \<le> i" "i < rg_e s + rg_N s"
      using sq D(3) by (auto simp: slot_free_def)
    then have "i = rg_e s" by (rule mod_window_start)
    with free show ?thesis by simp
  next
    case (full i)
    then have "Suc i = rg_e s" "i mod rg_N s = rg_e s mod rg_N s"
      using sq by (auto simp: slot_full_def)
    with Suc_mod_neq [OF D(6), of i] show ?thesis by simp
  qed
qed

lemma slot_at_dequeue:
  assumes inv: "ring_inv s" and sq: "Suc (rg_d s) \<le> rg_sq s (rg_d s mod rg_N s)"
  shows "slot_full s (rg_d s mod rg_N s) (rg_d s)"
proof -
  note D = ring_invD [OF inv]
  have "rg_d s mod rg_N s < rg_N s" using D(6) by (intro mod_less_divisor) linarith
  with inv show ?thesis
  proof (cases rule: ring_inv_slot)
    case (free i)
    then have "i mod rg_N s = rg_d s mod rg_N s" "rg_d s \<le> i" "i < rg_d s + rg_N s" "i \<noteq> rg_d s"
      using sq by (auto simp: slot_free_def)
    with mod_window_start [of i "rg_N s" "rg_d s"] show ?thesis by simp
  next
    case (full i)
    then have "i mod rg_N s = rg_d s mod rg_N s" "rg_d s \<le> i" "i < rg_d s + rg_N s"
      using sq D(4) by (auto simp: slot_full_def)
    then have "i = rg_d s" by (rule mod_window_start)
    with full show ?thesis by simp
  qed
qed

lemma slot_with_item:
  assumes inv: "ring_inv s" and sq: "rg_sq s (i mod rg_N s) = Suc i"
  shows "slot_full s (i mod rg_N s) i"
proof -
  note D = ring_invD [OF inv]
  have "i mod rg_N s < rg_N s" using D(6) by (intro mod_less_divisor) linarith
  with inv show ?thesis
  proof (cases rule: ring_inv_slot)
    case (free i')
    then have m: "i' mod rg_N s = i mod rg_N s" and "rg_sq s (i mod rg_N s) = i'"
      unfolding slot_free_def by blast+
    with sq have "i' = Suc i" by metis
    with m Suc_mod_neq [OF D(6), of i] show ?thesis by metis
  next
    case (full i')
    then have "rg_sq s (i mod rg_N s) = Suc i'" unfolding slot_full_def by blast
    with sq have "i' = i" by (metis Suc_inject)
    with full show ?thesis by simp
  qed
qed

lemma pops_inv_below:
  assumes "pops_inv s" and "p < rg_d s"
  obtains "p \<in> fst ` set (rg_popped s)" | t where "popping (rg_pc s t) p"
  using assms unfolding pops_inv_def by blast

lemma pops_inv_entry:
  assumes "pops_inv s" and "(p, x) \<in> set (rg_popped s)"
  shows "p < rg_d s" "x = rg_pushed s ! p" "\<not> popping (rg_pc s t) p"
  using assms unfolding pops_inv_def by blast+

lemma seq_diff_zero: "seq_diff a b = 0 \<longleftrightarrow> a = b"
  by (auto simp: seq_diff_def intro: signed_word_eqI)

section \<open>The steps that change the ring\<close>

lemma push_claim_slot:
  assumes inv: "ring_inv s" and pc: "rg_pc s t = Push_Test x pos sq" and "seq_diff sq pos = 0"
    and pos: "rg_enqueue_pos s = pos" and bound: "Suc (rg_e s) + rg_N s < half_range"
  shows "unat pos = rg_e s" and "slot_free s (rg_e s mod rg_N s) (rg_e s)"
proof -
  note D = ring_invD [OF inv]
  show u: "unat pos = rg_e s"
    using unat_of_nat_u64 [of "rg_e s"] bound unfolding pos [symmetric] D(2) by simp
  have "sq = pos" using assms(3) by (simp add: seq_diff_zero)
  with D(5) [of t] pc u show "slot_free s (rg_e s mod rg_N s) (rg_e s)"
    by (intro slot_at_enqueue [OF inv]) simp
qed

text \<open>No producer holds the position that is claimed next, and no consumer the next one to take.\<close>

lemma not_pushing_next: "ring_inv s \<Longrightarrow> \<not> pushing (rg_pc s t) (rg_e s)"
  using ring_invD(5) [of s t] by (cases "rg_pc s t") auto

lemma not_popping_next: "ring_inv s \<Longrightarrow> \<not> popping (rg_pc s t) (rg_d s)"
  using ring_invD(5) [of s t] by (cases "rg_pc s t") auto

text \<open>Who holds a position after thread \<open>t\<close> moved to \<open>pc\<close>.\<close>

lemma holder_after_goto:
  "\<exists>t'. pushing (rg_pc s t') i \<Longrightarrow> \<not> pushing (rg_pc s t) i \<Longrightarrow> \<exists>t'. pushing (((rg_pc s)(t := pc)) t') i"
  "\<exists>t'. popping (rg_pc s t') i \<Longrightarrow> \<not> popping (rg_pc s t) i \<Longrightarrow> \<exists>t'. popping (((rg_pc s)(t := pc)) t') i"
  "pushing pc i \<Longrightarrow> \<exists>t'. pushing (((rg_pc s)(t := pc)) t') i"
  "popping pc i \<Longrightarrow> \<exists>t'. popping (((rg_pc s)(t := pc)) t') i"
  by (metis fun_upd_apply)+

lemma push_claim_slots:
  assumes inv: "ring_inv s" and here: "slot_free s (rg_e s mod rg_N s) (rg_e s)"
    and pc: "\<And>i. \<not> pushing (rg_pc s t) i" "\<And>i. \<not> popping (rg_pc s t) i" and u: "unat pos = rg_e s"
    and j: "j < rg_N s"
  shows "(\<exists>i. slot_free (rg_goto t (Push_Write x pos) (s\<lparr>rg_enqueue_pos := p, rg_pushed := rg_pushed s @ [x]\<rparr>)) j i) \<or>
    (\<exists>i. slot_full (rg_goto t (Push_Write x pos) (s\<lparr>rg_enqueue_pos := p, rg_pushed := rg_pushed s @ [x]\<rparr>)) j i)"
    (is "(\<exists>i. slot_free ?s' j i) \<or> _")
  using inv j
proof (cases rule: ring_inv_slot)
  case (free i)
  have "rg_e s \<noteq> i + rg_N s"
    using free here ring_invD(6) [OF inv] by (auto simp: slot_free_def)
  moreover have "\<exists>t'. pushing (((rg_pc s)(t := Push_Write x pos)) t') i" if "i < Suc (rg_e s)"
  proof (cases "i = rg_e s")
    case True
    with u show ?thesis by (intro holder_after_goto(3)) simp
  next
    case False
    with that free pc show ?thesis
      by (intro holder_after_goto(1)) (auto simp: slot_free_def)
  qed
  ultimately have "slot_free ?s' j i" using free by (simp add: slot_free_def del: fun_upd_apply)
  then show ?thesis by blast
next
  case (full i)
  have "rg_e s \<noteq> i + rg_N s"
    using full here ring_invD(6) [OF inv] by (auto simp: slot_free_def slot_full_def)
  moreover have "\<exists>t'. popping (((rg_pc s)(t := Push_Write x pos)) t') i" if "i < rg_d s"
    using that full pc by (intro holder_after_goto(2)) (auto simp: slot_full_def)
  ultimately have "slot_full ?s' j i"
    using full by (simp add: slot_full_def nth_append del: fun_upd_apply)
  then show ?thesis by blast
qed

lemma ring_inv_push_claim:
  assumes inv: "ring_inv s" and pc: "rg_pc s t = Push_Test x pos sq" and zero: "seq_diff sq pos = 0"
    and pos: "rg_enqueue_pos s = pos" and bound: "Suc (rg_e s) + rg_N s < half_range"
  shows "ring_inv (rg_goto t (Push_Write x pos) (s\<lparr>rg_enqueue_pos := pos + 1, rg_pushed := rg_pushed s @ [x]\<rparr>))"
    (is "ring_inv ?s'")
proof -
  note D = ring_invD [OF inv] and C = push_claim_slot [OF assms]
  have old: "\<not> pushing (rg_pc s t) i" "\<not> popping (rg_pc s t) i" for i using pc by simp_all
  show ?thesis
  proof (rule ring_invI)
    show "ring_shape ?s'" using D(1) by (simp add: ring_shape_def)
    show "rg_enqueue_pos ?s' = of_nat (rg_e ?s')" using pos D(2) by simp
    show "rg_d ?s' \<le> rg_e ?s'" using D(3) by simp
    show "rg_e ?s' \<le> rg_d ?s' + rg_N ?s'" using C(2) by (simp add: slot_free_def)
    show "(\<exists>i. slot_free ?s' j i) \<or> (\<exists>i. slot_full ?s' j i)" if "j < rg_N ?s'" for j
      using that by (intro push_claim_slots [OF inv C(2) old C(1)]) simp
    show "pc_ok ?s' (rg_pc ?s' t')" for t'
      using D(5) [of t'] C D(3) by (cases "rg_pc s t'") (auto simp: nth_append slot_free_def)
    show "pushing (rg_pc ?s' t1) i \<Longrightarrow> pushing (rg_pc ?s' t2) i \<Longrightarrow> t1 = t2" for t1 t2 i
      using C(1) not_pushing_next [OF inv] ring_inv_push_unique [OF inv, of t1 i t2]
      by (auto split: if_splits)
    show "popping (rg_pc ?s' t1) i \<Longrightarrow> popping (rg_pc ?s' t2) i \<Longrightarrow> t1 = t2" for t1 t2 i
      using ring_inv_pop_unique [OF inv, of t1 i t2] by (auto split: if_splits)
  qed
qed

lemma ring_inv_push_write:
  assumes inv: "ring_inv s" and pc: "rg_pc s t = Push_Write x pos"
  shows "ring_inv (rg_goto t (Push_Publish pos) (rg_set_storage s pos x))" (is "ring_inv ?s'")
proof -
  note D = ring_invD [OF inv] and U = rg_slot_updates [OF ring_invD(1) [OF inv]]
  have here: "unat pos < rg_e s" "rg_pushed s ! unat pos = x" "rg_sq s (unat pos mod rg_N s) = unat pos"
    using D(5) [of t] pc by simp_all
  have same: "pushing (((rg_pc s)(t := Push_Publish pos)) t') i = pushing (rg_pc s t') i"
    "popping (((rg_pc s)(t := Push_Publish pos)) t') i = popping (rg_pc s t') i" for t' i
    using pc by simp_all
  have nfull: "i mod rg_N s \<noteq> unat pos mod rg_N s" if "slot_full s j i" for j i
    using that here(3) Suc_mod_neq [OF D(6), of i] by (auto simp: slot_full_def)
  show ?thesis
  proof (rule ring_invI)
    show "ring_shape ?s'" using D(1) by (simp add: ring_shape_def)
    show "rg_enqueue_pos ?s' = of_nat (rg_e ?s')" using D(2) by simp
    show "rg_d ?s' \<le> rg_e ?s'" "rg_e ?s' \<le> rg_d ?s' + rg_N ?s'" using D(3,4) by simp_all
    show "(\<exists>i. slot_free ?s' j i) \<or> (\<exists>i. slot_full ?s' j i)" if "j < rg_N ?s'" for j
    proof -
      from that have "j < rg_N s" by simp
      with inv show ?thesis
      proof (cases rule: ring_inv_slot)
        case (free i)
        then have "slot_free ?s' j i" by (simp add: slot_free_def U same del: fun_upd_apply)
        then show ?thesis by blast
      next
        case (full i)
        with nfull [OF full] have "slot_full ?s' j i"
          by (auto simp: slot_full_def U same simp del: fun_upd_apply)
        then show ?thesis by blast
      qed
    qed
    show "pc_ok ?s' (rg_pc ?s' t')" for t'
      using D(5) [of t'] here ring_inv_push_unique [OF inv, of t "unat pos" t'] pc
      by (cases "rg_pc s t'") (auto simp: U)
    show "pushing (rg_pc ?s' t1) i \<Longrightarrow> pushing (rg_pc ?s' t2) i \<Longrightarrow> t1 = t2" for t1 t2 i
      using ring_inv_push_unique [OF inv, of t1 i t2] by (simp add: same del: fun_upd_apply)
    show "popping (rg_pc ?s' t1) i \<Longrightarrow> popping (rg_pc ?s' t2) i \<Longrightarrow> t1 = t2" for t1 t2 i
      using ring_inv_pop_unique [OF inv, of t1 i t2] by (simp add: same del: fun_upd_apply)
  qed
qed

text \<open>Publishing position \<open>pos\<close> turns its slot from free to full; the others stay.\<close>

lemma push_publish_slots:
  assumes inv: "ring_inv s" and pc: "rg_pc s t = Push_Publish pos" and j: "j < rg_N s"
    and succ: "unat (pos + 1) = Suc (unat pos)"
  shows "(\<exists>i. slot_free (rg_goto t Idle (rg_set_sequence s pos (pos + 1))) j i) \<or>
    (\<exists>i. slot_full (rg_goto t Idle (rg_set_sequence s pos (pos + 1))) j i)"
    (is "(\<exists>i. slot_free ?s' j i) \<or> _")
proof -
  note D = ring_invD [OF inv] and U = rg_slot_updates [OF ring_invD(1) [OF inv]]
  have here: "unat pos < rg_e s" "rg_st s (unat pos mod rg_N s) = rg_pushed s ! unat pos"
      "rg_sq s (unat pos mod rg_N s) = unat pos"
    using D(5) [of t] pc by simp_all
  from inv j show ?thesis
  proof (cases rule: ring_inv_slot)
    case (free i)
    show ?thesis
    proof (cases "j = unat pos mod rg_N s")
      case True
      from free have "rg_sq s j = i" unfolding slot_free_def by blast
      then have i: "i = unat pos" unfolding True here(3) by (rule sym)
      have "slot_full ?s' j (unat pos)"
        using free here(1,2) unfolding slot_full_def slot_free_def i True
        by (simp add: U succ)
      then show ?thesis by blast
    next
      case False
      with free pc have "\<not> pushing (rg_pc s t) i" by (auto simp: slot_free_def)
      with free False holder_after_goto(1) [of s i t Idle] have "slot_free ?s' j i"
        by (auto simp: slot_free_def U simp del: fun_upd_apply)
      then show ?thesis by blast
    qed
  next
    case (full i)
    then have "j \<noteq> unat pos mod rg_N s"
      using here(3) Suc_mod_neq [OF D(6), of i] by (auto simp: slot_full_def)
    with full pc holder_after_goto(2) [of s i t Idle] have "slot_full ?s' j i"
      by (auto simp: slot_full_def U simp del: fun_upd_apply)
    then show ?thesis by blast
  qed
qed

lemma ring_inv_push_publish:
  assumes inv: "ring_inv s" and pc: "rg_pc s t = Push_Publish pos"
    and bound: "rg_e s + rg_N s < half_range"
  shows "ring_inv (rg_goto t Idle (rg_set_sequence s pos (pos + 1)))" (is "ring_inv ?s'")
proof -
  note D = ring_invD [OF inv] and U = rg_slot_updates [OF ring_invD(1) [OF inv]]
  have here: "unat pos < rg_e s" "rg_sq s (unat pos mod rg_N s) = unat pos"
    using D(5) [of t] pc by simp_all
  have succ: "unat (pos + 1) = Suc (unat pos)"
    using here bound by (intro unat_Suc_u64) simp
  show ?thesis
  proof (rule ring_invI)
    show "ring_shape ?s'" using D(1) by (simp add: ring_shape_def)
    show "rg_enqueue_pos ?s' = of_nat (rg_e ?s')" using D(2) by simp
    show "rg_d ?s' \<le> rg_e ?s'" "rg_e ?s' \<le> rg_d ?s' + rg_N ?s'" using D(3,4) by simp_all
    show "(\<exists>i. slot_free ?s' j i) \<or> (\<exists>i. slot_full ?s' j i)" if "j < rg_N ?s'" for j
      using that by (intro push_publish_slots [OF inv pc _ succ]) simp
    show "pc_ok ?s' (rg_pc ?s' t')" for t'
      using D(5) [of t'] here succ ring_inv_push_unique [OF inv, of t "unat pos" t'] pc
        Suc_mod_neq [OF D(6), THEN not_sym]
      by (cases "rg_pc s t'") (auto simp: U)
    show "pushing (rg_pc ?s' t1) i \<Longrightarrow> pushing (rg_pc ?s' t2) i \<Longrightarrow> t1 = t2" for t1 t2 i
      using ring_inv_push_unique [OF inv, of t1 i t2] by (auto split: if_splits)
    show "popping (rg_pc ?s' t1) i \<Longrightarrow> popping (rg_pc ?s' t2) i \<Longrightarrow> t1 = t2" for t1 t2 i
      using ring_inv_pop_unique [OF inv, of t1 i t2] by (auto split: if_splits)
  qed
qed

lemma pop_claim_slot:
  assumes inv: "ring_inv s" and pc: "rg_pc s t = Pop_Test pos sq" and "seq_diff sq (pos + 1) = 0"
    and pos: "rg_dequeue_pos s = pos" and bound: "rg_e s + rg_N s < half_range"
  shows "unat (pos + 1) = Suc (rg_d s)" and "slot_full s (rg_d s mod rg_N s) (rg_d s)"
proof -
  note D = ring_invD [OF inv]
  show u: "unat (pos + 1) = Suc (rg_d s)"
    using D(3) bound pos by (subst unat_Suc_u64) auto
  have "sq = pos + 1" using assms(3) by (simp add: seq_diff_zero)
  with D(5) [of t] pc u pos show "slot_full s (rg_d s mod rg_N s) (rg_d s)"
    by (intro slot_at_dequeue [OF inv]) simp
qed

lemma pop_claim_slots:
  assumes inv: "ring_inv s" and here: "slot_full s (rg_d s mod rg_N s) (rg_d s)"
    and pc: "\<And>i. \<not> pushing (rg_pc s t) i" "\<And>i. \<not> popping (rg_pc s t) i"
    and u: "unat p = Suc (rg_d s)" and j: "j < rg_N s"
  shows "(\<exists>i. slot_free (rg_goto t (Pop_Take (rg_dequeue_pos s)) (s\<lparr>rg_dequeue_pos := p\<rparr>)) j i) \<or>
    (\<exists>i. slot_full (rg_goto t (Pop_Take (rg_dequeue_pos s)) (s\<lparr>rg_dequeue_pos := p\<rparr>)) j i)"
    (is "(\<exists>i. slot_free ?s' j i) \<or> _")
  using inv j
proof (cases rule: ring_inv_slot)
  case (free i)
  have "rg_d s \<noteq> i" using free here by (auto simp: slot_free_def slot_full_def)
  with free u holder_after_goto(1) [of s i t "Pop_Take (rg_dequeue_pos s)"] pc
  have "slot_free ?s' j i" by (auto simp: slot_free_def simp del: fun_upd_apply)
  then show ?thesis by blast
next
  case (full i)
  have "rg_d s \<noteq> i + rg_N s"
    using full here ring_invD(6) [OF inv] by (auto simp: slot_full_def)
  moreover have "\<exists>t'. popping (((rg_pc s)(t := Pop_Take (rg_dequeue_pos s))) t') i" if "i < Suc (rg_d s)"
  proof (cases "i = rg_d s")
    case True
    then show ?thesis by (intro holder_after_goto(4)) simp
  next
    case False
    with that full pc show ?thesis by (intro holder_after_goto(2)) (auto simp: slot_full_def)
  qed
  ultimately have "slot_full ?s' j i"
    using full u by (simp add: slot_full_def del: fun_upd_apply)
  then show ?thesis by blast
qed

lemma ring_inv_pop_claim:
  assumes inv: "ring_inv s" and pc: "rg_pc s t = Pop_Test pos sq" and zero: "seq_diff sq (pos + 1) = 0"
    and pos: "rg_dequeue_pos s = pos" and bound: "rg_e s + rg_N s < half_range"
  shows "ring_inv (rg_goto t (Pop_Take pos) (s\<lparr>rg_dequeue_pos := pos + 1\<rparr>))" (is "ring_inv ?s'")
proof -
  note D = ring_invD [OF inv] and C = pop_claim_slot [OF assms]
  have old: "\<not> pushing (rg_pc s t) i" "\<not> popping (rg_pc s t) i" for i using pc by simp_all
  show ?thesis
  proof (rule ring_invI)
    show "ring_shape ?s'" using D(1) by (simp add: ring_shape_def)
    show "rg_enqueue_pos ?s' = of_nat (rg_e ?s')" using D(2) by simp
    show "rg_d ?s' \<le> rg_e ?s'" "rg_e ?s' \<le> rg_d ?s' + rg_N ?s'"
      using C D(4) by (simp_all add: slot_full_def)
    show "(\<exists>i. slot_free ?s' j i) \<or> (\<exists>i. slot_full ?s' j i)" if "j < rg_N ?s'" for j
      using pop_claim_slots [OF inv C(2) old C(1)] that pos by simp
    show "pc_ok ?s' (rg_pc ?s' t')" for t'
      using D(5) [of t'] C pos by (cases "rg_pc s t'") (auto simp: slot_full_def)
    show "pushing (rg_pc ?s' t1) i \<Longrightarrow> pushing (rg_pc ?s' t2) i \<Longrightarrow> t1 = t2" for t1 t2 i
      using ring_inv_push_unique [OF inv, of t1 i t2] by (auto split: if_splits)
    show "popping (rg_pc ?s' t1) i \<Longrightarrow> popping (rg_pc ?s' t2) i \<Longrightarrow> t1 = t2" for t1 t2 i
      using pos not_popping_next [OF inv] ring_inv_pop_unique [OF inv, of t1 i t2]
      by (auto split: if_splits)
  qed
qed

text \<open>Releasing position \<open>pos\<close> hands its slot to the producer one lap ahead.\<close>

lemma pop_release_slots:
  assumes inv: "ring_inv s" and pc: "rg_pc s t = Pop_Release x pos" and j: "j < rg_N s"
    and u: "unat (pos + rg_mask s + 1) = unat pos + rg_N s"
  shows "(\<exists>i. slot_free (rg_goto t Idle ((rg_set_sequence s pos (pos + rg_mask s + 1))\<lparr>rg_popped := h\<rparr>)) j i) \<or>
    (\<exists>i. slot_full (rg_goto t Idle ((rg_set_sequence s pos (pos + rg_mask s + 1))\<lparr>rg_popped := h\<rparr>)) j i)"
    (is "(\<exists>i. slot_free ?s' j i) \<or> _")
proof -
  note D = ring_invD [OF inv] and U = rg_slot_updates [OF ring_invD(1) [OF inv]]
  have here: "unat pos < rg_d s" "rg_sq s (unat pos mod rg_N s) = Suc (unat pos)"
    using D(5) [of t] pc by simp_all
  from inv j show ?thesis
  proof (cases rule: ring_inv_slot)
    case (free i)
    then have "j \<noteq> unat pos mod rg_N s"
      using here(2) Suc_mod_neq [OF D(6), of "unat pos"] by (auto simp: slot_free_def)
    with free pc holder_after_goto(1) [of s i t Idle] have "slot_free ?s' j i"
      by (auto simp: slot_free_def U simp del: fun_upd_apply)
    then show ?thesis by blast
  next
    case (full i)
    show ?thesis
    proof (cases "j = unat pos mod rg_N s")
      case True
      from full have "rg_sq s j = Suc i" unfolding slot_full_def by blast
      then have i: "i = unat pos" unfolding True here(2) by simp
      have "slot_free ?s' j (unat pos + rg_N s)"
        using full here(1) unfolding slot_full_def slot_free_def i True
        by (simp add: U u)
      then show ?thesis by blast
    next
      case False
      with full pc have "\<not> popping (rg_pc s t) i" by (auto simp: slot_full_def)
      with full False holder_after_goto(2) [of s i t Idle] have "slot_full ?s' j i"
        by (auto simp: slot_full_def U simp del: fun_upd_apply)
      then show ?thesis by blast
    qed
  qed
qed

lemma pop_release_value:
  assumes "ring_inv s" and "rg_pc s t = Pop_Release x pos" and "rg_e s + rg_N s < half_range"
  shows "unat (pos + rg_mask s + 1) = unat pos + rg_N s"
proof -
  note D = ring_invD [OF assms(1)]
  have "unat pos < rg_d s" using D(5) [of t] assms(2) by simp
  moreover have "pos + rg_mask s + 1 = of_nat (unat pos + rg_N s)"
    using ring_shapeD(3) [OF D(1)] by (simp add: add.assoc)
  ultimately show ?thesis using D(3) assms(3) by (simp del: of_nat_add)
qed

lemma ring_inv_pop_release:
  assumes inv: "ring_inv s" and pc: "rg_pc s t = Pop_Release x pos"
    and bound: "rg_e s + rg_N s < half_range"
  shows "ring_inv (rg_goto t Idle ((rg_set_sequence s pos (pos + rg_mask s + 1))\<lparr>rg_popped := h\<rparr>))"
    (is "ring_inv ?s'")
proof -
  note D = ring_invD [OF inv] and U = rg_slot_updates [OF ring_invD(1) [OF inv]]
    and V = pop_release_value [OF assms]
  have here: "unat pos < rg_d s" "rg_sq s (unat pos mod rg_N s) = Suc (unat pos)"
    using D(5) [of t] pc by simp_all
  show ?thesis
  proof (rule ring_invI)
    show "ring_shape ?s'" using D(1) by (simp add: ring_shape_def)
    show "rg_enqueue_pos ?s' = of_nat (rg_e ?s')" using D(2) by simp
    show "rg_d ?s' \<le> rg_e ?s'" "rg_e ?s' \<le> rg_d ?s' + rg_N ?s'" using D(3,4) by simp_all
    show "(\<exists>i. slot_free ?s' j i) \<or> (\<exists>i. slot_full ?s' j i)" if "j < rg_N ?s'" for j
      using that by (intro pop_release_slots [OF inv pc _ V]) simp
    show "pc_ok ?s' (rg_pc ?s' t')" for t'
      using D(5) [of t'] here V ring_inv_pop_unique [OF inv, of t "unat pos" t'] pc
        Suc_mod_neq [OF D(6), of "unat pos"] D(6)
      by (cases "rg_pc s t'") (auto simp: U)
    show "pushing (rg_pc ?s' t1) i \<Longrightarrow> pushing (rg_pc ?s' t2) i \<Longrightarrow> t1 = t2" for t1 t2 i
      using ring_inv_push_unique [OF inv, of t1 i t2] by (auto split: if_splits)
    show "popping (rg_pc ?s' t1) i \<Longrightarrow> popping (rg_pc ?s' t2) i \<Longrightarrow> t1 = t2" for t1 t2 i
      using ring_inv_pop_unique [OF inv, of t1 i t2] by (auto split: if_splits)
  qed
qed

section \<open>The history of pops\<close>

lemma pops_inv_push_claim:
  assumes "pops_inv s" and "ring_inv s" and "rg_pc s t = Push_Test x pos sq"
  shows "pops_inv (rg_goto t (Push_Write x pos) (s\<lparr>rg_enqueue_pos := p, rg_pushed := rg_pushed s @ [x]\<rparr>))"
proof (rule pops_inv_goto)
  show "pops_inv (s\<lparr>rg_enqueue_pos := p, rg_pushed := rg_pushed s @ [x]\<rparr>)"
    using assms(1) ring_invD(3) [OF assms(2)] by (fastforce simp: pops_inv_def nth_append)
qed (use assms(3) in simp)

lemma pops_inv_buffer:
  "pops_inv (rg_set_sequence s pos v) = pops_inv s" "pops_inv (rg_set_storage s pos x) = pops_inv s"
  by (simp_all add: pops_inv_def)

lemma pops_inv_pop_claim:
  assumes "pops_inv s" and "rg_pc s t = Pop_Test pos sq" and "rg_dequeue_pos s = pos"
    and "unat (pos + 1) = Suc (rg_d s)"
  shows "pops_inv (rg_goto t (Pop_Take pos) (s\<lparr>rg_dequeue_pos := pos + 1\<rparr>))"
proof -
  have old: "\<not> popping (rg_pc s t) i" for i using assms(2) by simp
  have "p \<in> fst ` set (rg_popped s) \<or> (\<exists>t'. popping (((rg_pc s)(t := Pop_Take pos)) t') p)"
    if "p < Suc (rg_d s)" for p
  proof (cases "p = rg_d s")
    case True
    with assms(3) show ?thesis by (intro disjI2 holder_after_goto(4)) simp
  next
    case False
    with that have "p < rg_d s" by simp
    with assms(1) show ?thesis
      by (cases rule: pops_inv_below)
         (use old [of p] holder_after_goto(2) [of s p t "Pop_Take pos"] in blast)+
  qed
  moreover have "p < Suc (rg_d s) \<and> x = rg_pushed s ! p \<and>
      (\<forall>t'. \<not> popping (((rg_pc s)(t := Pop_Take pos)) t') p)"
    if "(p, x) \<in> set (rg_popped s)" for p x
    using pops_inv_entry [OF assms(1) that] assms(3) by auto
  ultimately show ?thesis
    using assms(1,4) by (auto simp: pops_inv_def simp del: fun_upd_apply)
qed

lemma pops_inv_pop_release:
  assumes P: "pops_inv s" and inv: "ring_inv s" and pc: "rg_pc s t = Pop_Release x pos"
  shows "pops_inv (rg_goto t Idle ((rg_set_sequence s pos v)\<lparr>rg_popped := rg_popped s @ [(unat pos, x)]\<rparr>))"
proof -
  have x: "unat pos < rg_d s" "x = rg_pushed s ! unat pos"
    using ring_invD(5) [OF inv, of t] pc by simp_all
  have hold: "popping (rg_pc s t) (unat pos)" using pc by simp
  then have new: "unat pos \<notin> fst ` set (rg_popped s)" using P by (fastforce simp: pops_inv_def)
  have others: "t' = t \<or> \<not> popping (rg_pc s t') (unat pos)" for t'
    using ring_inv_pop_unique [OF inv hold, of t'] by auto
  have "p \<in> insert (unat pos) (fst ` set (rg_popped s)) \<or> (\<exists>t'. popping (((rg_pc s)(t := Idle)) t') p)"
    if "p < rg_d s" for p
  proof (cases "p = unat pos")
    case False
    with pc have "\<not> popping (rg_pc s t) p" by simp
    with P that show ?thesis
      by (cases rule: pops_inv_below) (blast intro: holder_after_goto(2))+
  qed simp
  moreover have "\<not> popping (((rg_pc s)(t := Idle)) t') p" if "p = unat pos \<or> (\<forall>t'. \<not> popping (rg_pc s t') p)" for t' p
    using that others [of t'] by auto
  ultimately show ?thesis
    using P x new by (auto simp: pops_inv_def simp del: fun_upd_apply)
qed

section \<open>Every reachable state\<close>

lemma ring_step_sizes:
  "ring_step s s' \<Longrightarrow> rg_e s \<le> rg_e s' \<and> rg_N s' = rg_N s"
  by (induction rule: ring_step.induct) simp_all

lemma ring_step_inv:
  assumes "ring_step s s'" and "ring_inv s" and "pops_inv s" and "rg_e s' + rg_N s' < half_range"
  shows "ring_inv s' \<and> pops_inv s'"
  using assms
proof (induction rule: ring_step.induct)
  case (push_claim s t x pos sq)
  then show ?case by (simp add: ring_inv_push_claim pops_inv_push_claim)
next
  case (push_write s t x pos)
  then show ?case
    by (simp add: ring_inv_push_write pops_inv_goto pops_inv_buffer)
next
  case (push_publish s t pos)
  then show ?case
    by (simp add: ring_inv_push_publish pops_inv_goto pops_inv_buffer)
next
  case (pop_claim s t pos sq)
  then show ?case
    using pop_claim_slot(1) [OF pop_claim(4,1,2,3)]
    by (simp add: ring_inv_pop_claim pops_inv_pop_claim)
next
  case (pop_take s t pos)
  note D = ring_invD [OF pop_take(2)]
  have "rg_sq s (unat pos mod rg_N s) = Suc (unat pos)" using D(5) [of t] pop_take(1) by simp
  from slot_with_item [OF pop_take(2) this]
  have "slot_storage (rg_buffer s ! rg_index s pos) = rg_pushed s ! unat pos"
    unfolding slot_full_def ring_shapeD(2) [OF D(1)] by blast
  with pop_take D(5) [of t] show ?case
    by (auto intro!: ring_inv_goto pops_inv_goto)
next
  case (pop_release s t x pos)
  then show ?case by (simp add: ring_inv_pop_release pops_inv_pop_release)
next
  case (push_load s t x)
  then show ?case using ring_invD(2) [OF push_load(2)]
    by (auto intro!: ring_inv_goto pops_inv_goto)
next
  case (push_sequence s t x pos)
  then show ?case
    using ring_invD(5) [OF push_sequence(2), of t] ring_shapeD(2) [OF ring_invD(1) [OF push_sequence(2)]]
    by (auto intro!: ring_inv_goto pops_inv_goto simp: rg_sequence_def)
next
  case (push_cas_fails s t x pos sq)
  then show ?case using ring_invD(2) [OF push_cas_fails(3)]
    by (auto intro!: ring_inv_goto pops_inv_goto)
next
  case (push_full s t x pos sq)
  then show ?case by (auto intro!: ring_inv_goto pops_inv_goto)
next
  case (push_retry s t x pos sq)
  then show ?case using ring_invD(2) [OF push_retry(3)]
    by (auto intro!: ring_inv_goto pops_inv_goto)
next
  case (pop_load s t)
  then show ?case by (auto intro!: ring_inv_goto pops_inv_goto)
next
  case (pop_sequence s t pos)
  then show ?case
    using ring_invD(5) [OF pop_sequence(2), of t] ring_shapeD(2) [OF ring_invD(1) [OF pop_sequence(2)]]
    by (auto intro!: ring_inv_goto pops_inv_goto simp: rg_sequence_def)
next
  case (pop_cas_fails s t pos sq)
  then show ?case by (auto intro!: ring_inv_goto pops_inv_goto)
next
  case (pop_empty s t pos sq)
  then show ?case by (auto intro!: ring_inv_goto pops_inv_goto)
next
  case (pop_retry s t pos sq)
  then show ?case by (auto intro!: ring_inv_goto pops_inv_goto)
qed

lemma ring_init_inv:
  assumes "1 \<le> k" "k \<le> 30"
  shows "ring_inv (ring_init (lf_ring dflt (2 ^ k) p))" and "pops_inv (ring_init (lf_ring dflt (2 ^ k) p))"
proof -
  let ?s = "ring_init (lf_ring dflt (2 ^ k) p)"
  have N: "rg_N ?s = 2 ^ k" using assms by (simp add: ring_init_def unat_power2_u64)
  have lt: "(2::nat) ^ k \<le> 2 ^ 30" using assms(2) by (intro power_increasing) auto
  show "ring_inv ?s"
  proof (rule ring_invI)
    show "ring_shape ?s" unfolding ring_shape_def N
      using assms by (intro exI [of _ k]) (simp add: ring_init_def)
    fix j assume j: "j < rg_N ?s"
    then have "slot_free ?s j j"
      using N lt assms by (simp add: slot_free_def ring_init_def unat_power2_u64)
    then show "(\<exists>i. slot_free ?s j i) \<or> (\<exists>i. slot_full ?s j i)" by blast
  qed (simp_all add: ring_init_def)
  show "pops_inv ?s" by (simp add: pops_inv_def ring_init_def)
qed

lemma ring_reach_inv:
  assumes "ring_reach q0 s" and "lf_new dflt c p = Some (Inr q0)" and "rg_e s + rg_N s < half_range"
  shows "ring_inv s \<and> pops_inv s"
  using assms
proof (induction rule: ring_reach.induct)
  case start
  then show ?case using ring_init_inv by (metis lf_new_Inr)
next
  case (step s s')
  with ring_step_sizes [OF step(2)] ring_step_inv [OF step(2)] show ?case by simp
qed

text \<open>What a run adds to the histories. The position of a pop that completes in the run was claimed in it, from the
  dequeue cursor on, unless a consumer held it before.\<close>

definition claimed_since :: "'a ring \<Rightarrow> nat \<Rightarrow> bool" where
  "claimed_since s j \<longleftrightarrow> rg_d s \<le> j \<or> (\<exists>u. popping (rg_pc s u) j)"

definition later_pops :: "'a ring \<Rightarrow> 'a ring \<Rightarrow> bool" where
  "later_pops s s' \<longleftrightarrow> rg_d s \<le> rg_d s' \<and> (\<exists>xs. rg_pushed s' = rg_pushed s @ xs) \<and>
     (\<forall>t j. popping (rg_pc s' t) j \<longrightarrow> claimed_since s j) \<and>
     (\<exists>ps. rg_popped s' = rg_popped s @ ps \<and> (\<forall>p\<in>set ps. claimed_since s (fst p)))"

lemma later_pops_refl: "later_pops s s"
  by (auto simp: later_pops_def claimed_since_def)

lemma later_pops_trans:
  assumes "later_pops s s1" "later_pops s1 s2"
  shows "later_pops s s2"
proof -
  have held: "claimed_since s j" if "claimed_since s1 j" for j
    using that assms(1) by (auto simp: later_pops_def claimed_since_def dest: order_trans)
  obtain ps ps' where "rg_popped s1 = rg_popped s @ ps" "rg_popped s2 = rg_popped s1 @ ps'"
    "\<forall>p\<in>set ps. claimed_since s (fst p)" "\<forall>p\<in>set ps'. claimed_since s1 (fst p)"
    using assms unfolding later_pops_def by blast
  then have "\<exists>ps. rg_popped s2 = rg_popped s @ ps \<and> (\<forall>p\<in>set ps. claimed_since s (fst p))"
    using held by (intro exI [of _ "ps @ ps'"]) auto
  moreover have "rg_d s \<le> rg_d s2" "\<exists>xs. rg_pushed s2 = rg_pushed s @ xs"
    using assms by (auto simp: later_pops_def)
  moreover have "claimed_since s j" if "popping (rg_pc s2 t) j" for t j
    using held [of j] that assms(2) unfolding later_pops_def by blast
  ultimately show ?thesis unfolding later_pops_def by blast
qed

lemma ring_step_later:
  assumes "ring_step s s'" "ring_inv s" "rg_e s' + rg_N s' < half_range"
  shows "later_pops s s'"
  using assms
proof (cases rule: ring_step.cases)
  case (pop_claim t pos sq)
  have "rg_d s \<le> rg_e s" by (rule ring_invD(3) [OF assms(2)])
  then have "unat (pos + 1) = Suc (rg_d s)"
    using assms(3) pop_claim unat_Suc_u64 [of pos] by simp
  then show ?thesis using pop_claim by (auto simp: later_pops_def claimed_since_def)
next
  case (pop_release t x pos)
  then have "claimed_since s (unat pos)" unfolding claimed_since_def by (intro disjI2 exI [of _ t]) simp
  then show ?thesis using pop_release by (auto simp: later_pops_def claimed_since_def)
next
  case (pop_take t pos)
  then have "claimed_since s (unat pos)" unfolding claimed_since_def by (intro disjI2 exI [of _ t]) simp
  then show ?thesis using pop_take by (auto simp: later_pops_def claimed_since_def)
qed (auto simp: later_pops_def claimed_since_def)

lemma ring_run_later:
  assumes "ring_step\<^sup>*\<^sup>* s s'" "ring_reach q0 s" "lf_new dflt c p = Some (Inr q0)" "rg_e s' + rg_N s' < half_range"
  shows "ring_reach q0 s' \<and> later_pops s s'"
  using assms
proof (induction rule: rtranclp_induct)
  case base
  then show ?case by (simp add: later_pops_refl)
next
  case (step s1 s2)
  then have IH: "ring_reach q0 s1" "later_pops s s1" using ring_step_sizes [OF step(2)] by simp_all
  have "ring_inv s1"
    using ring_reach_inv [OF IH(1) step.prems(2)] ring_step_sizes [OF step(2)] step.prems(3) by simp
  from later_pops_trans [OF IH(2) ring_step_later [OF step(2) this step.prems(3)]] ring_reach.step [OF IH(1) step(2)]
  show ?case by blast
qed

section \<open>An executable scheduler\<close>

text \<open>One step of thread \<open>t\<close>, the compare-and-swap succeeding whenever it can; every step it makes
  is a step of the relation. It serves to build concrete executions.\<close>

datatype 'a ring_cmd = Start_Push nat 'a | Start_Pop nat | Advance nat

definition ring_advance :: "nat \<Rightarrow> 'a ring \<Rightarrow> 'a ring option" where
  "ring_advance t s = (case rg_pc s t of
     Idle \<Rightarrow> None
   | Push_Read x pos \<Rightarrow> Some (rg_goto t (Push_Test x pos (rg_sequence s pos)) s)
   | Push_Test x pos sq \<Rightarrow>
       (if seq_diff sq pos = 0
        then (if rg_enqueue_pos s = pos
              then Some (rg_goto t (Push_Write x pos)
                     (s\<lparr>rg_enqueue_pos := pos + 1, rg_pushed := rg_pushed s @ [x]\<rparr>))
              else Some (rg_goto t (Push_Read x (rg_enqueue_pos s)) s))
        else if seq_diff sq pos < 0 then Some (rg_goto t Idle s)
        else Some (rg_goto t (Push_Read x (rg_enqueue_pos s)) s))
   | Push_Write x pos \<Rightarrow> Some (rg_goto t (Push_Publish pos) (rg_set_storage s pos x))
   | Push_Publish pos \<Rightarrow> Some (rg_goto t Idle (rg_set_sequence s pos (pos + 1)))
   | Pop_Read pos \<Rightarrow> Some (rg_goto t (Pop_Test pos (rg_sequence s pos)) s)
   | Pop_Test pos sq \<Rightarrow>
       (if seq_diff sq (pos + 1) = 0
        then (if rg_dequeue_pos s = pos
              then Some (rg_goto t (Pop_Take pos) (s\<lparr>rg_dequeue_pos := pos + 1\<rparr>))
              else Some (rg_goto t (Pop_Read (rg_dequeue_pos s)) s))
        else if seq_diff sq (pos + 1) < 0 then Some (rg_goto t Idle s)
        else Some (rg_goto t (Pop_Read (rg_dequeue_pos s)) s))
   | Pop_Take pos \<Rightarrow> Some (rg_goto t (Pop_Release (slot_storage (rg_buffer s ! rg_index s pos)) pos) s)
   | Pop_Release x pos \<Rightarrow> Some (rg_goto t Idle
       ((rg_set_sequence s pos (pos + rg_mask s + 1))\<lparr>rg_popped := rg_popped s @ [(unat pos, x)]\<rparr>)))"

fun ring_exec :: "'a ring_cmd \<Rightarrow> 'a ring \<Rightarrow> 'a ring option" where
  "ring_exec (Start_Push t x) s =
     (case rg_pc s t of Idle \<Rightarrow> Some (rg_goto t (Push_Read x (rg_enqueue_pos s)) s) | _ \<Rightarrow> None)"
| "ring_exec (Start_Pop t) s =
     (case rg_pc s t of Idle \<Rightarrow> Some (rg_goto t (Pop_Read (rg_dequeue_pos s)) s) | _ \<Rightarrow> None)"
| "ring_exec (Advance t) s = ring_advance t s"

fun ring_execs :: "'a ring_cmd list \<Rightarrow> 'a ring \<Rightarrow> 'a ring option" where
  "ring_execs [] s = Some s"
| "ring_execs (c # cs) s = Option.bind (ring_exec c s) (ring_execs cs)"

lemma ring_exec_step: "ring_exec c s = Some s' \<Longrightarrow> ring_step s s'"
  by (cases c; cases "rg_pc s (case c of Start_Push t x \<Rightarrow> t | Start_Pop t \<Rightarrow> t | Advance t \<Rightarrow> t)")
     (auto simp: ring_advance_def intro: ring_step.intros split: if_splits)

lemma ring_execs_reach: "ring_execs cs s = Some s' \<Longrightarrow> ring_reach q0 s \<Longrightarrow> ring_reach q0 s'"
proof (induction cs arbitrary: s)
  case (Cons c cs)
  then obtain s1 where "ring_exec c s = Some s1" "ring_execs cs s1 = Some s'"
    by (auto simp: bind_eq_Some_conv)
  with Cons show ?case using ring_reach.step [OF Cons.prems(2) ring_exec_step] by blast
qed simp

lemma ring_execs_run: "ring_execs cs s = Some s' \<Longrightarrow> ring_step\<^sup>*\<^sup>* s s'"
proof (induction cs arbitrary: s)
  case (Cons c cs)
  then obtain s1 where "ring_exec c s = Some s1" "ring_execs cs s1 = Some s'"
    by (auto simp: bind_eq_Some_conv)
  with Cons.IH show ?case by (blast intro: converse_rtranclp_into_rtranclp ring_exec_step)
qed simp

fun cmd_thread :: "'a ring_cmd \<Rightarrow> nat" where
  "cmd_thread (Start_Push t x) = t"
| "cmd_thread (Start_Pop t) = t"
| "cmd_thread (Advance t) = t"

lemma ring_exec_other: "ring_exec c s = Some s' \<Longrightarrow> t \<noteq> cmd_thread c \<Longrightarrow> rg_pc s' t = rg_pc s t"
  by (cases c; cases "rg_pc s (cmd_thread c)") (auto simp: ring_advance_def split: if_splits)

lemma ring_execs_other:
  "ring_execs cs s = Some s' \<Longrightarrow> t \<notin> cmd_thread ` set cs \<Longrightarrow> rg_pc s' t = rg_pc s t"
  by (induction cs arbitrary: s) (auto simp: bind_eq_Some_conv ring_exec_other)

text \<open>Producer 0 and consumer 1 on a fresh two-slot ring, up to the named point.\<close>

definition demo_queue :: "nat LockFreeQueue" where
  "demo_queue = lf_ring 0 2 Block"

definition demo_run :: "nat ring_cmd list \<Rightarrow> nat ring" where
  "demo_run cs = the (ring_execs cs (ring_init demo_queue))"

definition push_cmds :: "nat \<Rightarrow> 'a \<Rightarrow> 'a ring_cmd list" where
  "push_cmds t x = Start_Push t x # replicate 4 (Advance t)"

definition pop_cmds :: "nat \<Rightarrow> 'a ring_cmd list" where
  "pop_cmds t = Start_Pop t # replicate 4 (Advance t)"

lemma demo_queue_new: "lf_new (0::nat) 2 Block = Some (Inr demo_queue)"
  by (simp add: lf_new_def validated_capacity_def kMaxCapacity_def round_up.simps demo_queue_def
      push_bit_eq_mult)

lemma demo_run_reach:
  "ring_execs cs (ring_init demo_queue) \<noteq> None \<Longrightarrow> ring_reach demo_queue (demo_run cs)"
  using ring_execs_reach [OF _ ring_reach.start] by (auto simp: demo_run_def)

section \<open>Properties\<close>

text \<open>The slot whose storage thread \<open>t\<close> reads or writes in its next step.\<close>

definition touches :: "'a ring \<Rightarrow> nat \<Rightarrow> nat option" where
  "touches s t = (case rg_pc s t of Push_Write x pos \<Rightarrow> Some (rg_index s pos)
     | Pop_Take pos \<Rightarrow> Some (rg_index s pos) | _ \<Rightarrow> None)"

lemma touches_holds:
  assumes "ring_inv s" and "touches s u = Some j"
  shows "\<exists>i. i mod rg_N s = j \<and>
    (pushing (rg_pc s u) i \<and> rg_sq s j = i \<or> popping (rg_pc s u) i \<and> rg_sq s j = Suc i)"
  using assms(2) ring_invD(5) [OF assms(1), of u] ring_shapeD(2) [OF ring_invD(1) [OF assms(1)]]
  by (auto simp: touches_def split: ring_pc.splits)

text \<open>C1: However many producers and consumers run at the same time, no two of them are ever about
  to access the storage of the same slot: the plain reads and writes of \<^verbatim>\<open>slot->storage\<close> never
  race. Holds for every execution in which fewer than \<open>2 ^ 63\<close> positions are handed out.\<close>

theorem ring_storage_race_free:
  assumes "lf_new dflt c p = Some (Inr q0)" and "ring_reach q0 s"
    and "rg_e s + rg_N s < half_range"
    and "touches s t = Some j" and "touches s t' = Some j"
  shows "t = t'"
proof -
  have inv: "ring_inv s" using ring_reach_inv [OF assms(2,1,3)] by blast
  note D = ring_invD [OF inv]
  from touches_holds [OF inv assms(4)] obtain i where i: "i mod rg_N s = j"
    "pushing (rg_pc s t) i \<and> rg_sq s j = i \<or> popping (rg_pc s t) i \<and> rg_sq s j = Suc i" by blast
  from touches_holds [OF inv assms(5)] obtain i' where i': "i' mod rg_N s = j"
    "pushing (rg_pc s t') i' \<and> rg_sq s j = i' \<or> popping (rg_pc s t') i' \<and> rg_sq s j = Suc i'" by blast
  have "i \<noteq> Suc i'" "i' \<noteq> Suc i" using i(1) i'(1) Suc_mod_neq [OF D(6)] by metis+
  with i(2) i'(2) show ?thesis
    using ring_inv_push_unique [OF inv, of t i t'] ring_inv_pop_unique [OF inv, of t i t'] by auto
qed

theorem ring_storage_race_free_witness:
  "ring_reach demo_queue (demo_run (take 3 (push_cmds 0 7))) \<and>
   touches (demo_run (take 3 (push_cmds 0 7))) 0 = Some 0 \<and> (0::nat) = 0"
proof -
  let ?s = "demo_run (take 3 (push_cmds 0 7))"
  have r: "ring_reach demo_queue ?s" by (rule demo_run_reach) code_simp
  have "rg_e ?s + rg_N ?s = 3" by code_simp
  then have b: "rg_e ?s + rg_N ?s < half_range" by simp
  have t: "touches ?s 0 = Some 0" by code_simp
  from ring_storage_race_free [OF demo_queue_new r b t t] r t show ?thesis by blast
qed

text \<open>C2: First in, first out, each item exactly once, over any run from a reachable state \<open>s1\<close> to a state \<open>s\<close>. Every completed
  pop returned the item that was pushed at the position it claimed, no position was popped twice, and never more positions are
  claimed and not yet taken than the ring has slots, so no item is made up or overwritten. Positions follow the order of time, on
  both sides: a push that claims after \<open>s1\<close> gets a later position than every push that had claimed by then, and a pop that
  claims after \<open>s1\<close> returns the item of a later push than every pop that had completed by then.\<close>

theorem ring_fifo_exactly_once:
  assumes "lf_new dflt c p = Some (Inr q0)" and "ring_reach q0 s1" and "ring_step\<^sup>*\<^sup>* s1 s"
    and "rg_e s + rg_N s < half_range"
  shows "distinct (map fst (rg_popped s)) \<and>
    (\<forall>(i, x) \<in> set (rg_popped s). i < length (rg_pushed s) \<and> x = rg_pushed s ! i) \<and>
    unat (rg_dequeue_pos s) \<le> unat (rg_enqueue_pos s) \<and>
    unat (rg_enqueue_pos s) - unat (rg_dequeue_pos s) \<le> rg_N s \<and>
    take (length (rg_pushed s1)) (rg_pushed s) = rg_pushed s1 \<and>
    take (length (rg_popped s1)) (rg_popped s) = rg_popped s1 \<and>
    (\<forall>(i, x) \<in> set (rg_popped s1). \<forall>(j, y) \<in> set (drop (length (rg_popped s1)) (rg_popped s)).
       (\<forall>t. \<not> popping (rg_pc s1 t) j) \<longrightarrow> i < j)"
proof -
  from ring_run_later [OF assms(3,2,1,4)] have r: "ring_reach q0 s" and L: "later_pops s1 s" by auto
  from ring_reach_inv [OF r assms(1,4)] have inv: "ring_inv s" and P: "pops_inv s" by auto
  note D = ring_invD [OF inv]
  obtain xs ps where X: "rg_pushed s = rg_pushed s1 @ xs" "rg_popped s = rg_popped s1 @ ps"
    "\<forall>p\<in>set ps. claimed_since s1 (fst p)" using L unfolding later_pops_def by blast
  have "rg_N s = rg_N s1" using assms(3) by (induction rule: rtranclp_induct) (simp_all add: ring_step_sizes)
  then have "rg_e s1 + rg_N s1 < half_range" using assms(4) X(1) by simp
  from ring_reach_inv [OF assms(2,1) this] have P1: "pops_inv s1" by blast
  have "i < j" if "(i, x) \<in> set (rg_popped s1)" "(j, y) \<in> set ps" "\<forall>t. \<not> popping (rg_pc s1 t) j" for i x j y
    using pops_inv_entry(1) [OF P1 that(1)] X(3) that(2,3) by (fastforce simp: claimed_since_def)
  then have "\<forall>(i, x) \<in> set (rg_popped s1). \<forall>(j, y) \<in> set (drop (length (rg_popped s1)) (rg_popped s)).
       (\<forall>t. \<not> popping (rg_pc s1 t) j) \<longrightarrow> i < j" by (auto simp: X(2))
  moreover have "unat (rg_enqueue_pos s) = rg_e s" using D(2) assms(4) by simp
  moreover have "i < rg_e s \<and> x = rg_pushed s ! i" if "(i, x) \<in> set (rg_popped s)" for i x
    using pops_inv_entry(1,2) [OF P that] D(3) by linarith
  moreover have "distinct (map fst (rg_popped s))" using P by (simp add: pops_inv_def)
  ultimately show ?thesis using D(3,4) X(1,2) by auto
qed

text \<open>Two pushes and a pop, after which every thread is outside the ring.\<close>

lemma demo_idle: "rg_pc (demo_run (push_cmds 0 7 @ push_cmds 0 8 @ pop_cmds 1)) t = Idle"
proof (cases "t \<in> {0, 1}")
  case True
  moreover have "rg_pc (demo_run (push_cmds 0 7 @ push_cmds 0 8 @ pop_cmds 1)) 0 = Idle"
    "rg_pc (demo_run (push_cmds 0 7 @ push_cmds 0 8 @ pop_cmds 1)) 1 = Idle" by code_simp+
  ultimately show ?thesis by auto
next
  case False
  have "ring_execs (push_cmds 0 7 @ push_cmds 0 8 @ pop_cmds 1) (ring_init demo_queue) \<noteq> None"
    by code_simp
  then have "ring_execs (push_cmds 0 7 @ push_cmds 0 8 @ pop_cmds 1) (ring_init demo_queue) =
      Some (demo_run (push_cmds 0 7 @ push_cmds 0 8 @ pop_cmds 1))"
    by (auto simp: demo_run_def)
  from ring_execs_other [OF this] False show ?thesis
    by (simp add: push_cmds_def pop_cmds_def ring_init_def)
qed

theorem ring_fifo_exactly_once_witness:
  "\<exists>s. ring_execs (pop_cmds 1) (demo_run (push_cmds 0 7 @ push_cmds 0 8 @ pop_cmds 1)) = Some s \<and>
     rg_popped s = [(0, 7), (1, 8)] \<and> rg_pushed s ! 1 = 8 \<and> (\<forall>(j, y) \<in> set (drop 1 (rg_popped s)). 0 < j)"
proof -
  let ?s1 = "demo_run (push_cmds 0 7 @ push_cmds 0 8 @ pop_cmds 1)" and ?r = "ring_execs (pop_cmds 1)"
  have r: "ring_reach demo_queue ?s1" by (rule demo_run_reach) code_simp
  have "map_option (\<lambda>s. (rg_e s + rg_N s, rg_popped s)) (?r ?s1) = Some (4, [(0, 7), (1, 8)])" by code_simp
  then obtain s where s: "?r ?s1 = Some s" "rg_e s + rg_N s = 4" "rg_popped s = [(0, 7), (1, 8)]" by auto
  then have b: "rg_e s + rg_N s < half_range" by simp
  have p: "rg_popped ?s1 = [(0, 7)]" by code_simp
  from ring_fifo_exactly_once [OF demo_queue_new r ring_execs_run [OF s(1)] b] have
    "\<forall>(i, x) \<in> set (rg_popped s). x = rg_pushed s ! i" "\<forall>(j, y) \<in> set (drop 1 (rg_popped s)). 0 < j"
    unfolding p demo_idle by auto
  with s show ?thesis by auto
qed

text \<open>The queue object of a ring in which no call is under way.\<close>

definition ring_queue :: "'a LockFreeQueue \<Rightarrow> 'a ring \<Rightarrow> 'a LockFreeQueue" where
  "ring_queue q0 s = q0\<lparr>lf_buffer := rg_buffer s, lf_mask := rg_mask s,
     lf_enqueue_pos := rg_enqueue_pos s, lf_dequeue_pos := rg_dequeue_pos s\<rparr>"

lemma quiescent_slot:
  assumes inv: "ring_inv s" and idle: "\<And>t. rg_pc s t = Idle" and i: "rg_d s \<le> i" "i < rg_d s + rg_N s"
  shows "if i < rg_e s then slot_full s (i mod rg_N s) i else slot_free s (i mod rg_N s) i"
proof -
  note D = ring_invD [OF inv]
  have "i mod rg_N s < rg_N s" using D(6) by (intro mod_less_divisor) linarith
  with inv show ?thesis
  proof (cases rule: ring_inv_slot)
    case (free i')
    then have "i' mod rg_N s = i mod rg_N s" "rg_d s \<le> i'" "i' < rg_d s + rg_N s" "\<not> i' < rg_e s"
      using idle unfolding slot_free_def by auto
    with i mod_window_inject [of "rg_d s" i' "rg_N s" i] free show ?thesis by simp
  next
    case (full i')
    then have "i' mod rg_N s = i mod rg_N s" "rg_d s \<le> i'" "i' < rg_e s"
      using idle unfolding slot_full_def by (auto simp: not_less)
    with i D(4) mod_window_inject [of "rg_d s" i' "rg_N s" i] full show ?thesis by simp
  qed
qed

lemma ring_at_rest:
  assumes "lf_new dflt c p = Some (Inr q0)" and "ring_reach q0 s"
    and "rg_e s + rg_N s + n < half_range" and "\<And>t. rg_pc s t = Idle"
  shows "lf_inv n (ring_queue q0 s) \<and> lf_contents (ring_queue q0 s) = drop (rg_d s) (rg_pushed s) \<and>
    fst ` set (rg_popped s) = {..<rg_d s}"
proof -
  have b: "rg_e s + rg_N s < half_range" using assms(3) by linarith
  from ring_reach_inv [OF assms(2,1) b] have inv: "ring_inv s" and P: "pops_inv s" by auto
  note D = ring_invD [OF inv] and Q = quiescent_slot [OF inv assms(4)]
  let ?q = "ring_queue q0 s"
  have e: "unat (lf_enqueue_pos ?q) = rg_e s" using D(2) b by (simp add: ring_queue_def)
  have d: "unat (lf_dequeue_pos ?q) = rg_d s" by (simp add: ring_queue_def)
  have slot: "lf_slot ?q i = rg_buffer s ! (i mod rg_N s)" for i
    by (simp add: lf_slot_def ring_queue_def)
  have seq: "slot_sequence (lf_slot ?q i) = of_nat m" if "rg_sq s (i mod rg_N s) = m" for i m
    using that by (simp add: slot word_unat_eq_iff flip: that)
  from D(1) obtain k where k: "lf_shape k ?q"
    by (auto simp: ring_shape_def lf_shape_def ring_queue_def)
  have "lf_inv n ?q"
  proof (rule lf_invI [OF k d e])
    show "slot_sequence (lf_slot ?q i) = of_nat (Suc i)" if "rg_d s \<le> i" "i < rg_e s" for i
      using that Q [of i] D(4) by (intro seq) (auto simp: slot_full_def)
    show "slot_sequence (lf_slot ?q i) = of_nat i"
      if "rg_e s \<le> i" "i < rg_d s + length (lf_buffer ?q)" for i
      using that Q [of i] D(3) by (intro seq) (auto simp: slot_free_def ring_queue_def)
  qed (use D(3,4) assms(3) in \<open>simp_all add: ring_queue_def\<close>)
  moreover have "lf_contents ?q = drop (rg_d s) (rg_pushed s)"
  proof (rule nth_equalityI)
    fix i assume "i < length (lf_contents ?q)"
    with e d have i: "rg_d s + i < rg_e s" by (simp add: lf_contents_def)
    then have "[rg_d s..<rg_e s] ! i = rg_d s + i" by (rule nth_upt)
    with i Q [of "rg_d s + i"] D(4) show "lf_contents ?q ! i = drop (rg_d s) (rg_pushed s) ! i"
      by (simp add: lf_contents_def e d slot slot_full_def)
  qed (simp add: lf_contents_def e d)
  moreover have "fst ` set (rg_popped s) = {..<rg_d s}"
    using pops_inv_entry(1) [OF P] pops_inv_below [OF P] assms(4) by (fastforce simp: image_iff)
  ultimately show ?thesis by blast
qed

text \<open>When the calls of all threads have ended, the ring is again a well-formed queue object
  whose contents are exactly the items pushed and not yet popped, in the order of their positions;
  the completed pops returned the others, each once. Nothing was lost.\<close>

theorem ring_quiescent_refines_queue:
  assumes "lf_new dflt c p = Some (Inr q0)" and "ring_reach q0 s"
    and "rg_e s + rg_N s + n < half_range" and "\<And>t. rg_pc s t = Idle"
  shows "lf_inv n (ring_queue q0 s) \<and> lf_contents (ring_queue q0 s) = drop (rg_d s) (rg_pushed s) \<and>
    fst ` set (rg_popped s) = {..<rg_d s}"
  by (rule ring_at_rest [OF assms])

theorem ring_quiescent_refines_queue_witness:
  "lf_inv 5 (ring_queue demo_queue (demo_run (push_cmds 0 7 @ push_cmds 0 8 @ pop_cmds 1))) \<and>
   lf_contents (ring_queue demo_queue (demo_run (push_cmds 0 7 @ push_cmds 0 8 @ pop_cmds 1))) = [8]"
proof -
  let ?s = "demo_run (push_cmds 0 7 @ push_cmds 0 8 @ pop_cmds 1)"
  have r: "ring_reach demo_queue ?s" by (rule demo_run_reach) code_simp
  have "rg_e ?s + rg_N ?s = 4" by code_simp
  then have b: "rg_e ?s + rg_N ?s + 5 < half_range" by simp
  have "drop (rg_d ?s) (rg_pushed ?s) = [8]" by code_simp
  with ring_quiescent_refines_queue [OF demo_queue_new r b demo_idle] show ?thesis by simp
qed

section \<open>DropOldest beside a slow consumer\<close>

text \<open>What \<open>push(x)\<close> of thread \<open>t\<close> runs under \<open>DropOldest\<close> when both of its \<open>try_push\<close> find the ring
  full: \<open>try_push\<close>, \<open>try_pop\<close>, \<open>try_push\<close>.\<close>

definition rejected_drop_oldest :: "nat \<Rightarrow> 'a \<Rightarrow> 'a ring_cmd list" where
  "rejected_drop_oldest t x =
     [Start_Push t x, Advance t, Advance t] @ pop_cmds t @ [Start_Push t x, Advance t, Advance t]"

text \<open>A single producer is not enough for \<open>DropOldest\<close> to behave as in the mutex queue. Producer 0
  has filled a ring of two slots with 1 and 2, and consumer 1 has claimed the first position but
  not yet released its slot. The producer's push of 3 then finds the ring full, discards 2, finds
  the ring still full and gives up: it returns \<open>RejectedBackpressure\<close> with 3 not stored and 2 gone,
  and the consumer gets 1 from an otherwise empty ring. Two items are lost for one reported
  rejection.\<close>

theorem drop_oldest_single_producer_loses_two:
  "\<exists>s. ring_reach demo_queue s \<and>
     ring_execs (rejected_drop_oldest 0 3 @ [Advance 1, Advance 1])
       (demo_run (push_cmds 0 1 @ push_cmds 0 2 @ [Start_Pop 1, Advance 1, Advance 1])) = Some s \<and>
     rg_pc s 0 = Idle \<and> rg_pc s 1 = Idle \<and>
     rg_pushed s = [1, 2] \<and> rg_popped s = [(1, 2), (0, 1)] \<and> rg_dequeue_pos s = rg_enqueue_pos s"
proof -
  let ?before = "push_cmds 0 1 @ push_cmds 0 2 @ [Start_Pop 1, Advance 1, Advance 1]"
  let ?push = "rejected_drop_oldest 0 3 @ [Advance 1, Advance 1]"
  have "ring_execs ?before (ring_init demo_queue) \<noteq> None" by code_simp
  then have 1: "ring_reach demo_queue (demo_run ?before)" by (rule demo_run_reach)
  let ?r = "ring_execs ?push (demo_run ?before)"
  have "?r \<noteq> None" by code_simp
  then obtain s where s: "?r = Some s" by blast
  have "map_option (\<lambda>s. (rg_pushed s, rg_popped s, rg_enqueue_pos s, rg_dequeue_pos s)) ?r
      = Some ([1, 2], [(1, 2), (0, 1)], 2, 2)" by code_simp
  moreover have "map_option (\<lambda>s. (rg_pc s 0, rg_pc s 1)) ?r = Some (Idle, Idle)" by code_simp
  ultimately have "rg_pushed s = [1, 2]" "rg_popped s = [(1, 2), (0, 1)]"
    "rg_dequeue_pos s = rg_enqueue_pos s" "rg_pc s 0 = Idle" "rg_pc s 1 = Idle"
    unfolding s by simp_all
  with s ring_execs_reach [OF s 1] show ?thesis by blast
qed

end
