(* ===== verification/Lock_Free_Parking.thy ===== *)
theory Lock_Free_Parking
  imports Lock_Free_Ring
begin

text \<open>
  How a consumer of \<^verbatim>\<open>LockFreeBoundedQueue\<close> goes to sleep and how it is woken: the second phase of
  \<open>pop()\<close>, \<open>notify_one_waiter()\<close> and \<open>shutdown()\<close>, step by step, with \<open>waiters_\<close>, \<open>wait_mutex_\<close> and
  \<open>not_empty_\<close>. The ring is what the parking code sees of it: the dequeue cursor and the set of
  positions whose slot is published; \<open>try_pop()\<close> succeeds exactly when the position of the dequeue
  cursor is published. The accesses on either side of the two \<open>seq_cst\<close> fences are sequentially
  consistent, which is what the fences are there for.
\<close>

section \<open>Threads and shared state\<close>

datatype park_pc =
    Outside
  | Claimed nat    \<comment> \<open>push: position claimed, not published\<close>
  | Published      \<comment> \<open>push: published, \<open>waiters_\<close> not yet read\<close>
  | Notifying      \<comment> \<open>push: read \<open>waiters_ > 0\<close>, wants the mutex\<close>
  | Spinning       \<comment> \<open>pop: phase 1\<close>
  | Spin_Last      \<comment> \<open>pop: phase 1 saw the shutdown flag, one last \<open>try_pop\<close>\<close>
  | Locking        \<comment> \<open>pop: wants the mutex\<close>
  | Registering    \<comment> \<open>pop: top of the loop, holds the mutex\<close>
  | Rechecking     \<comment> \<open>pop: counted in \<open>waiters_\<close>\<close>
  | Missed         \<comment> \<open>pop: the second \<open>try_pop\<close> found nothing\<close>
  | Parking        \<comment> \<open>pop: read the shutdown flag as false\<close>
  | Waiting        \<comment> \<open>pop: inside \<open>wait\<close>\<close>
  | Woken          \<comment> \<open>pop: notified or woken spuriously, wants the mutex back\<close>
  | Resumed        \<comment> \<open>pop: \<open>wait\<close> has returned\<close>
  | Found          \<comment> \<open>pop: holds an item, still counted\<close>
  | Draining       \<comment> \<open>pop: saw the shutdown flag, still counted\<close>
  | Last_Try       \<comment> \<open>pop: the \<open>try_pop\<close> of the last line\<close>
  | Leaving        \<comment> \<open>pop: has its result, still holds the mutex\<close>
  | Closing        \<comment> \<open>shutdown: flag stored, wants the mutex\<close>

record parking =
  pk_deq :: nat
  pk_published :: "nat set"
  pk_enq :: nat
  pk_waiters :: nat
  pk_owner :: "nat option"
  pk_shutting_down :: bool
  pk_pc :: "nat \<Rightarrow> park_pc"

definition pk_goto :: "nat \<Rightarrow> park_pc \<Rightarrow> parking \<Rightarrow> parking" where
  "pk_goto t pc s = s\<lparr>pk_pc := (pk_pc s)(t := pc)\<rparr>"

text \<open>\<open>try_pop()\<close>: takes the position of the dequeue cursor if it is published.\<close>

definition pk_ready :: "parking \<Rightarrow> bool" where
  "pk_ready s \<longleftrightarrow> pk_deq s \<in> pk_published s"

definition pk_take :: "parking \<Rightarrow> parking" where
  "pk_take s = s\<lparr>pk_deq := pk_deq s + 1\<rparr>"

section \<open>Steps\<close>

text \<open>\<open>W\<close> is the set of consumers; every other thread may push. A producer under \<open>DropOldest\<close> may
  take the head too.\<close>

inductive park_step :: "nat set \<Rightarrow> parking \<Rightarrow> parking \<Rightarrow> bool" for W where
  push_claim: "t \<notin> W \<Longrightarrow> pk_pc s t = Outside \<Longrightarrow>
    park_step W s (pk_goto t (Claimed (pk_enq s)) (s\<lparr>pk_enq := pk_enq s + 1\<rparr>))"
| push_discard: "t \<notin> W \<Longrightarrow> pk_pc s t = Outside \<Longrightarrow> pk_ready s \<Longrightarrow> park_step W s (pk_take s)"
| push_publish: "pk_pc s t = Claimed p \<Longrightarrow>
    park_step W s (pk_goto t Published (s\<lparr>pk_published := insert p (pk_published s)\<rparr>))"
| push_no_waiter: "pk_pc s t = Published \<Longrightarrow> pk_waiters s = 0 \<Longrightarrow> park_step W s (pk_goto t Outside s)"
| push_waiter: "pk_pc s t = Published \<Longrightarrow> pk_waiters s \<noteq> 0 \<Longrightarrow> park_step W s (pk_goto t Notifying s)"
| notify_nobody: "pk_pc s t = Notifying \<Longrightarrow> pk_owner s = None \<Longrightarrow> (\<And>w. pk_pc s w \<noteq> Waiting) \<Longrightarrow>
    park_step W s (pk_goto t Outside s)"
| notify_waiting: "pk_pc s t = Notifying \<Longrightarrow> pk_owner s = None \<Longrightarrow> pk_pc s w = Waiting \<Longrightarrow>
    park_step W s (pk_goto w Woken (pk_goto t Outside s))"
| pop_call: "t \<in> W \<Longrightarrow> pk_pc s t = Outside \<Longrightarrow> park_step W s (pk_goto t Spinning s)"
| spin_take: "pk_pc s t = Spinning \<Longrightarrow> pk_ready s \<Longrightarrow> park_step W s (pk_goto t Outside (pk_take s))"
| spin_again: "pk_pc s t = Spinning \<Longrightarrow> \<not> pk_ready s \<Longrightarrow> park_step W s s"
| spin_closed: "pk_pc s t = Spinning \<Longrightarrow> pk_shutting_down s \<Longrightarrow> park_step W s (pk_goto t Spin_Last s)"
| spin_last_take: "pk_pc s t = Spin_Last \<Longrightarrow> pk_ready s \<Longrightarrow> park_step W s (pk_goto t Outside (pk_take s))"
| spin_last_empty: "pk_pc s t = Spin_Last \<Longrightarrow> \<not> pk_ready s \<Longrightarrow> park_step W s (pk_goto t Outside s)"
| spin_give_up: "pk_pc s t = Spinning \<Longrightarrow> park_step W s (pk_goto t Locking s)"
| park_lock: "pk_pc s t = Locking \<Longrightarrow> pk_owner s = None \<Longrightarrow>
    park_step W s (pk_goto t Registering (s\<lparr>pk_owner := Some t\<rparr>))"
| park_register: "pk_pc s t = Registering \<Longrightarrow>
    park_step W s (pk_goto t Rechecking (s\<lparr>pk_waiters := pk_waiters s + 1\<rparr>))"
| recheck_take: "pk_pc s t = Rechecking \<Longrightarrow> pk_ready s \<Longrightarrow> park_step W s (pk_goto t Found (pk_take s))"
| recheck_miss: "pk_pc s t = Rechecking \<Longrightarrow> \<not> pk_ready s \<Longrightarrow> park_step W s (pk_goto t Missed s)"
| read_open: "pk_pc s t = Missed \<Longrightarrow> \<not> pk_shutting_down s \<Longrightarrow> park_step W s (pk_goto t Parking s)"
| read_closed: "pk_pc s t = Missed \<Longrightarrow> pk_shutting_down s \<Longrightarrow> park_step W s (pk_goto t Draining s)"
| wait: "pk_pc s t = Parking \<Longrightarrow> park_step W s (pk_goto t Waiting (s\<lparr>pk_owner := None\<rparr>))"
| spurious: "pk_pc s t = Waiting \<Longrightarrow> park_step W s (pk_goto t Woken s)"
| wake_lock: "pk_pc s t = Woken \<Longrightarrow> pk_owner s = None \<Longrightarrow>
    park_step W s (pk_goto t Resumed (s\<lparr>pk_owner := Some t\<rparr>))"
| wake_unregister: "pk_pc s t = Resumed \<Longrightarrow>
    park_step W s (pk_goto t Registering (s\<lparr>pk_waiters := pk_waiters s - 1\<rparr>))"
| found_unregister: "pk_pc s t = Found \<Longrightarrow>
    park_step W s (pk_goto t Leaving (s\<lparr>pk_waiters := pk_waiters s - 1\<rparr>))"
| drain_unregister: "pk_pc s t = Draining \<Longrightarrow>
    park_step W s (pk_goto t Last_Try (s\<lparr>pk_waiters := pk_waiters s - 1\<rparr>))"
| last_take: "pk_pc s t = Last_Try \<Longrightarrow> pk_ready s \<Longrightarrow> park_step W s (pk_goto t Leaving (pk_take s))"
| last_empty: "pk_pc s t = Last_Try \<Longrightarrow> \<not> pk_ready s \<Longrightarrow> park_step W s (pk_goto t Leaving s)"
| unlock: "pk_pc s t = Leaving \<Longrightarrow> park_step W s (pk_goto t Outside (s\<lparr>pk_owner := None\<rparr>))"
| shutdown_store: "t \<notin> W \<Longrightarrow> pk_pc s t = Outside \<Longrightarrow>
    park_step W s (pk_goto t Closing (s\<lparr>pk_shutting_down := True\<rparr>))"
| shutdown_notify: "pk_pc s t = Closing \<Longrightarrow> pk_owner s = None \<Longrightarrow>
    park_step W s (s\<lparr>pk_pc := (\<lambda>w. if w = t then Outside
      else if pk_pc s w = Waiting then Woken else pk_pc s w)\<rparr>)"

definition park_init :: parking where
  "park_init = \<lparr>pk_deq = 0, pk_published = {}, pk_enq = 0, pk_waiters = 0, pk_owner = None,
     pk_shutting_down = False, pk_pc = (\<lambda>_. Outside)\<rparr>"

inductive park_reach :: "nat set \<Rightarrow> parking \<Rightarrow> bool" for W where
  start: "park_reach W park_init"
| step: "park_reach W s \<Longrightarrow> park_step W s s' \<Longrightarrow> park_reach W s'"

section \<open>Invariant\<close>

text \<open>Program points at which a thread is counted in \<open>waiters_\<close>, holds the mutex, has decided to
  sleep (or sleeps), owes a notification, runs inside \<open>pop()\<close>.\<close>

definition registered :: "park_pc \<Rightarrow> bool" where
  "registered pc \<longleftrightarrow> pc \<in> {Rechecking, Missed, Parking, Waiting, Woken, Resumed, Found, Draining}"

definition holding :: "park_pc \<Rightarrow> bool" where
  "holding pc \<longleftrightarrow> pc \<in> {Registering, Rechecking, Missed, Parking, Resumed, Found, Draining, Last_Try, Leaving}"

definition asleep :: "park_pc \<Rightarrow> bool" where
  "asleep pc \<longleftrightarrow> pc \<in> {Missed, Parking, Waiting}"

definition owes_notify :: "park_pc \<Rightarrow> bool" where
  "owes_notify pc \<longleftrightarrow> pc \<in> {Published, Notifying}"

definition in_pop :: "park_pc \<Rightarrow> bool" where
  "in_pop pc \<longleftrightarrow> registered pc \<or> holding pc \<or> pc \<in> {Spinning, Spin_Last, Locking}"

definition pk_count_inv :: "parking \<Rightarrow> bool" where
  "pk_count_inv s \<longleftrightarrow> finite {t. registered (pk_pc s t)} \<and>
     pk_waiters s = card {t. registered (pk_pc s t)}"

definition pk_lock_inv :: "parking \<Rightarrow> bool" where
  "pk_lock_inv s \<longleftrightarrow> (\<forall>t. holding (pk_pc s t) \<longleftrightarrow> pk_owner s = Some t)"

definition pk_role_inv :: "nat set \<Rightarrow> parking \<Rightarrow> bool" where
  "pk_role_inv W s \<longleftrightarrow> (\<forall>t. in_pop (pk_pc s t) \<longrightarrow> t \<in> W)"

definition pk_wake_inv :: "nat set \<Rightarrow> parking \<Rightarrow> bool" where
  "pk_wake_inv W s \<longleftrightarrow>
     (pk_ready s \<longrightarrow> (\<exists>t. owes_notify (pk_pc s t)) \<or> (\<exists>w \<in> W. \<not> asleep (pk_pc s w)))"

definition pk_close_inv :: "parking \<Rightarrow> bool" where
  "pk_close_inv s \<longleftrightarrow>
     (pk_shutting_down s \<longrightarrow> (\<exists>t. pk_pc s t \<in> {Parking, Waiting}) \<longrightarrow> (\<exists>t. pk_pc s t = Closing))"

definition park_inv :: "nat set \<Rightarrow> parking \<Rightarrow> bool" where
  "park_inv W s \<longleftrightarrow> pk_count_inv s \<and> pk_lock_inv s \<and> pk_role_inv W s \<and> pk_wake_inv W s \<and> pk_close_inv s"

lemmas pc_classes = registered_def holding_def asleep_def owes_notify_def in_pop_def

lemma pk_goto_simps [simp]:
  "pk_deq (pk_goto t pc s) = pk_deq s"
  "pk_published (pk_goto t pc s) = pk_published s"
  "pk_enq (pk_goto t pc s) = pk_enq s"
  "pk_waiters (pk_goto t pc s) = pk_waiters s"
  "pk_owner (pk_goto t pc s) = pk_owner s"
  "pk_shutting_down (pk_goto t pc s) = pk_shutting_down s"
  "pk_pc (pk_goto t pc s) = (pk_pc s)(t := pc)"
  "pk_ready (pk_goto t pc s) = pk_ready s"
  by (simp_all add: pk_goto_def pk_ready_def)

lemma pk_take_simps [simp]:
  "pk_published (pk_take s) = pk_published s"
  "pk_waiters (pk_take s) = pk_waiters s"
  "pk_owner (pk_take s) = pk_owner s"
  "pk_shutting_down (pk_take s) = pk_shutting_down s"
  "pk_pc (pk_take s) = pk_pc s"
  by (simp_all add: pk_take_def)

lemma pk_ready_frame [simp]:
  "pk_ready (s\<lparr>pk_waiters := n\<rparr>) = pk_ready s"
  "pk_ready (s\<lparr>pk_owner := ow\<rparr>) = pk_ready s"
  "pk_ready (s\<lparr>pk_enq := n\<rparr>) = pk_ready s"
  "pk_ready (s\<lparr>pk_shutting_down := b\<rparr>) = pk_ready s"
  "pk_ready (s\<lparr>pk_pc := f\<rparr>) = pk_ready s"
  by (simp_all add: pk_ready_def)

text \<open>How the set of registered threads moves with one thread.\<close>

lemma registered_upd:
  "{u. registered ((f(t := pc)) u)} =
   (if registered pc then insert t {u. registered (f u)} else {u. registered (f u)} - {t})"
  by auto

lemma pk_count_step:
  assumes "pk_count_inv s" and "pk_pc s' = (pk_pc s)(t := pc)"
    and "pk_waiters s' = (if registered pc
      then (if registered (pk_pc s t) then pk_waiters s else pk_waiters s + 1)
      else (if registered (pk_pc s t) then pk_waiters s - 1 else pk_waiters s))"
  shows "pk_count_inv s'"
  using assms(1) unfolding pk_count_inv_def assms(2,3) registered_upd
  by (auto simp: card_insert_if card_Diff_singleton_if)

text \<open>\<open>notify_one\<close> and \<open>notify_all\<close> move threads between two registered points.\<close>

lemma pk_count_same:
  assumes "pk_count_inv s" and "\<And>u. registered (pk_pc s' u) \<longleftrightarrow> registered (pk_pc s u)"
    and "pk_waiters s' = pk_waiters s"
  shows "pk_count_inv s'"
  using assms(1) unfolding pk_count_inv_def assms(2,3) .

lemma park_step_count:
  assumes "park_step W s s'" and "pk_count_inv s"
  shows "pk_count_inv s'"
  using assms
proof (cases rule: park_step.cases)
  case (notify_waiting t w)
  with assms(2) show ?thesis by (elim pk_count_same) (auto simp: registered_def)
next
  case (shutdown_notify t)
  with assms(2) show ?thesis by (elim pk_count_same) (auto simp: registered_def)
next
  case (push_discard t)
  with assms(2) show ?thesis by (elim pk_count_same) auto
qed (auto elim!: pk_count_step simp: registered_def)

lemma pk_lock_step:
  assumes "pk_lock_inv s" and "pk_pc s' = (pk_pc s)(t := pc)"
    and "pk_owner s' = (if holding pc = holding (pk_pc s t) then pk_owner s
      else if holding pc then Some t else None)"
    and "holding pc \<Longrightarrow> holding (pk_pc s t) \<or> pk_owner s = None"
  shows "pk_lock_inv s'"
  using assms unfolding pk_lock_inv_def by (auto split: if_splits)

lemma pk_lock_same:
  assumes "pk_lock_inv s" and "\<And>u. holding (pk_pc s' u) \<longleftrightarrow> holding (pk_pc s u)"
    and "pk_owner s' = pk_owner s"
  shows "pk_lock_inv s'"
  using assms(1) unfolding pk_lock_inv_def assms(2,3) .

lemma park_step_lock:
  assumes "park_step W s s'" and "pk_lock_inv s"
  shows "pk_lock_inv s'"
  using assms
proof (cases rule: park_step.cases)
  case (notify_waiting t w)
  with assms(2) show ?thesis by (elim pk_lock_same) (auto simp: holding_def)
next
  case (shutdown_notify t)
  with assms(2) show ?thesis by (elim pk_lock_same) (auto simp: holding_def)
next
  case (push_discard t)
  with assms(2) show ?thesis by (elim pk_lock_same) auto
qed (auto elim!: pk_lock_step simp: holding_def)

lemma park_step_role:
  assumes "park_step W s s'" and "pk_role_inv W s"
  shows "pk_role_inv W s'"
  using assms
  by (cases rule: park_step.cases) (auto simp: pk_role_inv_def pc_classes split: if_splits)

lemma pk_holder:
  "pk_lock_inv s \<Longrightarrow> pk_owner s = None \<Longrightarrow> \<not> holding (pk_pc s t)"
  by (simp add: pk_lock_inv_def)

lemma pk_close_step:
  assumes "pk_close_inv s" and "pk_pc s' = (pk_pc s)(t := pc)"
    and "pk_shutting_down s' = pk_shutting_down s" and "pk_pc s t \<noteq> Closing"
    and "pc \<in> {Parking, Waiting} \<Longrightarrow> pk_pc s t \<in> {Parking, Waiting} \<or> \<not> pk_shutting_down s"
  shows "pk_close_inv s'"
  using assms unfolding pk_close_inv_def by (metis fun_upd_apply)

lemma park_step_close:
  assumes "park_step W s s'" and "pk_close_inv s" and "pk_lock_inv s"
  shows "pk_close_inv s'"
  using assms(1)
proof (cases rule: park_step.cases)
  case (shutdown_notify t)
  with pk_holder [OF assms(3)] have "pk_pc s u \<noteq> Parking" for u by (metis holding_def insertI1 insertI2)
  with shutdown_notify show ?thesis by (auto simp: pk_close_inv_def split: if_splits)
next
  case (notify_waiting t w)
  with pk_close_step [OF assms(2), of "pk_goto t Outside s" t Outside]
  have "pk_close_inv (pk_goto t Outside s)" by simp
  from pk_close_step [OF this, of s' w Woken] notify_waiting show ?thesis by simp
next
  case (shutdown_store t)
  then show ?thesis by (auto simp: pk_close_inv_def)
next
  case (push_discard t)
  with assms(2) show ?thesis by (simp add: pk_close_inv_def)
qed (insert assms(2), auto elim!: pk_close_step)

text \<open>Nobody counted, or the mutex free and nobody waiting: then no consumer has decided to sleep.\<close>

lemma nobody_asleep:
  assumes "pk_count_inv s" and "pk_waiters s = 0"
  shows "\<not> asleep (pk_pc s w)"
proof -
  from assms have "{t. registered (pk_pc s t)} = {}"
    unfolding pk_count_inv_def by (metis card_0_eq)
  then have "\<not> registered (pk_pc s w)" by blast
  then show ?thesis by (auto simp: pc_classes)
qed

lemma asleep_waiting:
  assumes "pk_lock_inv s" and "pk_owner s = None" and "asleep (pk_pc s w)"
  shows "pk_pc s w = Waiting"
  using pk_holder [OF assms(1,2), of w] assms(3) by (auto simp: pc_classes)

lemma pk_wake_step:
  assumes "pk_wake_inv W s" and "pk_pc s' = (pk_pc s)(t := pc)" and "pk_ready s' = pk_ready s"
    and "asleep pc \<Longrightarrow> asleep (pk_pc s t) \<or> \<not> pk_ready s"
    and "owes_notify (pk_pc s t) \<Longrightarrow> owes_notify pc"
  shows "pk_wake_inv W s'"
  using assms unfolding pk_wake_inv_def by (metis fun_upd_apply)

lemma park_step_wake:
  assumes "park_step W s s'" and "park_inv W s" and "W \<noteq> {}"
  shows "pk_wake_inv W s'"
proof -
  from assms(2) have I: "pk_count_inv s" "pk_lock_inv s" "pk_role_inv W s" "pk_wake_inv W s"
    by (simp_all add: park_inv_def)
  have in_W: "in_pop (pk_pc s t) \<Longrightarrow> t \<in> W" for t using I(3) by (simp add: pk_role_inv_def)
  from assms(1) show ?thesis
  proof (cases rule: park_step.cases)
    case (push_no_waiter t)
    with nobody_asleep [OF I(1)] assms(3) show ?thesis
      by (auto simp: pk_wake_inv_def asleep_def)
  next
    case (notify_nobody t)
    with asleep_waiting [OF I(2)] assms(3) show ?thesis
      by (auto simp: pk_wake_inv_def asleep_def)
  next
    case (notify_waiting t w)
    with in_W [of w] show ?thesis by (auto simp: pk_wake_inv_def pc_classes)
  next
    case (shutdown_notify t)
    with asleep_waiting [OF I(2)] assms(3) show ?thesis
      by (auto simp: pk_wake_inv_def asleep_def)
  next
    case (push_publish t p)
    then show ?thesis by (auto simp: pk_wake_inv_def owes_notify_def)
  next
    case (push_discard t)
    with I(4) show ?thesis by (auto simp: pk_wake_inv_def)
  next
    case (spin_take t)
    with in_W [of t] show ?thesis by (auto simp: pk_wake_inv_def pc_classes)
  next
    case (spin_last_take t)
    with in_W [of t] show ?thesis by (auto simp: pk_wake_inv_def pc_classes)
  next
    case (recheck_take t)
    with in_W [of t] show ?thesis by (auto simp: pk_wake_inv_def pc_classes)
  next
    case (last_take t)
    with in_W [of t] show ?thesis by (auto simp: pk_wake_inv_def pc_classes)
  qed (use I(4) in \<open>auto elim!: pk_wake_step simp: asleep_def owes_notify_def\<close>)
qed

lemma park_inv_reach:
  assumes "park_reach W s" and "W \<noteq> {}"
  shows "park_inv W s"
  using assms
proof (induction rule: park_reach.induct)
  case start
  then show ?case
    by (simp add: park_inv_def park_init_def pk_count_inv_def pk_lock_inv_def pk_role_inv_def
        pk_wake_inv_def pk_close_inv_def pk_ready_def pc_classes)
next
  case (step s s')
  then have "park_inv W s" by simp
  with step.hyps(2) step.prems show ?case
    using park_step_count park_step_lock park_step_role park_step_close park_step_wake
    unfolding park_inv_def by metis
qed

section \<open>What the protocol guarantees\<close>

text \<open>The consumers of the lock-free queue never all sleep on a queued item: in every reachable
  state in which each of them is parked in \<^verbatim>\<open>not_empty_.wait\<close> and no producer still has a
  notification to make, the slot at the dequeue cursor is not published, so \<^verbatim>\<open>try_pop()\<close> would
  find nothing. However the pushes, the registrations in \<open>waiters_\<close> and the notifications interleave,
  the last wakeup is not lost.\<close>

theorem parking_no_lost_wakeup:
  assumes "park_reach W s" and "W \<noteq> {}"
    and "\<And>w. w \<in> W \<Longrightarrow> pk_pc s w = Waiting" and "\<And>t. pk_pc s t \<noteq> Published \<and> pk_pc s t \<noteq> Notifying"
  shows "\<not> pk_ready s"
  using park_inv_reach [OF assms(1,2)] assms(3,4)
  by (auto simp: park_inv_def pk_wake_inv_def pc_classes)

text \<open>Once \<^verbatim>\<open>shutdown()\<close> has returned on every thread that called it, no consumer waits on the
  condition variable or is about to: each one inside \<^verbatim>\<open>pop()\<close> has been woken and will see the flag.
  A consumer that read the flag as false before it was set holds the mutex until it waits, so the
  \<^verbatim>\<open>notify_all\<close> reaches it.\<close>

theorem parking_shutdown_wakes_everyone:
  assumes "park_reach W s" and "W \<noteq> {}" and "pk_shutting_down s" and "\<And>t. pk_pc s t \<noteq> Closing"
  shows "pk_pc s w \<noteq> Waiting \<and> pk_pc s w \<noteq> Parking"
  using park_inv_reach [OF assms(1,2)] assms(3,4)
  by (auto simp: park_inv_def pk_close_inv_def)

text \<open>One consumer (thread 1) that has parked on the empty queue.\<close>

definition parked_example :: parking where
  "parked_example = park_init\<lparr>pk_waiters := 1, pk_pc := (\<lambda>_. Outside)(1 := Waiting)\<rparr>"

lemma parked_example_reach: "park_reach {1} parked_example"
proof -
  let ?at = "\<lambda>pc. (\<lambda>_. Outside)(1 := pc)"
  have 1: "park_reach {1} (park_init\<lparr>pk_pc := ?at Spinning\<rparr>)"
    using park_reach.step [OF park_reach.start pop_call [of 1 "{1}"]] by (simp add: park_init_def pk_goto_def)
  have 2: "park_reach {1} (park_init\<lparr>pk_pc := ?at Locking\<rparr>)"
    using park_reach.step [OF 1 spin_give_up [of _ 1]] by (simp add: pk_goto_def)
  have 3: "park_reach {1} (park_init\<lparr>pk_owner := Some 1, pk_pc := ?at Registering\<rparr>)"
    using park_reach.step [OF 2 park_lock [of _ 1]] by (simp add: park_init_def pk_goto_def)
  have 4: "park_reach {1} (park_init\<lparr>pk_waiters := 1, pk_owner := Some 1, pk_pc := ?at Rechecking\<rparr>)"
    using park_reach.step [OF 3 park_register [of _ 1]] by (simp add: park_init_def pk_goto_def)
  have 5: "park_reach {1} (park_init\<lparr>pk_waiters := 1, pk_owner := Some 1, pk_pc := ?at Missed\<rparr>)"
    using park_reach.step [OF 4 recheck_miss [of _ 1]] by (simp add: park_init_def pk_goto_def pk_ready_def)
  have 6: "park_reach {1} (park_init\<lparr>pk_waiters := 1, pk_owner := Some 1, pk_pc := ?at Parking\<rparr>)"
    using park_reach.step [OF 5 read_open [of _ 1]] by (simp add: park_init_def pk_goto_def)
  show ?thesis
    using park_reach.step [OF 6 wait [of _ 1]] by (simp add: park_init_def pk_goto_def parked_example_def)
qed

theorem parking_no_lost_wakeup_witness:
  "pk_pc parked_example 1 = Waiting \<and> \<not> pk_ready parked_example"
proof -
  have "pk_pc parked_example 1 = Waiting" by (simp add: parked_example_def)
  with parking_no_lost_wakeup [OF parked_example_reach] show ?thesis
    by (simp add: parked_example_def)
qed

theorem parking_shutdown_wakes_everyone_witness:
  "\<exists>s. park_reach {1} s \<and> pk_shutting_down s \<and> pk_pc s 1 = Woken \<and> pk_pc s 1 \<noteq> Waiting \<and> pk_pc s 1 \<noteq> Parking"
proof -
  let ?s1 = "parked_example\<lparr>pk_shutting_down := True, pk_pc := (\<lambda>_. Outside)(1 := Waiting, 0 := Closing)\<rparr>"
  let ?s2 = "parked_example\<lparr>pk_shutting_down := True, pk_pc := (\<lambda>_. Outside)(1 := Woken)\<rparr>"
  have 1: "park_reach {1} ?s1"
    using park_reach.step [OF parked_example_reach shutdown_store [of 0]]
    by (simp add: parked_example_def pk_goto_def)
  have "(\<lambda>w. if w = 0 then Outside else if pk_pc ?s1 w = Waiting then Woken else pk_pc ?s1 w)
      = (\<lambda>_. Outside)(1 := Woken)"
    by (auto simp: fun_eq_iff)
  with park_reach.step [OF 1 shutdown_notify [of _ 0]] have 2: "park_reach {1} ?s2"
    by (simp add: parked_example_def park_init_def)
  have "pk_pc ?s2 1 \<noteq> Waiting \<and> pk_pc ?s2 1 \<noteq> Parking"
    by (rule parking_shutdown_wakes_everyone [OF 2]) simp_all
  with 2 show ?thesis by (intro exI [of _ ?s2]) simp
qed

end
