(* ===== verification/Lock_Free_Concurrent.thy ===== *)
theory Lock_Free_Concurrent
  imports Lock_Free_Parking "HOL-Library.Multiset"
begin

text \<open>
  The whole of \<^verbatim>\<open>LockFreeBoundedQueue\<close> under any number of threads: \<open>push\<close>, \<open>pop\<close> and \<open>shutdown\<close> as the sources have them,
  one shared access per step. Inside, \<open>try_push\<close> and \<open>try_pop\<close> run as in \<open>Lock_Free_Ring\<close>; around them are the policy,
  the bounded spin, the registration in \<open>waiters_\<close>, the condition variable and the notification. The machine
  projects to the ring, and refines the parking protocol of \<open>Lock_Free_Parking\<close>, in which \<open>try_pop\<close> is
  one step: a \<open>try_pop\<close> that finds nothing takes effect when it loads the sequence of the slot, one that finds an item when
  its compare-and-swap succeeds.
\<close>

section \<open>Threads and shared state\<close>

datatype 'a call_pc =
    At_Rest
  | Trying_Push 'a                  \<comment> \<open>push: the first \<open>try_push\<close>\<close>
  | Discarding 'a                   \<comment> \<open>push: the \<open>try_pop\<close> under \<open>DropOldest\<close>\<close>
  | Trying_Again 'a                 \<comment> \<open>push: the second \<open>try_push\<close>\<close>
  | Fenced PushResult 'a            \<comment> \<open>\<open>notify_one_waiter\<close>: before the load of \<open>waiters_\<close>\<close>
  | Notify PushResult 'a            \<comment> \<open>\<open>notify_one_waiter\<close>: wants the mutex\<close>
  | Spin_Pop nat                    \<comment> \<open>pop, phase 1: the \<open>try_pop\<close> of an attempt\<close>
  | Spin_Flag nat                   \<comment> \<open>pop, phase 1: before the load of the flag\<close>
  | Spin_Final                      \<comment> \<open>pop, phase 1: the \<open>try_pop\<close> after the flag was seen\<close>
  | Want_Lock                       \<comment> \<open>pop, phase 2: wants the mutex\<close>
  | Loop_Top                        \<comment> \<open>pop, phase 2: before the increment of \<open>waiters_\<close>\<close>
  | Recheck_Pop                     \<comment> \<open>pop, phase 2: the \<open>try_pop\<close> after registering\<close>
  | Recheck_Flag "'a option"        \<comment> \<open>pop, phase 2: before the load of the flag\<close>
  | About_To_Wait
  | In_Wait
  | Notified                        \<comment> \<open>pop, phase 2: inside \<open>wait\<close>, wants the mutex back\<close>
  | Wait_Returned
  | Unregister "'a option"          \<comment> \<open>pop, phase 2: before the decrement of \<open>waiters_\<close>\<close>
  | Final_Pop                       \<comment> \<open>pop, phase 2: the \<open>try_pop\<close> of the last line\<close>
  | Unlock "'a option"              \<comment> \<open>pop, phase 2: returns, the mutex is released\<close>
  | Shutting                        \<comment> \<open>shutdown: flag stored, wants the mutex\<close>

record 'a lfq =
  lq_ring :: "'a ring"
  lq_policy :: BackpressurePolicy
  lq_waiters :: nat
  lq_owner :: "nat option"
  lq_shutting_down :: bool
  lq_pc :: "nat \<Rightarrow> 'a call_pc"
  lq_pushes :: "(PushResult \<times> 'a) list"   \<comment> \<open>history: what the calls of \<open>push\<close> returned\<close>
  lq_pops :: "'a option list"              \<comment> \<open>history: what the calls of \<open>pop\<close> returned\<close>
  lq_discards :: "'a list"                 \<comment> \<open>history: what \<open>push\<close> threw away\<close>

section \<open>Steps\<close>

definition lq_goto :: "nat \<Rightarrow> 'a call_pc \<Rightarrow> 'a lfq \<Rightarrow> 'a lfq" where
  "lq_goto t pc s = s\<lparr>lq_pc := (lq_pc s)(t := pc)\<rparr>"

definition push_returns :: "nat \<Rightarrow> PushResult \<Rightarrow> 'a \<Rightarrow> 'a lfq \<Rightarrow> 'a lfq" where
  "push_returns t r x s = lq_goto t At_Rest (s\<lparr>lq_pushes := lq_pushes s @ [(r, x)]\<rparr>)"

definition pop_returns :: "nat \<Rightarrow> 'a option \<Rightarrow> 'a lfq \<Rightarrow> 'a lfq" where
  "pop_returns t r s = lq_goto t At_Rest (s\<lparr>lq_pops := lq_pops s @ [r]\<rparr>)"

text \<open>Where a call of \<open>try_push\<close> or of \<open>try_pop\<close> is due or under way.\<close>

fun wants_push :: "'a call_pc \<Rightarrow> 'a option" where
  "wants_push (Trying_Push x) = Some x"
| "wants_push (Trying_Again x) = Some x"
| "wants_push _ = None"

fun wants_pop :: "'a call_pc \<Rightarrow> bool" where
  "wants_pop (Discarding x) = True"
| "wants_pop (Spin_Pop n) = True"
| "wants_pop Spin_Final = True"
| "wants_pop Recheck_Pop = True"
| "wants_pop Final_Pop = True"
| "wants_pop _ = False"

text \<open>What they return, by the point at which the thread leaves the ring, and how the caller goes on.\<close>

datatype 'a try_result = Push_Done bool | Pop_Done "'a option"

fun ring_result :: "'a ring_pc \<Rightarrow> 'a try_result" where
  "ring_result (Push_Publish pos) = Push_Done True"
| "ring_result (Push_Test x pos sq) = Push_Done False"
| "ring_result (Pop_Release x pos) = Pop_Done (Some x)"
| "ring_result _ = Pop_Done None"

fun after_try :: "nat \<Rightarrow> 'a call_pc \<Rightarrow> 'a try_result \<Rightarrow> 'a lfq \<Rightarrow> 'a lfq" where
  "after_try t (Trying_Push x) (Push_Done ok) s =
     (if ok then lq_goto t (Fenced Accepted x) s
      else if lq_policy s = DropOldest then lq_goto t (Discarding x) s
      else push_returns t RejectedBackpressure x s)"
| "after_try t (Discarding x) (Pop_Done (Some y)) s = lq_goto t (Trying_Again x) (s\<lparr>lq_discards := lq_discards s @ [y]\<rparr>)"
| "after_try t (Discarding x) (Pop_Done None) s = push_returns t RejectedBackpressure x s"
| "after_try t (Trying_Again x) (Push_Done ok) s =
     (if ok then lq_goto t (Fenced DroppedOldest x) s else push_returns t RejectedBackpressure x s)"
| "after_try t (Spin_Pop n) (Pop_Done (Some y)) s = pop_returns t (Some y) s"
| "after_try t (Spin_Pop n) (Pop_Done None) s = lq_goto t (Spin_Flag n) s"
| "after_try t Spin_Final (Pop_Done r) s = pop_returns t r s"
| "after_try t Recheck_Pop (Pop_Done r) s = lq_goto t (Recheck_Flag r) s"
| "after_try t Final_Pop (Pop_Done r) s = lq_goto t (Unlock r) s"
| "after_try t _ _ s = s"

text \<open>\<open>W\<close> is the set of consumers; every other thread may push or shut down. A step of a thread inside the
  ring is a step of the ring that leaves the other threads where they are.\<close>

inductive lq_step :: "nat set \<Rightarrow> 'a lfq \<Rightarrow> 'a lfq \<Rightarrow> bool" for W where
  push_call: "t \<notin> W \<Longrightarrow> lq_pc s t = At_Rest \<Longrightarrow> lq_step W s (lq_goto t (Trying_Push x) s)"
| pop_call: "t \<in> W \<Longrightarrow> lq_pc s t = At_Rest \<Longrightarrow> lq_step W s (lq_goto t (Spin_Pop 0) s)"
| shutdown_call: "t \<notin> W \<Longrightarrow> lq_pc s t = At_Rest \<Longrightarrow> lq_step W s (lq_goto t Shutting (s\<lparr>lq_shutting_down := True\<rparr>))"
| try_push_begins: "rg_pc (lq_ring s) t = Idle \<Longrightarrow> wants_push (lq_pc s t) = Some x \<Longrightarrow>
    lq_step W s (s\<lparr>lq_ring := rg_goto t (Push_Read x (rg_enqueue_pos (lq_ring s))) (lq_ring s)\<rparr>)"
| try_pop_begins: "rg_pc (lq_ring s) t = Idle \<Longrightarrow> wants_pop (lq_pc s t) \<Longrightarrow>
    lq_step W s (s\<lparr>lq_ring := rg_goto t (Pop_Read (rg_dequeue_pos (lq_ring s))) (lq_ring s)\<rparr>)"
| try_goes_on: "rg_pc (lq_ring s) t \<noteq> Idle \<Longrightarrow> ring_step (lq_ring s) r' \<Longrightarrow> rg_pc r' t \<noteq> Idle \<Longrightarrow>
    (\<And>u. u \<noteq> t \<Longrightarrow> rg_pc r' u = rg_pc (lq_ring s) u) \<Longrightarrow> lq_step W s (s\<lparr>lq_ring := r'\<rparr>)"
| try_returns: "rg_pc (lq_ring s) t \<noteq> Idle \<Longrightarrow> ring_step (lq_ring s) r' \<Longrightarrow> rg_pc r' t = Idle \<Longrightarrow>
    (\<And>u. u \<noteq> t \<Longrightarrow> rg_pc r' u = rg_pc (lq_ring s) u) \<Longrightarrow>
    lq_step W s (after_try t (lq_pc s t) (ring_result (rg_pc (lq_ring s) t)) (s\<lparr>lq_ring := r'\<rparr>))"
| nobody_counted: "lq_pc s t = Fenced r x \<Longrightarrow> lq_waiters s = 0 \<Longrightarrow> lq_step W s (push_returns t r x s)"
| somebody_counted: "lq_pc s t = Fenced r x \<Longrightarrow> lq_waiters s \<noteq> 0 \<Longrightarrow> lq_step W s (lq_goto t (Notify r x) s)"
| notify_nobody: "lq_pc s t = Notify r x \<Longrightarrow> lq_owner s = None \<Longrightarrow> (\<And>w. lq_pc s w \<noteq> In_Wait) \<Longrightarrow>
    lq_step W s (push_returns t r x s)"
| notify_one: "lq_pc s t = Notify r x \<Longrightarrow> lq_owner s = None \<Longrightarrow> lq_pc s w = In_Wait \<Longrightarrow>
    lq_step W s (lq_goto w Notified (push_returns t r x s))"
| spin_open: "lq_pc s t = Spin_Flag n \<Longrightarrow> \<not> lq_shutting_down s \<Longrightarrow>
    lq_step W s (lq_goto t (if n + 1 < kSpinAttempts then Spin_Pop (n + 1) else Want_Lock) s)"
| spin_closed: "lq_pc s t = Spin_Flag n \<Longrightarrow> lq_shutting_down s \<Longrightarrow> lq_step W s (lq_goto t Spin_Final s)"
| lock: "lq_pc s t = Want_Lock \<Longrightarrow> lq_owner s = None \<Longrightarrow> lq_step W s (lq_goto t Loop_Top (s\<lparr>lq_owner := Some t\<rparr>))"
| register: "lq_pc s t = Loop_Top \<Longrightarrow> lq_step W s (lq_goto t Recheck_Pop (s\<lparr>lq_waiters := lq_waiters s + 1\<rparr>))"
| load_flag: "lq_pc s t = Recheck_Flag r \<Longrightarrow>
    lq_step W s (lq_goto t (if r = None \<and> \<not> lq_shutting_down s then About_To_Wait else Unregister r) s)"
| wait: "lq_pc s t = About_To_Wait \<Longrightarrow> lq_step W s (lq_goto t In_Wait (s\<lparr>lq_owner := None\<rparr>))"
| spurious: "lq_pc s t = In_Wait \<Longrightarrow> lq_step W s (lq_goto t Notified s)"
| wait_locks: "lq_pc s t = Notified \<Longrightarrow> lq_owner s = None \<Longrightarrow> lq_step W s (lq_goto t Wait_Returned (s\<lparr>lq_owner := Some t\<rparr>))"
| wait_done: "lq_pc s t = Wait_Returned \<Longrightarrow> lq_step W s (lq_goto t Loop_Top (s\<lparr>lq_waiters := lq_waiters s - 1\<rparr>))"
| unregister: "lq_pc s t = Unregister r \<Longrightarrow>
    lq_step W s (lq_goto t (case r of None \<Rightarrow> Final_Pop | Some y \<Rightarrow> Unlock r) (s\<lparr>lq_waiters := lq_waiters s - 1\<rparr>))"
| unlock: "lq_pc s t = Unlock r \<Longrightarrow> lq_step W s (pop_returns t r (s\<lparr>lq_owner := None\<rparr>))"
| notify_all: "lq_pc s t = Shutting \<Longrightarrow> lq_owner s = None \<Longrightarrow>
    lq_step W s (s\<lparr>lq_pc := (\<lambda>w. if w = t then At_Rest else if lq_pc s w = In_Wait then Notified else lq_pc s w)\<rparr>)"

text \<open>A fresh queue, no thread inside.\<close>

definition lq_init :: "'a LockFreeQueue \<Rightarrow> 'a lfq" where
  "lq_init q = \<lparr>lq_ring = ring_init q, lq_policy = lf_policy q, lq_waiters = 0, lq_owner = None, lq_shutting_down = lf_shutting_down q,
     lq_pc = (\<lambda>_. At_Rest), lq_pushes = [], lq_pops = [], lq_discards = []\<rparr>"

abbreviation lq_reach :: "nat set \<Rightarrow> 'a LockFreeQueue \<Rightarrow> 'a lfq \<Rightarrow> bool" where
  "lq_reach W q \<equiv> (lq_step W)\<^sup>*\<^sup>* (lq_init q)"

lemma lq_goto_simps [simp]:
  "lq_ring (lq_goto t pc s) = lq_ring s" "lq_policy (lq_goto t pc s) = lq_policy s"
  "lq_waiters (lq_goto t pc s) = lq_waiters s" "lq_owner (lq_goto t pc s) = lq_owner s"
  "lq_shutting_down (lq_goto t pc s) = lq_shutting_down s" "lq_pc (lq_goto t pc s) = (lq_pc s)(t := pc)"
  "lq_pushes (lq_goto t pc s) = lq_pushes s" "lq_pops (lq_goto t pc s) = lq_pops s" "lq_discards (lq_goto t pc s) = lq_discards s"
  by (simp_all add: lq_goto_def)

lemma after_try_frame [simp]:
  "lq_ring (after_try t c res s) = lq_ring s" "lq_policy (after_try t c res s) = lq_policy s"
  "lq_waiters (after_try t c res s) = lq_waiters s" "lq_owner (after_try t c res s) = lq_owner s"
  "lq_shutting_down (after_try t c res s) = lq_shutting_down s"
  "u \<noteq> t \<Longrightarrow> lq_pc (after_try t c res s) u = lq_pc s u"
  by (cases "(t, c, res, s)" rule: after_try.cases; simp add: push_returns_def pop_returns_def)+

section \<open>The ring inside\<close>

lemma lq_step_ring:
  assumes "lq_step W s s'"
  shows "lq_ring s' = lq_ring s \<or> ring_step (lq_ring s) (lq_ring s')"
  using assms by (cases rule: lq_step.cases) (auto simp: push_returns_def pop_returns_def intro: ring_step.intros)

lemma lq_reach_ring:
  assumes "lq_reach W q s"
  shows "ring_reach q (lq_ring s)"
  using assms
proof (induction rule: rtranclp_induct)
  case base
  show ?case by (simp add: lq_init_def ring_reach.start)
next
  case (step s s')
  with lq_step_ring [OF step(2)] show ?case by (metis ring_reach.step)
qed

text \<open>The point of a thread in the ring fits its call.\<close>

fun runs :: "'a call_pc \<Rightarrow> 'a ring_pc \<Rightarrow> bool" where
  "runs c Idle = True"
| "runs c (Push_Read x pos) = (wants_push c = Some x)"
| "runs c (Push_Test x pos sq) = (wants_push c = Some x)"
| "runs c (Push_Write x pos) = (wants_push c = Some x)"
| "runs c (Push_Publish pos) = (wants_push c \<noteq> None)"
| "runs c (Pop_Read pos) = wants_pop c"
| "runs c (Pop_Test pos sq) = wants_pop c"
| "runs c (Pop_Take pos) = wants_pop c"
| "runs c (Pop_Release x pos) = wants_pop c"

text \<open>A step of the ring by the one thread that moves.\<close>

lemma ring_step_mover:
  assumes "ring_step r r'" "\<And>u. u \<noteq> t \<Longrightarrow> rg_pc r' u = rg_pc r u"
  shows "rg_pc r t \<noteq> rg_pc r' t"
proof -
  from assms(1) have "\<exists>u. rg_pc r' u \<noteq> rg_pc r u" by (cases rule: ring_step.cases) (auto intro!: exI)
  then show ?thesis using assms(2) by metis
qed

lemma ring_step_by:
  assumes step: "ring_step r r'" and others: "\<forall>u. u \<noteq> t \<longrightarrow> rg_pc r' u = rg_pc r u" and "rg_pc r t \<noteq> Idle"
  obtains
    (push_sequence) x pos where "rg_pc r t = Push_Read x pos" "r' = rg_goto t (Push_Test x pos (rg_sequence r pos)) r"
  | (push_claim) x pos sq where "rg_pc r t = Push_Test x pos sq" "seq_diff sq pos = 0" "rg_enqueue_pos r = pos"
      "r' = rg_goto t (Push_Write x pos) (r\<lparr>rg_enqueue_pos := pos + 1, rg_pushed := rg_pushed r @ [x]\<rparr>)"
  | (push_again) x pos sq where "rg_pc r t = Push_Test x pos sq" "r' = rg_goto t (Push_Read x (rg_enqueue_pos r)) r"
  | (push_full) x pos sq where "rg_pc r t = Push_Test x pos sq" "seq_diff sq pos < 0" "r' = rg_goto t Idle r"
  | (push_write) x pos where "rg_pc r t = Push_Write x pos" "r' = rg_goto t (Push_Publish pos) (rg_set_storage r pos x)"
  | (push_publish) pos where "rg_pc r t = Push_Publish pos" "r' = rg_goto t Idle (rg_set_sequence r pos (pos + 1))"
  | (pop_sequence) pos where "rg_pc r t = Pop_Read pos" "r' = rg_goto t (Pop_Test pos (rg_sequence r pos)) r"
  | (pop_claim) pos sq where "rg_pc r t = Pop_Test pos sq" "seq_diff sq (pos + 1) = 0" "rg_dequeue_pos r = pos"
      "r' = rg_goto t (Pop_Take pos) (r\<lparr>rg_dequeue_pos := pos + 1\<rparr>)"
  | (pop_again) pos sq where "rg_pc r t = Pop_Test pos sq" "seq_diff sq (pos + 1) \<ge> 0"
      "r' = rg_goto t (Pop_Read (rg_dequeue_pos r)) r"
  | (pop_empty) pos sq where "rg_pc r t = Pop_Test pos sq" "seq_diff sq (pos + 1) < 0" "r' = rg_goto t Idle r"
  | (pop_take) pos where "rg_pc r t = Pop_Take pos"
      "r' = rg_goto t (Pop_Release (slot_storage (rg_buffer r ! rg_index r pos)) pos) r"
  | (pop_release) x pos where "rg_pc r t = Pop_Release x pos"
      "r' = rg_goto t Idle ((rg_set_sequence r pos (pos + rg_mask r + 1))\<lparr>rg_popped := rg_popped r @ [(unat pos, x)]\<rparr>)"
proof -
  have "rg_pc r t \<noteq> rg_pc r' t" using others by (intro ring_step_mover [OF step]) simp
  with step show thesis
    by (cases rule: ring_step.cases) (use assms(3) in \<open>auto split: if_splits intro: that\<close>)
qed

lemma runs_idle: "runs c i \<Longrightarrow> wants_push c = None \<Longrightarrow> \<not> wants_pop c \<Longrightarrow> i = Idle"
  by (cases i) simp_all

lemma lq_step_runs:
  assumes "lq_step W s s'" "\<forall>t. runs (lq_pc s t) (rg_pc (lq_ring s) t)"
  shows "\<forall>t. runs (lq_pc s' t) (rg_pc (lq_ring s') t)"
proof -
  have idle: "rg_pc (lq_ring s) t = Idle" if "wants_push (lq_pc s t) = None" "\<not> wants_pop (lq_pc s t)" for t
    using that assms(2) runs_idle by blast
  from assms(1) show ?thesis
  proof (cases rule: lq_step.cases)
    case (try_goes_on t r')
    have "\<forall>u. u \<noteq> t \<longrightarrow> rg_pc r' u = rg_pc (lq_ring s) u" using try_goes_on(5) by blast
    with try_goes_on(3) have "runs (lq_pc s t) (rg_pc r' t)" using try_goes_on(2)
      by (cases rule: ring_step_by) (use spec [OF assms(2), of t] try_goes_on(4) in auto)
    then show ?thesis using try_goes_on(1,5) assms(2) by (metis lfq.select_convs(1,6) lfq.surjective lfq.update_convs(1))
  next
    case (try_returns t r')
    then show ?thesis using assms(2) by (metis after_try_frame(1,6) lfq.select_convs(1,6) lfq.surjective lfq.update_convs(1) runs.simps(1))
  qed (use assms(2) in \<open>auto simp: push_returns_def pop_returns_def idle\<close>)
qed

section \<open>What a load of the head sees\<close>

definition published :: "'a ring \<Rightarrow> nat set" where
  "published r = {i. i < rg_e r \<and> (\<forall>t. \<not> pushing (rg_pc r t) i)}"

lemma mod_lap:
  assumes "i mod N = d mod N" "i < (d::nat)"
  shows "i + N \<le> d"
proof -
  have "N dvd d - i" using mod_eq_dvd_iff_nat [of i d N] assms by simp
  then have "N \<le> d - i" using assms(2) by (intro dvd_imp_le) simp_all
  then show ?thesis using assms(2) by simp
qed

lemma slot_position_range:
  assumes "ring_inv r" "j < rg_N r"
  shows "rg_sq r j \<le> rg_e r + rg_N r"
  using assms
proof (cases rule: ring_inv_slot)
  case (free i)
  with ring_invD(3) [OF assms(1)] show ?thesis by (simp add: slot_free_def)
next
  case (full i)
  then show ?thesis by (simp add: slot_full_def)
qed

lemma dequeued_sequence:
  assumes inv: "ring_inv r" and "p < rg_d r"
  shows "Suc p \<le> rg_sq r (p mod rg_N r)"
proof -
  have "p mod rg_N r < rg_N r" using ring_invD(6) [OF inv] by (intro mod_less_divisor) linarith
  with inv show ?thesis
  proof (cases rule: ring_inv_slot)
    case (free i)
    with assms(2) show ?thesis by (auto simp: slot_free_def)
  next
    case (full i)
    then have "\<not> i < p" using mod_lap [of i "rg_N r" p] assms(2) by (auto simp: slot_full_def)
    with full show ?thesis by (simp add: slot_full_def)
  qed
qed

lemma head_published:
  assumes inv: "ring_inv r"
  shows "rg_d r \<in> published r \<longleftrightarrow> Suc (rg_d r) \<le> rg_sq r (rg_d r mod rg_N r)"
proof
  assume "Suc (rg_d r) \<le> rg_sq r (rg_d r mod rg_N r)"
  from slot_at_dequeue [OF inv this] have d: "rg_sq r (rg_d r mod rg_N r) = Suc (rg_d r)" "rg_d r < rg_e r"
    by (simp_all add: slot_full_def)
  have "\<not> pushing (rg_pc r t) (rg_d r)" for t
    using ring_invD(5) [OF inv, of t] d(1) by (cases "rg_pc r t") auto
  with d(2) show "rg_d r \<in> published r" by (simp add: published_def)
next
  assume d: "rg_d r \<in> published r"
  have "rg_d r mod rg_N r < rg_N r" using ring_invD(6) [OF inv] by (intro mod_less_divisor) linarith
  with inv show "Suc (rg_d r) \<le> rg_sq r (rg_d r mod rg_N r)"
  proof (cases rule: ring_inv_slot)
    case (free i)
    then have "i = rg_d r" using mod_window_start [of i "rg_N r" "rg_d r"] by (simp add: slot_free_def)
    with free d show ?thesis by (auto simp: slot_free_def published_def)
  next
    case (full i)
    then have "\<not> i < rg_d r" using mod_lap [of i "rg_N r" "rg_d r"] d by (auto simp: slot_full_def published_def)
    with full show ?thesis by (simp add: slot_full_def)
  qed
qed

text \<open>A consumer that finds the sequence of its slot too small has looked at the head, and the head was not published.\<close>

lemma miss_at_head:
  assumes inv: "ring_inv r" and bound: "rg_e r + rg_N r < half_range"
    and "rg_pc r t = Pop_Read pos" "seq_diff (rg_sequence r pos) (pos + 1) < 0"
  shows "rg_d r \<notin> published r"
proof -
  note D = ring_invD [OF inv]
  let ?j = "unat pos mod rg_N r"
  have j: "?j < rg_N r" using D(6) by (intro mod_less_divisor) linarith
  have le: "unat pos \<le> rg_d r" using D(5) [of t] assms(3) by simp
  have seq: "rg_sequence r pos = of_nat (rg_sq r ?j)" "rg_sq r ?j < half_range"
    using slot_position_range [OF inv j] bound ring_shapeD(2) [OF D(1)] by (simp_all add: rg_sequence_def)
  have "pos + 1 = of_nat (Suc (unat pos))" by simp
  moreover have "Suc (unat pos) < half_range" using le D(3,6) bound by linarith
  ultimately have "seq_diff (rg_sequence r pos) (pos + 1) = int (rg_sq r ?j) - int (Suc (unat pos))"
    using seq by (simp only: seq_diff_of_nat)
  with assms(4) have less: "rg_sq r ?j < Suc (unat pos)" by linarith
  with dequeued_sequence [OF inv, of "unat pos"] le have "unat pos = rg_d r" by (cases "unat pos < rg_d r") auto
  with less head_published [OF inv] show ?thesis by simp
qed

section \<open>The parking protocol is an abstraction\<close>

text \<open>The position a producer has claimed and not published; a consumer that has claimed an item, one that has seen none.\<close>

fun claimed :: "'a ring_pc \<Rightarrow> nat option" where
  "claimed (Push_Write x pos) = Some (unat pos)"
| "claimed (Push_Publish pos) = Some (unat pos)"
| "claimed _ = None"

fun taking :: "'a ring_pc \<Rightarrow> bool" where
  "taking (Pop_Take pos) = True"
| "taking (Pop_Release x pos) = True"
| "taking _ = False"

fun missed :: "'a ring_pc \<Rightarrow> bool" where
  "missed (Pop_Test pos sq) = (seq_diff sq (pos + 1) < 0)"
| "missed _ = False"

fun abs_pc :: "'a call_pc \<Rightarrow> 'a ring_pc \<Rightarrow> park_pc" where
  "abs_pc At_Rest i = Outside"
| "abs_pc (Trying_Push x) i = (case claimed i of None \<Rightarrow> Outside | Some p \<Rightarrow> Claimed p)"
| "abs_pc (Discarding x) i = Outside"
| "abs_pc (Trying_Again x) i = (case claimed i of None \<Rightarrow> Outside | Some p \<Rightarrow> Claimed p)"
| "abs_pc (Fenced r x) i = Published"
| "abs_pc (Notify r x) i = Notifying"
| "abs_pc (Spin_Pop n) i = (if taking i then Outside else Spinning)"
| "abs_pc (Spin_Flag n) i = Spinning"
| "abs_pc Spin_Final i = (if taking i \<or> missed i then Outside else Spin_Last)"
| "abs_pc Want_Lock i = Locking"
| "abs_pc Loop_Top i = Registering"
| "abs_pc Recheck_Pop i = (if taking i then Found else if missed i then Missed else Rechecking)"
| "abs_pc (Recheck_Flag r) i = (if r = None then Missed else Found)"
| "abs_pc About_To_Wait i = Parking"
| "abs_pc In_Wait i = Waiting"
| "abs_pc Notified i = Woken"
| "abs_pc Wait_Returned i = Resumed"
| "abs_pc (Unregister r) i = (if r = None then Draining else Found)"
| "abs_pc Final_Pop i = (if taking i \<or> missed i then Leaving else Last_Try)"
| "abs_pc (Unlock r) i = Leaving"
| "abs_pc Shutting i = Closing"

definition lq_abs :: "'a lfq \<Rightarrow> parking" where
  "lq_abs s = \<lparr>pk_deq = rg_d (lq_ring s), pk_published = published (lq_ring s), pk_enq = rg_e (lq_ring s),
     pk_waiters = lq_waiters s, pk_owner = lq_owner s, pk_shutting_down = lq_shutting_down s,
     pk_pc = (\<lambda>t. abs_pc (lq_pc s t) (rg_pc (lq_ring s) t))\<rparr>"

lemma lq_abs_simps [simp]:
  "pk_deq (lq_abs s) = rg_d (lq_ring s)" "pk_published (lq_abs s) = published (lq_ring s)" "pk_enq (lq_abs s) = rg_e (lq_ring s)"
  "pk_waiters (lq_abs s) = lq_waiters s" "pk_owner (lq_abs s) = lq_owner s" "pk_shutting_down (lq_abs s) = lq_shutting_down s"
  "pk_pc (lq_abs s) t = abs_pc (lq_pc s t) (rg_pc (lq_ring s) t)"
  "pk_ready (lq_abs s) \<longleftrightarrow> rg_d (lq_ring s) \<in> published (lq_ring s)"
  by (simp_all add: lq_abs_def pk_ready_def)

text \<open>What a step of one thread does to the abstraction.\<close>

lemma lq_abs_move:
  assumes "\<And>u. u \<noteq> t \<Longrightarrow> lq_pc s' u = lq_pc s u" "\<And>u. u \<noteq> t \<Longrightarrow> rg_pc (lq_ring s') u = rg_pc (lq_ring s) u"
  shows "lq_abs s' = pk_goto t (abs_pc (lq_pc s' t) (rg_pc (lq_ring s') t))
    ((lq_abs s)\<lparr>pk_deq := rg_d (lq_ring s'), pk_published := published (lq_ring s'), pk_enq := rg_e (lq_ring s'),
      pk_waiters := lq_waiters s', pk_owner := lq_owner s', pk_shutting_down := lq_shutting_down s'\<rparr>)"
  using assms by (simp add: lq_abs_def pk_goto_def fun_eq_iff)

lemma pk_goto_same: "pk_pc a t = pc \<Longrightarrow> pk_goto t pc a = a"
  by (cases a) (auto simp: pk_goto_def)

lemma pushing_claimed: "pushing i p \<longleftrightarrow> claimed i = Some p"
  by (cases i) auto

lemma published_same:
  assumes "rg_pushed r' = rg_pushed r" "\<And>u. claimed (rg_pc r' u) = claimed (rg_pc r u)"
  shows "published r' = published r"
  using assms by (simp add: published_def pushing_claimed)

text \<open>Threads that push are not consumers.\<close>

fun producing :: "'a call_pc \<Rightarrow> bool" where
  "producing (Trying_Push x) = True"
| "producing (Discarding x) = True"
| "producing (Trying_Again x) = True"
| "producing _ = False"

lemma lq_step_role:
  assumes "lq_step W s s'" "\<forall>t. producing (lq_pc s t) \<longrightarrow> t \<notin> W"
  shows "\<forall>t. producing (lq_pc s' t) \<longrightarrow> t \<notin> W"
  using assms(1)
proof (cases rule: lq_step.cases)
  case (try_returns t r')
  have "producing (lq_pc (after_try t (lq_pc s t) res s0) t) \<Longrightarrow> producing (lq_pc s t)" if "lq_pc s0 = lq_pc s" for res s0
    using that by (cases "(t, lq_pc s t, res, s0)" rule: after_try.cases)
      (auto simp: push_returns_def pop_returns_def split: if_splits)
  from this [of "s\<lparr>lq_ring := r'\<rparr>"] show ?thesis using assms(2) try_returns(1)
    by (metis after_try_frame(6) lfq.select_convs(6) lfq.surjective lfq.update_convs(1))
qed (use assms(2) in \<open>auto simp: push_returns_def pop_returns_def split: option.splits\<close>)

text \<open>Steps the abstraction does not see.\<close>

lemma lq_abs_quiet:
  assumes "\<And>u. u \<noteq> t \<Longrightarrow> lq_pc s' u = lq_pc s u" "\<And>u. u \<noteq> t \<Longrightarrow> rg_pc (lq_ring s') u = rg_pc (lq_ring s) u"
    and "rg_pushed (lq_ring s') = rg_pushed (lq_ring s)" "rg_dequeue_pos (lq_ring s') = rg_dequeue_pos (lq_ring s)"
    and "claimed (rg_pc (lq_ring s') t) = claimed (rg_pc (lq_ring s) t)"
    and "lq_waiters s' = lq_waiters s" "lq_owner s' = lq_owner s" "lq_shutting_down s' = lq_shutting_down s"
    and "abs_pc (lq_pc s' t) (rg_pc (lq_ring s') t) = abs_pc (lq_pc s t) (rg_pc (lq_ring s) t)"
  shows "lq_abs s' = lq_abs s"
proof -
  have "published (lq_ring s') = published (lq_ring s)"
    using assms(2,3,5) by (intro published_same) (metis, metis)
  with assms have "lq_abs s' = pk_goto t (pk_pc (lq_abs s) t) (lq_abs s)"
    by (subst lq_abs_move [of t s' s]) (simp_all add: lq_abs_def)
  then show ?thesis by (simp add: pk_goto_same)
qed

lemma published_claim:
  assumes "ring_inv r" "claimed (rg_pc r t) = None" "unat pos = rg_e r"
    and "r' = rg_goto t (Push_Write x pos) (r\<lparr>rg_enqueue_pos := pos + 1, rg_pushed := rg_pushed r @ [x]\<rparr>)"
  shows "published r' = published r"
  using not_pushing_next [OF assms(1)] assms(2-4)
  by (auto simp: published_def pushing_claimed less_Suc_eq split: if_splits)

lemma published_insert:
  assumes "ring_inv r" "rg_pc r t = Push_Publish pos" "r' = rg_goto t Idle (rg_set_sequence r pos v)"
  shows "published r' = insert (unat pos) (published r)"
proof -
  have "unat pos < rg_e r" using ring_invD(5) [OF assms(1), of t] assms(2) by simp
  moreover have "\<not> pushing (rg_pc r u) (unat pos)" if "u \<noteq> t" for u
    using ring_inv_push_unique [OF assms(1), of u "unat pos" t] assms(2) that by auto
  ultimately show ?thesis using assms(2,3) by (auto simp: published_def) (metis pushing.simps(2))
qed

text \<open>A thread inside the ring that stays there.\<close>

lemma goes_on_sim:
  assumes inv: "ring_inv (lq_ring s)" and bound: "rg_e r' + rg_N r' < half_range"
    and runs: "runs (lq_pc s t) (rg_pc (lq_ring s) t)" and role: "producing (lq_pc s t) \<longrightarrow> t \<notin> W"
    and step: "rg_pc (lq_ring s) t \<noteq> Idle" "ring_step (lq_ring s) r'" "rg_pc r' t \<noteq> Idle"
      "\<And>u. u \<noteq> t \<Longrightarrow> rg_pc r' u = rg_pc (lq_ring s) u"
  shows "park_step W (lq_abs s) (lq_abs (s\<lparr>lq_ring := r'\<rparr>)) \<or> lq_abs (s\<lparr>lq_ring := r'\<rparr>) = lq_abs s"
    (is "park_step W ?a (lq_abs ?s) \<or> _")
proof -
  let ?r = "lq_ring s" and ?c = "lq_pc s t"
  have quiet: "lq_abs ?s = ?a" if "rg_pushed r' = rg_pushed ?r" "rg_dequeue_pos r' = rg_dequeue_pos ?r"
    "claimed (rg_pc r' t) = claimed (rg_pc ?r t)" "abs_pc ?c (rg_pc r' t) = abs_pc ?c (rg_pc ?r t)"
    using that step(4) by (intro lq_abs_quiet [of t]) simp_all
  have move: "lq_abs ?s = pk_goto t (abs_pc ?c (rg_pc r' t)) (?a\<lparr>pk_deq := rg_d r', pk_published := published r', pk_enq := rg_e r'\<rparr>)"
    using step(4) by (subst lq_abs_move [of t ?s s]) (simp_all add: lq_abs_def)
  have "\<forall>u. u \<noteq> t \<longrightarrow> rg_pc r' u = rg_pc ?r u" using step(4) by blast
  with step(2) show ?thesis using step(1)
  proof (cases rule: ring_step_by)
    case (push_sequence x pos)
    then show ?thesis using runs by (intro disjI2 quiet) (cases ?c; simp)+
  next
    case (push_claim x pos sq)
    with runs have c: "?c = Trying_Push x \<or> ?c = Trying_Again x" by (cases ?c) auto
    have u: "unat pos = rg_e ?r" using push_claim_slot(1) [OF inv push_claim(1-3)] bound push_claim(4) by simp
    have "published r' = published ?r" using push_claim(1) by (intro published_claim [OF inv _ u push_claim(4)]) simp
    then have "lq_abs ?s = pk_goto t (Claimed (pk_enq ?a)) (?a\<lparr>pk_enq := pk_enq ?a + 1\<rparr>)"
      using move push_claim(4) c u by (auto simp: lq_abs_def pk_goto_def)
    moreover have "park_step W ?a (pk_goto t (Claimed (pk_enq ?a)) (?a\<lparr>pk_enq := pk_enq ?a + 1\<rparr>))"
      using c role push_claim(1) by (intro park_step.push_claim) auto
    ultimately show ?thesis by simp
  next
    case (push_again x pos sq)
    then show ?thesis using runs by (intro disjI2 quiet) (cases ?c; simp)+
  next
    case (push_write x pos)
    then show ?thesis using runs by (intro disjI2 quiet) (cases ?c; simp)+
  next
    case (pop_sequence pos)
    have pub: "published r' = published ?r" using pop_sequence by (intro published_same) auto
    show ?thesis
    proof (cases "missed (rg_pc r' t)")
      case False
      with pop_sequence runs show ?thesis by (intro disjI2 quiet) (cases ?c; simp)+
    next
      case True
      with pop_sequence have "seq_diff (rg_sequence ?r pos) (pos + 1) < 0" by simp
      with pop_sequence bound have miss: "\<not> pk_ready ?a" using miss_at_head [OF inv _ pop_sequence(1)] by simp
      have "lq_abs ?s = pk_goto t (abs_pc ?c (rg_pc r' t)) ?a" using move pop_sequence(2) pub by (simp add: lq_abs_def pk_goto_def)
      with True pop_sequence runs miss show ?thesis
        by (cases ?c) (auto simp: pk_goto_same intro: spin_last_empty recheck_miss last_empty)
    qed
  next
    case (pop_claim pos sq)
    have b: "rg_e ?r + rg_N ?r < half_range" using bound pop_claim(4) by simp
    note slot = pop_claim_slot [OF inv pop_claim(1-3) b]
    have ready: "pk_ready ?a" using slot(2) head_published [OF inv] by (simp add: slot_full_def)
    have pub: "published r' = published ?r" using pop_claim by (intro published_same) auto
    have "lq_abs ?s = pk_goto t (abs_pc ?c (Pop_Take pos)) (pk_take ?a)"
      using move pop_claim(4) pub slot(1) by (simp add: lq_abs_def pk_goto_def pk_take_def)
    with pop_claim runs role ready show ?thesis
      by (cases ?c) (auto simp: pk_goto_same intro: push_discard spin_take spin_last_take recheck_take last_take)
  next
    case (pop_again pos sq)
    then show ?thesis using runs by (intro disjI2 quiet) (cases ?c; simp)+
  next
    case (pop_take pos)
    then show ?thesis using runs by (intro disjI2 quiet) (cases ?c; simp)+
  qed (use step(3) in simp_all)
qed

text \<open>A thread that leaves the ring.\<close>

lemma returns_sim:
  assumes inv: "ring_inv (lq_ring s)" and runs: "runs (lq_pc s t) (rg_pc (lq_ring s) t)"
    and step: "rg_pc (lq_ring s) t \<noteq> Idle" "ring_step (lq_ring s) r'" "rg_pc r' t = Idle"
      "\<And>u. u \<noteq> t \<Longrightarrow> rg_pc r' u = rg_pc (lq_ring s) u"
    and s': "s' = after_try t (lq_pc s t) (ring_result (rg_pc (lq_ring s) t)) (s\<lparr>lq_ring := r'\<rparr>)"
  shows "park_step W (lq_abs s) (lq_abs s') \<or> lq_abs s' = lq_abs s"
proof -
  let ?r = "lq_ring s" and ?c = "lq_pc s t" and ?a = "lq_abs s"
  have quiet: "lq_abs s' = ?a" if "rg_pushed r' = rg_pushed ?r" "rg_dequeue_pos r' = rg_dequeue_pos ?r"
    "claimed (rg_pc ?r t) = None" "abs_pc (lq_pc s' t) Idle = abs_pc ?c (rg_pc ?r t)"
    using that step(3,4) unfolding s' by (intro lq_abs_quiet [of t]) simp_all
  have move: "lq_abs s' = pk_goto t (abs_pc (lq_pc s' t) Idle) (?a\<lparr>pk_deq := rg_d r', pk_published := published r', pk_enq := rg_e r'\<rparr>)"
    using step(3,4) unfolding s' by (subst lq_abs_move [of t _ s]) (simp_all add: lq_abs_def)
  have "\<forall>u. u \<noteq> t \<longrightarrow> rg_pc r' u = rg_pc ?r u" using step(4) by blast
  with step(2) show ?thesis using step(1)
  proof (cases rule: ring_step_by)
    case (push_full x pos sq)
    then have "abs_pc (lq_pc s' t) Idle = abs_pc ?c (rg_pc ?r t)"
      using runs unfolding s' by (cases ?c) (auto simp: push_returns_def)
    with push_full show ?thesis by (intro disjI2 quiet) simp_all
  next
    case (push_publish pos)
    then have "abs_pc (lq_pc s' t) Idle = Published" "pk_pc ?a t = Claimed (unat pos)"
      using runs unfolding s' by (cases ?c; auto)+
    with move push_publish published_insert [OF inv push_publish]
    have "lq_abs s' = pk_goto t Published (?a\<lparr>pk_published := insert (unat pos) (pk_published ?a)\<rparr>)"
      by (simp add: lq_abs_def pk_goto_def)
    with park_step.push_publish [of ?a t "unat pos" W] \<open>pk_pc ?a t = Claimed (unat pos)\<close> show ?thesis by simp
  next
    case (pop_empty pos sq)
    then have "abs_pc (lq_pc s' t) Idle = abs_pc ?c (rg_pc ?r t)"
      using runs unfolding s' by (cases ?c) (auto simp: push_returns_def pop_returns_def)
    with pop_empty show ?thesis by (intro disjI2 quiet) simp_all
  next
    case (pop_release x pos)
    then have "abs_pc (lq_pc s' t) Idle = abs_pc ?c (rg_pc ?r t)"
      using runs unfolding s' by (cases ?c) (auto simp: push_returns_def pop_returns_def)
    with pop_release show ?thesis by (intro disjI2 quiet) simp_all
  qed (use step(3) in simp_all)
qed

text \<open>A thread outside the ring.\<close>

lemma lq_abs_updates [simp]:
  "lq_abs (lq_goto t pc s) = pk_goto t (abs_pc pc (rg_pc (lq_ring s) t)) (lq_abs s)"
  "lq_abs (s\<lparr>lq_waiters := n\<rparr>) = (lq_abs s)\<lparr>pk_waiters := n\<rparr>" "lq_abs (s\<lparr>lq_owner := ow\<rparr>) = (lq_abs s)\<lparr>pk_owner := ow\<rparr>"
  "lq_abs (s\<lparr>lq_shutting_down := b\<rparr>) = (lq_abs s)\<lparr>pk_shutting_down := b\<rparr>"
  "lq_abs (s\<lparr>lq_pushes := ps\<rparr>) = lq_abs s" "lq_abs (s\<lparr>lq_pops := os\<rparr>) = lq_abs s"
  by (simp_all add: lq_abs_def pk_goto_def fun_eq_iff)

lemma abs_waiting: "abs_pc c i = Waiting \<longleftrightarrow> c = In_Wait"
  by (cases c) (simp_all split: option.splits)

lemma lq_step_sim:
  assumes step: "lq_step W s s'" and inv: "ring_inv (lq_ring s)" and bound: "rg_e (lq_ring s') + rg_N (lq_ring s') < half_range"
    and runs: "\<forall>t. runs (lq_pc s t) (rg_pc (lq_ring s) t)" and role: "\<forall>t. producing (lq_pc s t) \<longrightarrow> t \<notin> W"
  shows "park_step W (lq_abs s) (lq_abs s') \<or> lq_abs s' = lq_abs s"
proof -
  have idle: "rg_pc (lq_ring s) t = Idle" if "wants_push (lq_pc s t) = None" "\<not> wants_pop (lq_pc s t)" for t
    using that runs runs_idle by blast
  note defs = push_returns_def pop_returns_def
  from step show ?thesis
  proof (cases rule: lq_step.cases)
    case (try_push_begins t x)
    then show ?thesis by (intro disjI2 lq_abs_quiet [of t]) (auto elim: wants_push.elims)
  next
    case (try_pop_begins t)
    then show ?thesis by (intro disjI2 lq_abs_quiet [of t]) (auto elim: wants_pop.elims)
  next
    case (try_goes_on t r')
    with goes_on_sim [OF inv _ _ _ try_goes_on(2-5)] bound runs role show ?thesis by simp
  next
    case (try_returns t r')
    with returns_sim [OF inv _ try_returns(2-5,1)] runs show ?thesis by simp
  next
    case (register t)
    with park_step.park_register [of "lq_abs s" t W] show ?thesis by (simp add: idle)
  next
    case (wait_done t)
    with park_step.wake_unregister [of "lq_abs s" t W] show ?thesis by simp
  next
    case (unregister t r)
    with park_step.drain_unregister [of "lq_abs s" t W] park_step.found_unregister [of "lq_abs s" t W] show ?thesis
      by (cases r) (simp_all add: idle)
  next
    case (notify_nobody t r x)
    with park_step.notify_nobody [of "lq_abs s" t W] show ?thesis by (simp add: defs abs_waiting)
  next
    case (notify_one t r x w)
    with park_step.notify_waiting [of "lq_abs s" t w W] show ?thesis by (simp add: defs abs_waiting)
  next
    case (notify_all t)
    with park_step.shutdown_notify [of "lq_abs s" t W] show ?thesis
      by (simp add: abs_waiting) (simp add: lq_abs_def if_distrib [where f = "\<lambda>c. abs_pc c _"] abs_waiting cong: if_cong)
  qed (auto simp: defs idle pk_goto_same intro: park_step.intros split: option.splits)
qed

text \<open>What holds in every state that is reached, and the run of the protocol it stands for.\<close>

lemma lq_reach_runs:
  assumes "lq_reach W q s"
  shows "(\<forall>t. runs (lq_pc s t) (rg_pc (lq_ring s) t)) \<and> (\<forall>t. producing (lq_pc s t) \<longrightarrow> t \<notin> W)"
  using assms
proof (induction rule: rtranclp_induct)
  case base
  show ?case by (simp add: lq_init_def ring_init_def)
next
  case (step s s')
  then show ?case using lq_step_runs [OF step(2)] lq_step_role [OF step(2)] by blast
qed

lemma lq_reach_inv:
  assumes "lf_new dflt c p = Some (Inr q)" "lq_reach W q s" "rg_e (lq_ring s) + rg_N (lq_ring s) < half_range"
  shows "ring_inv (lq_ring s)" "pops_inv (lq_ring s)"
  using ring_reach_inv [OF lq_reach_ring [OF assms(2)] assms(1,3)] by simp_all

lemma lq_step_sizes:
  assumes "lq_step W s s'"
  shows "rg_e (lq_ring s) \<le> rg_e (lq_ring s') \<and> rg_N (lq_ring s') = rg_N (lq_ring s)"
  using lq_step_ring [OF assms] ring_step_sizes by fastforce

lemma lq_reach_park:
  assumes new: "lf_new dflt c p = Some (Inr q)" and "lq_reach W q s" "rg_e (lq_ring s) + rg_N (lq_ring s) < half_range"
  shows "park_reach W (lq_abs s)"
  using assms(2,3)
proof (induction rule: rtranclp_induct)
  case base
  from new obtain k where "q = lf_ring dflt (2 ^ k) p" by (rule lf_new_Inr)
  then have "lq_abs (lq_init q) = park_init"
    by (simp add: lq_abs_def lq_init_def ring_init_def park_init_def published_def lf_ring_def)
  then show ?case by (simp add: park_reach.start)
next
  case (step s s')
  have b: "rg_e (lq_ring s) + rg_N (lq_ring s) < half_range" using lq_step_sizes [OF step(2)] step(4) by linarith
  have "park_reach W (lq_abs s)" by (rule step(3) [OF b])
  moreover have "park_step W (lq_abs s) (lq_abs s') \<or> lq_abs s' = lq_abs s"
    using lq_step_sim [OF step(2) lq_reach_inv(1) [OF new step(1) b] step(4)] lq_reach_runs [OF step(1)] by blast
  ultimately show ?case by (metis park_reach.step)
qed

end
