(* ===== verification/Lock_Free_Calls.thy ===== *)
theory Lock_Free_Calls
  imports Lock_Free_Concurrent
begin

text \<open>
  What the calls of \<open>push\<close> and \<open>pop\<close> on the concurrent lock-free queue return, taken together: every item that a \<open>push\<close> has
  reported as stored is returned by exactly one \<open>pop\<close>, thrown away by a \<open>push\<close> under \<open>DropOldest\<close>, or still in
  the queue.
\<close>

section \<open>Sums over the threads\<close>

text \<open>What the threads hold together, when only finitely many of them hold anything.\<close>

definition together :: "(nat \<Rightarrow> 'a multiset) \<Rightarrow> 'a multiset" where
  "together f = (\<Sum>t\<in>{t. f t \<noteq> {#}}. f t)"

lemma together_over:
  assumes "finite A" "{t. f t \<noteq> {#}} \<subseteq> A"
  shows "together f = (\<Sum>t\<in>A. f t)"
  unfolding together_def using assms by (intro sum.mono_neutral_left) auto

lemma together_move:
  assumes "finite {t. f t \<noteq> {#}}" "\<And>u. u \<noteq> t \<Longrightarrow> g u = f u"
  shows "finite {t. g t \<noteq> {#}}" "together g + f t = together f + g t"
proof -
  let ?A = "insert t {t. f t \<noteq> {#}}"
  have sub: "{t. g t \<noteq> {#}} \<subseteq> ?A" using assms(2) by force
  then show "finite {t. g t \<noteq> {#}}" using assms(1) by (meson finite_insert finite_subset)
  have "(\<Sum>u\<in>?A. h u) = h t + (\<Sum>u\<in>?A - {t}. h u)" for h :: "nat \<Rightarrow> 'a multiset"
    using assms(1) by (intro sum.remove) simp_all
  moreover have "(\<Sum>u\<in>?A - {t}. g u) = (\<Sum>u\<in>?A - {t}. f u)" using assms(2) by (intro sum.cong) auto
  moreover have "together g = (\<Sum>u\<in>?A. g u)" "together f = (\<Sum>u\<in>?A. f u)"
    using assms(1) sub by (intro together_over; auto)+
  ultimately show "together g + f t = together f + g t" by (simp add: ac_simps)
qed

lemma together_none: "(\<And>t. f t = {#}) \<Longrightarrow> together f = {#}"
  by (simp add: together_def)

section \<open>Items under way\<close>

text \<open>The item of a \<open>push\<close> that has its position and has not returned; the item of a \<open>pop\<close> that has left the ring and has not returned.\<close>

fun pushing_item :: "'a call_pc \<Rightarrow> 'a ring_pc \<Rightarrow> 'a multiset" where
  "pushing_item (Trying_Push x) i = (if claimed i = None then {#} else {#x#})"
| "pushing_item (Trying_Again x) i = (if claimed i = None then {#} else {#x#})"
| "pushing_item (Fenced r x) i = {#x#}"
| "pushing_item (Notify r x) i = {#x#}"
| "pushing_item _ i = {#}"

fun popping_item :: "'a call_pc \<Rightarrow> 'a multiset" where
  "popping_item (Recheck_Flag (Some y)) = {#y#}"
| "popping_item (Unregister (Some y)) = {#y#}"
| "popping_item (Unlock (Some y)) = {#y#}"
| "popping_item _ = {#}"

text \<open>The items reported as stored, and those returned.\<close>

definition stored_items :: "(PushResult \<times> 'a) list \<Rightarrow> 'a list" where
  "stored_items ps = map snd (filter (\<lambda>(r, x). r \<noteq> RejectedBackpressure) ps)"

definition returned_items :: "'a option list \<Rightarrow> 'a list" where
  "returned_items os = map the (filter (\<lambda>r. r \<noteq> None) os)"

lemma stored_items_snoc [simp]:
  "stored_items (ps @ [(r, x)]) = stored_items ps @ (if r = RejectedBackpressure then [] else [x])"
  by (simp add: stored_items_def)

lemma returned_items_snoc [simp]:
  "returned_items (os @ [r]) = returned_items os @ (case r of None \<Rightarrow> [] | Some y \<Rightarrow> [y])"
  by (simp add: returned_items_def split: option.splits)

definition push_books :: "'a lfq \<Rightarrow> bool" where
  "push_books s \<longleftrightarrow> finite {t. pushing_item (lq_pc s t) (rg_pc (lq_ring s) t) \<noteq> {#}} \<and>
     mset (rg_pushed (lq_ring s)) = mset (stored_items (lq_pushes s)) +
       together (\<lambda>t. pushing_item (lq_pc s t) (rg_pc (lq_ring s) t))"

definition pop_books :: "'a lfq \<Rightarrow> bool" where
  "pop_books s \<longleftrightarrow> finite {t. popping_item (lq_pc s t) \<noteq> {#}} \<and>
     mset (map snd (rg_popped (lq_ring s))) = mset (returned_items (lq_pops s)) + mset (lq_discards s) +
       together (\<lambda>t. popping_item (lq_pc s t))"

text \<open>It is enough that the books of the one thread that moves are right.\<close>

lemma balance_moves:
  fixes a b :: "'a multiset"
  assumes "a = h + F" "a' + h + f = a + h' + g" "G + f = F + g"
  shows "a' = h' + G"
proof -
  have "a' + (h + f) = h' + (F + g) + h" using assms(1,2) by (simp add: ac_simps)
  also have "\<dots> = h' + G + (h + f)" by (simp add: assms(3) [symmetric] ac_simps)
  finally show ?thesis by simp
qed

lemma push_books_move:
  assumes "push_books s" "\<And>u. u \<noteq> t \<Longrightarrow> pushing_item (lq_pc s' u) (rg_pc (lq_ring s') u) = pushing_item (lq_pc s u) (rg_pc (lq_ring s) u)"
    and "mset (rg_pushed (lq_ring s')) + mset (stored_items (lq_pushes s)) + pushing_item (lq_pc s t) (rg_pc (lq_ring s) t) =
      mset (rg_pushed (lq_ring s)) + mset (stored_items (lq_pushes s')) + pushing_item (lq_pc s' t) (rg_pc (lq_ring s') t)"
  shows "push_books s'"
proof -
  let ?f = "\<lambda>t. pushing_item (lq_pc s t) (rg_pc (lq_ring s) t)" and ?g = "\<lambda>t. pushing_item (lq_pc s' t) (rg_pc (lq_ring s') t)"
  have fin: "finite {t. ?f t \<noteq> {#}}" and eq: "mset (rg_pushed (lq_ring s)) = mset (stored_items (lq_pushes s)) + together ?f"
    using assms(1) by (simp_all add: push_books_def)
  note M = together_move [where f = ?f and g = ?g and t = t, OF fin assms(2)]
  show ?thesis using M(1) balance_moves [OF eq assms(3) M(2)] by (simp add: push_books_def)
qed

lemma pop_books_move:
  assumes "pop_books s" "\<And>u. u \<noteq> t \<Longrightarrow> popping_item (lq_pc s' u) = popping_item (lq_pc s u)"
    and "mset (map snd (rg_popped (lq_ring s'))) + (mset (returned_items (lq_pops s)) + mset (lq_discards s)) + popping_item (lq_pc s t) =
      mset (map snd (rg_popped (lq_ring s))) + (mset (returned_items (lq_pops s')) + mset (lq_discards s')) + popping_item (lq_pc s' t)"
  shows "pop_books s'"
proof -
  let ?f = "\<lambda>t. popping_item (lq_pc s t)" and ?g = "\<lambda>t. popping_item (lq_pc s' t)"
  have fin: "finite {t. ?f t \<noteq> {#}}" and eq: "mset (map snd (rg_popped (lq_ring s))) =
      mset (returned_items (lq_pops s)) + mset (lq_discards s) + together ?f"
    using assms(1) by (simp_all add: pop_books_def)
  note M = together_move [where f = ?f and g = ?g and t = t, OF fin assms(2)]
  show ?thesis using M(1) balance_moves [OF eq assms(3) M(2)] by (simp add: pop_books_def)
qed

lemma push_books_goto:
  assumes "push_books s" "lq_pc s' = (lq_pc s)(t := c)" "lq_ring s' = lq_ring s" "lq_pushes s' = lq_pushes s"
    and "pushing_item c (rg_pc (lq_ring s) t) = pushing_item (lq_pc s t) (rg_pc (lq_ring s) t)"
  shows "push_books s'"
  using assms(2-5) by (intro push_books_move [OF assms(1), of t]) simp_all

lemma pop_books_goto:
  assumes "pop_books s" "lq_pc s' = (lq_pc s)(t := c)" "rg_popped (lq_ring s') = rg_popped (lq_ring s)" "lq_pops s' = lq_pops s"
    and "lq_discards s' = lq_discards s" "popping_item c = popping_item (lq_pc s t)"
  shows "pop_books s'"
  using assms(2-6) by (intro pop_books_move [OF assms(1), of t]) simp_all

text \<open>Results of a \<open>push\<close> that has stored its item.\<close>

fun stored_result :: "'a call_pc \<Rightarrow> bool" where
  "stored_result (Fenced r x) = (r \<noteq> RejectedBackpressure)"
| "stored_result (Notify r x) = (r \<noteq> RejectedBackpressure)"
| "stored_result _ = True"

lemma lq_step_stored_result:
  assumes "lq_step W s s'" "\<forall>t. stored_result (lq_pc s t)"
  shows "\<forall>t. stored_result (lq_pc s' t)"
  using assms(1)
proof (cases rule: lq_step.cases)
  case (try_returns t r')
  have "stored_result (lq_pc (after_try t c res s0) t)" if "stored_result (lq_pc s0 t)" for c res s0
    using that by (cases "(t, c, res, s0)" rule: after_try.cases) (auto simp: push_returns_def pop_returns_def)
  from this [of "s\<lparr>lq_ring := r'\<rparr>"] show ?thesis using assms(2) try_returns(1)
    by (metis after_try_frame(6) lfq.select_convs(6) lfq.surjective lfq.update_convs(1))
next
  case (somebody_counted t r x)
  with assms(2) spec [OF assms(2), of t] show ?thesis by simp
qed (use assms(2) in \<open>auto simp: push_returns_def pop_returns_def split: option.splits\<close>)

lemma inner_push_books:
  assumes "push_books s" "runs (lq_pc s t) (rg_pc (lq_ring s) t)"
    and step: "rg_pc (lq_ring s) t \<noteq> Idle" "ring_step (lq_ring s) r'" "\<And>u. u \<noteq> t \<Longrightarrow> rg_pc r' u = rg_pc (lq_ring s) u"
    and s': "s' = (if rg_pc r' t = Idle then after_try t (lq_pc s t) (ring_result (rg_pc (lq_ring s) t)) (s\<lparr>lq_ring := r'\<rparr>)
      else s\<lparr>lq_ring := r'\<rparr>)"
  shows "push_books s'"
proof -
  let ?r = "lq_ring s" and ?c = "lq_pc s t"
  have "\<forall>u. u \<noteq> t \<longrightarrow> rg_pc r' u = rg_pc ?r u" using step(3) by blast
  with step(2) have "mset (rg_pushed r') + mset (stored_items (lq_pushes s)) + pushing_item ?c (rg_pc ?r t) =
      mset (rg_pushed ?r) + mset (stored_items (lq_pushes s')) + pushing_item (lq_pc s' t) (rg_pc r' t)"
    using step(1)
    by (cases rule: ring_step_by; use assms(2) in \<open>cases ?c; auto simp: s' push_returns_def pop_returns_def\<close>)
  then show ?thesis using step(3) by (intro push_books_move [OF assms(1), of t]) (auto simp: s')
qed

lemma inner_pop_books:
  assumes "pop_books s" "runs (lq_pc s t) (rg_pc (lq_ring s) t)"
    and step: "rg_pc (lq_ring s) t \<noteq> Idle" "ring_step (lq_ring s) r'" "\<And>u. u \<noteq> t \<Longrightarrow> rg_pc r' u = rg_pc (lq_ring s) u"
    and s': "s' = (if rg_pc r' t = Idle then after_try t (lq_pc s t) (ring_result (rg_pc (lq_ring s) t)) (s\<lparr>lq_ring := r'\<rparr>)
      else s\<lparr>lq_ring := r'\<rparr>)"
  shows "pop_books s'"
proof -
  let ?r = "lq_ring s" and ?c = "lq_pc s t"
  have "\<forall>u. u \<noteq> t \<longrightarrow> rg_pc r' u = rg_pc ?r u" using step(3) by blast
  with step(2) have "mset (map snd (rg_popped r')) + (mset (returned_items (lq_pops s)) + mset (lq_discards s)) + popping_item ?c =
      mset (map snd (rg_popped ?r)) + (mset (returned_items (lq_pops s')) + mset (lq_discards s')) + popping_item (lq_pc s' t)"
    using step(1)
    by (cases rule: ring_step_by; use assms(2) in \<open>cases ?c; auto simp: s' push_returns_def pop_returns_def\<close>)
  then show ?thesis by (intro pop_books_move [OF assms(1), of t]) (auto simp: s')
qed

lemma lq_step_push_books:
  assumes "lq_step W s s'" "push_books s" and runs: "\<forall>t. runs (lq_pc s t) (rg_pc (lq_ring s) t)"
    and res: "\<forall>t. stored_result (lq_pc s t)"
  shows "push_books s'"
proof -
  have idle: "rg_pc (lq_ring s) t = Idle" if "wants_push (lq_pc s t) = None" "\<not> wants_pop (lq_pc s t)" for t
    using that runs runs_idle by blast
  note move = push_books_move [OF assms(2)]
  from assms(1) show ?thesis
  proof (cases rule: lq_step.cases)
    case (try_push_begins t x)
    then show ?thesis by (intro move [of t]) (auto elim: wants_push.elims)
  next
    case (try_pop_begins t)
    then show ?thesis by (intro move [of t]) (auto elim: wants_pop.elims)
  next
    case (try_goes_on t r')
    with inner_push_books [OF assms(2) _ try_goes_on(2,3,5)] runs show ?thesis by simp
  next
    case (try_returns t r')
    with inner_push_books [OF assms(2) _ try_returns(2,3,5)] runs show ?thesis by simp
  next
    case (nobody_counted t r x)
    with spec [OF res, of t] show ?thesis by (intro move [of t]) (auto simp: push_returns_def)
  next
    case (notify_nobody t r x)
    with spec [OF res, of t] show ?thesis by (intro move [of t]) (auto simp: push_returns_def)
  next
    case (notify_one t r x w)
    with spec [OF res, of t] show ?thesis by (intro move [of t]) (auto simp: push_returns_def)
  next
    case (notify_all t)
    then show ?thesis by (intro move [of t]) auto
  next
    case (unlock t r)
    then show ?thesis by (intro move [of t]) (auto simp: pop_returns_def)
  qed (use assms(2) in \<open>auto elim!: push_books_goto simp: idle split: option.splits\<close>)
qed

lemma lq_step_pop_books:
  assumes "lq_step W s s'" "pop_books s" and runs: "\<forall>t. runs (lq_pc s t) (rg_pc (lq_ring s) t)"
  shows "pop_books s'"
proof -
  note move = pop_books_move [OF assms(2)]
  from assms(1) show ?thesis
  proof (cases rule: lq_step.cases)
    case (try_goes_on t r')
    with inner_pop_books [OF assms(2) _ try_goes_on(2,3,5)] runs show ?thesis by simp
  next
    case (try_returns t r')
    with inner_pop_books [OF assms(2) _ try_returns(2,3,5)] runs show ?thesis by simp
  next
    case (load_flag t r)
    then show ?thesis by (intro move [of t]) (cases r; auto)+
  next
    case (unregister t r)
    then show ?thesis by (intro move [of t]) (cases r; auto)+
  next
    case (unlock t r)
    then show ?thesis by (intro move [of t]) (cases r; auto simp: pop_returns_def)+
  next
    case (notify_one t r x w)
    then show ?thesis by (intro move [of t]) (auto simp: push_returns_def)
  next
    case (notify_all t)
    then show ?thesis by (intro move [of t]) auto
  next
    case (try_push_begins t x)
    then show ?thesis by (intro move [of t]) auto
  next
    case (try_pop_begins t)
    then show ?thesis by (intro move [of t]) auto
  qed (use assms(2) in \<open>auto elim!: pop_books_goto simp: push_returns_def\<close>)
qed

text \<open>A \<open>pop\<close> returns \<^verbatim>\<open>nullopt\<close>, or is about to, only when the queue is shutting down.\<close>

fun gives_up :: "'a call_pc \<Rightarrow> bool" where
  "gives_up Spin_Final = True"
| "gives_up (Unregister None) = True"
| "gives_up Final_Pop = True"
| "gives_up (Unlock None) = True"
| "gives_up _ = False"

definition closed_books :: "'a lfq \<Rightarrow> bool" where
  "closed_books s \<longleftrightarrow> (None \<in> set (lq_pops s) \<or> (\<exists>t. gives_up (lq_pc s t)) \<longrightarrow> lq_shutting_down s)"

lemma closed_gives_up: "closed_books s \<Longrightarrow> gives_up (lq_pc s t) \<Longrightarrow> lq_shutting_down s"
  by (auto simp: closed_books_def)

lemma lq_step_closed:
  assumes "lq_step W s s'" "closed_books s"
  shows "closed_books s'"
  using assms(1)
proof (cases rule: lq_step.cases)
  case (try_returns t r')
  have frame: "lq_shutting_down s' = lq_shutting_down s" using try_returns(1) by simp
  have "gives_up (lq_pc s' t) \<or> None \<in> set (lq_pops s') \<Longrightarrow> None \<in> set (lq_pops s) \<or> gives_up (lq_pc s t)"
    unfolding try_returns(1)
    by (cases "(t, lq_pc s t, ring_result (rg_pc (lq_ring s) t), s\<lparr>lq_ring := r'\<rparr>)" rule: after_try.cases)
      (auto simp: push_returns_def pop_returns_def split: if_splits)
  moreover have "lq_pc s' u = lq_pc s u" if "u \<noteq> t" for u using that try_returns(1) by simp
  ultimately show ?thesis using assms(2) frame unfolding closed_books_def by metis
next
  case (load_flag t r)
  with assms(2) show ?thesis by (cases r) (auto simp: closed_books_def split: if_splits)
next
  case (unregister t r)
  then have "r = None \<Longrightarrow> lq_shutting_down s" using closed_gives_up [OF assms(2), of t] by simp
  with unregister assms(2) show ?thesis by (cases r) (auto simp: closed_books_def split: if_splits)
next
  case (unlock t r)
  then have "r = None \<Longrightarrow> lq_shutting_down s" using closed_gives_up [OF assms(2), of t] by simp
  with unlock assms(2) show ?thesis by (cases r) (auto simp: closed_books_def pop_returns_def split: if_splits)
qed (use assms(2) in \<open>auto simp: closed_books_def push_returns_def split: if_splits\<close>)

lemma lq_reach_books:
  assumes "lq_reach W q s"
  shows "push_books s \<and> pop_books s \<and> closed_books s \<and> (\<forall>t. stored_result (lq_pc s t))"
  using assms
proof (induction rule: rtranclp_induct)
  case base
  show ?case
    by (simp add: push_books_def pop_books_def closed_books_def together_none lq_init_def ring_init_def stored_items_def returned_items_def)
next
  case (step s s')
  then show ?case
    using lq_step_push_books [OF step(2)] lq_step_pop_books [OF step(2)] lq_step_closed [OF step(2)]
      lq_step_stored_result [OF step(2)] lq_reach_runs [OF step(1)] by blast
qed

section \<open>The calls balance\<close>

text \<open>The completed pops of the ring are the items before the dequeue cursor.\<close>

lemma popped_items:
  assumes "pops_inv r" "rg_d r \<le> rg_e r" "fst ` set (rg_popped r) = {..<rg_d r}"
  shows "mset (map snd (rg_popped r)) = mset (take (rg_d r) (rg_pushed r))"
proof -
  have "distinct (map fst (rg_popped r))" using assms(1) by (simp add: pops_inv_def)
  with assms(3) have "mset (map fst (rg_popped r)) = mset [0..<rg_d r]"
    by (intro set_eq_iff_mset_eq_distinct [THEN iffD1]) auto
  moreover have "map snd (rg_popped r) = map ((!) (rg_pushed r)) (map fst (rg_popped r))"
    using pops_inv_entry(2) [OF assms(1)] by auto
  ultimately have "mset (map snd (rg_popped r)) = mset (map ((!) (rg_pushed r)) [0..<rg_d r])"
    by (metis mset_map)
  also have "map ((!) (rg_pushed r)) [0..<rg_d r] = take (rg_d r) (rg_pushed r)"
    using assms(2) by (intro nth_equalityI) simp_all
  finally show ?thesis .
qed

text \<open>C6: Exactly once, for whole calls. Any number of threads call \<^verbatim>\<open>push\<close>, \<^verbatim>\<open>pop\<close> and \<^verbatim>\<open>shutdown\<close> on the lock-free queue, under any policy,
  their single accesses interleaved in any way. Whenever no call is under way, the items of the pushes that
  returned \<^verbatim>\<open>Accepted\<close> or \<^verbatim>\<open>DroppedOldest\<close> are, each as often as it was pushed, those the pops have returned, those
  thrown away under \<^verbatim>\<open>DropOldest\<close> and those still in the queue, which is a well-formed queue object. A \<^verbatim>\<open>pop\<close> has returned
  \<^verbatim>\<open>nullopt\<close> only if the queue was shut down.\<close>

theorem lock_free_calls_balance:
  assumes "lf_new dflt c p = Some (Inr q)" "lq_reach W q s" "rg_e (lq_ring s) + rg_N (lq_ring s) + n < half_range"
    and "\<And>t. lq_pc s t = At_Rest"
  shows "mset (stored_items (lq_pushes s)) =
      mset (returned_items (lq_pops s)) + mset (lq_discards s) + mset (lf_contents (ring_queue q (lq_ring s))) \<and>
    lf_inv n (ring_queue q (lq_ring s)) \<and> (None \<in> set (lq_pops s) \<longrightarrow> lq_shutting_down s)"
proof -
  let ?r = "lq_ring s"
  have b: "rg_e ?r + rg_N ?r < half_range" using assms(3) by simp
  have "runs At_Rest (rg_pc ?r t)" for t using lq_reach_runs [OF assms(2)] assms(4) by metis
  then have "rg_pc ?r t = Idle" for t using runs_idle by fastforce
  note R = ring_at_rest [OF assms(1) lq_reach_ring [OF assms(2)] assms(3) this]
  note I = lq_reach_inv [OF assms(1,2) b] and B = lq_reach_books [OF assms(2)]
  have "mset (rg_pushed ?r) = mset (take (rg_d ?r) (rg_pushed ?r)) + mset (drop (rg_d ?r) (rg_pushed ?r))"
    by (metis append_take_drop_id mset_append)
  moreover have "mset (rg_pushed ?r) = mset (stored_items (lq_pushes s))"
    using B assms(4) by (simp add: push_books_def together_none)
  moreover have "mset (take (rg_d ?r) (rg_pushed ?r)) = mset (returned_items (lq_pops s)) + mset (lq_discards s)"
    using B assms(4) popped_items [OF I(2)] ring_invD(3) [OF I(1)] R by (simp add: pop_books_def together_none)
  ultimately show ?thesis using R B by (simp add: closed_books_def)
qed

section \<open>Nobody sleeps on an item\<close>

text \<open>C7: The consumers of the lock-free queue never all sleep on an item. Whatever the interleaving of the single accesses of
  \<^verbatim>\<open>push\<close>, \<^verbatim>\<open>pop\<close> and \<^verbatim>\<open>shutdown\<close>: when every consumer is parked in \<^verbatim>\<open>not_empty_.wait\<close> and no producer still has a
  notification to make, the sequence of the slot at the dequeue cursor is not the one a consumer waits for; and
  when no call of \<^verbatim>\<open>push\<close> is under way either, the two cursors are equal, so the queue is empty.\<close>

theorem lock_free_no_lost_wakeup:
  assumes "lf_new dflt c p = Some (Inr q)" "lq_reach W q s" "rg_e (lq_ring s) + rg_N (lq_ring s) < half_range"
    and "W \<noteq> {}" "\<And>w. w \<in> W \<Longrightarrow> lq_pc s w = In_Wait" "\<And>t r x. lq_pc s t \<noteq> Fenced r x \<and> lq_pc s t \<noteq> Notify r x"
  shows "rg_sequence (lq_ring s) (rg_dequeue_pos (lq_ring s)) \<noteq> rg_dequeue_pos (lq_ring s) + 1 \<and>
    ((\<forall>t. wants_push (lq_pc s t) = None) \<longrightarrow> rg_enqueue_pos (lq_ring s) = rg_dequeue_pos (lq_ring s))"
proof -
  let ?r = "lq_ring s"
  have inv: "ring_inv ?r" by (rule lq_reach_inv [OF assms(1-3)])
  note D = ring_invD [OF inv]
  have "park_inv W (lq_abs s)" by (rule park_inv_reach [OF lq_reach_park [OF assms(1-3)] assms(4)])
  moreover have "\<not> owes_notify (pk_pc (lq_abs s) t)" for t
    using assms(6) [of t] by (cases "lq_pc s t") (auto simp: owes_notify_def split: option.splits)
  moreover have "asleep (pk_pc (lq_abs s) w)" if "w \<in> W" for w using assms(5) [OF that] by (simp add: asleep_def)
  ultimately have head: "rg_d ?r \<notin> published ?r" by (auto simp: park_inv_def pk_wake_inv_def)
  then have "\<not> Suc (rg_d ?r) \<le> rg_sq ?r (rg_d ?r mod rg_N ?r)" using head_published [OF inv] by simp
  moreover have "unat (rg_dequeue_pos ?r + 1) = Suc (rg_d ?r)" using D(3) assms(3) by (intro unat_Suc_u64) simp
  ultimately have "rg_sequence ?r (rg_dequeue_pos ?r) \<noteq> rg_dequeue_pos ?r + 1"
    by (auto simp: rg_sequence_def ring_shapeD(2) [OF D(1)])
  moreover have "rg_enqueue_pos ?r = rg_dequeue_pos ?r" if "\<forall>t. wants_push (lq_pc s t) = None"
  proof -
    have "claimed (rg_pc ?r t) = None" for t
      using lq_reach_runs [OF assms(2)] that by (cases "rg_pc ?r t") (auto dest: spec [of _ t])
    with head D(3) have "rg_d ?r = rg_e ?r" by (simp add: published_def pushing_claimed)
    with D(2) show ?thesis by (metis of_nat_unat ucast_id)
  qed
  ultimately show ?thesis by blast
qed

text \<open>Once \<^verbatim>\<open>shutdown()\<close> has returned on every thread that called it, no consumer waits on the condition
  variable or is about to.\<close>

theorem lock_free_shutdown_wakes_everyone:
  assumes "lf_new dflt c p = Some (Inr q)" "lq_reach W q s" "rg_e (lq_ring s) + rg_N (lq_ring s) < half_range"
    and "W \<noteq> {}" "lq_shutting_down s" "\<And>t. lq_pc s t \<noteq> Shutting"
  shows "lq_pc s w \<noteq> In_Wait \<and> lq_pc s w \<noteq> About_To_Wait"
proof -
  have "park_inv W (lq_abs s)" by (rule park_inv_reach [OF lq_reach_park [OF assms(1-3)] assms(4)])
  moreover have "pk_pc (lq_abs s) t \<noteq> Closing" for t
    using assms(6) [of t] by (cases "lq_pc s t") (simp_all split: option.splits)
  moreover have "pk_pc (lq_abs s) w \<in> {Parking, Waiting}" if "lq_pc s w \<in> {In_Wait, About_To_Wait}"
    using that by auto
  ultimately show ?thesis using assms(5) by (auto simp: park_inv_def pk_close_inv_def)
qed

section \<open>Runs\<close>

text \<open>A scheduler for threads that do not park: every step it makes is a step of the queue.\<close>

datatype 'a lq_cmd = Call_Push nat 'a | Call_Pop nat | Call_Shutdown nat | Go nat

definition lq_advance :: "nat \<Rightarrow> 'a lfq \<Rightarrow> 'a lfq option" where
  "lq_advance t s =
     (let r = lq_ring s; c = lq_pc s t in
      if rg_pc r t = Idle then
        (case c of
           Fenced res x \<Rightarrow> if lq_waiters s = 0 then Some (push_returns t res x s) else None
         | Spin_Flag n \<Rightarrow> if lq_shutting_down s then Some (lq_goto t Spin_Final s) else None
         | Shutting \<Rightarrow> if lq_owner s = None
             then Some (s\<lparr>lq_pc := (\<lambda>w. if w = t then At_Rest else if lq_pc s w = In_Wait then Notified else lq_pc s w)\<rparr>) else None
         | _ \<Rightarrow> (case wants_push c of
               Some x \<Rightarrow> Some (s\<lparr>lq_ring := rg_goto t (Push_Read x (rg_enqueue_pos r)) r\<rparr>)
             | None \<Rightarrow> if wants_pop c then Some (s\<lparr>lq_ring := rg_goto t (Pop_Read (rg_dequeue_pos r)) r\<rparr>) else None))
      else map_option (\<lambda>r'. if rg_pc r' t = Idle then after_try t c (ring_result (rg_pc r t)) (s\<lparr>lq_ring := r'\<rparr>)
             else s\<lparr>lq_ring := r'\<rparr>) (ring_advance t r))"

fun lq_exec :: "nat set \<Rightarrow> 'a lq_cmd \<Rightarrow> 'a lfq \<Rightarrow> 'a lfq option" where
  "lq_exec W (Call_Push t x) s = (if t \<notin> W \<and> lq_pc s t = At_Rest then Some (lq_goto t (Trying_Push x) s) else None)"
| "lq_exec W (Call_Pop t) s = (if t \<in> W \<and> lq_pc s t = At_Rest then Some (lq_goto t (Spin_Pop 0) s) else None)"
| "lq_exec W (Call_Shutdown t) s =
     (if t \<notin> W \<and> lq_pc s t = At_Rest then Some (lq_goto t Shutting (s\<lparr>lq_shutting_down := True\<rparr>)) else None)"
| "lq_exec W (Go t) s = lq_advance t s"

fun lq_execs :: "nat set \<Rightarrow> 'a lq_cmd list \<Rightarrow> 'a lfq \<Rightarrow> 'a lfq option" where
  "lq_execs W [] s = Some s"
| "lq_execs W (c # cs) s = Option.bind (lq_exec W c s) (lq_execs W cs)"

lemma lq_advance_step:
  assumes "lq_advance t s = Some s'"
  shows "lq_step W s s'"
proof (cases "rg_pc (lq_ring s) t = Idle")
  case True
  with assms show ?thesis
    by (cases "lq_pc s t") (auto simp: lq_advance_def Let_def split: if_splits intro: nobody_counted try_push_begins try_pop_begins spin_closed notify_all)
next
  case False
  with assms obtain r' where r': "ring_advance t (lq_ring s) = Some r'"
    "s' = (if rg_pc r' t = Idle then after_try t (lq_pc s t) (ring_result (rg_pc (lq_ring s) t)) (s\<lparr>lq_ring := r'\<rparr>)
      else s\<lparr>lq_ring := r'\<rparr>)"
    by (auto simp: lq_advance_def Let_def)
  have "ring_step (lq_ring s) r'" using ring_exec_step [of "Advance t"] r'(1) by simp
  moreover have "rg_pc r' u = rg_pc (lq_ring s) u" if "u \<noteq> t" for u
    using ring_exec_other [of "Advance t" "lq_ring s" r' u] r'(1) that by simp
  ultimately show ?thesis using False r'(2) by (auto intro: try_goes_on try_returns)
qed

lemma lq_exec_step: "lq_exec W c s = Some s' \<Longrightarrow> lq_step W s s'"
  by (cases c) (auto intro: lq_advance_step push_call pop_call shutdown_call split: if_splits)

lemma lq_execs_reach: "lq_execs W cs s = Some s' \<Longrightarrow> lq_reach W q s \<Longrightarrow> lq_reach W q s'"
proof (induction cs arbitrary: s)
  case (Cons c cs)
  then obtain s1 where s1: "lq_exec W c s = Some s1" "lq_execs W cs s1 = Some s'" by (auto simp: bind_eq_Some_conv)
  from rtranclp.rtrancl_into_rtrancl [OF Cons.prems(2) lq_exec_step [OF s1(1)]] Cons.IH [OF s1(2)] show ?case by blast
qed simp

fun lq_cmd_thread :: "'a lq_cmd \<Rightarrow> nat" where
  "lq_cmd_thread (Call_Push t x) = t"
| "lq_cmd_thread (Call_Pop t) = t"
| "lq_cmd_thread (Call_Shutdown t) = t"
| "lq_cmd_thread (Go t) = t"

lemma lq_exec_rest: "lq_exec W c s = Some s' \<Longrightarrow> u \<noteq> lq_cmd_thread c \<Longrightarrow> lq_pc s u = At_Rest \<Longrightarrow> lq_pc s' u = At_Rest"
  by (cases c; cases "lq_pc s (lq_cmd_thread c)") (auto simp: lq_advance_def Let_def push_returns_def split: if_splits)

lemma lq_execs_rest:
  "lq_execs W cs s = Some s' \<Longrightarrow> u \<notin> lq_cmd_thread ` set cs \<Longrightarrow> lq_pc s u = At_Rest \<Longrightarrow> lq_pc s' u = At_Rest"
  by (induction cs arbitrary: s) (auto simp: bind_eq_Some_conv lq_exec_rest)

text \<open>Thread 0 pushes, thread 1 pops, on a fresh ring of two slots.\<close>

definition calls_run :: "BackpressurePolicy \<Rightarrow> nat lq_cmd list \<Rightarrow> nat lfq" where
  "calls_run p cs = the (lq_execs {1} cs (lq_init (lf_ring 0 2 p)))"

lemma calls_run_reach:
  assumes "lq_execs {1} cs (lq_init (lf_ring 0 2 p)) \<noteq> None"
  shows "lq_reach {1} (lf_ring 0 2 p) (calls_run p cs)"
    and "u \<notin> lq_cmd_thread ` set cs \<Longrightarrow> lq_pc (calls_run p cs) u = At_Rest"
proof -
  have run: "lq_execs {1} cs (lq_init (lf_ring 0 2 p)) = Some (calls_run p cs)" using assms by (auto simp: calls_run_def)
  from lq_execs_reach [OF run] show "lq_reach {1} (lf_ring 0 2 p) (calls_run p cs)" by blast
  show "lq_pc (calls_run p cs) u = At_Rest" if "u \<notin> lq_cmd_thread ` set cs"
    using lq_execs_rest [OF run that] by (simp add: lq_init_def)
qed

lemma ring_of_two_new: "lf_new d 2 p = Some (Inr (lf_ring d 2 p))"
  by (simp add: lf_new_def validated_capacity_def kMaxCapacity_def round_up.simps push_bit_eq_mult)

definition push_pop_push :: "nat lq_cmd list" where
  "push_pop_push = Call_Push 0 7 # replicate 6 (Go 0) @ Call_Pop 1 # replicate 5 (Go 1) @ Call_Push 0 8 # replicate 6 (Go 0)"

theorem lock_free_calls_balance_witness:
  "lq_pushes (calls_run Block push_pop_push) = [(Accepted, 7), (Accepted, 8)] \<and> lq_pops (calls_run Block push_pop_push) = [Some 7] \<and>
   mset (stored_items (lq_pushes (calls_run Block push_pop_push))) =
     mset (returned_items (lq_pops (calls_run Block push_pop_push))) + mset (lq_discards (calls_run Block push_pop_push)) +
     mset (lf_contents (ring_queue (lf_ring 0 2 Block) (lq_ring (calls_run Block push_pop_push))))"
proof -
  let ?s = "calls_run Block push_pop_push"
  have run: "lq_execs {1} push_pop_push (lq_init (lf_ring 0 2 Block)) \<noteq> None" by code_simp
  have hist: "lq_pushes ?s = [(Accepted, 7), (Accepted, 8)]" "lq_pops ?s = [Some 7]" by code_simp+
  have "rg_e (lq_ring ?s) + rg_N (lq_ring ?s) = 4" by code_simp
  then have b: "rg_e (lq_ring ?s) + rg_N (lq_ring ?s) + 0 < half_range" by simp
  have "lq_pc ?s 0 = At_Rest" "lq_pc ?s 1 = At_Rest" by code_simp+
  moreover have "lq_cmd_thread ` set push_pop_push = {0, 1}" by (auto simp: push_pop_push_def)
  ultimately have "lq_pc ?s t = At_Rest" for t using calls_run_reach(2) [OF run, of t] by (cases "t \<in> {0, 1}") auto
  from lock_free_calls_balance [OF ring_of_two_new calls_run_reach(1) [OF run] b this] hist show ?thesis by blast
qed

section \<open>DropOldest beside a slow consumer\<close>

definition drop_oldest_run :: "nat lq_cmd list" where
  "drop_oldest_run = Call_Push 0 1 # replicate 6 (Go 0) @ Call_Push 0 2 # replicate 6 (Go 0) @ Call_Pop 1 # replicate 3 (Go 1) @
     Call_Push 0 3 # replicate 11 (Go 0) @ replicate 2 (Go 1)"

text \<open>One producer is not enough for \<^verbatim>\<open>DropOldest\<close> to behave as in the mutex queue. Producer 0 fills a queue of two slots with 1 and 2, and
  consumer 1 claims the first but has not yet released its slot. The producer's \<^verbatim>\<open>push(3)\<close> then discards 2, finds the ring
  still full and returns \<^verbatim>\<open>RejectedBackpressure\<close>; the consumer's \<^verbatim>\<open>pop()\<close> returns 1 and the queue is empty. Two
  items are lost for one reported rejection, where the mutex queue would have kept 3 and reported \<^verbatim>\<open>DroppedOldest\<close>.\<close>

theorem drop_oldest_rejects_and_discards:
  "\<exists>q s. lf_new (0::nat) 2 DropOldest = Some (Inr q) \<and> lq_reach {1} q s \<and>
     lq_pushes s = [(Accepted, 1), (Accepted, 2), (RejectedBackpressure, 3)] \<and> lq_pops s = [Some 1] \<and> lq_discards s = [2] \<and>
     lq_pc s 0 = At_Rest \<and> lq_pc s 1 = At_Rest \<and> rg_enqueue_pos (lq_ring s) = rg_dequeue_pos (lq_ring s)"
proof -
  let ?s = "calls_run DropOldest drop_oldest_run"
  have run: "lq_execs {1} drop_oldest_run (lq_init (lf_ring 0 2 DropOldest)) \<noteq> None" by code_simp
  have "lq_pushes ?s = [(Accepted, 1), (Accepted, 2), (RejectedBackpressure, 3)]" "lq_pops ?s = [Some 1]" "lq_discards ?s = [2]"
    by code_simp+
  moreover have "lq_pc ?s 0 = At_Rest" "lq_pc ?s 1 = At_Rest" "rg_enqueue_pos (lq_ring ?s) = rg_dequeue_pos (lq_ring ?s)"
    by code_simp+
  ultimately show ?thesis using ring_of_two_new [of "0::nat" DropOldest] calls_run_reach(1) [OF run] by blast
qed

section \<open>A consumer that parks\<close>

lemma empty_try:
  assumes "lq_reach W q s" "wants_pop (lq_pc s t)" "rg_pc (lq_ring s) t = Idle"
    and "seq_diff (rg_sequence (lq_ring s) (rg_dequeue_pos (lq_ring s))) (rg_dequeue_pos (lq_ring s) + 1) < 0"
  shows "lq_reach W q (after_try t (lq_pc s t) (Pop_Done None) s)"
proof -
  let ?r = "lq_ring s" and ?d = "rg_dequeue_pos (lq_ring s)"
  let ?r1 = "rg_goto t (Pop_Read ?d) ?r" and ?r2 = "rg_goto t (Pop_Test ?d (rg_sequence ?r ?d)) (rg_goto t (Pop_Read ?d) ?r)"
  have seq: "rg_sequence ?r1 ?d = rg_sequence ?r ?d" by (simp add: rg_sequence_def rg_index_def)
  have r3: "rg_goto t Idle ?r2 = ?r" using assms(3) by (cases ?r) (auto simp: rg_goto_def)
  have "lq_step W s (s\<lparr>lq_ring := ?r1\<rparr>)" using assms(3,2) by (rule try_pop_begins)
  moreover have "lq_step W (s\<lparr>lq_ring := ?r1\<rparr>) (s\<lparr>lq_ring := ?r2\<rparr>)"
    using try_goes_on [of "s\<lparr>lq_ring := ?r1\<rparr>" t ?r2 W] ring_step.pop_sequence [of ?r1 t ?d] seq by simp
  moreover have "lq_step W (s\<lparr>lq_ring := ?r2\<rparr>) (after_try t (lq_pc s t) (Pop_Done None) s)"
    using try_returns [of "s\<lparr>lq_ring := ?r2\<rparr>" t ?r W] ring_step.pop_empty [of ?r2 t ?d "rg_sequence ?r ?d"] assms(3,4) r3 by simp
  ultimately show ?thesis using assms(1) by (meson rtranclp.rtrancl_into_rtrancl)
qed

text \<open>Consumer 1 of a fresh queue.\<close>

definition parked_queue :: "nat lfq" where
  "parked_queue = (lq_init (lf_ring 0 2 Block))\<lparr>lq_waiters := 1, lq_pc := (\<lambda>_. At_Rest)(1 := In_Wait)\<rparr>"

lemma fresh_head_empty:
  "rg_pc (lq_ring (lq_init (lf_ring (0::nat) 2 Block))) t = Idle"
  "seq_diff (rg_sequence (lq_ring (lq_init (lf_ring (0::nat) 2 Block))) (rg_dequeue_pos (lq_ring (lq_init (lf_ring (0::nat) 2 Block)))))
    (rg_dequeue_pos (lq_ring (lq_init (lf_ring (0::nat) 2 Block))) + 1) < 0"
proof -
  show "rg_pc (lq_ring (lq_init (lf_ring (0::nat) 2 Block))) t = Idle" by (simp add: lq_init_def ring_init_def)
qed code_simp

lemma spins_to_lock:
  assumes "n < kSpinAttempts"
  shows "lq_reach {1} (lf_ring 0 2 Block) (lq_goto 1 (Spin_Pop n) (lq_init (lf_ring (0::nat) 2 Block)))"
  using assms
proof (induction n)
  case 0
  have "lq_step {1} (lq_init (lf_ring (0::nat) 2 Block)) (lq_goto 1 (Spin_Pop 0) (lq_init (lf_ring 0 2 Block)))"
    by (rule pop_call) (simp_all add: lq_init_def)
  then show ?case by blast
next
  case (Suc n)
  let ?s0 = "lq_init (lf_ring (0::nat) 2 Block)"
  have "lq_reach {1} (lf_ring 0 2 Block) (lq_goto 1 (Spin_Flag n) (lq_goto 1 (Spin_Pop n) ?s0))"
    using empty_try [OF Suc.IH, of 1] Suc.prems fresh_head_empty by simp
  moreover have "lq_goto 1 (Spin_Flag n) (lq_goto 1 (Spin_Pop n) ?s0) = lq_goto 1 (Spin_Flag n) ?s0" by (simp add: lq_goto_def)
  moreover have "lq_step {1} (lq_goto 1 (Spin_Flag n) ?s0) (lq_goto 1 (Spin_Pop (Suc n)) ?s0)"
    using spin_open [of "lq_goto 1 (Spin_Flag n) ?s0" 1 n "{1}"] Suc.prems by (simp add: lq_goto_def lq_init_def lf_ring_def)
  ultimately show ?case by (metis rtranclp.rtrancl_into_rtrancl)
qed

lemma parked_queue_reach: "lq_reach {1} (lf_ring 0 2 Block) parked_queue"
proof -
  let ?s0 = "lq_init (lf_ring (0::nat) 2 Block)"
  let ?at = "\<lambda>n ow pc. ?s0\<lparr>lq_waiters := n, lq_owner := ow, lq_pc := (\<lambda>_. At_Rest)(1 := pc)\<rparr>"
  have eq: "lq_goto t pc (?s0\<lparr>lq_waiters := n, lq_owner := ow, lq_pc := (\<lambda>_. At_Rest)(t := pc')\<rparr>) =
      ?s0\<lparr>lq_waiters := n, lq_owner := ow, lq_pc := (\<lambda>_. At_Rest)(t := pc)\<rparr>"
    "lq_goto t pc ?s0 = ?s0\<lparr>lq_waiters := 0, lq_owner := None, lq_pc := (\<lambda>_. At_Rest)(t := pc)\<rparr>" for t n ow pc pc'
    by (simp_all add: lq_goto_def lq_init_def)
  note go = rtranclp.rtrancl_into_rtrancl [of "lq_step {1}" ?s0] and empty = fresh_head_empty
  have 1: "lq_reach {1} (lf_ring 0 2 Block) (?at 0 None (Spin_Flag 63))"
    using empty_try [OF spins_to_lock [of 63], of 1] empty by (simp add: eq kSpinAttempts_def)
  have 2: "lq_reach {1} (lf_ring 0 2 Block) (?at 0 None Want_Lock)"
    using go [OF 1 spin_open [of _ 1 63]] by (simp add: eq kSpinAttempts_def lq_init_def lf_ring_def lq_goto_def)
  have 3: "lq_reach {1} (lf_ring 0 2 Block) (?at 0 (Some 1) Loop_Top)"
    using go [OF 2 lock [of _ 1]] by (simp add: lq_goto_def lq_init_def)
  have 4: "lq_reach {1} (lf_ring 0 2 Block) (?at 1 (Some 1) Recheck_Pop)"
    using go [OF 3 register [of _ 1]] by (simp add: lq_goto_def lq_init_def)
  have 5: "lq_reach {1} (lf_ring 0 2 Block) (?at 1 (Some 1) (Recheck_Flag None))"
    using empty_try [OF 4, of 1] empty by (simp add: eq)
  have 6: "lq_reach {1} (lf_ring 0 2 Block) (?at 1 (Some 1) About_To_Wait)"
    using go [OF 5 load_flag [of _ 1 None]] by (simp add: lq_goto_def lq_init_def lf_ring_def)
  show ?thesis
    using go [OF 6 wait [of _ 1]] by (simp add: lq_goto_def parked_queue_def lq_init_def)
qed

lemma parked_queue_small: "rg_e (lq_ring parked_queue) + rg_N (lq_ring parked_queue) < half_range"
  by (simp add: parked_queue_def lq_init_def ring_init_def lf_ring_def)

theorem lock_free_no_lost_wakeup_witness:
  "lq_reach {1} (lf_ring 0 2 Block) parked_queue \<and> lq_pc parked_queue 1 = In_Wait \<and>
   rg_enqueue_pos (lq_ring parked_queue) = rg_dequeue_pos (lq_ring parked_queue)"
proof -
  have pcs: "lq_pc parked_queue = (\<lambda>_. At_Rest)(1 := In_Wait)" by (simp add: parked_queue_def)
  have "(\<forall>t. wants_push (lq_pc parked_queue t) = None) \<longrightarrow>
      rg_enqueue_pos (lq_ring parked_queue) = rg_dequeue_pos (lq_ring parked_queue)"
    using lock_free_no_lost_wakeup [OF ring_of_two_new parked_queue_reach parked_queue_small] pcs by simp
  with pcs parked_queue_reach show ?thesis by simp
qed

theorem lock_free_shutdown_wakes_everyone_witness:
  "\<exists>s. lq_reach {1} (lf_ring (0::nat) 2 Block) s \<and> lq_shutting_down s \<and> lq_pc s 1 = Notified \<and> lq_pc s 1 \<noteq> In_Wait"
proof -
  let ?s1 = "parked_queue\<lparr>lq_shutting_down := True, lq_pc := (\<lambda>_. At_Rest)(1 := In_Wait, 0 := Shutting)\<rparr>"
  let ?s2 = "parked_queue\<lparr>lq_shutting_down := True, lq_pc := (\<lambda>_. At_Rest)(1 := Notified)\<rparr>"
  have "lq_step {1} parked_queue ?s1"
    using shutdown_call [of 0 "{1}" parked_queue] by (simp add: parked_queue_def lq_goto_def)
  moreover have "(\<lambda>w. if w = 0 then At_Rest else if lq_pc ?s1 w = In_Wait then Notified else lq_pc ?s1 w) = (\<lambda>_. At_Rest)(1 := Notified)"
    by (auto simp: fun_eq_iff)
  then have "lq_step {1} ?s1 ?s2" using notify_all [of ?s1 0 "{1}"] by (simp add: parked_queue_def lq_init_def)
  ultimately have r: "lq_reach {1} (lf_ring 0 2 Block) ?s2" using parked_queue_reach by (meson rtranclp.rtrancl_into_rtrancl)
  have "lq_pc ?s2 1 \<noteq> In_Wait \<and> lq_pc ?s2 1 \<noteq> About_To_Wait"
    by (rule lock_free_shutdown_wakes_everyone [OF ring_of_two_new r]) (use parked_queue_small in simp_all)
  with r show ?thesis by (intro exI [of _ ?s2]) simp
qed

end
