(* ===== verification/Lock_Free_Drain.thy ===== *)
theory Lock_Free_Drain
  imports Lock_Free_Calls
begin

text \<open>
  The end of the life of the lock-free queue, as \<^verbatim>\<open>WorkerPool::stop\<close> relies on it: when the pushes are over before
  \<open>shutdown()\<close>, a \<open>pop()\<close> that returns \<^verbatim>\<open>nullopt\<close> has found the queue empty, so nothing is left behind; and every call of
  \<open>pop()\<close> that is under way after \<open>shutdown()\<close> can come to its end.
\<close>

section \<open>Steps without pushes\<close>

text \<open>No \<open>push\<close> is before or inside the ring, and none begins.\<close>

abbreviation no_pushes :: "'a lfq \<Rightarrow> bool" where
  "no_pushes s \<equiv> \<forall>t. \<not> producing (lq_pc s t)"

definition drain_step :: "nat set \<Rightarrow> 'a lfq \<Rightarrow> 'a lfq \<Rightarrow> bool" where
  "drain_step W s s' \<longleftrightarrow> lq_step W s s' \<and> no_pushes s'"

abbreviation drain_reach :: "nat set \<Rightarrow> 'a lfq \<Rightarrow> 'a lfq \<Rightarrow> bool" where
  "drain_reach W \<equiv> (drain_step W)\<^sup>*\<^sup>*"

lemma drain_reach_lq:
  assumes "lq_reach W q s" "drain_reach W s s'"
  shows "lq_reach W q s'"
  using assms(2)
  by (induction rule: rtranclp_induct) (auto simp: drain_step_def assms(1) intro: rtranclp.rtrancl_into_rtrancl)

lemma no_pushes_wants: "\<not> producing c \<Longrightarrow> wants_push c = None"
  by (cases c) simp_all

lemma no_pushes_claimed:
  assumes "runs c i" "\<not> producing c"
  shows "claimed i = None"
  using assms no_pushes_wants [OF assms(2)] by (cases i) simp_all

lemma no_pushes_published:
  assumes "lq_reach W q s" "no_pushes s"
  shows "published (lq_ring s) = {..<rg_e (lq_ring s)}"
proof -
  have "claimed (rg_pc (lq_ring s) t) = None" for t
    using no_pushes_claimed [of "lq_pc s t"] lq_reach_runs [OF assms(1)] assms(2) by blast
  then show ?thesis by (auto simp: published_def pushing_claimed)
qed

lemma drain_step_pushed:
  assumes "drain_step W s s'" "lq_reach W q s" "no_pushes s"
  shows "rg_pushed (lq_ring s') = rg_pushed (lq_ring s)"
proof -
  from assms(1) have "lq_step W s s'" by (simp add: drain_step_def)
  then show ?thesis
  proof (cases rule: lq_step.cases)
    case (try_goes_on t r')
    have others: "\<forall>u. u \<noteq> t \<longrightarrow> rg_pc r' u = rg_pc (lq_ring s) u" using try_goes_on(5) by blast
    have "runs (lq_pc s t) (rg_pc (lq_ring s) t)" "wants_push (lq_pc s t) = None"
      using lq_reach_runs [OF assms(2)] assms(3) no_pushes_wants by blast+
    with try_goes_on(3) others try_goes_on(2) show ?thesis by (cases rule: ring_step_by) (auto simp: try_goes_on(1))
  next
    case (try_returns t r')
    have others: "\<forall>u. u \<noteq> t \<longrightarrow> rg_pc r' u = rg_pc (lq_ring s) u" using try_returns(5) by blast
    with try_returns(3) show ?thesis using try_returns(2,4) by (cases rule: ring_step_by) (auto simp: try_returns(1))
  qed (auto simp: push_returns_def pop_returns_def)
qed

section \<open>Nothing is left behind\<close>

text \<open>A \<open>pop\<close> that has seen no item and will return \<^verbatim>\<open>nullopt\<close>.\<close>

fun returns_none :: "'a call_pc \<Rightarrow> 'a ring_pc \<Rightarrow> bool" where
  "returns_none Spin_Final i = missed i"
| "returns_none Final_Pop i = missed i"
| "returns_none (Unlock r) i = (r = None)"
| "returns_none _ i = False"

definition drained :: "'a lfq \<Rightarrow> bool" where
  "drained s \<longleftrightarrow> (None \<in> set (lq_pops s) \<or> (\<exists>t. returns_none (lq_pc s t) (rg_pc (lq_ring s) t)) \<longrightarrow>
     rg_d (lq_ring s) = rg_e (lq_ring s))"

lemma lq_step_dequeue:
  assumes "lq_step W s s'" "ring_inv (lq_ring s)" "rg_e (lq_ring s) + rg_N (lq_ring s) < half_range"
  shows "rg_d (lq_ring s) \<le> rg_d (lq_ring s')"
proof -
  have "rg_d r \<le> rg_d r'" if "ring_step r r'" "ring_inv r" "rg_e r + rg_N r < half_range" for r r' :: "'a ring"
    using that(1) that(2,3)
  proof (cases rule: ring_step.cases)
    case (pop_claim t pos sq)
    from pop_claim_slot(1) [OF that(2) pop_claim(2-4) that(3)] pop_claim(1) show ?thesis by simp
  qed auto
  with lq_step_ring [OF assms(1)] assms(2,3) show ?thesis by fastforce
qed

text \<open>What becomes of a thread that will return \<^verbatim>\<open>nullopt\<close>: it was so before, or the load of the head has just seen nothing.\<close>

lemma new_none:
  assumes "lq_step W s s'" "None \<in> set (lq_pops s') \<or> (\<exists>t. returns_none (lq_pc s' t) (rg_pc (lq_ring s') t))"
    and "\<not> (None \<in> set (lq_pops s) \<or> (\<exists>t. returns_none (lq_pc s t) (rg_pc (lq_ring s) t)))"
    and runs: "\<forall>t. runs (lq_pc s t) (rg_pc (lq_ring s) t)"
  shows "\<exists>t pos. rg_pc (lq_ring s) t = Pop_Read pos \<and> seq_diff (rg_sequence (lq_ring s) pos) (pos + 1) < 0"
proof -
  have idle: "rg_pc (lq_ring s) t = Idle" if "wants_push (lq_pc s t) = None" "\<not> wants_pop (lq_pc s t)" for t
    using that runs runs_idle by blast
  have no: "None \<notin> set (lq_pops s)" "\<And>t. \<not> returns_none (lq_pc s t) (rg_pc (lq_ring s) t)" using assms(3) by auto
  from assms(1) show ?thesis
  proof (cases rule: lq_step.cases)
    case (try_goes_on t r')
    have others: "\<forall>u. u \<noteq> t \<longrightarrow> rg_pc r' u = rg_pc (lq_ring s) u" using try_goes_on(5) by blast
    obtain u where u: "returns_none (lq_pc s u) (rg_pc r' u)" using assms(2) no(1) try_goes_on(1) by auto
    have "u = t" using u others no(2) [of u] by (cases "u = t") auto
    moreover have "lq_pc s t \<noteq> Unlock None" using runs try_goes_on(2) idle [of t] by auto
    ultimately have "missed (rg_pc r' t)" using u by (cases "lq_pc s t") simp_all
    with try_goes_on(3) others try_goes_on(2) show ?thesis by (cases rule: ring_step_by) auto
  next
    case (try_returns t r')
    have others: "\<forall>u. u \<noteq> t \<longrightarrow> rg_pc r' u = rg_pc (lq_ring s) u" using try_returns(5) by blast
    have run: "runs (lq_pc s t) (rg_pc (lq_ring s) t)" using runs by blast
    have same: "\<not> returns_none (lq_pc s' u) (rg_pc (lq_ring s') u)" if "u \<noteq> t" for u
      using that no(2) [of u] others try_returns(1) by simp
    have ring: "rg_pc (lq_ring s') t = Idle" using try_returns(1,4) by simp
    from assms(2) have new: "None \<in> set (lq_pops s') \<or> returns_none (lq_pc s' t) Idle"
    proof
      assume "\<exists>u. returns_none (lq_pc s' u) (rg_pc (lq_ring s') u)"
      then obtain u where u: "returns_none (lq_pc s' u) (rg_pc (lq_ring s') u)" by blast
      with same have "u = t" by blast
      with u ring show ?thesis by simp
    qed simp
    have res: "ring_result (rg_pc (lq_ring s) t) = Pop_Done None \<Longrightarrow> missed (rg_pc (lq_ring s) t)"
      using try_returns(3) others try_returns(2,4) by (cases rule: ring_step_by) auto
    have "returns_none (lq_pc s t) (rg_pc (lq_ring s) t)"
      using new no(1) run try_returns(2) res unfolding try_returns(1)
      by (cases "(t, lq_pc s t, ring_result (rg_pc (lq_ring s) t), s\<lparr>lq_ring := r'\<rparr>)" rule: after_try.cases)
        (auto simp: push_returns_def pop_returns_def split: if_splits)
    with no(2) show ?thesis by blast
  next
    case (try_push_begins t x)
    then show ?thesis using assms(2) no by (auto split: if_splits elim: wants_push.elims)
  next
    case (try_pop_begins t)
    then show ?thesis using assms(2) no by (auto split: if_splits elim: wants_pop.elims)
  next
    case (unregister t r)
    then show ?thesis using assms(2) no by (auto simp: idle split: if_splits option.splits)
  next
    case (unlock t r)
    then show ?thesis using assms(2) no(1) no(2) [of t] no(2) by (auto simp: pop_returns_def split: if_splits)
  next
    case (notify_all t)
    then show ?thesis using assms(2) no by (auto split: if_splits)
  qed (use assms(2) no in \<open>auto simp: push_returns_def idle split: if_splits\<close>)
qed

lemma drained_step:
  assumes new: "lf_new dflt c p = Some (Inr q)" and "lq_reach W q s" "rg_e (lq_ring s') + rg_N (lq_ring s') < half_range"
    and st: "lq_step W s s'" and "no_pushes s" "no_pushes s'" "drained s"
  shows "drained s' \<and> rg_pushed (lq_ring s') = rg_pushed (lq_ring s) \<and> rg_N (lq_ring s') = rg_N (lq_ring s)"
proof -
  have r': "lq_reach W q s'" using assms(2) st by (rule rtranclp.rtrancl_into_rtrancl)
  have "drain_step W s s'" using st assms(6) by (simp add: drain_step_def)
  from drain_step_pushed [OF this assms(2,5)] have e: "rg_pushed (lq_ring s') = rg_pushed (lq_ring s)" .
  have N: "rg_N (lq_ring s') = rg_N (lq_ring s)" using lq_step_sizes [OF st] by simp
  have b: "rg_e (lq_ring s) + rg_N (lq_ring s) < half_range" using e N assms(3) by simp
  note inv = lq_reach_inv(1) [OF new assms(2) b] and inv' = lq_reach_inv(1) [OF new r' assms(3)]
  have stays: "rg_d (lq_ring s') = rg_e (lq_ring s')" if "rg_d (lq_ring s) = rg_e (lq_ring s)"
    using lq_step_dequeue [OF st inv b] ring_invD(3) [OF inv'] that e by simp
  have "drained s'"
    unfolding drained_def
  proof (rule impI)
    assume "None \<in> set (lq_pops s') \<or> (\<exists>t. returns_none (lq_pc s' t) (rg_pc (lq_ring s') t))"
    note seen = new_none [OF st this]
    show "rg_d (lq_ring s') = rg_e (lq_ring s')"
    proof (rule stays, cases "None \<in> set (lq_pops s) \<or> (\<exists>t. returns_none (lq_pc s t) (rg_pc (lq_ring s) t))")
      case True
      with assms(7) show "rg_d (lq_ring s) = rg_e (lq_ring s)" unfolding drained_def by blast
    next
      case False
      with seen lq_reach_runs [OF assms(2)] obtain t pos where "rg_pc (lq_ring s) t = Pop_Read pos"
        "seq_diff (rg_sequence (lq_ring s) pos) (pos + 1) < 0" by blast
      from miss_at_head [OF inv b this] no_pushes_published [OF assms(2,5)] ring_invD(3) [OF inv]
      show "rg_d (lq_ring s) = rg_e (lq_ring s)" by simp
    qed
  qed
  with e N show ?thesis by blast
qed

lemma drain_reach_inv:
  assumes new: "lf_new dflt c p = Some (Inr q)" and "lq_reach W q s1" "rg_e (lq_ring s1) + rg_N (lq_ring s1) < half_range"
    and "no_pushes s1" "drained s1" "drain_reach W s1 s"
  shows "no_pushes s \<and> drained s \<and> rg_pushed (lq_ring s) = rg_pushed (lq_ring s1) \<and> rg_N (lq_ring s) = rg_N (lq_ring s1)"
  using assms(6)
proof (induction rule: rtranclp_induct)
  case base
  show ?case using assms(4,5) by simp
next
  case (step s s')
  have st: "lq_step W s s'" "no_pushes s'" using step(2) by (simp_all add: drain_step_def)
  have r: "lq_reach W q s" by (rule drain_reach_lq [OF assms(2) step(1)])
  have "rg_pushed (lq_ring s') = rg_pushed (lq_ring s)" using drain_step_pushed [OF step(2) r] step(3) by blast
  moreover have "rg_N (lq_ring s') = rg_N (lq_ring s)" using lq_step_sizes [OF st(1)] by simp
  ultimately have "rg_e (lq_ring s') + rg_N (lq_ring s') < half_range" using step(3) assms(3) by simp
  from drained_step [OF new r this st(1) _ st(2)] step(3) st(2) show ?case by simp
qed

text \<open>An empty queue at rest: what was stored has been returned or thrown away.\<close>

lemma empty_balance:
  assumes "lf_new dflt c p = Some (Inr q)" "lq_reach W q s" "rg_e (lq_ring s) + rg_N (lq_ring s) < half_range"
    and "\<And>t. lq_pc s t = At_Rest" "rg_d (lq_ring s) = rg_e (lq_ring s)"
  shows "mset (stored_items (lq_pushes s)) = mset (returned_items (lq_pops s)) + mset (lq_discards s)"
proof -
  let ?r = "lq_ring s"
  note I = lq_reach_inv [OF assms(1-3)]
  have "runs At_Rest (rg_pc ?r t)" for t using lq_reach_runs [OF assms(2)] assms(4) by metis
  then have "rg_pc ?r t = Idle" for t using runs_idle by fastforce
  from ring_at_rest [OF assms(1) lq_reach_ring [OF assms(2)] _ this, of 0] assms(3)
  have all: "fst ` set (rg_popped ?r) = {..<rg_d ?r}" by simp
  have "mset (map snd (rg_popped ?r)) = mset (rg_pushed ?r)"
    using popped_items [OF I(2) ring_invD(3) [OF I(1)] all] assms(5) by simp
  then show ?thesis using lq_reach_books [OF assms(2)] assms(4) by (auto simp: push_books_def pop_books_def together_none)
qed

lemma returns_none_gives_up: "returns_none c i \<Longrightarrow> gives_up c"
  by (cases c) auto

lemma open_drained: "closed_books s \<Longrightarrow> \<not> lq_shutting_down s \<Longrightarrow> drained s"
proof -
  assume s: "closed_books s" "\<not> lq_shutting_down s"
  have "\<not> returns_none (lq_pc s t) i" for t i
    using closed_gives_up [OF s(1), of t] s(2) returns_none_gives_up by blast
  with s show ?thesis by (simp add: drained_def closed_books_def)
qed

text \<open>C8: A graceful shutdown of the lock-free queue leaves nothing behind. The calls of \<^verbatim>\<open>push\<close> are over (but for their
  notifications) while the queue is still open; from then on the threads pop and shut the queue down, their single
  accesses interleaved in any way. As soon as one \<^verbatim>\<open>pop\<close> has returned \<^verbatim>\<open>nullopt\<close> the queue is empty, and when all calls have
  returned, the items the pops have returned are, together with those thrown away under \<^verbatim>\<open>DropOldest\<close>, exactly the
  items reported as stored.\<close>

theorem lock_free_shutdown_drains:
  assumes "lf_new dflt c p = Some (Inr q)" "lq_reach W q s1" "rg_e (lq_ring s1) + rg_N (lq_ring s1) < half_range"
    and "no_pushes s1" "\<not> lq_shutting_down s1" "drain_reach W s1 s" "None \<in> set (lq_pops s)"
  shows "rg_enqueue_pos (lq_ring s) = rg_dequeue_pos (lq_ring s) \<and>
    ((\<forall>t. lq_pc s t = At_Rest) \<longrightarrow>
     mset (stored_items (lq_pushes s)) = mset (returned_items (lq_pops s)) + mset (lq_discards s))"
proof -
  let ?r = "lq_ring s"
  have D: "drained s" "rg_pushed ?r = rg_pushed (lq_ring s1)" "rg_N ?r = rg_N (lq_ring s1)"
    using drain_reach_inv [OF assms(1-4) open_drained assms(6)] lq_reach_books [OF assms(2)] assms(5) by blast+
  have r: "lq_reach W q s" by (rule drain_reach_lq [OF assms(2,6)])
  have b: "rg_e ?r + rg_N ?r < half_range" using D assms(3) by simp
  note I = lq_reach_inv [OF assms(1) r b]
  have e: "rg_d ?r = rg_e ?r" using D(1) assms(7) by (simp add: drained_def)
  have cursors: "rg_enqueue_pos ?r = rg_dequeue_pos ?r" using ring_invD(2) [OF I(1)] e by (metis of_nat_unat ucast_id)
  with empty_balance [OF assms(1) r b _ e] show ?thesis by blast
qed

section \<open>Every pop can return\<close>

text \<open>How far a \<open>try_pop\<close> that runs alone is from its end.\<close>

definition try_rank :: "'a ring \<Rightarrow> nat \<Rightarrow> nat" where
  "try_rank r t = (case rg_pc r t of
     Pop_Read pos \<Rightarrow> if pos = rg_dequeue_pos r then 4 else 6
   | Pop_Test pos sq \<Rightarrow> if pos = rg_dequeue_pos r then 3 else 5
   | Pop_Take pos \<Rightarrow> 2
   | Pop_Release x pos \<Rightarrow> 1
   | _ \<Rightarrow> 7)"

lemma test_at_head:
  assumes inv: "ring_inv r" and bound: "rg_e r + rg_N r < half_range" and pc: "rg_pc r t = Pop_Test (rg_dequeue_pos r) sq"
  shows "seq_diff sq (rg_dequeue_pos r + 1) \<le> 0"
proof -
  note D = ring_invD [OF inv]
  have "rg_sq r (rg_d r mod rg_N r) \<le> Suc (rg_d r)"
    using slot_at_dequeue [OF inv] by (cases "Suc (rg_d r) \<le> rg_sq r (rg_d r mod rg_N r)") (simp_all add: slot_full_def)
  then have sq: "unat sq \<le> Suc (rg_d r)" using D(5) [of t] pc by simp
  have d: "Suc (rg_d r) < half_range" using D(3,6) bound by linarith
  have "sq = of_nat (unat sq)" "rg_dequeue_pos r + 1 = of_nat (Suc (rg_d r))" by simp_all
  then have "seq_diff sq (rg_dequeue_pos r + 1) = int (unat sq) - int (Suc (rg_d r))"
    using seq_diff_of_nat [of "unat sq" "Suc (rg_d r)"] sq d by (simp add: add.commute)
  then show ?thesis using sq by linarith
qed

lemma try_pop_progress:
  assumes inv: "ring_inv (lq_ring s)" and bound: "rg_e (lq_ring s) + rg_N (lq_ring s) < half_range"
    and runs: "runs (lq_pc s t) (rg_pc (lq_ring s) t)" and c: "wants_pop (lq_pc s t)"
  shows "\<exists>s' r'. lq_advance t s = Some s' \<and>
    ((\<exists>res. s' = after_try t (lq_pc s t) (Pop_Done res) (s\<lparr>lq_ring := r'\<rparr>)) \<or>
     s' = s\<lparr>lq_ring := r'\<rparr> \<and> try_rank r' t < try_rank (lq_ring s) t)"
proof -
  let ?r = "lq_ring s"
  have no: "wants_push (lq_pc s t) = None" using c by (cases "lq_pc s t") simp_all
  show ?thesis
  proof (cases "rg_pc ?r t")
    case Idle
    with c no show ?thesis by (cases "lq_pc s t") (auto simp: lq_advance_def Let_def try_rank_def)
  next
    case (Pop_Test pos sq)
    have "seq_diff sq (pos + 1) \<le> 0" if "pos = rg_dequeue_pos ?r"
      using test_at_head [OF inv bound, of t sq] Pop_Test that by simp
    with Pop_Test show ?thesis
      by (cases "seq_diff sq (pos + 1) < 0"; cases "pos = rg_dequeue_pos ?r")
        (auto simp: lq_advance_def Let_def try_rank_def ring_advance_def)
  qed (use runs no in \<open>auto simp: lq_advance_def Let_def try_rank_def ring_advance_def\<close>)
qed

text \<open>How far a \<open>pop\<close> on a queue that is shut down is from its end, when it runs alone and gets the mutex.\<close>

fun call_rank :: "'a call_pc \<Rightarrow> nat" where
  "call_rank (Unlock r) = 1"
| "call_rank Final_Pop = 2"
| "call_rank (Unregister r) = 3"
| "call_rank (Recheck_Flag r) = 4"
| "call_rank Recheck_Pop = 5"
| "call_rank Loop_Top = 6"
| "call_rank Wait_Returned = 7"
| "call_rank Notified = 8"
| "call_rank Want_Lock = 8"
| "call_rank Spin_Final = 1"
| "call_rank (Spin_Flag n) = 2"
| "call_rank (Spin_Pop n) = 3"
| "call_rank _ = 0"

definition pop_rank :: "'a lfq \<Rightarrow> nat \<Rightarrow> nat" where
  "pop_rank s t = 10 * call_rank (lq_pc s t) + (if wants_pop (lq_pc s t) then try_rank (lq_ring s) t else 0)"

lemma try_rank_le: "try_rank r t \<le> 7"
  by (auto simp: try_rank_def split: ring_pc.splits)

lemma pop_rank_less:
  assumes "call_rank (lq_pc s' t) < call_rank (lq_pc s t)"
  shows "pop_rank s' t < pop_rank s t"
  using assms try_rank_le [of "lq_ring s'" t] by (auto simp: pop_rank_def)

text \<open>The program points of a consumer.\<close>

fun consumer_pc :: "'a call_pc \<Rightarrow> bool" where
  "consumer_pc (Trying_Push x) = False"
| "consumer_pc (Discarding x) = False"
| "consumer_pc (Trying_Again x) = False"
| "consumer_pc (Fenced r x) = False"
| "consumer_pc (Notify r x) = False"
| "consumer_pc Shutting = False"
| "consumer_pc _ = True"

lemma lq_step_consumer:
  assumes "lq_step W s s'" "\<forall>w\<in>W. consumer_pc (lq_pc s w)"
  shows "\<forall>w\<in>W. consumer_pc (lq_pc s' w)"
  using assms(1)
proof (cases rule: lq_step.cases)
  case (try_returns t r')
  have "consumer_pc (lq_pc s t) \<Longrightarrow> consumer_pc (lq_pc (after_try t (lq_pc s t) res s0) t)" if "lq_pc s0 = lq_pc s" for res s0
    using that by (cases "(t, lq_pc s t, res, s0)" rule: after_try.cases)
      (auto simp: push_returns_def pop_returns_def)
  from this [of "s\<lparr>lq_ring := r'\<rparr>"] have "consumer_pc (lq_pc s t) \<Longrightarrow> consumer_pc (lq_pc s' t)" using try_returns(1) by simp
  moreover have "lq_pc s' u = lq_pc s u" if "u \<noteq> t" for u using that try_returns(1) by simp
  ultimately show ?thesis using assms(2) by metis
next
  case (somebody_counted t r x)
  with assms(2) show ?thesis by fastforce
qed (use assms(2) in \<open>auto simp: push_returns_def pop_returns_def split: option.splits\<close>)

lemma lq_reach_consumer: "lq_reach W q s \<Longrightarrow> \<forall>w\<in>W. consumer_pc (lq_pc s w)"
  by (induction rule: rtranclp_induct) (simp add: lq_init_def, blast dest: lq_step_consumer)

text \<open>The frame of a step of \<open>t\<close> on a queue that is shut down.\<close>

definition alone :: "nat \<Rightarrow> 'a lfq \<Rightarrow> 'a lfq \<Rightarrow> bool" where
  "alone t s s' \<longleftrightarrow> (\<forall>u. u \<noteq> t \<longrightarrow> lq_pc s' u = lq_pc s u) \<and> lq_shutting_down s' = lq_shutting_down s \<and>
     (lq_owner s' = lq_owner s \<or> lq_owner s' = None \<or> lq_owner s' = Some t)"

lemma pop_progress:
  assumes inv: "ring_inv (lq_ring s)" "rg_e (lq_ring s) + rg_N (lq_ring s) < half_range"
    and runs: "runs (lq_pc s t) (rg_pc (lq_ring s) t)" and c: "consumer_pc (lq_pc s t)"
    and awake: "lq_pc s t \<noteq> At_Rest" "lq_pc s t \<noteq> In_Wait" "lq_pc s t \<noteq> About_To_Wait"
    and "lq_shutting_down s" "lq_owner s = None \<or> lq_owner s = Some t"
    and lock: "lq_pc s t = Want_Lock \<or> lq_pc s t = Notified \<Longrightarrow> lq_owner s \<noteq> Some t"
  shows "\<exists>s'. lq_step W s s' \<and> pop_rank s' t < pop_rank s t \<and> consumer_pc (lq_pc s' t) \<and> alone t s s'"
proof (cases "wants_pop (lq_pc s t)")
  case True
  from try_pop_progress [OF inv runs True] obtain s' r' where s': "lq_advance t s = Some s'"
    "(\<exists>res. s' = after_try t (lq_pc s t) (Pop_Done res) (s\<lparr>lq_ring := r'\<rparr>)) \<or>
     s' = s\<lparr>lq_ring := r'\<rparr> \<and> try_rank r' t < try_rank (lq_ring s) t" by blast
  from s'(2) have "pop_rank s' t < pop_rank s t \<and> consumer_pc (lq_pc s' t) \<and> alone t s s'"
  proof
    assume "\<exists>res. s' = after_try t (lq_pc s t) (Pop_Done res) (s\<lparr>lq_ring := r'\<rparr>)"
    then obtain res where res: "s' = after_try t (lq_pc s t) (Pop_Done res) (s\<lparr>lq_ring := r'\<rparr>)" by blast
    have "call_rank (lq_pc s' t) < call_rank (lq_pc s t) \<and> consumer_pc (lq_pc s' t)"
      using True c unfolding res by (cases "lq_pc s t"; cases res) (auto simp: pop_returns_def)
    moreover have "alone t s s'" using res by (simp add: alone_def)
    ultimately show ?thesis using pop_rank_less by blast
  next
    assume "s' = s\<lparr>lq_ring := r'\<rparr> \<and> try_rank r' t < try_rank (lq_ring s) t"
    with True c show ?thesis by (simp add: pop_rank_def alone_def)
  qed
  with lq_advance_step [OF s'(1)] show ?thesis by blast
next
  case False
  have go: ?thesis if "lq_step W s s'" "call_rank (lq_pc s' t) < call_rank (lq_pc s t)" "consumer_pc (lq_pc s' t)" "alone t s s'" for s'
    using that pop_rank_less by blast
  show ?thesis
  proof (cases "lq_pc s t")
    case (Spin_Flag n)
    show ?thesis by (rule go [OF spin_closed [OF Spin_Flag assms(8)]]) (simp_all add: alone_def Spin_Flag)
  next
    case Want_Lock
    then have "lq_owner s = None" using assms(9) lock by blast
    from go [OF lq_step.lock [OF Want_Lock this]] Want_Lock show ?thesis by (simp add: alone_def)
  next
    case Loop_Top
    show ?thesis by (rule go [OF register [OF Loop_Top]]) (simp_all add: alone_def Loop_Top)
  next
    case (Recheck_Flag r)
    show ?thesis by (rule go [OF load_flag [OF Recheck_Flag]]) (simp_all add: alone_def Recheck_Flag assms(8))
  next
    case Notified
    then have "lq_owner s = None" using assms(9) lock by blast
    from go [OF wait_locks [OF Notified this]] Notified show ?thesis by (simp add: alone_def)
  next
    case Wait_Returned
    show ?thesis by (rule go [OF wait_done [OF Wait_Returned]]) (simp_all add: alone_def Wait_Returned)
  next
    case (Unregister r)
    show ?thesis by (rule go [OF unregister [OF Unregister]]) (simp_all add: alone_def Unregister split: option.splits)
  next
    case (Unlock r)
    show ?thesis by (rule go [OF unlock [OF Unlock]]) (simp_all add: alone_def pop_returns_def Unlock)
  qed (use False c awake in simp_all)
qed

text \<open>A queue that is shut down, with no producer about.\<close>

definition closing :: "nat set \<Rightarrow> 'a LockFreeQueue \<Rightarrow> 'a lfq \<Rightarrow> bool" where
  "closing W q s \<longleftrightarrow> lq_reach W q s \<and> rg_e (lq_ring s) + rg_N (lq_ring s) < half_range \<and> lq_shutting_down s \<and>
     (\<forall>t. t \<notin> W \<longrightarrow> lq_pc s t = At_Rest)"

lemma consumer_not_producing: "consumer_pc c \<Longrightarrow> \<not> producing c"
  by (cases c) simp_all

lemma closing_no_pushes:
  assumes "closing W q s"
  shows "no_pushes s"
proof
  fix t
  have "consumer_pc (lq_pc s t)"
    using assms lq_reach_consumer [of W q s] unfolding closing_def by (cases "t \<in> W") auto
  then show "\<not> producing (lq_pc s t)" by (rule consumer_not_producing)
qed

text \<open>A step without a push in which nobody who waits is woken, neither by a notification nor spuriously.\<close>

definition unaided_step :: "nat set \<Rightarrow> 'a lfq \<Rightarrow> 'a lfq \<Rightarrow> bool" where
  "unaided_step W s s' \<longleftrightarrow> drain_step W s s' \<and> (\<forall>w. lq_pc s w = In_Wait \<longrightarrow> lq_pc s' w = In_Wait)"

lemma closing_step:
  assumes "closing W q s" "lq_step W s s'" "t \<in> W" "alone t s s'" "consumer_pc (lq_pc s' t)" "lq_pc s t \<noteq> In_Wait"
  shows "closing W q s'" "unaided_step W s s'"
proof -
  have "\<not> producing (lq_pc s' u)" for u
    using closing_no_pushes [OF assms(1)] consumer_not_producing [OF assms(5)] assms(4) by (cases "u = t") (auto simp: alone_def)
  with assms(2) have d: "drain_step W s s'" by (simp add: drain_step_def)
  moreover have "lq_pc s' w = In_Wait" if "lq_pc s w = In_Wait" for w
    using that assms(4,6) by (cases "w = t") (auto simp: alone_def)
  ultimately show "unaided_step W s s'" by (simp add: unaided_step_def)
  have r: "lq_reach W q s" using assms(1) by (simp add: closing_def)
  have "rg_pushed (lq_ring s') = rg_pushed (lq_ring s)" by (rule drain_step_pushed [OF d r closing_no_pushes [OF assms(1)]])
  with lq_step_sizes [OF assms(2)] have "rg_e (lq_ring s') + rg_N (lq_ring s') < half_range" using assms(1) by (simp add: closing_def)
  moreover have "lq_reach W q s'" using r assms(2) by (rule rtranclp.rtrancl_into_rtrancl)
  moreover have "lq_pc s' u = At_Rest" if "u \<notin> W" for u using that assms(1,3,4) by (auto simp: closing_def alone_def)
  ultimately show "closing W q s'" using assms(1,4) by (simp add: closing_def alone_def)
qed

lemma closing_lock:
  assumes "lf_new dflt c p = Some (Inr q)" "closing W q s" "W \<noteq> {}"
  shows "lq_owner s = Some t \<longleftrightarrow> holding (abs_pc (lq_pc s t) (rg_pc (lq_ring s) t))"
proof -
  have "park_reach W (lq_abs s)" using assms(2) by (intro lq_reach_park [OF assms(1)]) (simp_all add: closing_def)
  from park_inv_reach [OF this assms(3)] show ?thesis by (simp add: park_inv_def pk_lock_inv_def)
qed

lemma finish_pop:
  assumes new: "lf_new dflt c p = Some (Inr q)" and "closing W q s" "t \<in> W" "lq_owner s = None \<or> lq_owner s = Some t"
  shows "\<exists>s'. (unaided_step W)\<^sup>*\<^sup>* s s' \<and> closing W q s' \<and> lq_pc s' t = At_Rest \<and> (\<forall>u. u \<noteq> t \<longrightarrow> lq_pc s' u = lq_pc s u) \<and>
    lq_owner s' = None"
  using assms(2,4)
proof (induction "pop_rank s t" arbitrary: s rule: less_induct)
  case less
  have W: "W \<noteq> {}" using assms(3) by blast
  note lock = closing_lock [OF new less.prems(1) W, of t]
  have s: "lq_reach W q s" "rg_e (lq_ring s) + rg_N (lq_ring s) < half_range" "lq_shutting_down s"
    "\<And>u. u \<notin> W \<Longrightarrow> lq_pc s u = At_Rest" using less.prems(1) by (simp_all add: closing_def)
  have consumer: "consumer_pc (lq_pc s u)" for u
    using lq_reach_consumer [OF s(1)] s(4) [of u] by (cases "u \<in> W") auto
  show ?case
  proof (cases "lq_pc s t = At_Rest")
    case True
    then have "lq_owner s = None" using lock less.prems(2) by (auto simp: holding_def)
    with True less.prems(1) show ?thesis by blast
  next
    case False
    have "lq_pc s u \<noteq> Shutting" for u using consumer [of u] by auto
    from lock_free_shutdown_wakes_everyone [OF new s(1,2) W s(3) this, of t]
    have awake: "lq_pc s t \<noteq> In_Wait" "lq_pc s t \<noteq> About_To_Wait" by auto
    have "lq_owner s \<noteq> Some t" if "lq_pc s t = Want_Lock \<or> lq_pc s t = Notified" using that lock by (auto simp: holding_def)
    moreover have "runs (lq_pc s t) (rg_pc (lq_ring s) t)" using lq_reach_runs [OF s(1)] by blast
    ultimately obtain s1 where s1: "lq_step W s s1" "pop_rank s1 t < pop_rank s t" "consumer_pc (lq_pc s1 t)" "alone t s s1"
      using pop_progress [OF lq_reach_inv(1) [OF new s(1,2)] s(2) _ consumer False awake s(3) less.prems(2)] by blast
    note c1 = closing_step [OF less.prems(1) s1(1) assms(3) s1(4,3) awake(1)]
    have "lq_owner s1 = None \<or> lq_owner s1 = Some t" using s1(4) less.prems(2) by (auto simp: alone_def)
    from less.hyps [OF s1(2) c1(1) this] s1(4) c1(2) show ?thesis
      by (metis alone_def converse_rtranclp_into_rtranclp)
  qed
qed

lemma lq_reach_finite:
  assumes "lq_reach W q s"
  shows "finite {t. lq_pc s t \<noteq> At_Rest}"
  using assms
proof (induction rule: rtranclp_induct)
  case base
  show ?case by (simp add: lq_init_def)
next
  case (step s s')
  have "\<exists>t. {u. lq_pc s' u \<noteq> At_Rest} \<subseteq> insert t {u. lq_pc s u \<noteq> At_Rest}"
    using step(2)
  proof (cases rule: lq_step.cases)
    case (try_returns t r')
    then show ?thesis by (intro exI [of _ t]) force
  qed (auto simp: push_returns_def pop_returns_def intro!: exI split: if_splits)
  with step(3) show ?case by (meson finite_insert finite_subset)
qed

lemma closing_finishes:
  assumes new: "lf_new dflt c p = Some (Inr q)" and "closing W q s"
  shows "\<exists>s'. (unaided_step W)\<^sup>*\<^sup>* s s' \<and> (\<forall>t. lq_pc s' t = At_Rest)"
  using assms(2)
proof (induction "card {t. lq_pc s t \<noteq> At_Rest}" arbitrary: s rule: less_induct)
  case less
  have fin: "finite {t. lq_pc s t \<noteq> At_Rest}" using less.prems lq_reach_finite by (auto simp: closing_def)
  show ?case
  proof (cases "{t. lq_pc s t \<noteq> At_Rest} = {}")
    case False
    then obtain t where t: "lq_pc s t \<noteq> At_Rest" by blast
    have W: "u \<in> W" if "lq_pc s u \<noteq> At_Rest" for u using that less.prems by (auto simp: closing_def)
    have "\<exists>u. lq_pc s u \<noteq> At_Rest \<and> (lq_owner s = None \<or> lq_owner s = Some u)"
    proof (cases "lq_owner s")
      case (Some u)
      have "W \<noteq> {}" using W [OF t] by blast
      with Some have "lq_pc s u \<noteq> At_Rest" using closing_lock [OF new less.prems, of u] by (auto simp: holding_def)
      with Some show ?thesis by blast
    qed (use t in blast)
    then obtain u where u: "lq_pc s u \<noteq> At_Rest" "lq_owner s = None \<or> lq_owner s = Some u" by blast
    from finish_pop [OF new less.prems W [OF u(1)] u(2)] obtain s1 where s1: "(unaided_step W)\<^sup>*\<^sup>* s s1" "closing W q s1" "lq_pc s1 u = At_Rest"
      "\<And>v. v \<noteq> u \<Longrightarrow> lq_pc s1 v = lq_pc s v" by blast
    have "{t. lq_pc s1 t \<noteq> At_Rest} \<subset> {t. lq_pc s t \<noteq> At_Rest}" using s1(3,4) u(1) by fastforce
    with less.hyps [OF psubset_card_mono [OF fin] s1(2)] s1(1) show ?thesis by (meson rtranclp_trans)
  qed blast
qed

text \<open>C18: After \<^verbatim>\<open>shutdown()\<close> every \<^verbatim>\<open>pop()\<close> can return. From every state of a queue that is shut down, in which no producer and no \<^verbatim>\<open>shutdown()\<close> is inside a call, the
  consumers can run to the end of their calls without any help, not even a spurious wakeup of one that waits: none of them sleeps
  for ever, none holds the mutex for ever, and no \<^verbatim>\<open>try_pop()\<close> is caught in its loop, whatever the point of its loop at which each of them is.\<close>

theorem lock_free_pops_can_return:
  assumes "lf_new dflt c p = Some (Inr q)" "lq_reach W q s" "rg_e (lq_ring s) + rg_N (lq_ring s) < half_range"
    and "lq_shutting_down s" "\<And>t. t \<notin> W \<Longrightarrow> lq_pc s t = At_Rest"
  shows "\<exists>s'. (unaided_step W)\<^sup>*\<^sup>* s s' \<and> (\<forall>t. lq_pc s' t = At_Rest)"
  using assms by (intro closing_finishes [OF assms(1)]) (simp add: closing_def)

section \<open>A run\<close>

text \<open>The consumer of \<open>parked_queue\<close> after \<open>shutdown()\<close> has returned.\<close>

definition shut_queue :: "nat lfq" where
  "shut_queue = parked_queue\<lparr>lq_shutting_down := True, lq_pc := (\<lambda>_. At_Rest)(1 := Notified)\<rparr>"

lemma shut_queue_drained: "drain_reach {1} parked_queue shut_queue"
proof -
  let ?s1 = "parked_queue\<lparr>lq_shutting_down := True, lq_pc := (\<lambda>_. At_Rest)(1 := In_Wait, 0 := Shutting)\<rparr>"
  have "lq_step {1} parked_queue ?s1"
    using shutdown_call [of 0 "{1}" parked_queue] by (simp add: parked_queue_def lq_goto_def)
  then have "drain_step {1} parked_queue ?s1" by (simp add: drain_step_def)
  moreover have "(\<lambda>w. if w = 0 then At_Rest else if lq_pc ?s1 w = In_Wait then Notified else lq_pc ?s1 w) = (\<lambda>_. At_Rest)(1 := Notified)"
    by (auto simp: fun_eq_iff)
  then have "lq_step {1} ?s1 shut_queue" using notify_all [of ?s1 0 "{1}"] by (simp add: shut_queue_def parked_queue_def lq_init_def)
  then have "drain_step {1} ?s1 shut_queue" by (simp add: drain_step_def shut_queue_def)
  ultimately show ?thesis by (meson converse_rtranclp_into_rtranclp r_into_rtranclp)
qed

theorem lock_free_pops_can_return_witness:
  "\<exists>s. (unaided_step {1})\<^sup>*\<^sup>* shut_queue s \<and> lq_pc shut_queue 1 = Notified \<and> lq_pc s 1 = At_Rest"
proof -
  have r: "lq_reach {1} (lf_ring 0 2 Block) shut_queue" by (rule drain_reach_lq [OF parked_queue_reach shut_queue_drained])
  have b: "rg_e (lq_ring shut_queue) + rg_N (lq_ring shut_queue) < half_range" using parked_queue_small by (simp add: shut_queue_def)
  have "\<exists>s'. (unaided_step {1})\<^sup>*\<^sup>* shut_queue s' \<and> (\<forall>t. lq_pc s' t = At_Rest)"
    by (rule lock_free_pops_can_return [OF ring_of_two_new r b]) (simp_all add: shut_queue_def)
  then show ?thesis by (auto simp: shut_queue_def)
qed

lemma lq_exec_no_pushes:
  assumes "lq_exec W c s = Some s'" "no_pushes s" "\<And>t x. c \<noteq> Call_Push t x"
  shows "no_pushes s'"
proof -
  have wants: "wants_push (lq_pc s t) = None" for t using assms(2) no_pushes_wants by blast
  show ?thesis
  proof (cases c)
    case (Go t)
    show ?thesis
    proof
      fix u
      have after: "\<not> producing (lq_pc (after_try t (lq_pc s t) res s0) u)" if "lq_pc s0 = lq_pc s" for res s0
        using that spec [OF assms(2), of t] spec [OF assms(2), of u] by (cases "(t, lq_pc s t, res, s0)" rule: after_try.cases)
          (auto simp: push_returns_def pop_returns_def)
      show "\<not> producing (lq_pc s' u)"
        using assms(1,2) Go wants after by (cases "lq_pc s t")
          (auto simp: lq_advance_def Let_def push_returns_def split: if_splits)
    qed
  qed (use assms in \<open>auto split: if_splits\<close>)
qed

lemma lq_execs_drain:
  "lq_execs W cs s = Some s' \<Longrightarrow> no_pushes s \<Longrightarrow> (\<And>t x. Call_Push t x \<notin> set cs) \<Longrightarrow> drain_reach W s s'"
proof (induction cs arbitrary: s)
  case (Cons c cs)
  then obtain s1 where s1: "lq_exec W c s = Some s1" "lq_execs W cs s1 = Some s'" by (auto simp: bind_eq_Some_conv)
  have "no_pushes s1" by (rule lq_exec_no_pushes [OF s1(1) Cons.prems(2)]) (use Cons.prems(3) in fastforce)
  with Cons.IH [OF s1(2)] Cons.prems(3) have "drain_reach W s1 s'" by fastforce
  moreover have "drain_step W s s1" using lq_exec_step [OF s1(1)] \<open>no_pushes s1\<close> by (simp add: drain_step_def)
  ultimately show ?case by (rule converse_rtranclp_into_rtranclp [rotated])
qed simp

text \<open>Thread 0 pushes 7 and shuts the queue down; thread 1 pops twice.\<close>

definition push_one :: "nat lq_cmd list" where
  "push_one = Call_Push 0 7 # replicate 6 (Go 0)"

definition shut_and_pop :: "nat lq_cmd list" where
  "shut_and_pop = [Call_Shutdown 0, Go 0] @ Call_Pop 1 # replicate 5 (Go 1) @ Call_Pop 1 # replicate 7 (Go 1)"

theorem lock_free_shutdown_drains_witness:
  "\<exists>s. drain_reach {1} (calls_run Block push_one) s \<and> lq_pushes s = [(Accepted, 7)] \<and> lq_pops s = [Some 7, None] \<and>
     rg_enqueue_pos (lq_ring s) = rg_dequeue_pos (lq_ring s)"
proof -
  let ?s1 = "calls_run Block push_one"
  have run1: "lq_execs {1} push_one (lq_init (lf_ring 0 2 Block)) \<noteq> None" by code_simp
  have "lq_execs {1} shut_and_pop ?s1 \<noteq> None" by code_simp
  then obtain s where s: "lq_execs {1} shut_and_pop ?s1 = Some s" by blast
  have "map_option (\<lambda>s. (lq_pushes s, lq_pops s)) (lq_execs {1} shut_and_pop ?s1) = Some ([(Accepted, 7)], [Some 7, None])" by code_simp
  then have hist: "lq_pushes s = [(Accepted, 7)]" "lq_pops s = [Some 7, None]" unfolding s by simp_all
  have "rg_e (lq_ring ?s1) + rg_N (lq_ring ?s1) = 3" by code_simp
  then have b: "rg_e (lq_ring ?s1) + rg_N (lq_ring ?s1) < half_range" by simp
  have "lq_pc ?s1 0 = At_Rest" by code_simp
  moreover have "lq_cmd_thread ` set push_one = {0}" by (auto simp: push_one_def)
  ultimately have rest: "lq_pc ?s1 t = At_Rest" for t using calls_run_reach(2) [OF run1, of t] by (cases "t = 0") auto
  have "\<not> lq_shutting_down ?s1" by code_simp
  moreover have d: "drain_reach {1} ?s1 s" by (rule lq_execs_drain [OF s]) (auto simp: rest shut_and_pop_def)
  ultimately have "rg_enqueue_pos (lq_ring s) = rg_dequeue_pos (lq_ring s)"
    using lock_free_shutdown_drains [OF ring_of_two_new calls_run_reach(1) [OF run1] b _ _ d] rest hist(2) by simp
  with d hist show ?thesis by blast
qed

end
