(* ===== verification/Batcher.thy ===== *)
theory Batcher
  imports Prelude
begin

text \<open>
  \<^verbatim>\<open>core/src/batcher.cpp\<close>: events are buffered and handed to the flush callback as a batch when the
  batch is full or old enough. The callback is an argument that changes the state of whatever is
  behind it (\<open>'s\<close>, the sink); both member functions run under the batcher's mutex, so each is one
  step. The two readings of the clock in \<open>add_event\<close> are arguments, in nanoseconds.
\<close>

section \<open>State and operations\<close>

record 'e Batcher =
  ba_max_batch_size :: nat
  ba_max_batch_age :: int      \<comment> \<open>milliseconds\<close>
  ba_buffer :: "'e list"
  ba_batch_started_at :: int   \<comment> \<open>nanoseconds\<close>

definition batcher_new :: "nat \<Rightarrow> int \<Rightarrow> int \<Rightarrow> 'e Batcher" where
  "batcher_new max_batch_size max_batch_age now =
     \<lparr>ba_max_batch_size = max_batch_size, ba_max_batch_age = max_batch_age, ba_buffer = [],
      ba_batch_started_at = now\<rparr>"

definition should_flush_locked :: "int \<Rightarrow> 'e Batcher \<Rightarrow> bool" where
  "should_flush_locked now b \<longleftrightarrow>
     (if length (ba_buffer b) \<ge> ba_max_batch_size b then True
      else now - ba_batch_started_at b \<ge> ba_max_batch_age b * 1000000)"

definition flush_locked :: "('e list \<Rightarrow> 's \<Rightarrow> 's) \<Rightarrow> 'e Batcher \<Rightarrow> 's \<Rightarrow> 'e Batcher \<times> 's" where
  "flush_locked on_flush b s = (b\<lparr>ba_buffer := []\<rparr>, on_flush (ba_buffer b) s)"

definition add_event ::
    "('e list \<Rightarrow> 's \<Rightarrow> 's) \<Rightarrow> int \<Rightarrow> int \<Rightarrow> 'e \<Rightarrow> 'e Batcher \<Rightarrow> 's \<Rightarrow> 'e Batcher \<times> 's" where
  "add_event on_flush now1 now2 event b s =
     (let b1 = (if ba_buffer b = [] then b\<lparr>ba_batch_started_at := now1\<rparr> else b);
          b2 = b1\<lparr>ba_buffer := ba_buffer b1 @ [event]\<rparr>
      in if should_flush_locked now2 b2 then flush_locked on_flush b2 s else (b2, s))"

definition batcher_flush :: "('e list \<Rightarrow> 's \<Rightarrow> 's) \<Rightarrow> 'e Batcher \<Rightarrow> 's \<Rightarrow> 'e Batcher \<times> 's" where
  "batcher_flush on_flush b s = (if ba_buffer b \<noteq> [] then flush_locked on_flush b s else (b, s))"

text \<open>A sequence of calls, each under the mutex.\<close>

datatype 'e batcher_call = Add_Event int int 'e | Flush

fun batcher_step :: "('e list \<Rightarrow> 's \<Rightarrow> 's) \<Rightarrow> 'e batcher_call \<Rightarrow> 'e Batcher \<times> 's \<Rightarrow> 'e Batcher \<times> 's" where
  "batcher_step on_flush (Add_Event now1 now2 event) (b, s) = add_event on_flush now1 now2 event b s"
| "batcher_step on_flush Flush (b, s) = batcher_flush on_flush b s"

fun batcher_calls :: "('e list \<Rightarrow> 's \<Rightarrow> 's) \<Rightarrow> 'e batcher_call list \<Rightarrow> 'e Batcher \<times> 's \<Rightarrow> 'e Batcher \<times> 's" where
  "batcher_calls on_flush [] bs = bs"
| "batcher_calls on_flush (c # cs) bs = batcher_calls on_flush cs (batcher_step on_flush c bs)"

fun call_events :: "'e batcher_call \<Rightarrow> 'e list" where
  "call_events (Add_Event now1 now2 event) = [event]"
| "call_events Flush = []"

text \<open>The reading of the clock with which an event came.\<close>

fun call_clocks :: "'e batcher_call \<Rightarrow> int list" where
  "call_clocks (Add_Event now1 now2 event) = [now1]"
| "call_clocks Flush = []"

section \<open>The batches a sequence of calls hands out\<close>

text \<open>With the list of batches as the sink state every callback can be recovered: its state is the
  callback run over these batches in order.\<close>

abbreviation collect :: "'e list \<Rightarrow> 'e list list \<Rightarrow> 'e list list" where
  "collect batch bs \<equiv> bs @ [batch]"

lemma batcher_step_generic:
  "batcher_step on_flush c (b, s) =
     (let (b', bs) = batcher_step collect c (b, []) in (b', fold on_flush bs s))"
  by (cases c) (simp_all add: add_event_def batcher_flush_def flush_locked_def Let_def)

lemma batcher_step_append:
  "batcher_step collect c (b, bs) = (let (b', bs') = batcher_step collect c (b, []) in (b', bs @ bs'))"
  by (cases c) (simp_all add: add_event_def batcher_flush_def flush_locked_def Let_def)

text \<open>The buffer is below the size threshold between two calls.\<close>

definition batcher_inv :: "'e Batcher \<Rightarrow> bool" where
  "batcher_inv b \<longleftrightarrow> ba_buffer b = [] \<or> length (ba_buffer b) < ba_max_batch_size b"

definition batch_ok :: "nat \<Rightarrow> 'e list \<Rightarrow> bool" where
  "batch_ok n batch \<longleftrightarrow> batch \<noteq> [] \<and> length batch \<le> max 1 n"

lemma batcher_step_facts:
  assumes "batcher_step collect c (b, []) = (b', bs)" and "batcher_inv b"
  shows "concat bs @ ba_buffer b' = ba_buffer b @ call_events c"
    and "\<And>batch. batch \<in> set bs \<Longrightarrow> batch_ok (ba_max_batch_size b) batch"
    and "batcher_inv b'" and "ba_max_batch_size b' = ba_max_batch_size b"
    and "ba_max_batch_age b' = ba_max_batch_age b"
  using assms
  by (cases c; auto simp: add_event_def batcher_flush_def flush_locked_def should_flush_locked_def
      batcher_inv_def batch_ok_def Let_def split: if_splits)+

lemma batcher_calls_facts:
  assumes "batcher_calls collect cs (b, bs) = (b', bs')" and "batcher_inv b"
    and "\<And>batch. batch \<in> set bs \<Longrightarrow> batch_ok (ba_max_batch_size b) batch"
  shows "concat bs' @ ba_buffer b' = concat bs @ ba_buffer b @ concat (map call_events cs) \<and>
    (\<forall>batch \<in> set bs'. batch_ok (ba_max_batch_size b) batch) \<and> batcher_inv b' \<and>
    ba_max_batch_size b' = ba_max_batch_size b"
  using assms
proof (induction cs arbitrary: b bs)
  case (Cons c cs)
  obtain b1 bs1 where c: "batcher_step collect c (b, []) = (b1, bs1)" by fastforce
  note F = batcher_step_facts [OF c Cons.prems(2)]
  from Cons.prems(1) c have "batcher_calls collect cs (b1, bs @ bs1) = (b', bs')"
    by (simp add: batcher_step_append [of c b bs])
  moreover have "batch_ok (ba_max_batch_size b1) batch" if "batch \<in> set (bs @ bs1)" for batch
    using that F(2,4) Cons.prems(3) by auto
  ultimately have IH: "concat bs' @ ba_buffer b' = concat (bs @ bs1) @ ba_buffer b1 @ concat (map call_events cs)"
    "\<forall>batch \<in> set bs'. batch_ok (ba_max_batch_size b1) batch" "batcher_inv b'"
    "ba_max_batch_size b' = ba_max_batch_size b1"
    using Cons.IH [of b1 "bs @ bs1"] F(3) by blast+
  have "concat bs1 @ ba_buffer b1 @ concat (map call_events cs)
      = ba_buffer b @ call_events c @ concat (map call_events cs)"
    using F(1) by (metis append.assoc)
  with IH F(4) show ?case by simp
qed simp

lemma batcher_calls_generic:
  "batcher_calls on_flush cs (b, s) =
     (let (b', bs) = batcher_calls collect cs (b, []) in (b', fold on_flush bs s))"
proof -
  have "batcher_calls on_flush cs (b, fold on_flush bs s) =
     (let (b', bs') = batcher_calls collect cs (b, bs) in (b', fold on_flush bs' s))" for bs
  proof (induction cs arbitrary: b bs)
    case (Cons c cs)
    obtain b1 bs1 where c: "batcher_step collect c (b, []) = (b1, bs1)" by fastforce
    then have "batcher_step on_flush c (b, fold on_flush bs s) = (b1, fold on_flush (bs @ bs1) s)"
      by (simp add: batcher_step_generic [of on_flush])
    moreover from c have "batcher_step collect c (b, bs) = (b1, bs @ bs1)"
      by (simp add: batcher_step_append [of c b bs])
    ultimately show ?case using Cons.IH [of b1 "bs @ bs1"] by simp
  qed simp
  from this [of "[]"] show ?thesis by simp
qed

text \<open>The age of a batch counts from the reading of the clock with which its first event came.\<close>

definition opened_at :: "int list \<Rightarrow> 'e list \<Rightarrow> int" where
  "opened_at clocks batch = clocks ! (length clocks - length batch)"

definition batch_opened :: "int list \<Rightarrow> 'e Batcher \<Rightarrow> bool" where
  "batch_opened clocks b \<longleftrightarrow> length (ba_buffer b) \<le> length clocks \<and>
     (ba_buffer b \<noteq> [] \<longrightarrow> ba_batch_started_at b = opened_at clocks (ba_buffer b))"

lemma opened_at_snoc: "batch \<noteq> [] \<Longrightarrow> length batch \<le> length clocks \<Longrightarrow> opened_at (clocks @ [now]) (batch @ [event]) = opened_at clocks batch"
  by (cases batch) (auto simp: opened_at_def nth_append)

lemma batcher_step_opened:
  assumes "batch_opened clocks b" "batcher_step on_flush c (b, s) = (b', s')"
  shows "batch_opened (clocks @ call_clocks c) b'"
proof (cases c)
  case (Add_Event now1 now2 event)
  then show ?thesis
  proof (cases "ba_buffer b = []")
    case True
    then show ?thesis using assms(2) Add_Event
      by (auto simp: batch_opened_def opened_at_def add_event_def flush_locked_def Let_def split: if_splits)
  next
    case False
    then show ?thesis using assms Add_Event
      by (auto simp: batch_opened_def opened_at_snoc add_event_def flush_locked_def Let_def split: if_splits)
  qed
next
  case Flush
  then show ?thesis using assms by (auto simp: batch_opened_def batcher_flush_def flush_locked_def split: if_splits)
qed

lemma batcher_calls_opened:
  "batch_opened clocks b \<Longrightarrow> batcher_calls on_flush cs (b, s) = (b', s') \<Longrightarrow>
   batch_opened (clocks @ concat (map call_clocks cs)) b' \<and> ba_max_batch_age b' = ba_max_batch_age b"
proof (induction cs arbitrary: clocks b s)
  case (Cons c cs)
  obtain b1 s1 where c: "batcher_step on_flush c (b, s) = (b1, s1)" by fastforce
  have "ba_max_batch_age b1 = ba_max_batch_age b"
    using c by (cases c) (auto simp: add_event_def batcher_flush_def flush_locked_def Let_def split: if_splits)
  with Cons.IH [OF batcher_step_opened [OF Cons.prems(1) c], of s1] Cons.prems(2) c show ?case by simp
qed simp

lemma add_event_cuts:
  assumes "batch_opened clocks b"
  shows "add_event on_flush now1 now2 event b s =
    (let batch = ba_buffer b @ [event]; opened = opened_at (clocks @ [now1]) batch
     in if ba_max_batch_size b \<le> length batch \<or> ba_max_batch_age b * 1000000 \<le> now2 - opened
        then (b\<lparr>ba_buffer := [], ba_batch_started_at := opened\<rparr>, on_flush batch s)
        else (b\<lparr>ba_buffer := batch, ba_batch_started_at := opened\<rparr>, s))"
proof (cases "ba_buffer b = []")
  case True
  then show ?thesis by (simp add: add_event_def should_flush_locked_def flush_locked_def opened_at_def Let_def)
next
  case False
  then have "opened_at (clocks @ [now1]) (ba_buffer b @ [event]) = ba_batch_started_at b"
    using assms by (simp add: batch_opened_def opened_at_snoc)
  then show ?thesis using False by (simp add: add_event_def should_flush_locked_def flush_locked_def Let_def)
qed

section \<open>Properties\<close>

text \<open>C30: Whatever sequence of \<^verbatim>\<open>add_event\<close> and \<^verbatim>\<open>flush\<close> calls the worker and flush threads make, and
  whatever the clock says, the sink sees exactly the events that were added, each once and in the
  order of the calls, cut into batches that are never empty and never larger than the configured
  size; what it has not seen is in the buffer. The next event goes out at once, with the whole buffer, exactly
  when the batch has reached the configured size or when the configured age has passed since the clock was read for the first
  event of the batch, and is only buffered otherwise; a \<^verbatim>\<open>flush\<close> hands over the buffer if there is anything in it and leaves
  nothing behind. Any flush callback is run over these very batches, in order.\<close>

theorem batcher_hands_over_everything:
  assumes "batcher_calls (\<lambda>batch bs. bs @ [batch]) cs (batcher_new n age now, []) = (b, batches)"
  shows "concat batches @ ba_buffer b = concat (map call_events cs) \<and>
    (\<forall>batch \<in> set batches. batch \<noteq> [] \<and> length batch \<le> max 1 n) \<and>
    (ba_buffer b = [] \<or> length (ba_buffer b) < n) \<and>
    (let batch = ba_buffer b @ [event];
         opened = opened_at (concat (map call_clocks cs) @ [now1]) batch;
         (b', s') = add_event on_flush now1 now2 event b s
     in (ba_buffer b', s') =
          (if n \<le> length batch \<or> age * 1000000 \<le> now2 - opened then ([], on_flush batch s) else (batch, s))) \<and>
    (let (b', s') = batcher_flush on_flush b s
     in ba_buffer b' = [] \<and> s' = (if ba_buffer b = [] then s else on_flush (ba_buffer b) s)) \<and>
    batcher_calls on_flush cs (batcher_new n age now, s0) = (b, fold on_flush batches s0)"
proof -
  let ?b0 = "batcher_new n age now" and ?clocks = "concat (map call_clocks cs)"
  have inv: "batcher_inv ?b0" "batch_opened [] ?b0" by (simp_all add: batcher_inv_def batch_opened_def batcher_new_def)
  from batcher_calls_facts [OF assms inv(1)]
  have F: "concat batches @ ba_buffer b = concat (map call_events cs)"
    "\<forall>batch \<in> set batches. batch_ok n batch" "batcher_inv b" "ba_max_batch_size b = n"
    by (auto simp: batcher_new_def)
  have O: "batch_opened ?clocks b" "ba_max_batch_age b = age"
    using batcher_calls_opened [OF inv(2) assms] by (simp_all add: batcher_new_def)
  have "let batch = ba_buffer b @ [event]; opened = opened_at (?clocks @ [now1]) batch;
         (b', s') = add_event on_flush now1 now2 event b s
     in (ba_buffer b', s') =
          (if n \<le> length batch \<or> age * 1000000 \<le> now2 - opened then ([], on_flush batch s) else (batch, s))"
    unfolding add_event_cuts [OF O(1)] O(2) F(4) Let_def by simp
  moreover have "let (b', s') = batcher_flush on_flush b s
     in ba_buffer b' = [] \<and> s' = (if ba_buffer b = [] then s else on_flush (ba_buffer b) s)"
    by (simp add: batcher_flush_def flush_locked_def)
  moreover have "batcher_calls on_flush cs (?b0, s0) = (b, fold on_flush batches s0)"
    using assms batcher_calls_generic [of on_flush cs ?b0 s0] by simp
  moreover have "\<forall>batch \<in> set batches. batch \<noteq> [] \<and> length batch \<le> max 1 n" "ba_buffer b = [] \<or> length (ba_buffer b) < n"
    using F(2-4) by (auto simp: batch_ok_def batcher_inv_def)
  ultimately show ?thesis using F(1) by blast
qed

theorem batcher_hands_over_everything_witness:
  "batcher_calls (\<lambda>batch bs. bs @ [batch])
      [Add_Event 0 0 (1::nat), Add_Event 0 0 2, Add_Event 0 0 3, Flush, Add_Event 0 300000000 4, Add_Event 7 7 5]
      (batcher_new 2 200 0, [])
    = (\<lparr>ba_max_batch_size = 2, ba_max_batch_age = 200, ba_buffer = [5], ba_batch_started_at = 7\<rparr>,
       [[1, 2], [3], [4]]) \<and>
   concat [[1, 2], [3], [4]] @ [5] = [1, 2, 3, 4, 5::nat]"
proof -
  let ?cs = "[Add_Event 0 0 (1::nat), Add_Event 0 0 2, Add_Event 0 0 3, Flush, Add_Event 0 300000000 4, Add_Event 7 7 5]"
  have run: "batcher_calls (\<lambda>batch bs. bs @ [batch]) ?cs (batcher_new 2 200 0, [])
    = (\<lparr>ba_max_batch_size = 2, ba_max_batch_age = 200, ba_buffer = [5], ba_batch_started_at = 7\<rparr>,
       [[1, 2], [3], [4]])"
    by (simp add: batcher_new_def add_event_def batcher_flush_def flush_locked_def should_flush_locked_def)
  from batcher_hands_over_everything [OF run, where on_flush = "\<lambda>batch bs. bs @ [batch]" and s = "[]" and ?s0.0 = "[]"
      and event = 6 and ?now1.0 = 0 and ?now2.0 = 0] run
  show ?thesis by simp
qed

text \<open>The age threshold holds as far as \<^verbatim>\<open>add_event\<close> is called: after a call that leaves events in
  the buffer, the batch they belong to is younger than the configured age by the clock the call
  read, and an event that arrives when the batch has reached that age goes out with the batch at
  once.\<close>

theorem add_event_respects_age:
  assumes "add_event on_flush now1 now2 event b s = (b', s')"
  shows "(ba_buffer b' \<noteq> [] \<longrightarrow>
      now2 - ba_batch_started_at b' < ba_max_batch_age b * 1000000 \<and> s' = s) \<and>
    (ba_buffer b \<noteq> [] \<and> now2 - ba_batch_started_at b \<ge> ba_max_batch_age b * 1000000 \<longrightarrow>
      ba_buffer b' = [] \<and> s' = on_flush (ba_buffer b @ [event]) s)"
  using assms
  by (auto simp: add_event_def flush_locked_def should_flush_locked_def Let_def split: if_splits)

theorem add_event_respects_age_witness:
  "snd (add_event (\<lambda>batch bs. bs @ [batch]) 0 200000000 (2::nat)
      \<lparr>ba_max_batch_size = 10, ba_max_batch_age = 200, ba_buffer = [1], ba_batch_started_at = 0\<rparr> []) = [[1, 2]]"
proof -
  let ?b = "\<lparr>ba_max_batch_size = 10, ba_max_batch_age = 200, ba_buffer = [1::nat], ba_batch_started_at = 0\<rparr>"
  let ?r = "add_event (\<lambda>batch bs. bs @ [batch]) 0 200000000 2 ?b []"
  from add_event_respects_age [of "\<lambda>batch bs. bs @ [batch]" 0 200000000 2 ?b "[]" "fst ?r" "snd ?r"]
  show ?thesis by simp
qed

end
