(* ===== verification/Binary64.thy ===== *)
theory Binary64
  imports Prelude Complex_Main
begin

text \<open>
  \<open>double\<close> as IEEE binary64, on integers: a finite value is a sign, a mantissa and a binary exponent,
  and every operation rounds to the nearest representable value, ties to even. The operations are
  those the sources use: conversion from integers, quotients, comparisons, conversion back to an
  integer. \<open>real_of_double\<close> gives the real number a finite value stands for.
\<close>

section \<open>Values\<close>

text \<open>A value: \<open>(-1)\<^sup>s * m * 2\<^sup>e\<close>, or not finite. The values of the type \<open>double\<close> are those that satisfy
  \<open>is_binary64\<close>: the mantissa has 53 bits, or fewer at the smallest exponent (a subnormal number), the exponent is in the range of
  the format, and zero has one form for each sign. Every operation below returns such a value.\<close>

datatype cpp_double = Finite_Double bool nat int | Infinite_Double bool | NaN_Double

fun is_binary64 :: "cpp_double \<Rightarrow> bool" where
  "is_binary64 (Finite_Double s m e) \<longleftrightarrow> m = 0 \<and> e = 0 \<or>
     0 < m \<and> m < 2 ^ 53 \<and> - 1074 \<le> e \<and> e \<le> 971 \<and> (2 ^ 52 \<le> m \<or> e = - 1074)"
| "is_binary64 _ \<longleftrightarrow> True"

fun isfinite :: "cpp_double \<Rightarrow> bool" where
  "isfinite (Finite_Double s m e) \<longleftrightarrow> True"
| "isfinite _ \<longleftrightarrow> False"

section \<open>Binary64 arithmetic on naturals\<close>

fun bit_length :: "nat \<Rightarrow> nat" where
  "bit_length n = (if n = 0 then 0 else Suc (bit_length (n div 2)))"

declare bit_length.simps [simp del]

text \<open>\<open>n / d\<close> rounded to the nearest integer, ties to even; and \<open>n\<close> rounded to 53 significant bits.\<close>

definition round_div :: "nat \<Rightarrow> nat \<Rightarrow> nat" where
  "round_div n d = (let q = n div d; r = n mod d in if 2 * r > d \<or> 2 * r = d \<and> odd q then q + 1 else q)"

definition round_sig53 :: "nat \<Rightarrow> nat" where
  "round_sig53 n = (let k = bit_length n - 53 in round_div n (2 ^ k) * 2 ^ k)"

text \<open>The quotient of two \<open>double\<close>s that are natural numbers, as mantissa and exponent:
  \<open>(m, e)\<close> is \<open>m * 2 ^ e\<close>.\<close>

type_synonym double = "nat \<times> int"

definition double_quot :: "nat \<Rightarrow> nat \<Rightarrow> double" where
  "double_quot a b =
     (if a = 0 then (0, 0)
      else let s = 54 + int (bit_length b) - int (bit_length a);
               num = a * 2 ^ nat s; den = b * 2 ^ nat (- s);
               k = bit_length (num div den) - 53
           in (round_div num (den * 2 ^ k), int k - s))"

section \<open>Facts on rounding\<close>

lemma bit_length_lower: "0 < n \<Longrightarrow> 2 ^ (bit_length n - 1) \<le> n"
proof (induction n rule: bit_length.induct)
  case (1 n)
  show ?case
  proof (cases "n div 2 = 0")
    case True
    with 1(2) show ?thesis by (simp add: bit_length.simps [of n] bit_length.simps [of 0])
  next
    case False
    with 1 have "2 ^ (bit_length (n div 2) - 1) \<le> n div 2" by simp
    then have "2 * 2 ^ (bit_length (n div 2) - 1) \<le> n" by linarith
    moreover have "0 < bit_length (n div 2)" using False by (subst bit_length.simps) simp
    ultimately show ?thesis
      using 1(2) by (simp add: bit_length.simps [of n] flip: power_Suc)
  qed
qed

lemma bit_length_upper: "n < 2 ^ bit_length n"
proof (induction n rule: bit_length.induct)
  case (1 n)
  then show ?case by (cases "n = 0") (simp_all add: bit_length.simps [of n])
qed

lemma bit_length_le: "n < 2 ^ k \<Longrightarrow> bit_length n \<le> k"
proof (rule ccontr)
  assume n: "n < 2 ^ k" and "\<not> bit_length n \<le> k"
  then have k: "k \<le> bit_length n - 1" by simp
  have "0 < n" using \<open>\<not> bit_length n \<le> k\<close> by (cases "n = 0") (simp_all add: bit_length.simps)
  from bit_length_lower [OF this] power_increasing [OF k, of "2::nat"] n show False by linarith
qed

lemma round_div_one [simp]: "round_div n (Suc 0) = n"
  by (simp add: round_div_def)

lemma round_sig53_exact [simp]: "n < 2 ^ 53 \<Longrightarrow> round_sig53 n = n"
  using bit_length_le [of n 53] by (simp add: round_sig53_def)

lemma round_div_upper: "2 * (round_div n d * d) \<le> 2 * n + d"
proof -
  have n: "n div d * d + n mod d = n" by simp
  have "2 * ((n div d + 1) * d) \<le> 2 * n + d" if "d \<le> 2 * (n mod d)"
  proof -
    have "2 * (a + d) \<le> 2 * n + d" if "a + m = n" "d \<le> 2 * m" for a m :: nat
      using that by auto
    from this [OF n that] show ?thesis by (simp add: add_mult_distrib)
  qed
  moreover have "2 * (n div d * d) \<le> 2 * n + d" using n by linarith
  ultimately show ?thesis by (auto simp: round_div_def Let_def)
qed

lemma round_sig53_upper: "round_sig53 n * 2 ^ 53 \<le> n * (2 ^ 53 + 1)"
proof (cases "bit_length n \<le> 53")
  case True
  then show ?thesis by (simp add: round_sig53_def)
next
  case False
  let ?k = "bit_length n - 53"
  have "2 ^ (bit_length n - 1) \<le> n"
    using False by (intro bit_length_lower) (cases "n = 0"; simp add: bit_length.simps)
  moreover have "bit_length n - 1 = ?k + 52" using False by simp
  ultimately have "2 ^ ?k * 2 ^ 52 \<le> n" by (simp only: power_add)
  with round_div_upper [of n "2 ^ ?k"] show ?thesis
    by (simp add: round_sig53_def Let_def)
qed

section \<open>Rounding of fractions\<close>

text \<open>The exponent at which \<open>p / q\<close> has a mantissa of 53 bits, but not below that of the subnormal
  numbers.\<close>

definition frac_exponent :: "nat \<Rightarrow> nat \<Rightarrow> int" where
  "frac_exponent p q =
     (let e = int (bit_length p) - int (bit_length q) - 53
      in max (if p * 2 ^ nat (- (53 + e)) \<ge> q * 2 ^ nat (53 + e) then e + 1 else e) (- 1074))"

definition round_frac :: "bool \<Rightarrow> nat \<Rightarrow> nat \<Rightarrow> cpp_double" where
  "round_frac s p q =
     (if p = 0 then Finite_Double s 0 0
      else let e = frac_exponent p q;
               m = round_div (p * 2 ^ nat (- e)) (q * 2 ^ nat e);
               (m, e) = (if m = 2 ^ 53 then (2 ^ 52, e + 1) else (m, e))
           in if e > 971 then Infinite_Double s else if m = 0 then Finite_Double s 0 0 else Finite_Double s m e)"

text \<open>Quotient, comparison, \<open>std::clamp\<close>, and truncation to an integer (undefined for values that are
  not finite).\<close>

fun double_div :: "cpp_double \<Rightarrow> cpp_double \<Rightarrow> cpp_double" where
  "double_div (Finite_Double s m e) (Finite_Double s' m' e') =
     (if m' = 0 then (if m = 0 then NaN_Double else Infinite_Double (s \<noteq> s'))
      else round_frac (s \<noteq> s') (m * 2 ^ nat (e - e')) (m' * 2 ^ nat (e' - e)))"
| "double_div (Infinite_Double s) (Finite_Double s' m' e') = Infinite_Double (s \<noteq> s')"
| "double_div (Finite_Double s m e) (Infinite_Double s') = Finite_Double (s \<noteq> s') 0 0"
| "double_div _ _ = NaN_Double"

definition signed_scaled :: "int \<Rightarrow> bool \<Rightarrow> nat \<Rightarrow> int \<Rightarrow> int" where
  "signed_scaled E s m e = (if s then - 1 else 1) * int m * 2 ^ nat (e - E)"

fun double_less :: "cpp_double \<Rightarrow> cpp_double \<Rightarrow> bool" where
  "double_less (Finite_Double s m e) (Finite_Double s' m' e') \<longleftrightarrow>
     signed_scaled (min e e') s m e < signed_scaled (min e e') s' m' e'"
| "double_less (Infinite_Double s) (Finite_Double s' m' e') \<longleftrightarrow> s"
| "double_less (Finite_Double s m e) (Infinite_Double s') \<longleftrightarrow> \<not> s'"
| "double_less (Infinite_Double s) (Infinite_Double s') \<longleftrightarrow> s \<and> \<not> s'"
| "double_less _ _ \<longleftrightarrow> False"

definition double_le :: "cpp_double \<Rightarrow> cpp_double \<Rightarrow> bool" where
  "double_le x y \<longleftrightarrow> x \<noteq> NaN_Double \<and> y \<noteq> NaN_Double \<and> \<not> double_less y x"

definition double_of_nat :: "nat \<Rightarrow> cpp_double" where
  "double_of_nat n = round_frac False n 1"

definition clamp :: "cpp_double \<Rightarrow> cpp_double \<Rightarrow> cpp_double \<Rightarrow> cpp_double" where
  "clamp v lo hi = (if double_less v lo then lo else if double_less hi v then hi else v)"

fun double_trunc :: "cpp_double \<Rightarrow> int option" where
  "double_trunc (Finite_Double s m e) =
     Some ((if s then - 1 else 1) * (if e \<ge> 0 then int m * 2 ^ nat e else int m div 2 ^ nat (- e)))"
| "double_trunc _ = None"

section \<open>The real numbers behind\<close>

fun real_of_double :: "cpp_double \<Rightarrow> real" where
  "real_of_double (Finite_Double s m e) = (if s then - 1 else 1) * real m * 2 powi e"
| "real_of_double _ = 0"

lemma signed_scaled_real:
  assumes "E \<le> e"
  shows "real_of_int (signed_scaled E s m e) * 2 powi E = real_of_double (Finite_Double s m e)"
proof -
  have "(2 :: real) ^ nat (e - E) * 2 powi E = 2 powi (e - E) * 2 powi E"
    using assms by (simp add: power_int_def)
  also have "\<dots> = 2 powi e" by (simp flip: power_int_add)
  finally show ?thesis by (simp add: signed_scaled_def mult.assoc)
qed

lemma double_less_real:
  assumes "isfinite x" "isfinite y"
  shows "double_less x y \<longleftrightarrow> real_of_double x < real_of_double y"
proof -
  obtain s m e s' m' e' where xy: "x = Finite_Double s m e" "y = Finite_Double s' m' e'"
    using assms by (cases x; cases y) auto
  let ?E = "min e e'"
  have pos: "(0 :: real) < 2 powi ?E" by simp
  have "real_of_double x = real_of_int (signed_scaled ?E s m e) * 2 powi ?E"
    "real_of_double y = real_of_int (signed_scaled ?E s' m' e') * 2 powi ?E"
    unfolding xy by (intro signed_scaled_real [symmetric]; simp)+
  then show ?thesis using pos by (simp add: xy del: real_of_double.simps)
qed

lemma double_le_real:
  assumes "isfinite x" "isfinite y"
  shows "double_le x y \<longleftrightarrow> real_of_double x \<le> real_of_double y"
  using assms double_less_real [OF assms(2,1)] by (cases x; cases y) (auto simp: double_le_def)

lemma double_trunc_floor:
  "double_trunc (Finite_Double False m e) = Some \<lfloor>real_of_double (Finite_Double False m e)\<rfloor>"
proof (cases "e \<ge> 0")
  case True
  then have "real_of_double (Finite_Double False m e) = of_int (int m * 2 ^ nat e)"
    by (simp add: power_int_def)
  then show ?thesis using True by (simp only: floor_of_int double_trunc.simps) simp
next
  case False
  then obtain n where n: "e = - int n" by (metis nat_le_eq_zle neg_0_le_iff_le int_nat_eq minus_minus linear)
  have eq: "real_of_double (Finite_Double False m e) = of_int (int m) / of_int (2 ^ nat (- e))"
    by (simp add: n power_int_minus divide_inverse)
  have "\<lfloor>real_of_double (Finite_Double False m e)\<rfloor> = int m div 2 ^ nat (- e)"
    unfolding eq by (rule floor_divide_of_int_eq)
  then show ?thesis using False by (simp del: real_of_double.simps)
qed

section \<open>Facts on fractions\<close>

lemma round_div_lower: "n div d \<le> round_div n d"
  by (simp add: round_div_def Let_def)

lemma round_div_scale: "0 < c \<Longrightarrow> round_div (n * c) (d * c) = round_div n d"
  by (simp add: round_div_def Let_def flip: mult_mod_left mult.assoc)

lemma bit_length_pos: "0 < n \<Longrightarrow> 0 < bit_length n"
  by (subst bit_length.simps) simp

lemma bit_length_eqI:
  assumes "2 ^ k \<le> n" "n < 2 ^ Suc k"
  shows "bit_length n = Suc k"
proof (rule antisym)
  show "bit_length n \<le> Suc k" using assms(2) by (rule bit_length_le)
  have "(2 :: nat) ^ k < 2 ^ bit_length n" using assms(1) bit_length_upper [of n] by linarith
  then show "Suc k \<le> bit_length n" by simp
qed

text \<open>A fraction that is not too large keeps at least 22 bits behind the binary point.\<close>

lemma frac_exponent_small:
  assumes "0 < p" "0 < q" "p < q * 2 ^ 30"
  shows "frac_exponent p q \<le> - 22"
proof -
  have "2 ^ (bit_length p - 1) \<le> p" using assms(1) by (rule bit_length_lower)
  also have "p < 2 ^ bit_length q * 2 ^ 30" using assms(3) bit_length_upper [of q]
    by (meson less_trans mult_less_mono1 zero_less_numeral zero_less_power)
  also have "\<dots> = 2 ^ (bit_length q + 30)" by (simp add: power_add)
  finally have "bit_length p - 1 < bit_length q + 30" by simp
  then show ?thesis using bit_length_pos [OF assms(1)] by (auto simp: frac_exponent_def Let_def)
qed

text \<open>Truncating the rounded quotient of two naturals gives their integer quotient, as long as the
  divisor is below \<open>2 ^ 22\<close> and the quotient below \<open>2 ^ 30\<close>: the rounding never carries over an integer.
  The common factor \<open>c\<close> is what the mantissas of the operands bring in.\<close>

lemma round_frac_floor:
  assumes "0 < c" "0 < P" "0 < Q" "Q < 2 ^ 22" "P < Q * 2 ^ 30"
  shows "\<exists>m e. round_frac False (P * c) (Q * c) = Finite_Double False m e \<and>
    double_trunc (Finite_Double False m e) = Some (int (P div Q))"
proof -
  let ?e = "frac_exponent (P * c) (Q * c)"
  define k where "k = nat (- ?e)"
  have "?e \<le> - 22" using assms by (intro frac_exponent_small) simp_all
  then have k: "22 \<le> k" "?e = - int k" by (simp_all add: k_def)
  define m where "m = round_div (P * 2 ^ k) Q"
  have "round_div (P * c * 2 ^ k) (Q * c * 2 ^ nat ?e) = m"
    using round_div_scale [OF assms(1), of "P * 2 ^ k" Q] k(2) by (simp add: m_def ac_simps)
  then have rf: "round_frac False (P * c) (Q * c) = (let (m, e) = (if m = 2 ^ 53 then (2 ^ 52, 1 - int k) else (m, - int k))
      in if e > 971 then Infinite_Double False else if m = 0 then Finite_Double False 0 0 else Finite_Double False m e)"
    using assms(1,2) k(2) by (simp add: round_frac_def Let_def)
  have "P div Q * 2 ^ k \<le> m"
  proof -
    have "P div Q * 2 ^ k * Q \<le> P * 2 ^ k" by (simp add: ac_simps)
    then have "P div Q * 2 ^ k \<le> P * 2 ^ k div Q" using assms(3) by (simp add: less_eq_div_iff_mult_less_eq)
    then show ?thesis using round_div_lower [of "P * 2 ^ k" Q] by (simp add: m_def)
  qed
  moreover have "m < (P div Q + 1) * 2 ^ k"
  proof -
    have "(2 :: nat) ^ 22 \<le> 2 ^ k" using k(1) by (rule power_increasing) simp
    then have Q: "Q < 2 * 2 ^ k" using assms(4) by linarith
    have "P + 1 \<le> (P div Q + 1) * Q" using assms(3) dividend_less_div_times [of Q P] by simp
    then have "(P + 1) * 2 ^ k \<le> (P div Q + 1) * Q * 2 ^ k" by (rule mult_right_mono) simp
    then have "2 * (P * 2 ^ k) + Q < 2 * ((P div Q + 1) * Q * 2 ^ k)" using Q by (simp add: algebra_simps)
    then have "2 * (m * Q) < 2 * ((P div Q + 1) * 2 ^ k * Q)"
      using round_div_upper [of "P * 2 ^ k" Q] by (simp add: m_def algebra_simps)
    then show ?thesis by simp
  qed
  ultimately have div: "m div 2 ^ k = P div Q" by (intro div_nat_eqI) (simp_all add: ac_simps)
  have "int m div 2 ^ k = int (P div Q)" by (simp add: zdiv_int flip: div)
  moreover have "(2 :: int) ^ 52 div 2 ^ (k - 1) = 2 ^ 53 div 2 ^ k"
    using k(1) by (cases k) simp_all
  ultimately show ?thesis
    unfolding rf using k(1) by (cases "m = 2 ^ 53") (auto simp: nat_diff_distrib of_nat_diff)
qed

text \<open>Naturals below \<open>2 ^ 53\<close> are represented exactly, by a mantissa of 53 bits.\<close>

lemma double_of_nat_exact:
  assumes "0 < n" "n < 2 ^ 53"
  shows "double_of_nat n = Finite_Double False (n * 2 ^ (53 - bit_length n)) (int (bit_length n) - 53)"
proof -
  let ?b = "bit_length n"
  have b: "0 < ?b" "?b \<le> 53" using bit_length_pos [OF assms(1)] bit_length_le [OF assms(2)] by simp_all
  have "bit_length 1 = 1" by (simp add: bit_length.simps)
  moreover have "2 ^ nat (int ?b - 1) \<le> n"
    using bit_length_lower [OF assms(1)] b(1) by (simp add: nat_diff_distrib)
  ultimately have e: "frac_exponent n 1 = int ?b - 53" using b by (simp add: frac_exponent_def Let_def)
  have "n * 2 ^ (53 - ?b) < 2 ^ ?b * 2 ^ (53 - ?b)" using bit_length_upper [of n] by simp
  also have "\<dots> = 2 ^ 53" using b(2) by (simp flip: power_add)
  finally have "n * 2 ^ (53 - ?b) \<noteq> 2 ^ 53" by simp
  moreover have "nat (53 - int ?b) = 53 - ?b" by simp
  ultimately show ?thesis
    using assms(1) b unfolding double_of_nat_def round_frac_def e by (simp add: Let_def)
qed

lemma real_double_of_nat:
  assumes "n < 2 ^ 53"
  shows "isfinite (double_of_nat n) \<and> real_of_double (double_of_nat n) = real n"
proof (cases "n = 0")
  case False
  then have b: "bit_length n \<le> 53" "0 < n" using bit_length_le [OF assms] by simp_all
  have "(2 :: real) ^ (53 - bit_length n) * 2 powi (int (bit_length n) - 53) = 1"
    using b(1) by (simp add: of_nat_diff flip: power_int_add power_int_of_nat)
  then show ?thesis using double_of_nat_exact [OF b(2) assms] by (simp add: mult.assoc)
qed (simp add: double_of_nat_def round_frac_def)

section \<open>Rounding is correct\<close>

text \<open>Comparing a fraction with a power of two.\<close>

lemma frac_le_powi:
  assumes "0 < q"
  shows "2 powi k \<le> real p / real q \<longleftrightarrow> q * 2 ^ nat k \<le> p * 2 ^ nat (- k)"
proof -
  have "(2 :: real) powi k = 2 ^ nat k / 2 ^ nat (- k)"
    by (cases "k \<ge> 0") (simp_all add: power_int_def field_simps)
  then have "2 powi k \<le> real p / real q \<longleftrightarrow> 2 ^ nat k / 2 ^ nat (- k) \<le> real p / real q" by simp
  also have "\<dots> \<longleftrightarrow> real (q * 2 ^ nat k) \<le> real (p * 2 ^ nat (- k))"
    using assms by (simp add: divide_simps mult_ac)
  finally have "2 powi k \<le> real p / real q \<longleftrightarrow> real (q * 2 ^ nat k) \<le> real (p * 2 ^ nat (- k))" .
  then show ?thesis by (simp only: of_nat_le_iff)
qed

lemma frac_bit_length:
  assumes "0 < p" "0 < q"
  shows "2 powi (int (bit_length p) - int (bit_length q) - 1) \<le> real p / real q"
    and "real p / real q < 2 powi (int (bit_length p) - int (bit_length q) + 1)"
proof -
  have low: "2 powi (int (bit_length n) - 1) \<le> real n" if "0 < n" for n
  proof -
    have "int (bit_length n) - 1 = int (bit_length n - 1)" using bit_length_pos [OF that] by simp
    then have "(2 :: real) powi (int (bit_length n) - 1) = real (2 ^ (bit_length n - 1))"
      by (simp only: power_int_of_nat of_nat_power of_nat_numeral)
    also have "\<dots> \<le> real n" using bit_length_lower [OF that] by (simp only: of_nat_le_iff)
    finally show ?thesis .
  qed
  have up: "real n < 2 powi int (bit_length n)" for n
  proof -
    have "real n < real (2 ^ bit_length n)" using bit_length_upper [of n] by (simp only: of_nat_less_iff)
    then show ?thesis by (simp only: power_int_of_nat of_nat_power of_nat_numeral)
  qed
  have diff: "(2 :: real) powi (a - b) = 2 powi a / 2 powi b" for a b by (simp add: power_int_diff)
  have "int (bit_length p) - int (bit_length q) - 1 = (int (bit_length p) - 1) - int (bit_length q)" by simp
  then have "(2 :: real) powi (int (bit_length p) - int (bit_length q) - 1) = 2 powi (int (bit_length p) - 1) / 2 powi int (bit_length q)"
    by (simp only: diff)
  also have "\<dots> \<le> real p / real q" using low [OF assms(1)] up [of q] assms by (intro frac_le) simp_all
  finally show "2 powi (int (bit_length p) - int (bit_length q) - 1) \<le> real p / real q" .
  have "real p / real q < 2 powi int (bit_length p) / 2 powi (int (bit_length q) - 1)"
    using low [OF assms(2)] up [of p] assms by (intro frac_less) simp_all
  also have "\<dots> = 2 powi (int (bit_length p) - (int (bit_length q) - 1))" by (simp only: diff)
  also have "int (bit_length p) - (int (bit_length q) - 1) = int (bit_length p) - int (bit_length q) + 1" by simp
  finally show "real p / real q < 2 powi (int (bit_length p) - int (bit_length q) + 1)" .
qed

lemma frac_exponent_bounds:
  assumes "0 < p" "0 < q"
  shows "real p / real q < 2 powi (frac_exponent p q + 53)"
    and "- 1074 < frac_exponent p q \<Longrightarrow> 2 powi (frac_exponent p q + 52) \<le> real p / real q"
    and "- 1074 \<le> frac_exponent p q"
proof -
  let ?e = "int (bit_length p) - int (bit_length q) - 53"
  let ?f = "if q * 2 ^ nat (53 + ?e) \<le> p * 2 ^ nat (- (53 + ?e)) then ?e + 1 else ?e"
  have E: "frac_exponent p q = max ?f (- 1074)" by (simp add: frac_exponent_def Let_def)
  have B: "2 powi (?e + 52) \<le> real p / real q" "real p / real q < 2 powi (?e + 54)"
    using frac_bit_length [OF assms] by (simp_all add: algebra_simps)
  have C: "q * 2 ^ nat (53 + ?e) \<le> p * 2 ^ nat (- (53 + ?e)) \<longleftrightarrow> 2 powi (?e + 53) \<le> real p / real q"
    using frac_le_powi [OF assms(2), of "?e + 53" p] by (simp add: add.commute)
  have "real p / real q < 2 powi (?f + 53)" "2 powi (?f + 52) \<le> real p / real q"
    using B C by (auto simp: not_le)
  moreover have "(2 :: real) powi (?f + 53) \<le> 2 powi (max ?f (- 1074) + 53)"
    by (intro power_int_increasing) simp_all
  ultimately show "real p / real q < 2 powi (frac_exponent p q + 53)"
    and "- 1074 < frac_exponent p q \<Longrightarrow> 2 powi (frac_exponent p q + 52) \<le> real p / real q"
    unfolding E by (linarith, simp add: max_def split: if_splits)
  show "- 1074 \<le> frac_exponent p q" by (simp add: E)
qed

lemma round_div_nearest:
  assumes "0 < d"
  shows "\<bar>real (round_div n d) - real n / real d\<bar> \<le> 1 / 2"
proof -
  have "real (n div d) * real d + real (n mod d) = real n" by (metis div_mult_mod_eq of_nat_add of_nat_mult)
  moreover have "round_div n d = (if 2 * (n mod d) > d \<or> 2 * (n mod d) = d \<and> odd (n div d) then n div d + 1 else n div d)"
    by (simp add: round_div_def Let_def)
  moreover have "n mod d < d" using assms by simp
  moreover have "real (n mod d) < real d" using assms by simp
  ultimately have n: "real n = real (n div d) * real d + real (n mod d)" and
    "round_div n d = n div d + 1 \<and> real d \<le> 2 * real (n mod d) \<or> round_div n d = n div d \<and> 2 * real (n mod d) \<le> real d"
    "real (n mod d) < real d" by (auto split: if_splits)
  then show ?thesis using assms unfolding n by (auto simp: field_simps abs_le_iff)
qed

text \<open>What \<open>round_frac\<close> computes before it looks at the range.\<close>

lemma round_frac_mantissa:
  assumes "0 < p" "0 < q"
  defines "e \<equiv> frac_exponent p q"
  defines "m \<equiv> round_div (p * 2 ^ nat (- e)) (q * 2 ^ nat e)"
  shows "\<bar>real m * 2 powi e - real p / real q\<bar> \<le> 2 powi (e - 1)" "m \<le> 2 ^ 53" "- 1074 < e \<Longrightarrow> 2 ^ 52 \<le> m"
proof -
  let ?x = "real p / real q"
  let ?y = "real (p * 2 ^ nat (- e)) / real (q * 2 ^ nat e)"
  have y: "?y * 2 powi e = ?x"
    using assms(2) by (cases "e \<ge> 0") (simp_all add: power_int_def field_simps)
  have N: "\<bar>real m - ?y\<bar> \<le> 1 / 2" unfolding m_def using assms(2) by (intro round_div_nearest) simp
  have "\<bar>real m * 2 powi e - ?x\<bar> = \<bar>real m - ?y\<bar> * 2 powi e"
    unfolding y [symmetric] left_diff_distrib [symmetric] by (simp only: abs_mult) simp
  also have "\<dots> \<le> 1 / 2 * 2 powi e" using N by (rule mult_right_mono) simp
  also have "\<dots> = 2 powi (e - 1)" by (simp add: power_int_diff)
  finally show "\<bar>real m * 2 powi e - ?x\<bar> \<le> 2 powi (e - 1)" .
  have "?y * 2 powi e < 2 ^ 53 * 2 powi e"
    unfolding y using frac_exponent_bounds(1) [OF assms(1,2)] by (simp add: e_def power_int_add mult.commute)
  then have "?y < 2 ^ 53" by (rule mult_right_less_imp_less) simp
  then have "real m < 2 ^ 53 + 1" using N by linarith
  then have "real m < real (2 ^ 53 + 1)" by simp
  then show "m \<le> 2 ^ 53" by (simp only: of_nat_less_iff)
  show "2 ^ 52 \<le> m" if "- 1074 < e"
  proof -
    have "2 ^ 52 * 2 powi e \<le> ?y * 2 powi e"
      unfolding y using frac_exponent_bounds(2) [OF assms(1,2)] that by (simp add: e_def power_int_add mult.commute)
    then have "2 ^ 52 \<le> ?y" by (rule mult_right_le_imp_le) simp
    then have "2 ^ 52 < real m + 1" using N by linarith
    then have "real (2 ^ 52) < real (m + 1)" by simp
    then show ?thesis by (simp only: of_nat_less_iff)
  qed
qed

lemma round_frac_binary64:
  assumes "0 < q"
  shows "is_binary64 (round_frac s p q)"
proof (cases "p = 0")
  case False
  let ?e = "frac_exponent p q"
  let ?m = "round_div (p * 2 ^ nat (- ?e)) (q * 2 ^ nat ?e)"
  have p: "0 < p" using False by simp
  note M = round_frac_mantissa(2,3) [OF p assms] and E = frac_exponent_bounds(3) [OF p assms]
  show ?thesis
  proof (cases "?m = 2 ^ 53")
    case True
    then show ?thesis using E False by (simp add: round_frac_def Let_def)
  next
    case m: False
    then have "?m < 2 ^ 53" using M(1) by simp
    then show ?thesis using E M(2) False m by (auto simp: round_frac_def Let_def)
  qed
qed (simp add: round_frac_def)

text \<open>The value of a rounded fraction that is neither too large nor subnormal is within half a unit in the last place, so within
  a relative error of \<open>2\<^sup>-\<^sup>5\<^sup>3\<close>; a fraction is too large only from about \<open>2\<^sup>1\<^sup>0\<^sup>2\<^sup>4\<close> on.\<close>

lemma round_frac_error:
  assumes "0 < p" "0 < q" "isfinite (round_frac False p q)" "2 powi (- 1021) \<le> real p / real q"
  shows "\<bar>real_of_double (round_frac False p q) - real p / real q\<bar> \<le> real p / real q / 2 ^ 53"
proof -
  let ?e = "frac_exponent p q" and ?x = "real p / real q"
  let ?m = "round_div (p * 2 ^ nat (- ?e)) (q * 2 ^ nat ?e)"
  note M = round_frac_mantissa [OF assms(1,2)] and E = frac_exponent_bounds [OF assms(1,2)]
  have "(2 :: real) powi (- 1021) < 2 powi (?e + 53)" using assms(4) E(1) by linarith
  then have "\<not> ?e + 53 \<le> - 1021" using power_int_increasing [of "?e + 53" "- 1021" "2 :: real"] by linarith
  then have e: "- 1074 < ?e" by simp
  have "real_of_double (round_frac False p q) = real ?m * 2 powi ?e"
    using assms(1,3) by (auto simp: round_frac_def Let_def power_int_add split: if_splits)
  moreover have "(2 :: real) powi (?e - 1) = 2 powi (?e + 52) / 2 ^ 53" by (simp add: power_int_diff power_int_add)
  moreover have "2 powi (?e + 52) / 2 ^ 53 \<le> ?x / 2 ^ 53" using E(2) [OF e] by (intro divide_right_mono) simp_all
  ultimately show ?thesis using M(1) by simp
qed

lemma round_frac_overflow:
  assumes "0 < p" "0 < q" "\<not> isfinite (round_frac s p q)"
  shows "2 powi 1000 \<le> real p / real q" "round_frac s p q = Infinite_Double s"
proof -
  let ?e = "frac_exponent p q"
  have e: "971 \<le> ?e" and inf: "round_frac s p q = Infinite_Double s"
    using assms(1,3) by (auto simp: round_frac_def Let_def split: if_splits)
  show "round_frac s p q = Infinite_Double s" by (rule inf)
  have "(2 :: real) powi 1000 \<le> 2 powi (?e + 52)" using e by (intro power_int_increasing) simp_all
  also have "\<dots> \<le> real p / real q" using e by (intro frac_exponent_bounds(2) [OF assms(1,2)]) simp
  finally show "2 powi 1000 \<le> real p / real q" .
qed

lemma double_of_nat_binary64 [simp]: "is_binary64 (double_of_nat n)"
  by (simp add: double_of_nat_def round_frac_binary64)

lemma double_div_binary64: "is_binary64 (double_div x y)"
  by (cases "(x, y)" rule: double_div.cases) (simp_all add: round_frac_binary64)

lemma clamp_binary64: "is_binary64 v \<Longrightarrow> is_binary64 lo \<Longrightarrow> is_binary64 hi \<Longrightarrow> is_binary64 (clamp v lo hi)"
  by (simp add: clamp_def)

text \<open>No finite \<open>double\<close> reaches \<open>2\<^sup>1\<^sup>0\<^sup>2\<^sup>4\<close>.\<close>

lemma binary64_less:
  assumes "is_binary64 (Finite_Double s m e)"
  shows "real m * 2 powi e < 2 powi 1024"
proof (cases "m = 0")
  case False
  then have "m < 2 ^ 53" and e: "e \<le> 971" using assms by auto
  then have "real m < real (2 ^ 53)" by (simp only: of_nat_less_iff)
  then have m: "real m < 2 ^ 53" by simp
  have "real m * 2 powi e < 2 ^ 53 * 2 powi e" using m by simp
  also have "\<dots> \<le> 2 ^ 53 * 2 powi 971" using e by (intro mult_left_mono power_int_increasing) simp_all
  also have "\<dots> = 2 powi 53 * 2 powi 971" by (simp only: power_int_numeral)
  also have "\<dots> = 2 powi 1024" by (subst power_int_add [symmetric]) simp_all
  finally show ?thesis .
qed simp

end
