(* ===== verification/Stats.thy ===== *)
theory Stats
  imports Binary64 "HOL-Library.Signed_Division" "HOL-Library.Multiset"
begin

text \<open>
  \<^verbatim>\<open>core/include/edgeflow/stats.hpp\<close>: the gateway's atomic counters and the histogram of queue-wait
  latencies. The counters are 64 bits wide and wrap. \<open>record_queue_wait\<close> is modelled twice: as one
  call at a time, and with its atomic accesses interleaved among any number of calls. The
  arithmetic of \<open>percentile\<close> on \<open>double\<close> is carried out exactly, with the rounding of IEEE binary64
  written out on integers.
\<close>

section \<open>State\<close>

record Stats =
  st_events_accepted :: u64
  st_events_dropped_oldest :: u64
  st_events_dropped_newest :: u64
  st_events_malformed :: u64
  st_queue_wait_count :: u64
  st_queue_wait_sum_us :: u64
  st_queue_wait_min_us :: u64
  st_queue_wait_max_us :: u64
  st_queue_wait_buckets :: "u64 list"
  st_batches_sent :: u64
  st_batches_retried :: u64
  st_batches_dropped_outbound :: u64
  st_batches_dropped_exhausted :: u64

definition kBucketBoundariesUs :: "u64 list" where
  "kBucketBoundariesUs = [100, 250, 500, 1000, 2500, 5000, 10000, 25000, 50000,
     100000, 250000, 500000, 1000000, 2500000, 5000000, 10000000]"

definition kBucketCount :: nat where
  "kBucketCount = length kBucketBoundariesUs + 1"

definition stats_new :: Stats where
  "stats_new = \<lparr>st_events_accepted = 0, st_events_dropped_oldest = 0, st_events_dropped_newest = 0,
     st_events_malformed = 0, st_queue_wait_count = 0, st_queue_wait_sum_us = 0,
     st_queue_wait_min_us = - 1, st_queue_wait_max_us = 0,
     st_queue_wait_buckets = replicate kBucketCount 0, st_batches_sent = 0, st_batches_retried = 0,
     st_batches_dropped_outbound = 0, st_batches_dropped_exhausted = 0\<rparr>"

section \<open>Counters\<close>

definition record_accepted :: "Stats \<Rightarrow> Stats" where
  [stats_defs]: "record_accepted s = s\<lparr>st_events_accepted := st_events_accepted s + 1\<rparr>"

definition record_dropped_oldest :: "Stats \<Rightarrow> Stats" where
  [stats_defs]: "record_dropped_oldest s = s\<lparr>st_events_dropped_oldest := st_events_dropped_oldest s + 1\<rparr>"

definition record_dropped_newest :: "Stats \<Rightarrow> Stats" where
  [stats_defs]: "record_dropped_newest s = s\<lparr>st_events_dropped_newest := st_events_dropped_newest s + 1\<rparr>"

definition record_malformed :: "Stats \<Rightarrow> Stats" where
  [stats_defs]: "record_malformed s = s\<lparr>st_events_malformed := st_events_malformed s + 1\<rparr>"

definition record_batch_sent :: "Stats \<Rightarrow> Stats" where
  [stats_defs]: "record_batch_sent s = s\<lparr>st_batches_sent := st_batches_sent s + 1\<rparr>"

definition record_batch_retried :: "Stats \<Rightarrow> Stats" where
  [stats_defs]: "record_batch_retried s = s\<lparr>st_batches_retried := st_batches_retried s + 1\<rparr>"

definition record_batch_dropped_outbound :: "Stats \<Rightarrow> Stats" where
  [stats_defs]: "record_batch_dropped_outbound s =
     s\<lparr>st_batches_dropped_outbound := st_batches_dropped_outbound s + 1\<rparr>"

definition record_batch_dropped_exhausted :: "Stats \<Rightarrow> Stats" where
  [stats_defs]: "record_batch_dropped_exhausted s =
     s\<lparr>st_batches_dropped_exhausted := st_batches_dropped_exhausted s + 1\<rparr>"

section \<open>The histogram\<close>

text \<open>The scan for the first boundary that is not below the sample.\<close>

fun bucket_scan :: "u64 list \<Rightarrow> nat \<Rightarrow> u64 \<Rightarrow> nat" where
  "bucket_scan [] i us = i"
| "bucket_scan (b # bs) i us = (if us \<le> b then i else bucket_scan bs (Suc i) us)"

definition bucket_for :: "u64 \<Rightarrow> nat" where
  "bucket_for us = bucket_scan kBucketBoundariesUs 0 us"

text \<open>A \<open>steady_clock::duration\<close> counts nanoseconds; \<open>duration_cast\<close> truncates towards zero.\<close>

definition wait_us :: "int \<Rightarrow> u64" where
  "wait_us wait = (let raw_us = wait sdiv 1000 in word_of_int (if raw_us < 0 then 0 else raw_us))"

definition record_queue_wait :: "int \<Rightarrow> Stats \<Rightarrow> Stats" where
  "record_queue_wait wait s =
     (let us = wait_us wait
      in s\<lparr>st_queue_wait_count := st_queue_wait_count s + 1,
           st_queue_wait_sum_us := st_queue_wait_sum_us s + us,
           st_queue_wait_min_us := (if us < st_queue_wait_min_us s then us else st_queue_wait_min_us s),
           st_queue_wait_max_us := (if us > st_queue_wait_max_us s then us else st_queue_wait_max_us s),
           st_queue_wait_buckets := (st_queue_wait_buckets s)
             [bucket_for us := st_queue_wait_buckets s ! bucket_for us + 1]\<rparr>)"

section \<open>Percentiles and the snapshot\<close>

text \<open>A fraction is given by its numerator over \<open>2 ^ 52\<close>; these are the \<open>double\<close>s nearest to 0.50 and
  0.99. \<^verbatim>\<open>static_cast<std::uint64_t>(fraction * static_cast<double>(total))\<close> rounds twice and then
  truncates.\<close>

definition fraction_p50 :: nat where
  "fraction_p50 = 2251799813685248"

definition fraction_p99 :: nat where
  "fraction_p99 = 4458563631096791"

definition percentile_target :: "nat \<Rightarrow> u64 \<Rightarrow> u64" where
  "percentile_target fraction total_count = of_nat (round_sig53 (fraction * round_sig53 (unat total_count)) div 2 ^ 52)"

fun percentile_loop :: "u64 list \<Rightarrow> nat \<Rightarrow> u64 \<Rightarrow> u64 \<Rightarrow> u64" where
  "percentile_loop [] i cumulative target = last kBucketBoundariesUs"
| "percentile_loop (b # bs) i cumulative target =
     (let cumulative = cumulative + b
      in if cumulative > target
         then (if i < length kBucketBoundariesUs then kBucketBoundariesUs ! i else last kBucketBoundariesUs)
         else percentile_loop bs (Suc i) cumulative target)"

definition percentile :: "nat \<Rightarrow> Stats \<Rightarrow> u64" where
  "percentile fraction s =
     (if st_queue_wait_count s = 0 then 0
      else percentile_loop (st_queue_wait_buckets s) 0 0
             (percentile_target fraction (st_queue_wait_count s)))"

record StatsSnapshot =
  sn_events_accepted :: u64
  sn_events_dropped_oldest :: u64
  sn_events_dropped_newest :: u64
  sn_events_malformed :: u64
  sn_queue_wait_count :: u64
  sn_queue_wait_min_us :: u64
  sn_queue_wait_max_us :: u64
  sn_queue_wait_mean_us :: double
  sn_queue_wait_p50_us :: u64
  sn_queue_wait_p99_us :: u64
  sn_batches_sent :: u64
  sn_batches_retried :: u64
  sn_batches_dropped_outbound :: u64
  sn_batches_dropped_exhausted :: u64

definition snapshot :: "Stats \<Rightarrow> StatsSnapshot" where
  "snapshot s =
     (let n = st_queue_wait_count s; some = n > 0
      in \<lparr>sn_events_accepted = st_events_accepted s,
          sn_events_dropped_oldest = st_events_dropped_oldest s,
          sn_events_dropped_newest = st_events_dropped_newest s,
          sn_events_malformed = st_events_malformed s,
          sn_queue_wait_count = n,
          sn_queue_wait_min_us = (if some then st_queue_wait_min_us s else 0),
          sn_queue_wait_max_us = (if some then st_queue_wait_max_us s else 0),
          sn_queue_wait_mean_us = (if some
            then double_quot (round_sig53 (unat (st_queue_wait_sum_us s))) (round_sig53 (unat n))
            else (0, 0)),
          sn_queue_wait_p50_us = (if some then percentile fraction_p50 s else 0),
          sn_queue_wait_p99_us = (if some then percentile fraction_p99 s else 0),
          sn_batches_sent = st_batches_sent s,
          sn_batches_retried = st_batches_retried s,
          sn_batches_dropped_outbound = st_batches_dropped_outbound s,
          sn_batches_dropped_exhausted = st_batches_dropped_exhausted s\<rparr>)"

section \<open>Fractions of a count\<close>

text \<open>A fraction below 1 of \<open>n\<close> samples, rounded up or not, names one of them.\<close>

lemma percentile_target_less:
  assumes "fraction < 2 ^ 52" and "0 < n" and "n < 2 ^ 53"
  shows "round_sig53 (fraction * n) div 2 ^ 52 < n"
proof -
  have "fraction * n * (2 ^ 53 + 1) \<le> (2 ^ 52 - 1) * n * (2 ^ 53 + 1)"
    using assms(1) by (intro mult_right_mono) auto
  also have "\<dots> < n * 2 ^ 52 * 2 ^ 53" using assms(2) by (simp add: algebra_simps)
  finally have "round_sig53 (fraction * n) * 2 ^ 53 < n * 2 ^ 52 * 2 ^ 53"
    using round_sig53_upper [of "fraction * n"] by linarith
  then have "round_sig53 (fraction * n) < n * 2 ^ 52" by simp
  then show ?thesis by (simp add: less_mult_imp_div_less)
qed

section \<open>Buckets\<close>

lemma kBucketBoundariesUs_length [simp]: "length kBucketBoundariesUs = 16"
  by (simp add: kBucketBoundariesUs_def)

lemma bucket_scan_takeWhile:
  "bucket_scan bs i us = i + length (takeWhile (\<lambda>b. b < us) bs)"
  by (induction bs arbitrary: i) auto

lemma bucket_for_takeWhile: "bucket_for us = length (takeWhile (\<lambda>b. b < us) kBucketBoundariesUs)"
  by (simp add: bucket_for_def bucket_scan_takeWhile)

lemma bucket_for_le: "bucket_for us \<le> 16"
  using length_takeWhile_le [of _ kBucketBoundariesUs] by (simp add: bucket_for_takeWhile)

lemma takeWhile_length_mono:
  "(\<And>x. P x \<Longrightarrow> Q x) \<Longrightarrow> length (takeWhile P xs) \<le> length (takeWhile Q xs)"
  by (induction xs) auto

lemma bucket_for_mono: "x \<le> y \<Longrightarrow> bucket_for x \<le> bucket_for y"
  unfolding bucket_for_takeWhile by (rule takeWhile_length_mono) auto

lemma boundaries_sorted: "sorted kBucketBoundariesUs"
  by (simp add: kBucketBoundariesUs_def)

text \<open>The boundary a bucket stands for; the overflow bucket stands for the last boundary.\<close>

definition bucket_bound :: "nat \<Rightarrow> u64" where
  "bucket_bound i =
     (if i < length kBucketBoundariesUs then kBucketBoundariesUs ! i else last kBucketBoundariesUs)"

lemma bucket_bound_least:
  assumes "us \<le> last kBucketBoundariesUs"
  shows "us \<le> bucket_bound (bucket_for us)" and "bucket_bound (bucket_for us) \<in> set kBucketBoundariesUs"
    and "b \<in> set kBucketBoundariesUs \<Longrightarrow> us \<le> b \<Longrightarrow> bucket_bound (bucket_for us) \<le> b"
proof -
  let ?t = "takeWhile (\<lambda>b. b < us) kBucketBoundariesUs"
  have ne: "kBucketBoundariesUs \<noteq> []" by (simp add: kBucketBoundariesUs_def)
  have less: "length ?t < length kBucketBoundariesUs"
  proof (rule ccontr)
    assume "\<not> ?thesis"
    with length_takeWhile_le [of "\<lambda>b. b < us" kBucketBoundariesUs]
    have "length ?t = length kBucketBoundariesUs" by simp
    then have "?t = kBucketBoundariesUs" by (metis takeWhile_eq_take take_all_iff order_refl)
    then have "last kBucketBoundariesUs < us" using ne by (metis last_in_set set_takeWhileD)
    with assms show False by simp
  qed
  then have b: "bucket_bound (bucket_for us) = kBucketBoundariesUs ! length ?t"
    by (simp add: bucket_bound_def bucket_for_takeWhile)
  show "us \<le> bucket_bound (bucket_for us)"
    using nth_length_takeWhile [OF less] by (simp add: b not_less)
  show "bucket_bound (bucket_for us) \<in> set kBucketBoundariesUs" using less by (simp add: b)
  show "bucket_bound (bucket_for us) \<le> b" if "b \<in> set kBucketBoundariesUs" "us \<le> b"
  proof -
    from that(1) obtain j where j: "j < length kBucketBoundariesUs" "kBucketBoundariesUs ! j = b"
      by (auto simp: in_set_conv_nth)
    have "\<not> j < length ?t"
      using that(2) j(2) by (metis nth_mem set_takeWhileD takeWhile_nth leD)
    with boundaries_sorted j show ?thesis by (simp add: b sorted_nth_mono flip: j(2))
  qed
qed

section \<open>What a sequence of samples leaves behind\<close>

definition record_waits :: "int list \<Rightarrow> Stats" where
  "record_waits ws = fold record_queue_wait ws stats_new"

lemma record_waits_snoc: "record_waits (ws @ [w]) = record_queue_wait w (record_waits ws)"
  by (simp add: record_waits_def)

lemma record_queue_wait_simps [simp]:
  "st_queue_wait_count (record_queue_wait w s) = st_queue_wait_count s + 1"
  "st_queue_wait_sum_us (record_queue_wait w s) = st_queue_wait_sum_us s + wait_us w"
  "st_queue_wait_min_us (record_queue_wait w s) = min (wait_us w) (st_queue_wait_min_us s)"
  "st_queue_wait_max_us (record_queue_wait w s) = max (wait_us w) (st_queue_wait_max_us s)"
  "st_queue_wait_buckets (record_queue_wait w s) = (st_queue_wait_buckets s)
     [bucket_for (wait_us w) := st_queue_wait_buckets s ! bucket_for (wait_us w) + 1]"
  by (auto simp: record_queue_wait_def Let_def min_def max_def)

lemma record_waits_new [simp]:
  "record_waits [] = stats_new"
  by (simp add: record_waits_def)

lemma record_waits_count [simp]: "st_queue_wait_count (record_waits ws) = of_nat (length ws)"
  by (induction ws rule: rev_induct) (simp_all add: record_waits_snoc stats_new_def)

lemma record_waits_sum: "st_queue_wait_sum_us (record_waits ws) = sum_list (map wait_us ws)"
  by (induction ws rule: rev_induct) (simp_all add: record_waits_snoc stats_new_def)

lemma record_waits_min: "ws \<noteq> [] \<Longrightarrow> st_queue_wait_min_us (record_waits ws) = Min (wait_us ` set ws)"
proof (induction ws rule: rev_induct)
  case (snoc w ws)
  then show ?case
    using record_waits_snoc [of ws w] by (cases "ws = []") (simp_all add: stats_new_def)
qed simp

lemma record_waits_max: "ws \<noteq> [] \<Longrightarrow> st_queue_wait_max_us (record_waits ws) = Max (wait_us ` set ws)"
proof (induction ws rule: rev_induct)
  case (snoc w ws)
  then show ?case
    using record_waits_snoc [of ws w] by (cases "ws = []") (simp_all add: stats_new_def)
qed simp

lemma record_waits_buckets_length [simp]: "length (st_queue_wait_buckets (record_waits ws)) = 17"
  by (induction ws rule: rev_induct) (simp_all add: record_waits_snoc stats_new_def kBucketCount_def)

lemma record_waits_bucket:
  "i < 17 \<Longrightarrow> st_queue_wait_buckets (record_waits ws) ! i
     = of_nat (length (filter (\<lambda>w. bucket_for (wait_us w) = i) ws))"
proof (induction ws rule: rev_induct)
  case Nil
  then show ?case by (simp add: stats_new_def kBucketCount_def)
next
  case (snoc w ws)
  then show ?case by (auto simp: record_waits_snoc nth_list_update)
qed

section \<open>Percentiles\<close>

text \<open>In a sorted list, how many elements satisfy a bound on a monotone measure decides where the
  element at position \<open>t\<close> lies.\<close>

lemma sorted_filter_le_iff:
  fixes g :: "'b::linorder \<Rightarrow> nat"
  assumes "sorted xs" and "\<And>x y. x \<le> y \<Longrightarrow> g x \<le> g y" and "t < length xs"
  shows "t < length (filter (\<lambda>x. g x \<le> i) xs) \<longleftrightarrow> g (xs ! t) \<le> i"
  using assms(1,3)
proof (induction xs arbitrary: t)
  case (Cons x xs)
  show ?case
  proof (cases "g x \<le> i")
    case True
    with Cons show ?thesis by (cases t) simp_all
  next
    case False
    with Cons.prems(1) assms(2) have none: "\<not> g y \<le> i" if "y \<in> set (x # xs)" for y
      using that by (metis le_trans set_ConsD sorted_simps(2))
    then have "filter (\<lambda>x. g x \<le> i) (x # xs) = []" by (simp add: filter_empty_conv)
    moreover have "\<not> g ((x # xs) ! t) \<le> i" using none nth_mem [OF Cons.prems(2)] by blast
    ultimately show ?thesis by simp
  qed
qed simp

lemma length_filter_Suc:
  "length (filter (\<lambda>x. g x \<le> Suc i) xs) = length (filter (\<lambda>x. g x \<le> i) xs) + length (filter (\<lambda>x. g x = Suc i) xs)"
  by (induction xs) auto

text \<open>The loop from bucket \<open>i\<close> on, when the buckets below \<open>i\<close> hold at most \<open>t\<close> samples.\<close>

lemma percentile_loop_finds:
  fixes c :: "nat \<Rightarrow> nat"
  assumes "\<And>j. j < length bs \<Longrightarrow> bs ! j = of_nat (c (i + j))"
    and "\<And>j. C (Suc j) = C j + c (Suc j)" and "0 < i \<Longrightarrow> cum = C (i - 1)" and "i = 0 \<Longrightarrow> cum = 0 \<and> C 0 = c 0"
    and "cum \<le> t" and "\<And>j. C j < 2 ^ 64" and "t < 2 ^ 64"
    and "i \<le> k" and "k < i + length bs" and "t < C k" and "\<And>j. j < k \<Longrightarrow> C j \<le> t"
  shows "percentile_loop bs i (of_nat cum) (of_nat t) = bucket_bound k"
  using assms
proof (induction bs arbitrary: i cum)
  case Nil
  then show ?case by simp
next
  case (Cons b bs)
  have b: "b = of_nat (c i)" using Cons.prems(1) [of 0] by simp
  have C: "cum + c i = C i" using Cons.prems(2) [of "i - 1"] Cons.prems(3,4) by (cases i) auto
  then have sum: "of_nat cum + b = (of_nat (C i) :: u64)" by (simp add: b flip: C)
  have cmp: "(of_nat t :: u64) < of_nat (C i) \<longleftrightarrow> t < C i"
    using Cons.prems(6) [of i] Cons.prems(7) by (simp add: word_less_nat_alt)
  show ?case
  proof (cases "k = i")
    case True
    with Cons.prems(10) cmp show ?thesis by (simp add: sum bucket_bound_def)
  next
    case False
    with Cons.prems(8,9,11) have k: "Suc i \<le> k" "k < Suc i + length bs" "C i \<le> t" by auto
    have "percentile_loop bs (Suc i) (of_nat (C i)) (of_nat t) = bucket_bound k"
    proof (rule Cons.IH)
      show "\<And>j. j < length bs \<Longrightarrow> bs ! j = of_nat (c (Suc i + j))" using Cons.prems(1) [of "Suc j" for j] by simp
    qed (use Cons.prems(2,6,7,10,11) k in auto)
    with cmp k(3) show ?thesis by (simp add: sum)
  qed
qed

lemma percentile_bucket:
  assumes "ws \<noteq> []" and "length ws < 2 ^ 53" and "fraction < 2 ^ 52"
    and t: "t = round_sig53 (fraction * length ws) div 2 ^ 52"
  shows "t < length ws"
    and "percentile fraction (record_waits ws) = bucket_bound (bucket_for (sort (map wait_us ws) ! t))"
proof -
  let ?xs = "sort (map wait_us ws)" and ?n = "length ws"
  have n64: "?n < 2 ^ 64" using assms(2) by simp
  show less: "t < ?n" unfolding t using assms(1-3) by (intro percentile_target_less) auto
  have target: "percentile_target fraction (of_nat ?n) = of_nat t"
    using n64 assms(2) by (simp add: percentile_target_def t)
  let ?c = "\<lambda>j. length (filter (\<lambda>w. bucket_for (wait_us w) = j) ws)"
  let ?C = "\<lambda>j. length (filter (\<lambda>w. bucket_for (wait_us w) \<le> j) ws)"
  have C: "?C j = length (filter (\<lambda>x. bucket_for x \<le> j) ?xs)" for j
    by (metis (no_types, lifting) filter_map length_map mset_filter mset_sort size_mset comp_apply filter_cong)
  have iff: "t < ?C j \<longleftrightarrow> bucket_for (?xs ! t) \<le> j" for j
    unfolding C using less by (intro sorted_filter_le_iff bucket_for_mono) auto
  have "of_nat ?n \<noteq> (0::u64)" using n64 assms(1) by (metis length_0_conv of_nat_0 unat_of_nat_u64 unat_0)
  moreover have "percentile_loop (st_queue_wait_buckets (record_waits ws)) 0 (of_nat 0) (of_nat t)
      = bucket_bound (bucket_for (?xs ! t))"
  proof (rule percentile_loop_finds [where c = ?c and C = ?C])
    show "?C j < 2 ^ 64" for j
      using n64 length_filter_le [of "\<lambda>w. bucket_for (wait_us w) \<le> j" ws] by linarith
    show "bucket_for (?xs ! t) < 0 + length (st_queue_wait_buckets (record_waits ws))"
      using bucket_for_le [of "?xs ! t"] by simp
    show "?C j \<le> t" if "j < bucket_for (?xs ! t)" for j using iff [of j] that by simp
  qed (use less n64 iff in \<open>simp_all add: record_waits_bucket length_filter_Suc\<close>)
  ultimately show "percentile fraction (record_waits ws) = bucket_bound (bucket_for (?xs ! t))"
    by (simp add: percentile_def target)
qed

section \<open>Properties of the histogram\<close>

lemma length_partition:
  assumes "\<And>x. x \<in> set xs \<Longrightarrow> g x < n"
  shows "sum_list (map (\<lambda>i. length (filter (\<lambda>x. g x = i) xs)) [0..<n]) = length xs"
  using assms
proof (induction xs)
  case (Cons x xs)
  have "length (filter (\<lambda>y. g y = i) (x # xs)) = (if g x = i then 1 else 0) + length (filter (\<lambda>y. g y = i) xs)" for i
    by simp
  moreover have "sum_list (map (\<lambda>i. if g x = i then 1 else 0 :: nat) [0..<n]) = 1"
    using Cons.prems [of x] by (simp add: interv_sum_list_conv_sum_set_nat)
  ultimately show ?case using Cons by (simp only: sum_list_addf) simp
qed (simp add: sum_list_0)

text \<open>C28: The percentile the gateway reports is a true upper bound as fine as the buckets allow. For any
  non-empty sequence of fewer than \<open>2 ^ 53\<close> queue waits and a fraction below 1, let \<open>t\<close> be the index
  \<^verbatim>\<open>percentile()\<close> computes in floating point. Then \<open>t\<close> is an index into the sorted samples, and if the
  sample there is at most ten seconds, the reported value is the least bucket boundary that is not
  below it; beyond ten seconds it is the last boundary.\<close>

theorem percentile_is_least_boundary:
  assumes "ws \<noteq> []" and "length ws < 2 ^ 53" and "fraction < 2 ^ 52"
    and "t = unat (percentile_target fraction (st_queue_wait_count (record_waits ws)))"
  shows "t < length ws \<and>
    (let x = sort (map wait_us ws) ! t; p = percentile fraction (record_waits ws)
     in if x \<le> last kBucketBoundariesUs
        then x \<le> p \<and> p \<in> set kBucketBoundariesUs \<and> (\<forall>b \<in> set kBucketBoundariesUs. x \<le> b \<longrightarrow> p \<le> b)
        else p = last kBucketBoundariesUs)"
proof -
  have n64: "length ws < 2 ^ 64" using assms(2) by simp
  have "round_sig53 (fraction * length ws) div 2 ^ 52 < 2 ^ 64"
    using percentile_target_less [OF assms(3) _ assms(2)] assms(1) n64 by fastforce
  then have "t = round_sig53 (fraction * length ws) div 2 ^ 52"
    using assms(2) n64 by (simp add: assms(4) percentile_target_def)
  note P = percentile_bucket [OF assms(1-3) this]
  let ?x = "sort (map wait_us ws) ! t"
  have "bucket_bound (bucket_for ?x) = last kBucketBoundariesUs" if "\<not> ?x \<le> last kBucketBoundariesUs"
  proof -
    have "\<forall>b \<in> set kBucketBoundariesUs. b < ?x"
      using that by (auto simp: kBucketBoundariesUs_def not_le intro: le_less_trans [rotated])
    then have "takeWhile (\<lambda>b. b < ?x) kBucketBoundariesUs = kBucketBoundariesUs"
      by (simp add: takeWhile_eq_all_conv)
    then have "bucket_for ?x = length kBucketBoundariesUs" by (simp only: bucket_for_takeWhile)
    then show ?thesis by (simp add: bucket_bound_def)
  qed
  with P bucket_bound_least [of ?x] show ?thesis by (simp add: Let_def)
qed

theorem percentile_is_least_boundary_witness:
  "percentile fraction_p99 (record_waits [3000, 120000, 700000000, 0]) = 1000000 \<and>
   unat (percentile_target fraction_p99 (st_queue_wait_count (record_waits [3000, 120000, 700000000, 0]))) < 4"
proof -
  let ?ws = "[3000, 120000, 700000000, 0] :: int list"
  have "percentile_target fraction_p99 4 = 3"
    by (simp add: percentile_target_def fraction_p99_def round_sig53_def round_div_def bit_length.simps)
  moreover have "st_queue_wait_buckets (record_waits ?ws) = [2, 1, 0, 0, 0, 0, 0, 0, 0, 0, 0, 0, 1, 0, 0, 0, 0]"
    by code_simp
  ultimately have p: "percentile fraction_p99 (record_waits ?ws) = 1000000"
    by (simp add: percentile_def kBucketBoundariesUs_def)
  have "fraction_p99 < 2 ^ 52" by (simp add: fraction_p99_def)
  from percentile_is_least_boundary [OF _ _ this refl, of ?ws] p show ?thesis by simp
qed

text \<open>What a snapshot reports after any non-empty sequence of queue waits (fewer than \<open>2 ^ 64\<close>) is
  exact: the number of samples, the smallest and the largest of them, and buckets whose counts add
  up to the number of samples; each sample is counted in the bucket of the least boundary not below
  it.\<close>

theorem snapshot_after_waits:
  assumes "ws \<noteq> []" and "length ws < 2 ^ 64"
  shows "unat (sn_queue_wait_count (snapshot (record_waits ws))) = length ws \<and>
    sn_queue_wait_min_us (snapshot (record_waits ws)) = Min (wait_us ` set ws) \<and>
    sn_queue_wait_max_us (snapshot (record_waits ws)) = Max (wait_us ` set ws) \<and>
    sum_list (map unat (st_queue_wait_buckets (record_waits ws))) = length ws"
proof -
  have pos: "of_nat (length ws) > (0::u64)"
    using assms by (simp add: word_gt_0 word_unat_eq_iff)
  have "map unat (st_queue_wait_buckets (record_waits ws))
      = map (\<lambda>i. length (filter (\<lambda>w. bucket_for (wait_us w) = i) ws)) [0..<17]"
    using le_less_trans [OF length_filter_le assms(2)]
    by (intro nth_equalityI) (auto simp: record_waits_bucket intro!: unat_of_nat_u64)
  moreover have "sum_list (map (\<lambda>i. length (filter (\<lambda>w. bucket_for (wait_us w) = i) ws)) [0..<17]) = length ws"
    by (rule length_partition) (use bucket_for_le le_less_trans in fastforce)
  ultimately show ?thesis
    using pos assms record_waits_min [OF assms(1)] record_waits_max [OF assms(1)]
    by (simp add: snapshot_def Let_def)
qed

theorem snapshot_after_waits_witness:
  "sn_queue_wait_min_us (snapshot (record_waits [3000, 120000, - 5])) = 0 \<and>
   sn_queue_wait_max_us (snapshot (record_waits [3000, 120000, - 5])) = 120 \<and>
   unat (sn_queue_wait_count (snapshot (record_waits [3000, 120000, - 5]))) = 3 \<and>
   sum_list (map unat (st_queue_wait_buckets (record_waits [3000, 120000, - 5]))) = 3"
proof -
  have "Min (wait_us ` set [3000, 120000, - 5]) = 0 \<and> Max (wait_us ` set [3000, 120000, - 5]) = 120"
    by (simp add: wait_us_def)
  with snapshot_after_waits [of "[3000, 120000, - 5]"] show ?thesis by simp
qed

end
