(* ===== verification/Worker_Pool.thy ===== *)
theory Worker_Pool
  imports Queue_Types Batcher Stats
begin

text \<open>
  \<^verbatim>\<open>core/include/edgeflow/worker_pool.hpp\<close> and the part of \<^verbatim>\<open>gateway/src/main.cpp\<close> around it: worker
  threads pop timed events, record the queue wait and hand the event to the batcher; a flush thread
  flushes the batcher periodically; producers push; \<open>stop()\<close> shuts the queue down and joins the
  workers. The queue is any record of operations \<open>Q\<close>; the facts are proved once in the locale of the
  queue contract. Each queue call, each batcher call and each recording is one step, and the steps
  of the threads interleave freely.

  Four history variables record the stored items, the number of pushes and of discarded items, the
  items popped by workers, and the events added to the batcher.
\<close>

section \<open>State\<close>

record 'e TimedEvent =
  te_event :: 'e
  te_enqueued_at :: int

datatype 'e worker_pc =
    Popping
  | Timing "'e TimedEvent"   \<comment> \<open>popped, wait not yet recorded\<close>
  | Adding 'e                \<comment> \<open>recorded, not yet in the batcher\<close>
  | Exited

record ('q, 'e, 's) pipeline =
  pl_queue :: 'q
  pl_batcher :: "'e Batcher"
  pl_sink :: 's
  pl_stats :: Stats
  pl_workers :: "'e worker_pc list"
  pl_stopped :: bool
  pl_stored :: "'e TimedEvent list"
  pl_pushes :: nat
  pl_discards :: nat
  pl_popped :: "'e TimedEvent list"
  pl_added :: "'e list"

section \<open>Steps\<close>

text \<open>One step of a worker: the loop of \<open>worker_loop()\<close>.\<close>

inductive worker_step ::
    "('q, 'e TimedEvent) EventQueue \<Rightarrow> ('e list \<Rightarrow> 's \<Rightarrow> 's) \<Rightarrow>
     ('q, 'e, 's) pipeline \<Rightarrow> ('q, 'e, 's) pipeline \<Rightarrow> bool" for Q on_flush where
  worker_pop: "i < length (pl_workers s) \<Longrightarrow> pl_workers s ! i = Popping \<Longrightarrow>
    q_pop Q (pl_queue s) = Returns (Some timed, q') \<Longrightarrow>
    worker_step Q on_flush s (s\<lparr>pl_queue := q', pl_workers := (pl_workers s)[i := Timing timed],
      pl_popped := pl_popped s @ [timed]\<rparr>)"
| worker_exit: "i < length (pl_workers s) \<Longrightarrow> pl_workers s ! i = Popping \<Longrightarrow>
    q_pop Q (pl_queue s) = Returns (None, q') \<Longrightarrow>
    worker_step Q on_flush s (s\<lparr>pl_queue := q', pl_workers := (pl_workers s)[i := Exited]\<rparr>)"
| worker_record: "i < length (pl_workers s) \<Longrightarrow> pl_workers s ! i = Timing timed \<Longrightarrow>
    worker_step Q on_flush s (s\<lparr>pl_stats := record_queue_wait (now - te_enqueued_at timed) (pl_stats s),
      pl_workers := (pl_workers s)[i := Adding (te_event timed)]\<rparr>)"
| worker_add: "i < length (pl_workers s) \<Longrightarrow> pl_workers s ! i = Adding event \<Longrightarrow>
    add_event on_flush now1 now2 event (pl_batcher s) (pl_sink s) = (b', k') \<Longrightarrow>
    worker_step Q on_flush s (s\<lparr>pl_batcher := b', pl_sink := k', pl_workers := (pl_workers s)[i := Popping],
      pl_added := pl_added s @ [event]\<rparr>)"

text \<open>The other threads: a producer's push (none after \<open>stop()\<close>: in the gateway the reactor that runs
  the connections has returned by then), the flush thread, and the start of \<open>stop()\<close>.\<close>

inductive pipeline_step ::
    "('q, 'e TimedEvent) EventQueue \<Rightarrow> ('e list \<Rightarrow> 's \<Rightarrow> 's) \<Rightarrow>
     ('q, 'e, 's) pipeline \<Rightarrow> ('q, 'e, 's) pipeline \<Rightarrow> bool" for Q on_flush where
  worker: "worker_step Q on_flush s s' \<Longrightarrow> pipeline_step Q on_flush s s'"
| push: "\<not> pl_stopped s \<Longrightarrow> q_push Q (pl_queue s) timed = Returns (r, q') \<Longrightarrow>
    pipeline_step Q on_flush s (s\<lparr>pl_queue := q', pl_pushes := pl_pushes s + 1,
      pl_stored := (if r = RejectedBackpressure then pl_stored s else pl_stored s @ [timed]),
      pl_discards := (if r = DroppedOldest then pl_discards s + 1 else pl_discards s)\<rparr>)"
| flush: "batcher_flush on_flush (pl_batcher s) (pl_sink s) = (b', k') \<Longrightarrow>
    pipeline_step Q on_flush s (s\<lparr>pl_batcher := b', pl_sink := k'\<rparr>)"
| stop: "\<not> pl_stopped s \<Longrightarrow>
    pipeline_step Q on_flush s (s\<lparr>pl_stopped := True, pl_queue := q_shutdown Q (pl_queue s)\<rparr>)"

text \<open>After \<open>start()\<close> with \<open>n\<close> workers.\<close>

definition pipeline_start :: "'q \<Rightarrow> 'e Batcher \<Rightarrow> 's \<Rightarrow> Stats \<Rightarrow> nat \<Rightarrow> ('q, 'e, 's) pipeline" where
  "pipeline_start q b k st n = \<lparr>pl_queue = q, pl_batcher = b, pl_sink = k, pl_stats = st,
     pl_workers = replicate n Popping, pl_stopped = False, pl_stored = [], pl_pushes = 0, pl_discards = 0,
     pl_popped = [], pl_added = []\<rparr>"

inductive pipeline_reach ::
    "('q, 'e TimedEvent) EventQueue \<Rightarrow> ('e list \<Rightarrow> 's \<Rightarrow> 's) \<Rightarrow>
     ('q, 'e, 's) pipeline \<Rightarrow> ('q, 'e, 's) pipeline \<Rightarrow> bool" for Q on_flush s0 where
  start: "pipeline_reach Q on_flush s0 s0"
| step: "pipeline_reach Q on_flush s0 s \<Longrightarrow> pipeline_step Q on_flush s s' \<Longrightarrow> pipeline_reach Q on_flush s0 s'"

section \<open>What is under way\<close>

fun held :: "'e worker_pc \<Rightarrow> 'e list" where
  "held (Timing timed) = [te_event timed]"
| "held (Adding event) = [event]"
| "held _ = []"

fun weight :: "'e worker_pc \<Rightarrow> nat" where
  "weight Popping = 1"
| "weight (Timing timed) = 3"
| "weight (Adding event) = 2"
| "weight Exited = 0"

abbreviation held_mset :: "'e worker_pc list \<Rightarrow> 'e multiset" where
  "held_mset ws \<equiv> mset (concat (map held ws))"

lemma held_mset_update:
  assumes "i < length ws"
  shows "held_mset (ws[i := w]) + mset (held (ws ! i)) = held_mset ws + mset (held w)"
  using assms
proof (induction ws arbitrary: i)
  case (Cons v ws)
  then show ?case by (cases i) (auto simp: ac_simps)
qed simp

lemma weight_update:
  assumes "i < length ws"
  shows "sum_list (map weight (ws[i := w])) + weight (ws ! i) = sum_list (map weight ws) + weight w"
  using assms
proof (induction ws arbitrary: i)
  case (Cons v ws)
  then show ?case by (cases i) auto
qed simp

text \<open>The items that left the queue at its head, in order, each popped (\<open>True\<close>) or discarded.\<close>

definition fifo_split :: "'x list \<Rightarrow> 'x list \<Rightarrow> nat \<Rightarrow> 'x list \<Rightarrow> bool" where
  "fifo_split stored popped discards waiting \<longleftrightarrow>
     (\<exists>taken. stored = map fst taken @ waiting \<and> map fst (filter snd taken) = popped \<and>
        length (filter (\<lambda>x. \<not> snd x) taken) = discards)"

lemma fifo_split_start: "fifo_split [] [] 0 []"
  by (simp add: fifo_split_def)

lemma fifo_split_accept: "fifo_split st p d w \<Longrightarrow> fifo_split (st @ [x]) p d (w @ [x])"
  unfolding fifo_split_def by force

lemma fifo_split_pop: "fifo_split st p d (x # w) \<Longrightarrow> fifo_split st (p @ [x]) d w"
  unfolding fifo_split_def
proof (elim exE conjE, intro exI conjI)
  fix taken
  assume "st = map fst taken @ x # w" "map fst (filter snd taken) = p"
    "length (filter (\<lambda>x. \<not> snd x) taken) = d"
  then show "st = map fst (taken @ [(x, True)]) @ w"
    "map fst (filter snd (taken @ [(x, True)])) = p @ [x]"
    "length (filter (\<lambda>x. \<not> snd x) (taken @ [(x, True)])) = d" by simp_all
qed

lemma fifo_split_discard:
  assumes "fifo_split st p d w" and "w \<noteq> []"
  shows "fifo_split (st @ [x]) p (Suc d) (tl w @ [x])"
proof -
  from assms obtain taken where "st = map fst taken @ w" "map fst (filter snd taken) = p"
    "length (filter (\<lambda>x. \<not> snd x) taken) = d" by (auto simp: fifo_split_def)
  with assms(2) show ?thesis
    unfolding fifo_split_def by (intro exI [of _ "taken @ [(hd w, False)]"]) (cases w, auto)
qed

lemma fifo_split_length: "fifo_split st p d w \<Longrightarrow> length st = length p + d + length w"
  unfolding fifo_split_def by (auto simp: sum_length_filter_compl)

lemma fifo_split_subseq_mset: "fifo_split st p d w \<Longrightarrow> mset p \<subseteq># mset st"
  unfolding fifo_split_def
proof (elim exE conjE)
  fix taken
  assume t: "st = map fst taken @ w" "map fst (filter snd taken) = p"
  have "mset (filter snd taken) \<subseteq># mset taken" by simp
  then have "image_mset fst (mset (filter snd taken)) \<subseteq># image_mset fst (mset taken)"
    by (rule image_mset_subseteq_mono)
  then have "mset p \<subseteq># mset (map fst taken)" by (simp flip: t(2))
  also have "\<dots> \<subseteq># mset st" by (simp add: t(1))
  finally show ?thesis .
qed

section \<open>Invariant\<close>

fun untimed :: "'e worker_pc \<Rightarrow> u64" where
  "untimed (Timing timed) = 1"
| "untimed _ = 0"

definition sink_split :: "('e list \<Rightarrow> 's \<Rightarrow> 's) \<Rightarrow> 's \<Rightarrow> 's \<Rightarrow> 'e Batcher \<Rightarrow> 'e list \<Rightarrow> bool" where
  "sink_split on_flush k0 k b added \<longleftrightarrow> batcher_inv b \<and>
     (\<exists>batches. k = fold on_flush batches k0 \<and> concat batches @ ba_buffer b = added)"

lemma sink_split_call:
  assumes "sink_split on_flush k0 k b added" and "batcher_step on_flush c (b, k) = (b', k')"
  shows "sink_split on_flush k0 k' b' (added @ call_events c)"
proof -
  from assms(1) obtain batches where b: "batcher_inv b" "k = fold on_flush batches k0"
    "concat batches @ ba_buffer b = added" by (auto simp: sink_split_def)
  obtain bs where bs: "batcher_step (\<lambda>batch bs. bs @ [batch]) c (b, []) = (b', bs)" "k' = fold on_flush bs k"
    using assms(2) batcher_step_generic [of on_flush c b k] by (auto simp: split_beta prod_eq_iff Let_def)
  note F = batcher_step_facts [OF bs(1) b(1)]
  have "concat (batches @ bs) @ ba_buffer b' = concat batches @ (ba_buffer b @ call_events c)"
    using F(1) by simp
  also have "\<dots> = added @ call_events c" using b(3) by (metis append.assoc)
  finally show ?thesis
    unfolding sink_split_def using F(3) bs(2) b(2)
    by (intro conjI exI [of _ "batches @ bs"]) simp_all
qed

text \<open>After one more \<open>flush()\<close> the sink has been handed everything.\<close>

lemma sink_split_flush:
  assumes "sink_split on_flush k0 k b added"
  shows "\<exists>batches. snd (batcher_flush on_flush b k) = fold on_flush batches k0 \<and> concat batches = added"
proof -
  from assms obtain batches where b: "k = fold on_flush batches k0" "concat batches @ ba_buffer b = added"
    by (auto simp: sink_split_def)
  show ?thesis
  proof (cases "ba_buffer b = []")
    case True
    with b show ?thesis by (auto simp: batcher_flush_def)
  next
    case False
    with b show ?thesis
      by (intro exI [of _ "batches @ [ba_buffer b]"]) (simp add: batcher_flush_def flush_locked_def)
  qed
qed

definition pool_inv ::
    "('q \<Rightarrow> 'e TimedEvent list) \<Rightarrow> ('q \<Rightarrow> bool) \<Rightarrow> (nat \<Rightarrow> 'q \<Rightarrow> bool) \<Rightarrow> nat \<Rightarrow>
     ('e list \<Rightarrow> 's \<Rightarrow> 's) \<Rightarrow> 's \<Rightarrow> ('q, 'e, 's) pipeline \<Rightarrow> bool" where
  "pool_inv contents is_closed invar N on_flush k0 s \<longleftrightarrow>
     invar (N - pl_pushes s) (pl_queue s) \<and> is_closed (pl_queue s) = pl_stopped s \<and>
     fifo_split (pl_stored s) (pl_popped s) (pl_discards s) (contents (pl_queue s)) \<and>
     mset (map te_event (pl_popped s)) = held_mset (pl_workers s) + mset (pl_added s) \<and>
     (Exited \<in> set (pl_workers s) \<longrightarrow> pl_stopped s \<and> contents (pl_queue s) = []) \<and>
     sink_split on_flush k0 (pl_sink s) (pl_batcher s) (pl_added s) \<and>
     st_queue_wait_count (pl_stats s) + sum_list (map untimed (pl_workers s)) = of_nat (length (pl_popped s))"

definition pool_work :: "('q \<Rightarrow> 'e TimedEvent list) \<Rightarrow> ('q, 'e, 's) pipeline \<Rightarrow> nat" where
  "pool_work contents s = 3 * length (contents (pl_queue s)) + sum_list (map weight (pl_workers s))"

lemma Exited_update: "Exited \<in> set (ws[i := w]) \<Longrightarrow> w \<noteq> Exited \<Longrightarrow> Exited \<in> set ws"
  using set_update_subset_insert [of ws i w] by auto

section \<open>Proofs from the queue contract\<close>

locale timed_queue = event_queue_contract Q policy contents is_closed invar
  for Q :: "('q, 'e TimedEvent) EventQueue"
    and policy :: "'q \<Rightarrow> BackpressurePolicy"
    and contents :: "'q \<Rightarrow> 'e TimedEvent list"
    and is_closed :: "'q \<Rightarrow> bool"
    and invar :: "nat \<Rightarrow> 'q \<Rightarrow> bool"
begin

lemma worker_step_inv:
  assumes "worker_step Q on_flush s s'" and "pool_inv contents is_closed invar N on_flush k0 s"
  shows "pool_inv contents is_closed invar N on_flush k0 s' \<and> pl_pushes s' = pl_pushes s"
  using assms
proof (induction rule: worker_step.induct)
  case (worker_pop i s timed q')
  from worker_pop(4) have inv: "invar (N - pl_pushes s) (pl_queue s)" by (simp add: pool_inv_def)
  note P = pop_Some_item [OF inv worker_pop(3)]
  have "Exited \<notin> set (pl_workers s)" using worker_pop(4) P(1) by (auto simp: pool_inv_def)
  then have "Exited \<notin> set ((pl_workers s)[i := Timing timed])" by (auto dest: Exited_update)
  moreover have "held_mset ((pl_workers s)[i := Timing timed]) = held_mset (pl_workers s) + {#te_event timed#}"
    using held_mset_update [OF worker_pop(1), of "Timing timed"] worker_pop(2) by simp
  moreover have "sum_list (map untimed ((pl_workers s)[i := Timing timed])) = sum_list (map untimed (pl_workers s)) + 1"
    using sum_list_map_update [OF worker_pop(1), of untimed "Timing timed"] worker_pop(2) by simp
  moreover have "fifo_split (pl_stored s) (pl_popped s @ [timed]) (pl_discards s) (contents q')"
    using worker_pop(4) P(1) by (intro fifo_split_pop) (simp add: pool_inv_def)
  ultimately show ?case using worker_pop(4) P(2,3) by (simp add: pool_inv_def)
next
  case (worker_exit i s q')
  from worker_exit(4) have inv: "invar (N - pl_pushes s) (pl_queue s)" by (simp add: pool_inv_def)
  note P = pop_Some_nullopt [OF inv worker_exit(3)]
  have "held_mset ((pl_workers s)[i := Exited]) = held_mset (pl_workers s)"
    using held_mset_update [OF worker_exit(1), of Exited] worker_exit(2) by simp
  moreover have "sum_list (map untimed ((pl_workers s)[i := Exited])) = sum_list (map untimed (pl_workers s))"
    using sum_list_map_update [OF worker_exit(1), of untimed Exited] worker_exit(2) by simp
  ultimately show ?case using worker_exit(4) P by (simp add: pool_inv_def)
next
  case (worker_record i s timed now)
  have "held_mset ((pl_workers s)[i := Adding (te_event timed)]) = held_mset (pl_workers s)"
    using held_mset_update [OF worker_record(1), of "Adding (te_event timed)"] worker_record(2) by simp
  moreover have "sum_list (map untimed ((pl_workers s)[i := Adding (te_event timed)])) = sum_list (map untimed (pl_workers s)) - 1"
    using sum_list_map_update [OF worker_record(1), of untimed "Adding (te_event timed)"] worker_record(2)
    by (simp add: eq_diff_eq)
  moreover have "Exited \<in> set ((pl_workers s)[i := Adding (te_event timed)]) \<Longrightarrow> Exited \<in> set (pl_workers s)"
    by (auto dest: Exited_update)
  ultimately show ?case using worker_record(3) by (auto simp: pool_inv_def)
next
  case (worker_add i s event now1 now2 b' k')
  have "held_mset ((pl_workers s)[i := Popping]) + {#event#} = held_mset (pl_workers s)"
    using held_mset_update [OF worker_add(1), of Popping] worker_add(2) by simp
  moreover have "sum_list (map untimed ((pl_workers s)[i := Popping])) = sum_list (map untimed (pl_workers s))"
    using sum_list_map_update [OF worker_add(1), of untimed Popping] worker_add(2) by simp
  moreover have "Exited \<in> set ((pl_workers s)[i := Popping]) \<Longrightarrow> Exited \<in> set (pl_workers s)"
    by (auto dest: Exited_update)
  moreover have "sink_split on_flush k0 k' b' (pl_added s @ call_events (Add_Event now1 now2 event))"
    using worker_add(3,4) by (intro sink_split_call) (simp_all add: pool_inv_def)
  ultimately show ?case using worker_add(4) by (auto simp: pool_inv_def)
qed

lemma pipeline_step_inv:
  assumes "pipeline_step Q on_flush s s'" and "pool_inv contents is_closed invar N on_flush k0 s"
    and "pl_pushes s' \<le> N"
  shows "pool_inv contents is_closed invar N on_flush k0 s'"
  using assms
proof (induction rule: pipeline_step.induct)
  case (worker s s')
  then show ?case using worker_step_inv [OF worker(1,2)] by simp
next
  case (push s timed r q')
  let ?n = "N - Suc (pl_pushes s)"
  have inv: "invar (Suc ?n) (pl_queue s)" using push(3,4) by (simp add: pool_inv_def Suc_diff_Suc)
  note F = push_frame [OF inv push(2)] and C = push_contents [OF inv push(2)]
  have split: "fifo_split (pl_stored s) (pl_popped s) (pl_discards s) (contents (pl_queue s))"
    using push(3) by (simp add: pool_inv_def)
  have full: "contents (pl_queue s) \<noteq> []" if "\<not> length (contents (pl_queue s)) < q_capacity Q (pl_queue s)"
    using that capacity_pos [OF inv] by auto
  have no_exit: "Exited \<notin> set (pl_workers s)" using push(1,3) by (auto simp: pool_inv_def)
  have "fifo_split (if r = RejectedBackpressure then pl_stored s else pl_stored s @ [timed]) (pl_popped s)
      (if r = DroppedOldest then pl_discards s + 1 else pl_discards s) (contents q')"
    using C fifo_split_accept [OF split, of timed] fifo_split_discard [OF split, of timed] split full
    by (auto simp: spec_push_def split: if_splits)
  with push(1,3) F no_exit show ?case by (simp add: pool_inv_def)
next
  case (flush s b' k')
  have "sink_split on_flush k0 k' b' (pl_added s @ call_events Flush)"
    using flush(1,2) by (intro sink_split_call) (simp_all add: pool_inv_def)
  with flush(2) show ?case by (simp add: pool_inv_def)
next
  case (stop s)
  then have "invar (N - pl_pushes s) (pl_queue s)" by (simp add: pool_inv_def)
  from shutdown_frame [OF this] stop(1,2) show ?case by (simp add: pool_inv_def)
qed

lemma pipeline_step_pushes: "pipeline_step Q on_flush s s' \<Longrightarrow> pl_pushes s \<le> pl_pushes s'"
  by (induction rule: pipeline_step.induct) (auto elim: worker_step.cases)

lemma pipeline_reach_inv:
  assumes "pipeline_reach Q on_flush (pipeline_start q (batcher_new n age now) k0 stats_new w) s"
    and "invar N q" and "contents q = []" and "\<not> is_closed q" and "pl_pushes s \<le> N"
  shows "pool_inv contents is_closed invar N on_flush k0 s"
  using assms
proof (induction rule: pipeline_reach.induct)
  case start
  have "sink_split on_flush k0 k0 (batcher_new n age now) []"
    unfolding sink_split_def by (intro conjI exI [of _ "[]"]) (simp_all add: batcher_inv_def batcher_new_def)
  moreover have "sum_list (map untimed (replicate w Popping)) = 0" by (induction w) simp_all
  ultimately show ?case using start
    by (simp add: pool_inv_def pipeline_start_def fifo_split_start stats_new_def del: map_replicate)
next
  case (step s s')
  then have "pl_pushes s \<le> N" using pipeline_step_pushes by (meson le_trans)
  with step show ?case by (blast intro: pipeline_step_inv)
qed

text \<open>All workers have left: the queue is empty and everything popped is in the batcher.\<close>

lemma pool_drained:
  assumes "pool_inv contents is_closed invar N on_flush k0 s"
    and "pl_workers s \<noteq> []" and "set (pl_workers s) \<subseteq> {Exited}"
  shows "contents (pl_queue s) = [] \<and>
    length (pl_stored s) = length (pl_popped s) + pl_discards s \<and> mset (pl_popped s) \<subseteq># mset (pl_stored s) \<and>
    mset (pl_added s) = mset (map te_event (pl_popped s)) \<and>
    st_queue_wait_count (pl_stats s) = of_nat (length (pl_popped s)) \<and>
    (\<exists>batches. snd (batcher_flush on_flush (pl_batcher s) (pl_sink s)) = fold on_flush batches k0 \<and>
       concat batches = pl_added s)"
proof -
  obtain n where ws: "pl_workers s = replicate n Exited" "n \<noteq> 0"
  proof
    show "pl_workers s = replicate (length (pl_workers s)) Exited"
      using assms(3) by (auto simp: list_eq_iff_nth_eq dest: nth_mem)
  qed (use assms(2) in simp)
  have held: "held_mset (replicate n (Exited :: 'e worker_pc)) = {#}" "sum_list (map untimed (replicate n (Exited :: 'e worker_pc))) = 0"
    by (induction n) simp_all
  have empty: "contents (pl_queue s) = []" using assms(1) ws by (simp add: pool_inv_def)
  have split: "fifo_split (pl_stored s) (pl_popped s) (pl_discards s) []"
    using assms(1) empty by (simp add: pool_inv_def)
  have "\<exists>batches. snd (batcher_flush on_flush (pl_batcher s) (pl_sink s)) = fold on_flush batches k0 \<and>
      concat batches = pl_added s"
    using assms(1) by (intro sink_split_flush) (simp add: pool_inv_def)
  with assms(1) fifo_split_length [OF split] fifo_split_subseq_mset [OF split] held empty
  show ?thesis by (simp add: pool_inv_def ws)
qed

text \<open>After the shutdown a worker that has not left can take a step, and every step of a worker makes
  the work that remains smaller.\<close>

lemma worker_can_step:
  assumes "pool_inv contents is_closed invar N on_flush k0 s" and "pl_stopped s"
    and "\<not> set (pl_workers s) \<subseteq> {Exited}"
  shows "\<exists>s'. worker_step Q on_flush s s'"
proof -
  from assms(3) obtain i where i: "i < length (pl_workers s)" "pl_workers s ! i \<noteq> Exited"
    by (auto simp: subset_iff in_set_conv_nth)
  have inv: "invar (N - pl_pushes s) (pl_queue s)" and is_closed: "is_closed (pl_queue s)"
    using assms(1,2) by (simp_all add: pool_inv_def)
  show ?thesis
  proof (cases "pl_workers s ! i")
    case Popping
    show ?thesis
    proof (cases "contents (pl_queue s)")
      case Nil
      with is_closed pop_nullopt_iff [OF inv] obtain q' where "q_pop Q (pl_queue s) = Returns (None, q')" by blast
      with i(1) Popping show ?thesis by (blast intro: worker_exit)
    next
      case (Cons y ys)
      from pop_item [OF inv this] obtain q' where "q_pop Q (pl_queue s) = Returns (Some y, q')" by blast
      with i(1) Popping show ?thesis by (blast intro: worker_pop)
    qed
  next
    case (Adding event)
    obtain b' k' where "add_event on_flush 0 0 event (pl_batcher s) (pl_sink s) = (b', k')" by fastforce
    with i(1) Adding show ?thesis by (blast intro: worker_add)
  qed (use i in \<open>blast intro: worker_record\<close>)+
qed

lemma worker_step_decreases:
  assumes "worker_step Q on_flush s s'" and "pool_inv contents is_closed invar N on_flush k0 s"
  shows "pool_work contents s' < pool_work contents s"
  using assms
proof (induction rule: worker_step.induct)
  case (worker_pop i s timed q')
  then have inv: "invar (N - pl_pushes s) (pl_queue s)" by (simp add: pool_inv_def)
  from weight_update [OF worker_pop(1), of "Timing timed"] worker_pop(2) pop_Some_item(1) [OF inv worker_pop(3)]
  show ?case by (simp add: pool_work_def)
next
  case (worker_exit i s q')
  then have inv: "invar (N - pl_pushes s) (pl_queue s)" by (simp add: pool_inv_def)
  from weight_update [OF worker_exit(1), of Exited] worker_exit(2) pop_Some_nullopt(1,2) [OF inv worker_exit(3)]
  show ?case by (simp add: pool_work_def)
next
  case (worker_record i s timed now)
  from weight_update [OF worker_record(1), of "Adding (te_event timed)"] worker_record(2)
  show ?case by (simp add: pool_work_def)
next
  case (worker_add i s event now1 now2 b' k')
  from weight_update [OF worker_add(1), of Popping] worker_add(2)
  show ?case by (simp add: pool_work_def)
qed

text \<open>So the workers finish: some run of workers ends with all of them gone, and no run of workers is
  longer than the work there was.\<close>

lemma pool_finishes:
  assumes "pool_inv contents is_closed invar N on_flush k0 s" and "pl_stopped s"
  shows "\<exists>s'. (worker_step Q on_flush)\<^sup>*\<^sup>* s s' \<and> set (pl_workers s') \<subseteq> {Exited}"
  using assms
proof (induction "pool_work contents s" arbitrary: s rule: less_induct)
  case less
  show ?case
  proof (cases "set (pl_workers s) \<subseteq> {Exited}")
    case False
    from worker_can_step [OF less.prems this] obtain s1 where s1: "worker_step Q on_flush s s1" by blast
    have "pl_stopped s1" using s1 less.prems(2) by (auto elim: worker_step.cases)
    with less.hyps [OF worker_step_decreases [OF s1 less.prems(1)]] worker_step_inv [OF s1 less.prems(1)]
    obtain s' where "(worker_step Q on_flush)\<^sup>*\<^sup>* s1 s'" "set (pl_workers s') \<subseteq> {Exited}" by blast
    with s1 show ?thesis by (blast intro: converse_rtranclp_into_rtranclp)
  qed blast
qed

lemma worker_runs_bounded:
  assumes "(worker_step Q on_flush ^^ n) s s'" and "pool_inv contents is_closed invar N on_flush k0 s"
  shows "n + pool_work contents s' \<le> pool_work contents s"
  using assms
proof (induction n arbitrary: s')
  case (Suc n)
  then obtain s1 where s1: "(worker_step Q on_flush ^^ n) s s1" "worker_step Q on_flush s1 s'" by auto
  have "pool_inv contents is_closed invar N on_flush k0 s1"
    using s1(1) assms(2)
  proof (induction n arbitrary: s1)
    case (Suc n)
    then show ?case using worker_step_inv by (metis relpowp_Suc_E)
  qed simp
  from worker_step_decreases [OF s1(2) this] Suc.IH [OF s1(1) Suc.prems(2)] show ?case by simp
qed simp

end

end
