(* ===== verification/Lock_Free_Pool.thy ===== *)
theory Lock_Free_Pool
  imports Lock_Free_Drain Worker_Pool "HOL-Library.Sublist"
begin

text \<open>
  \<^verbatim>\<open>WorkerPool<LockFreeBoundedQueue<TimedEvent>>\<close> without the assumption that a call of the queue is one step: the workers of
  \<^verbatim>\<open>worker_pool.hpp\<close> run their loop on the queue of \<open>Lock_Free_Concurrent\<close>, where \<open>push\<close>, \<open>pop\<close> and \<open>shutdown\<close> are sequences of
  single accesses. As in \<^verbatim>\<open>gateway/src/main.cpp\<close> the thread that pushes is the one that calls \<open>stop()\<close>, so no push is under way
  when the queue is shut down and none begins later.
\<close>

section \<open>State and steps\<close>

record ('e, 's) concurrent_pool =
  cp_queue :: "'e TimedEvent lfq"
  cp_batcher :: "'e Batcher"
  cp_sink :: 's
  cp_stats :: Stats
  cp_workers :: "nat \<Rightarrow> 'e worker_pc"
  cp_added :: "'e list"                  \<comment> \<open>history: the events added to the batcher\<close>

text \<open>What \<open>worker_loop()\<close> does with the result of \<open>pop()\<close>.\<close>

definition after_pop :: "'e TimedEvent option \<Rightarrow> 'e worker_pc" where
  "after_pop r = (case r of None \<Rightarrow> Exited | Some timed \<Rightarrow> Timing timed)"

text \<open>\<open>W\<close> are the workers. A step of the queue in which no \<open>pop\<close> returns, one in which the \<open>pop\<close> of worker \<open>w\<close> returns, the rest
  of the loop, and a flush by the flush thread. A worker calls \<open>pop\<close> only at the head of its loop.\<close>

inductive cpool_step ::
    "nat set \<Rightarrow> ('e list \<Rightarrow> 's \<Rightarrow> 's) \<Rightarrow> ('e, 's) concurrent_pool \<Rightarrow> ('e, 's) concurrent_pool \<Rightarrow> bool" for W on_flush where
  queue_moves: "lq_step W (cp_queue s) q' \<Longrightarrow> lq_pops q' = lq_pops (cp_queue s) \<Longrightarrow>
    (\<And>w. w \<in> W \<Longrightarrow> lq_pc (cp_queue s) w = At_Rest \<Longrightarrow> lq_pc q' w \<noteq> At_Rest \<Longrightarrow> cp_workers s w = Popping) \<Longrightarrow>
    (lq_shutting_down q' \<Longrightarrow> no_pushes (cp_queue s) \<and> no_pushes q') \<Longrightarrow>
    cpool_step W on_flush s (s\<lparr>cp_queue := q'\<rparr>)"
| pop_done: "w \<in> W \<Longrightarrow> lq_step W (cp_queue s) q' \<Longrightarrow> lq_pops q' = lq_pops (cp_queue s) @ [r] \<Longrightarrow>
    lq_pc (cp_queue s) w \<noteq> At_Rest \<Longrightarrow> lq_pc q' w = At_Rest \<Longrightarrow>
    cpool_step W on_flush s (s\<lparr>cp_queue := q', cp_workers := (cp_workers s)(w := after_pop r)\<rparr>)"
| records: "w \<in> W \<Longrightarrow> cp_workers s w = Timing timed \<Longrightarrow>
    cpool_step W on_flush s (s\<lparr>cp_stats := record_queue_wait (now - te_enqueued_at timed) (cp_stats s),
      cp_workers := (cp_workers s)(w := Adding (te_event timed))\<rparr>)"
| adds: "w \<in> W \<Longrightarrow> cp_workers s w = Adding event \<Longrightarrow>
    add_event on_flush now1 now2 event (cp_batcher s) (cp_sink s) = (b', k') \<Longrightarrow>
    cpool_step W on_flush s (s\<lparr>cp_batcher := b', cp_sink := k', cp_workers := (cp_workers s)(w := Popping),
      cp_added := cp_added s @ [event]\<rparr>)"
| flushes: "batcher_flush on_flush (cp_batcher s) (cp_sink s) = (b', k') \<Longrightarrow>
    cpool_step W on_flush s (s\<lparr>cp_batcher := b', cp_sink := k'\<rparr>)"

definition cpool_start :: "'e TimedEvent LockFreeQueue \<Rightarrow> 'e Batcher \<Rightarrow> 's \<Rightarrow> ('e, 's) concurrent_pool" where
  "cpool_start q b k = \<lparr>cp_queue = lq_init q, cp_batcher = b, cp_sink = k, cp_stats = stats_new,
     cp_workers = (\<lambda>_. Popping), cp_added = []\<rparr>"

abbreviation cpool_reach ::
    "nat set \<Rightarrow> ('e list \<Rightarrow> 's \<Rightarrow> 's) \<Rightarrow> ('e, 's) concurrent_pool \<Rightarrow> ('e, 's) concurrent_pool \<Rightarrow> bool" where
  "cpool_reach W on_flush \<equiv> (cpool_step W on_flush)\<^sup>*\<^sup>*"

section \<open>Invariant\<close>

definition cpool_inv ::
    "nat set \<Rightarrow> 'e TimedEvent LockFreeQueue \<Rightarrow> ('e list \<Rightarrow> 's \<Rightarrow> 's) \<Rightarrow> 's \<Rightarrow> ('e, 's) concurrent_pool \<Rightarrow> bool" where
  "cpool_inv W q on_flush k0 s \<longleftrightarrow> lq_reach W q (cp_queue s) \<and>
     (\<forall>w\<in>W. cp_workers s w \<noteq> Popping \<longrightarrow> lq_pc (cp_queue s) w = At_Rest) \<and>
     (\<forall>w. cp_workers s w = Exited \<longrightarrow> None \<in> set (lq_pops (cp_queue s))) \<and>
     finite {w. mset (held (cp_workers s w)) \<noteq> {#}} \<and>
     mset (map te_event (returned_items (lq_pops (cp_queue s)))) =
       mset (cp_added s) + together (\<lambda>w. mset (held (cp_workers s w))) \<and>
     sink_split on_flush k0 (cp_sink s) (cp_batcher s) (cp_added s) \<and>
     (lq_shutting_down (cp_queue s) \<longrightarrow> no_pushes (cp_queue s) \<and> drained (cp_queue s))"

lemma workers_move:
  assumes "finite {w. mset (held (ws w)) \<noteq> {#}}" "a = h + together (\<lambda>w. mset (held (ws w)))"
    and "a' + h + mset (held (ws w)) = a + h' + mset (held pc)"
  shows "finite {u. mset (held ((ws(w := pc)) u)) \<noteq> {#}} \<and> a' = h' + together (\<lambda>u. mset (held ((ws(w := pc)) u)))"
proof -
  note M = together_move [of "\<lambda>u. mset (held (ws u))" w "\<lambda>u. mset (held ((ws(w := pc)) u))", OF assms(1)]
  have "together (\<lambda>u. mset (held ((ws(w := pc)) u))) + mset (held (ws w)) = together (\<lambda>w. mset (held (ws w))) + mset (held pc)"
    using M(2) by simp
  with balance_moves [OF assms(2,3)] M(1) show ?thesis by auto
qed

lemma queue_step_closed:
  assumes new: "lf_new dflt c p = Some (Inr q)" and r: "lq_reach W q s" and st: "lq_step W s s'"
    and "rg_e (lq_ring s') + rg_N (lq_ring s') < half_range"
    and inv: "lq_shutting_down s \<longrightarrow> no_pushes s \<and> drained s" and "lq_shutting_down s' \<Longrightarrow> no_pushes s \<and> no_pushes s'"
  shows "lq_shutting_down s' \<longrightarrow> no_pushes s' \<and> drained s'"
proof
  assume "lq_shutting_down s'"
  with assms(6) have np: "no_pushes s" "no_pushes s'" by blast+
  have "drained s" using inv open_drained lq_reach_books [OF r] by (cases "lq_shutting_down s") auto
  from drained_step [OF new r assms(4) st np this] np show "no_pushes s' \<and> drained s'" by blast
qed

lemma pop_keeps_quiet:
  assumes "lq_step W s s'" "lq_pops s' = lq_pops s @ [r]"
  shows "lq_shutting_down s' = lq_shutting_down s \<and> (no_pushes s \<longrightarrow> no_pushes s')"
  using assms(1)
proof (cases rule: lq_step.cases)
  case (try_returns t r')
  have "producing (lq_pc s' t) \<Longrightarrow> producing (lq_pc s t)"
    unfolding try_returns(1)
    by (cases "(t, lq_pc s t, ring_result (rg_pc (lq_ring s) t), s\<lparr>lq_ring := r'\<rparr>)" rule: after_try.cases)
      (auto simp: push_returns_def pop_returns_def split: if_splits)
  moreover have "lq_pc s' u = lq_pc s u" if "u \<noteq> t" for u using that try_returns(1) by simp
  ultimately show ?thesis using try_returns(1) by (metis after_try_frame(5) lfq.select_convs(5) lfq.surjective lfq.update_convs(1))
qed (use assms(2) in \<open>auto simp: push_returns_def pop_returns_def\<close>)

lemma pop_returns_only:
  assumes "lq_step W s s'" "lq_pops s' = lq_pops s @ [r]" "lq_pc s w \<noteq> At_Rest" "lq_pc s' w = At_Rest" "u \<noteq> w"
  shows "lq_pc s' u = lq_pc s u"
  using assms(1)
proof (cases rule: lq_step.cases)
  case (try_returns t r')
  then have "lq_pc s' v = lq_pc s v" if "v \<noteq> t" for v using that by simp
  with assms(3-5) show ?thesis by metis
next
  case (unlock t r)
  then have "lq_pc s' v = lq_pc s v" if "v \<noteq> t" for v using that by (simp add: pop_returns_def)
  with assms(3-5) show ?thesis by metis
qed (use assms(2) in \<open>auto simp: push_returns_def\<close>)

lemma cpool_step_queue:
  assumes "cpool_step W on_flush s s'"
  shows "cp_queue s' = cp_queue s \<or> lq_step W (cp_queue s) (cp_queue s')"
  using assms by (cases rule: cpool_step.cases) auto

lemma cpool_step_inv:
  assumes new: "lf_new dflt c p = Some (Inr q)" and "cpool_step W on_flush s s'" and inv: "cpool_inv W q on_flush k0 s"
    and b: "rg_e (lq_ring (cp_queue s')) + rg_N (lq_ring (cp_queue s')) < half_range"
  shows "cpool_inv W q on_flush k0 s'"
proof -
  let ?q = "cp_queue s" and ?ws = "cp_workers s"
  from inv have r: "lq_reach W q ?q" and rest: "\<forall>w\<in>W. ?ws w \<noteq> Popping \<longrightarrow> lq_pc ?q w = At_Rest"
    and ex: "\<forall>w. ?ws w = Exited \<longrightarrow> None \<in> set (lq_pops ?q)" and fin: "finite {w. mset (held (?ws w)) \<noteq> {#}}"
    and bal: "mset (map te_event (returned_items (lq_pops ?q))) = mset (cp_added s) + together (\<lambda>w. mset (held (?ws w)))"
    and sink: "sink_split on_flush k0 (cp_sink s) (cp_batcher s) (cp_added s)"
    and quiet: "lq_shutting_down ?q \<longrightarrow> no_pushes ?q \<and> drained ?q"
    by (simp_all add: cpool_inv_def)
  note move = workers_move [OF fin bal]
  from assms(2) show ?thesis
  proof (cases rule: cpool_step.cases)
    case (queue_moves q')
    have "lq_reach W q q'" using r queue_moves(2) by (rule rtranclp.rtrancl_into_rtrancl)
    moreover have "lq_shutting_down q' \<longrightarrow> no_pushes q' \<and> drained q'"
      using b queue_moves(1) by (intro queue_step_closed [OF new r queue_moves(2) _ quiet queue_moves(5)]) simp_all
    moreover have "\<forall>w\<in>W. ?ws w \<noteq> Popping \<longrightarrow> lq_pc q' w = At_Rest" using rest queue_moves(4) by blast
    ultimately show ?thesis using inv queue_moves(1,3) by (simp add: cpool_inv_def)
  next
    case (pop_done w q' res)
    have "lq_reach W q q'" using r pop_done(3) by (rule rtranclp.rtrancl_into_rtrancl)
    moreover have "lq_shutting_down q' \<longrightarrow> no_pushes q' \<and> drained q'"
      using b pop_done(1) quiet pop_keeps_quiet [OF pop_done(3,4)]
      by (intro queue_step_closed [OF new r pop_done(3) _ quiet]) simp_all
    moreover have popping: "?ws w = Popping" using rest pop_done(2,5) by blast
    moreover have "\<forall>u\<in>W. ((?ws)(w := after_pop res)) u \<noteq> Popping \<longrightarrow> lq_pc q' u = At_Rest"
      using rest pop_done(6) pop_returns_only [OF pop_done(3-6)] by auto
    moreover have "\<forall>u. ((?ws)(w := after_pop res)) u = Exited \<longrightarrow> None \<in> set (lq_pops q')"
      using ex pop_done(4) by (auto simp: after_pop_def split: option.splits)
    moreover have "finite {u. mset (held (((?ws)(w := after_pop res)) u)) \<noteq> {#}} \<and>
        mset (map te_event (returned_items (lq_pops q'))) =
          mset (cp_added s) + together (\<lambda>u. mset (held (((?ws)(w := after_pop res)) u)))"
      using popping pop_done(4) by (intro move) (simp add: after_pop_def split: option.splits)
    ultimately show ?thesis using sink pop_done(1) by (simp add: cpool_inv_def del: fun_upd_apply)
  next
    case (records w timed now)
    have "finite {u. mset (held (((?ws)(w := Adding (te_event timed))) u)) \<noteq> {#}} \<and>
        mset (map te_event (returned_items (lq_pops ?q))) =
          mset (cp_added s) + together (\<lambda>u. mset (held (((?ws)(w := Adding (te_event timed))) u)))"
      using records(3) by (intro move) simp
    moreover have "\<forall>u\<in>W. ((?ws)(w := Adding (te_event timed))) u \<noteq> Popping \<longrightarrow> lq_pc ?q u = At_Rest" using rest records(2,3) by auto
    moreover have "\<forall>u. ((?ws)(w := Adding (te_event timed))) u = Exited \<longrightarrow> None \<in> set (lq_pops ?q)" using ex by auto
    ultimately show ?thesis using r sink quiet records(1) by (simp add: cpool_inv_def del: fun_upd_apply)
  next
    case (adds w event now1 now2 b' k')
    have "finite {u. mset (held (((?ws)(w := Popping)) u)) \<noteq> {#}} \<and>
        mset (map te_event (returned_items (lq_pops ?q))) =
          mset (cp_added s @ [event]) + together (\<lambda>u. mset (held (((?ws)(w := Popping)) u)))"
      using adds(3) by (intro move) simp
    moreover have "sink_split on_flush k0 k' b' (cp_added s @ [event])"
      using sink_split_call [OF sink, of "Add_Event now1 now2 event"] adds(4) by simp
    moreover have "\<forall>u\<in>W. ((?ws)(w := Popping)) u \<noteq> Popping \<longrightarrow> lq_pc ?q u = At_Rest" using rest by auto
    moreover have "\<forall>u. ((?ws)(w := Popping)) u = Exited \<longrightarrow> None \<in> set (lq_pops ?q)" using ex by auto
    ultimately show ?thesis using r quiet adds(1) by (simp add: cpool_inv_def del: fun_upd_apply)
  next
    case (flushes b' k')
    with sink_split_call [OF sink, of Flush] have "sink_split on_flush k0 k' b' (cp_added s)" by simp
    with inv flushes(1) show ?thesis by (simp add: cpool_inv_def)
  qed
qed

lemma cpool_reach_inv:
  assumes new: "lf_new dflt c p = Some (Inr q)" and "batcher_inv b" "ba_buffer b = []"
    and "cpool_reach W on_flush (cpool_start q b k0) s"
    and "rg_e (lq_ring (cp_queue s)) + rg_N (lq_ring (cp_queue s)) < half_range"
  shows "cpool_inv W q on_flush k0 s"
  using assms(4,5)
proof (induction rule: rtranclp_induct)
  case base
  have "sink_split on_flush k0 k0 b []" using assms(2,3) by (auto simp: sink_split_def intro: exI [of _ "[]"])
  moreover from new obtain k where "q = lf_ring dflt (2 ^ k) p" by (rule lf_new_Inr)
  ultimately show ?case
    by (simp add: cpool_inv_def cpool_start_def together_none returned_items_def lq_init_def lf_ring_def)
next
  case (step s s')
  have "rg_e (lq_ring (cp_queue s)) + rg_N (lq_ring (cp_queue s)) < half_range"
    using cpool_step_queue [OF step(2)] lq_step_sizes [of W "cp_queue s" "cp_queue s'"] step(4) by auto
  with step show ?case by (blast intro: cpool_step_inv [OF new])
qed

text \<open>Only workers hold events.\<close>

lemma cpool_others:
  assumes "cpool_reach W on_flush (cpool_start q b k0) s" "w \<notin> W"
  shows "cp_workers s w = Popping"
  using assms(1)
proof (induction rule: rtranclp_induct)
  case base
  show ?case by (simp add: cpool_start_def)
next
  case (step s s')
  from step(2,3) assms(2) show ?case by (cases rule: cpool_step.cases) auto
qed

section \<open>Properties\<close>

text \<open>C5: A graceful shutdown of the worker pool delivers every accepted event, with the lock-free queue at the granularity of its
  single accesses. Any number of events are pushed, under any policy; the workers pop them, record their wait and add them to the batcher;
  flushes come at any time; the queue is shut down when the pushes are over. Once all workers have left their loop and
  \<^verbatim>\<open>shutdown()\<close> has returned, the final \<^verbatim>\<open>batcher.flush()\<close> leaves the sink with batches whose events are,
  together with those thrown away under \<^verbatim>\<open>DropOldest\<close>, exactly those of the pushes that reported success, each as
  often as it was pushed.\<close>

theorem lock_free_pool_delivers:
  assumes "lf_new dflt c p = Some (Inr q)" "cpool_reach W on_flush (cpool_start q (batcher_new n age now) k0) s"
    and "rg_e (lq_ring (cp_queue s)) + rg_N (lq_ring (cp_queue s)) < half_range"
    and "W \<noteq> {}" "\<And>w. w \<in> W \<Longrightarrow> cp_workers s w = Exited" "\<And>t. t \<notin> W \<Longrightarrow> lq_pc (cp_queue s) t = At_Rest"
  shows "\<exists>batches. snd (batcher_flush on_flush (cp_batcher s) (cp_sink s)) = fold on_flush batches k0 \<and>
    mset (concat batches) + mset (map te_event (lq_discards (cp_queue s))) =
      mset (map te_event (stored_items (lq_pushes (cp_queue s))))"
proof -
  let ?q = "cp_queue s"
  have "batcher_inv (batcher_new n age now :: 'a Batcher)" "ba_buffer (batcher_new n age now :: 'a Batcher) = []"
    by (simp_all add: batcher_inv_def batcher_new_def)
  from cpool_reach_inv [OF assms(1) this assms(2,3)] have inv: "cpool_inv W q on_flush k0 s" .
  then have r: "lq_reach W q ?q" by (simp add: cpool_inv_def)
  have rest: "lq_pc ?q t = At_Rest" for t using inv assms(5,6) by (cases "t \<in> W") (auto simp: cpool_inv_def)
  have "None \<in> set (lq_pops ?q)" using inv assms(4,5) by (auto simp: cpool_inv_def)
  moreover have "lq_shutting_down ?q" using calculation lq_reach_books [OF r] by (auto simp: closed_books_def)
  ultimately have "rg_d (lq_ring ?q) = rg_e (lq_ring ?q)" using inv by (simp add: cpool_inv_def drained_def)
  from empty_balance [OF assms(1) r assms(3) rest this]
  have "image_mset te_event (mset (stored_items (lq_pushes ?q))) =
      image_mset te_event (mset (returned_items (lq_pops ?q))) + image_mset te_event (mset (lq_discards ?q))" by simp
  moreover have "held (cp_workers s w) = []" for w
    using inv assms(5) [of w] cpool_others [OF assms(2), of w] by (cases "w \<in> W") simp_all
  then have "mset (map te_event (returned_items (lq_pops ?q))) = mset (cp_added s)"
    using inv by (simp add: cpool_inv_def together_none)
  ultimately have "mset (cp_added s) + mset (map te_event (lq_discards ?q)) = mset (map te_event (stored_items (lq_pushes ?q)))" by simp
  moreover have "sink_split on_flush k0 (cp_sink s) (cp_batcher s) (cp_added s)" using inv by (simp add: cpool_inv_def)
  from sink_split_flush [OF this] obtain batches where
    "snd (batcher_flush on_flush (cp_batcher s) (cp_sink s)) = fold on_flush batches k0" "concat batches = cp_added s" by blast
  ultimately show ?thesis by auto
qed

section \<open>A run\<close>

text \<open>Runs of the queue in which no \<open>pop\<close> returns, as runs of the pool.\<close>

lemma lq_step_mono:
  assumes "lq_step W s s'"
  shows "length (lq_pops s) \<le> length (lq_pops s')" "lq_shutting_down s \<Longrightarrow> lq_shutting_down s'" "prefix (lq_pops s) (lq_pops s')"
proof -
  have "prefix (lq_pops s) (lq_pops s') \<and> (lq_shutting_down s \<longrightarrow> lq_shutting_down s')"
    using assms
  proof (cases rule: lq_step.cases)
    case (try_returns t r')
    then show ?thesis
      by (cases "(t, lq_pc s t, ring_result (rg_pc (lq_ring s) t), s\<lparr>lq_ring := r'\<rparr>)" rule: after_try.cases)
        (auto simp: push_returns_def pop_returns_def)
  qed (auto simp: push_returns_def pop_returns_def)
  then show "length (lq_pops s) \<le> length (lq_pops s')" "lq_shutting_down s \<Longrightarrow> lq_shutting_down s'" "prefix (lq_pops s) (lq_pops s')"
    using prefix_length_le by auto
qed

lemma lq_execs_mono:
  assumes "lq_execs W cs s = Some s'"
  shows "prefix (lq_pops s) (lq_pops s') \<and> (lq_shutting_down s \<longrightarrow> lq_shutting_down s')"
  using assms
proof (induction cs arbitrary: s)
  case (Cons c cs)
  then obtain s1 where s1: "lq_exec W c s = Some s1" "lq_execs W cs s1 = Some s'" by (auto simp: bind_eq_Some_conv)
  with Cons.IH [OF s1(2)] lq_step_mono [OF lq_exec_step [OF s1(1)]] show ?case by (auto intro: prefix_order.trans)
qed simp

text \<open>Either the queue stays open, or no push is under way or begins.\<close>

lemma queue_run:
  assumes "lq_execs W cs q = Some q'" "lq_pops q' = lq_pops q" "\<And>w. w \<in> W \<Longrightarrow> cp_workers s w = Popping" "cp_queue s = q"
    and "\<not> lq_shutting_down q' \<or> no_pushes q \<and> (\<forall>t x. Call_Push t x \<notin> set cs)"
  shows "cpool_reach W on_flush s (s\<lparr>cp_queue := q'\<rparr>)"
  using assms
proof (induction cs arbitrary: q s)
  case Nil
  then show ?case by auto
next
  case (Cons c cs)
  then obtain q1 where q1: "lq_exec W c q = Some q1" "lq_execs W cs q1 = Some q'" by (auto simp: bind_eq_Some_conv)
  note st = lq_exec_step [OF q1(1)] and M = lq_execs_mono [OF q1(2)]
  have pops: "lq_pops q1 = lq_pops q" using lq_step_mono(3) [OF st] M Cons.prems(2) by (metis prefix_order.antisym)
  have np: "no_pushes q1" if "lq_shutting_down q1" "no_pushes q" "\<forall>t x. Call_Push t x \<notin> set (c # cs)"
    by (rule lq_exec_no_pushes [OF q1(1) that(2)]) (use that(3) in auto)
  have "cpool_step W on_flush s (s\<lparr>cp_queue := q1\<rparr>)"
    using st pops Cons.prems(3-5) M np by (intro queue_moves) auto
  moreover have "cpool_reach W on_flush (s\<lparr>cp_queue := q1\<rparr>) (s\<lparr>cp_queue := q1\<rparr>\<lparr>cp_queue := q'\<rparr>)"
  proof (rule Cons.IH [OF q1(2)])
    show "\<not> lq_shutting_down q' \<or> no_pushes q1 \<and> (\<forall>t x. Call_Push t x \<notin> set cs)"
      using Cons.prems(5) lq_exec_no_pushes [OF q1(1)] by fastforce
  qed (use Cons.prems pops in simp_all)
  ultimately show ?case by (simp add: converse_rtranclp_into_rtranclp)
qed

text \<open>Thread 0 pushes one event and worker 1 takes it; thread 0 shuts the queue down and worker 1 leaves.\<close>

definition demo_timed :: "nat TimedEvent" where
  "demo_timed = \<lparr>te_event = 7, te_enqueued_at = 0\<rparr>"

definition pool_q1 :: "nat TimedEvent lfq" where
  "pool_q1 = the (lq_execs {1} (Call_Push 0 demo_timed # replicate 6 (Go 0) @ Call_Pop 1 # replicate 4 (Go 1)) (lq_init (lf_ring demo_timed 2 Block)))"

definition pool_q2 :: "nat TimedEvent lfq" where
  "pool_q2 = the (lq_exec {1} (Go 1) pool_q1)"

definition pool_q3 :: "nat TimedEvent lfq" where
  "pool_q3 = the (lq_execs {1} ([Call_Shutdown 0, Go 0] @ Call_Pop 1 # replicate 6 (Go 1)) pool_q2)"

definition pool_q4 :: "nat TimedEvent lfq" where
  "pool_q4 = the (lq_exec {1} (Go 1) pool_q3)"

lemma pool_runs:
  "lq_execs {1} (Call_Push 0 demo_timed # replicate 6 (Go 0) @ Call_Pop 1 # replicate 4 (Go 1)) (lq_init (lf_ring demo_timed 2 Block)) = Some pool_q1"
  "lq_exec {1} (Go 1) pool_q1 = Some pool_q2"
  "lq_execs {1} ([Call_Shutdown 0, Go 0] @ Call_Pop 1 # replicate 6 (Go 1)) pool_q2 = Some pool_q3"
  "lq_exec {1} (Go 1) pool_q3 = Some pool_q4"
proof -
  have "lq_execs {1} (Call_Push 0 demo_timed # replicate 6 (Go 0) @ Call_Pop 1 # replicate 4 (Go 1)) (lq_init (lf_ring demo_timed 2 Block)) \<noteq> None"
    by code_simp
  then show "lq_execs {1} (Call_Push 0 demo_timed # replicate 6 (Go 0) @ Call_Pop 1 # replicate 4 (Go 1)) (lq_init (lf_ring demo_timed 2 Block)) = Some pool_q1"
    by (auto simp: pool_q1_def)
  have "lq_exec {1} (Go 1) pool_q1 \<noteq> None" by code_simp
  then show "lq_exec {1} (Go 1) pool_q1 = Some pool_q2" by (auto simp: pool_q2_def)
  have "lq_execs {1} ([Call_Shutdown 0, Go 0] @ Call_Pop 1 # replicate 6 (Go 1)) pool_q2 \<noteq> None" by code_simp
  then show "lq_execs {1} ([Call_Shutdown 0, Go 0] @ Call_Pop 1 # replicate 6 (Go 1)) pool_q2 = Some pool_q3" by (auto simp: pool_q3_def)
  have "lq_exec {1} (Go 1) pool_q3 \<noteq> None" by code_simp
  then show "lq_exec {1} (Go 1) pool_q3 = Some pool_q4" by (auto simp: pool_q4_def)
qed

lemma pool_facts:
  "lq_pops pool_q1 = []" "lq_pops pool_q2 = [Some demo_timed]" "lq_pops pool_q3 = [Some demo_timed]"
  "lq_pops pool_q4 = [Some demo_timed, None]" "\<not> lq_shutting_down pool_q1"
  "lq_pc pool_q1 1 \<noteq> At_Rest" "lq_pc pool_q2 1 = At_Rest" "lq_pc pool_q2 0 = At_Rest" "lq_pc pool_q3 1 \<noteq> At_Rest"
  "lq_pc pool_q4 1 = At_Rest" "lq_pc pool_q4 0 = At_Rest"
  "rg_e (lq_ring pool_q4) + rg_N (lq_ring pool_q4) = 3" "lq_discards pool_q4 = []" "lq_pushes pool_q4 = [(Accepted, demo_timed)]"
  by code_simp+

lemma pool_others: "t \<notin> {0, 1} \<Longrightarrow> lq_pc pool_q2 t = At_Rest" "t \<notin> {0, 1} \<Longrightarrow> lq_pc pool_q4 t = At_Rest"
proof -
  assume t: "t \<notin> {0, 1}"
  have "lq_pc pool_q1 t = At_Rest" by (rule lq_execs_rest [OF pool_runs(1)]) (use t in \<open>auto simp: lq_init_def\<close>)
  then show 2: "lq_pc pool_q2 t = At_Rest" by (rule lq_exec_rest [OF pool_runs(2), rotated]) (use t in simp)
  have "lq_pc pool_q3 t = At_Rest" by (rule lq_execs_rest [OF pool_runs(3) _ 2]) (use t in auto)
  then show "lq_pc pool_q4 t = At_Rest" by (rule lq_exec_rest [OF pool_runs(4), rotated]) (use t in simp)
qed

lemma demo_pool_run:
  "\<exists>s. cpool_reach {1} collect (cpool_start (lf_ring demo_timed 2 Block) (batcher_new 1 0 0) []) s \<and> cp_queue s = pool_q4 \<and>
    cp_workers s 1 = Exited"
proof -
  let ?s0 = "cpool_start (lf_ring demo_timed 2 Block) (batcher_new 1 0 0) [] :: (nat, nat list list) concurrent_pool"
  let ?R = "cpool_reach {1} collect ?s0"
  let ?s1 = "?s0\<lparr>cp_queue := pool_q1\<rparr>" and ?s2 = "?s0\<lparr>cp_queue := pool_q2, cp_workers := (\<lambda>_. Popping)(1 := Timing demo_timed)\<rparr>"
  let ?s3 = "?s2\<lparr>cp_stats := record_queue_wait (0 - te_enqueued_at demo_timed) (cp_stats ?s2), cp_workers := (\<lambda>_. Popping)(1 := Adding 7)\<rparr>"
  obtain b k where bk: "add_event collect 0 0 7 (cp_batcher ?s3) (cp_sink ?s3) = (b, k)" by fastforce
  let ?s4 = "?s3\<lparr>cp_batcher := b, cp_sink := k, cp_workers := (\<lambda>_. Popping), cp_added := [7]\<rparr>"
  let ?s5 = "?s4\<lparr>cp_queue := pool_q3\<rparr>" and ?s6 = "?s4\<lparr>cp_queue := pool_q4, cp_workers := (\<lambda>_. Popping)(1 := Exited)\<rparr>"
  note go = rtranclp.rtrancl_into_rtrancl [of "cpool_step {1} collect" ?s0]
  have 1: "?R ?s1"
    using queue_run [OF pool_runs(1), of ?s0] pool_facts(1,5) by (simp add: cpool_start_def lq_init_def)
  have 2: "?R ?s2"
    using go [OF 1 pop_done [of 1 "{1}" ?s1 pool_q2 "Some demo_timed"]] lq_exec_step [OF pool_runs(2)] pool_facts(1,2,6,7)
    by (simp add: after_pop_def cpool_start_def)
  have 3: "?R ?s3" using go [OF 2 records [of 1 "{1}" ?s2 demo_timed collect 0]] by (simp add: demo_timed_def)
  have 4: "?R ?s4" using go [OF 3 adds [of 1 "{1}" ?s3 7 collect 0 0 b k]] bk by (simp add: cpool_start_def fun_upd_idem)
  have np: "no_pushes pool_q2"
  proof
    fix t show "\<not> producing (lq_pc pool_q2 t)" using pool_facts(7,8) pool_others(1) [of t] by (cases "t \<in> {0, 1}") auto
  qed
  have "cpool_reach {1} collect ?s4 ?s5"
    using queue_run [OF pool_runs(3), of ?s4 collect] pool_facts(2,3) np by simp
  with 4 have 5: "?R ?s5" by (rule rtranclp_trans)
  have 6: "?R ?s6"
    using go [OF 5 pop_done [of 1 "{1}" ?s5 pool_q4 None]] lq_exec_step [OF pool_runs(4)] pool_facts(3,4,9,10)
    by (simp add: after_pop_def)
  then show ?thesis by (intro exI [of _ ?s6]) simp
qed

theorem lock_free_pool_delivers_witness:
  "\<exists>s batches. cpool_reach {1} collect (cpool_start (lf_ring demo_timed 2 Block) (batcher_new 1 0 0) []) s \<and>
     snd (batcher_flush collect (cp_batcher s) (cp_sink s)) = fold collect batches [] \<and> mset (concat batches) = {#7#}"
proof -
  obtain s where s: "cpool_reach {1} collect (cpool_start (lf_ring demo_timed 2 Block) (batcher_new 1 0 0) []) s"
    "cp_queue s = pool_q4" "cp_workers s 1 = Exited" using demo_pool_run by blast
  have b: "rg_e (lq_ring (cp_queue s)) + rg_N (lq_ring (cp_queue s)) < half_range" using pool_facts(12) s(2) by simp
  have "\<exists>batches. snd (batcher_flush collect (cp_batcher s) (cp_sink s)) = fold collect batches [] \<and>
      mset (concat batches) + mset (map te_event (lq_discards (cp_queue s))) =
        mset (map te_event (stored_items (lq_pushes (cp_queue s))))"
  proof (rule lock_free_pool_delivers [OF ring_of_two_new s(1) b])
    show "lq_pc (cp_queue s) t = At_Rest" if "t \<notin> {1}" for t
      using that s(2) pool_facts(11) pool_others(2) [of t] by (cases "t = 0") auto
  qed (use s(3) in auto)
  then show ?thesis using s(1,2) pool_facts(13,14) by (auto simp: stored_items_def demo_timed_def)
qed

end
