(* ===== verification/Stats_Concurrent.thy ===== *)
theory Stats_Concurrent
  imports Stats
begin

text \<open>
  \<open>record_queue_wait\<close> of \<^verbatim>\<open>stats.hpp\<close> called by many worker threads at the same time. Each call runs
  one atomic access per step: the two \<open>fetch_add\<close>s, the load and the compare-and-swap loop for the
  minimum and for the maximum (a compare-and-swap may fail, spuriously too), and the \<open>fetch_add\<close> on
  the bucket. Once every call has returned, the counters are those of recording the samples one
  after the other.
\<close>

section \<open>Calls in flight\<close>

datatype wait_pc =
    At_Count u64
  | At_Sum u64
  | At_Min_Load u64
  | At_Min u64 u64     \<comment> \<open>sample, \<open>current_min\<close>\<close>
  | At_Max_Load u64
  | At_Max u64 u64     \<comment> \<open>sample, \<open>current_max\<close>\<close>
  | At_Bucket u64
  | Recorded

record wait_run =
  wr_stats :: Stats
  wr_calls :: "wait_pc list"
  wr_waits :: "int list"

definition wr_set :: "nat \<Rightarrow> wait_pc \<Rightarrow> (Stats \<Rightarrow> Stats) \<Rightarrow> wait_run \<Rightarrow> wait_run" where
  "wr_set i pc f r = r\<lparr>wr_stats := f (wr_stats r), wr_calls := (wr_calls r)[i := pc]\<rparr>"

definition add_bucket :: "u64 \<Rightarrow> Stats \<Rightarrow> Stats" where
  "add_bucket us s = s\<lparr>st_queue_wait_buckets := (st_queue_wait_buckets s)
     [bucket_for us := st_queue_wait_buckets s ! bucket_for us + 1]\<rparr>"

inductive wait_step :: "wait_run \<Rightarrow> wait_run \<Rightarrow> bool" where
  call: "wait_step r (r\<lparr>wr_calls := wr_calls r @ [At_Count (wait_us w)], wr_waits := wr_waits r @ [w]\<rparr>)"
| count: "i < length (wr_calls r) \<Longrightarrow> wr_calls r ! i = At_Count us \<Longrightarrow>
    wait_step r (wr_set i (At_Sum us) (\<lambda>s. s\<lparr>st_queue_wait_count := st_queue_wait_count s + 1\<rparr>) r)"
| sum: "i < length (wr_calls r) \<Longrightarrow> wr_calls r ! i = At_Sum us \<Longrightarrow>
    wait_step r (wr_set i (At_Min_Load us) (\<lambda>s. s\<lparr>st_queue_wait_sum_us := st_queue_wait_sum_us s + us\<rparr>) r)"
| min_load: "i < length (wr_calls r) \<Longrightarrow> wr_calls r ! i = At_Min_Load us \<Longrightarrow>
    wait_step r (wr_set i (At_Min us (st_queue_wait_min_us (wr_stats r))) id r)"
| min_leave: "i < length (wr_calls r) \<Longrightarrow> wr_calls r ! i = At_Min us cur \<Longrightarrow> \<not> us < cur \<Longrightarrow>
    wait_step r (wr_set i (At_Max_Load us) id r)"
| min_swap: "i < length (wr_calls r) \<Longrightarrow> wr_calls r ! i = At_Min us cur \<Longrightarrow> us < cur \<Longrightarrow>
    st_queue_wait_min_us (wr_stats r) = cur \<Longrightarrow>
    wait_step r (wr_set i (At_Max_Load us) (\<lambda>s. s\<lparr>st_queue_wait_min_us := us\<rparr>) r)"
| min_retry: "i < length (wr_calls r) \<Longrightarrow> wr_calls r ! i = At_Min us cur \<Longrightarrow> us < cur \<Longrightarrow>
    wait_step r (wr_set i (At_Min us (st_queue_wait_min_us (wr_stats r))) id r)"
| max_load: "i < length (wr_calls r) \<Longrightarrow> wr_calls r ! i = At_Max_Load us \<Longrightarrow>
    wait_step r (wr_set i (At_Max us (st_queue_wait_max_us (wr_stats r))) id r)"
| max_leave: "i < length (wr_calls r) \<Longrightarrow> wr_calls r ! i = At_Max us cur \<Longrightarrow> \<not> us > cur \<Longrightarrow>
    wait_step r (wr_set i (At_Bucket us) id r)"
| max_swap: "i < length (wr_calls r) \<Longrightarrow> wr_calls r ! i = At_Max us cur \<Longrightarrow> us > cur \<Longrightarrow>
    st_queue_wait_max_us (wr_stats r) = cur \<Longrightarrow>
    wait_step r (wr_set i (At_Bucket us) (\<lambda>s. s\<lparr>st_queue_wait_max_us := us\<rparr>) r)"
| max_retry: "i < length (wr_calls r) \<Longrightarrow> wr_calls r ! i = At_Max us cur \<Longrightarrow> us > cur \<Longrightarrow>
    wait_step r (wr_set i (At_Max us (st_queue_wait_max_us (wr_stats r))) id r)"
| bucket: "i < length (wr_calls r) \<Longrightarrow> wr_calls r ! i = At_Bucket us \<Longrightarrow>
    wait_step r (wr_set i Recorded (add_bucket us) r)"

inductive wait_reach :: "wait_run \<Rightarrow> bool" where
  start: "wait_reach \<lparr>wr_stats = stats_new, wr_calls = [], wr_waits = []\<rparr>"
| step: "wait_reach r \<Longrightarrow> wait_step r r' \<Longrightarrow> wait_reach r'"

section \<open>Ledgers\<close>

text \<open>What a call still owes to the count, to the sum and to bucket \<open>b\<close>; the sample it has yet to
  compare with the minimum, with the maximum.\<close>

fun owes_count :: "wait_pc \<Rightarrow> u64" where
  "owes_count (At_Count us) = 1"
| "owes_count _ = 0"

fun owes_sum :: "wait_pc \<Rightarrow> u64" where
  "owes_sum (At_Count us) = us"
| "owes_sum (At_Sum us) = us"
| "owes_sum _ = 0"

fun sample :: "wait_pc \<Rightarrow> u64 option" where
  "sample (At_Count us) = Some us"
| "sample (At_Sum us) = Some us"
| "sample (At_Min_Load us) = Some us"
| "sample (At_Min us cur) = Some us"
| "sample (At_Max_Load us) = Some us"
| "sample (At_Max us cur) = Some us"
| "sample (At_Bucket us) = Some us"
| "sample Recorded = None"

definition owes_bucket :: "nat \<Rightarrow> wait_pc \<Rightarrow> u64" where
  "owes_bucket b pc = (case sample pc of None \<Rightarrow> 0 | Some us \<Rightarrow> if bucket_for us = b then 1 else 0)"

fun owes_min :: "wait_pc \<Rightarrow> u64 option" where
  "owes_min (At_Max_Load us) = None"
| "owes_min (At_Max us cur) = None"
| "owes_min (At_Bucket us) = None"
| "owes_min pc = sample pc"

fun owes_max :: "wait_pc \<Rightarrow> u64 option" where
  "owes_max (At_Bucket us) = None"
| "owes_max pc = sample pc"

text \<open>A counter plus what the calls owe it.\<close>

definition ledger :: "(wait_pc \<Rightarrow> u64) \<Rightarrow> (Stats \<Rightarrow> u64) \<Rightarrow> wait_run \<Rightarrow> u64" where
  "ledger owes ctr r = ctr (wr_stats r) + sum_list (map owes (wr_calls r))"

lemma ledger_set:
  assumes "i < length (wr_calls r)" and "ctr (f (wr_stats r)) + owes pc = ctr (wr_stats r) + owes (wr_calls r ! i)"
  shows "ledger owes ctr (wr_set i pc f r) = ledger owes ctr r"
proof -
  let ?S = "sum_list (map owes (wr_calls r))" and ?S' = "sum_list (map owes ((wr_calls r)[i := pc]))"
  have "?S' + owes (wr_calls r ! i) = ?S + owes pc" by (rule sum_list_map_update [OF assms(1)])
  then have "?S' = ?S + owes pc - owes (wr_calls r ! i)" by (simp add: eq_diff_eq)
  moreover have "ctr (f (wr_stats r)) = ctr (wr_stats r) + owes (wr_calls r ! i) - owes pc"
    using assms(2) by (simp add: eq_diff_eq)
  ultimately show ?thesis by (simp add: ledger_def wr_set_def)
qed

definition ledgers_inv :: "wait_run \<Rightarrow> bool" where
  "ledgers_inv r \<longleftrightarrow>
     ledger owes_count st_queue_wait_count r = of_nat (length (wr_waits r)) \<and>
     ledger owes_sum st_queue_wait_sum_us r = sum_list (map wait_us (wr_waits r)) \<and>
     length (st_queue_wait_buckets (wr_stats r)) = 17 \<and>
     (\<forall>b < 17. ledger (owes_bucket b) (\<lambda>s. st_queue_wait_buckets s ! b) r
        = of_nat (length (filter (\<lambda>w. bucket_for (wait_us w) = b) (wr_waits r))))"

lemma wr_set_simps [simp]:
  "wr_stats (wr_set i pc f r) = f (wr_stats r)"
  "wr_calls (wr_set i pc f r) = (wr_calls r)[i := pc]"
  "wr_waits (wr_set i pc f r) = wr_waits r"
  by (simp_all add: wr_set_def)

lemma ledgers_step: "wait_step r r' \<Longrightarrow> ledgers_inv r \<Longrightarrow> ledgers_inv r'"
proof (induction rule: wait_step.induct)
  case (call r w)
  then show ?case by (auto simp: ledgers_inv_def ledger_def owes_bucket_def)
next
  case (bucket i r us)
  then show ?case using bucket_for_le [of us]
    by (auto simp: ledgers_inv_def ledger_set owes_bucket_def add_bucket_def nth_list_update)
qed (auto simp: ledgers_inv_def ledger_set owes_bucket_def)

section \<open>Extremes\<close>

lemma image_update:
  assumes "i < length xs" and "v \<in> f ` set xs"
  shows "v = f (xs ! i) \<or> v \<in> f ` set (xs[i := x])"
proof -
  from assms(2) obtain j where "j < length xs" "v = f (xs ! j)" by (auto simp: in_set_conv_nth)
  then show ?thesis
    by (cases "j = i") (auto simp: in_set_conv_nth intro!: image_eqI [of _ _ "xs[i := x] ! j"] exI [of _ j])
qed

text \<open>A sample is accounted for (\<open>covered\<close>) or some call still owes it.\<close>

definition extreme_inv :: "(u64 \<Rightarrow> bool) \<Rightarrow> (wait_pc \<Rightarrow> u64 option) \<Rightarrow> wait_run \<Rightarrow> bool" where
  "extreme_inv covered owes r \<longleftrightarrow>
     (\<forall>w \<in> set (wr_waits r). covered (wait_us w) \<or> Some (wait_us w) \<in> owes ` set (wr_calls r))"

lemma extreme_set:
  assumes "extreme_inv covered owes r" and "i < length (wr_calls r)"
    and "\<And>u. covered u \<Longrightarrow> covered' u"
    and "owes pc = owes (wr_calls r ! i) \<or> (\<forall>u. owes (wr_calls r ! i) = Some u \<longrightarrow> covered' u)"
  shows "extreme_inv covered' owes (wr_set i pc f r)"
proof -
  have "covered' u \<or> Some u \<in> owes ` set ((wr_calls r)[i := pc])"
    if "covered u \<or> Some u \<in> owes ` set (wr_calls r)" for u
  proof (cases "covered u")
    case False
    with that image_update [OF assms(2), of "Some u" owes pc]
    have "Some u = owes (wr_calls r ! i) \<or> Some u \<in> owes ` set ((wr_calls r)[i := pc])" by blast
    moreover have "owes pc \<in> owes ` set ((wr_calls r)[i := pc])" using assms(2) by (simp add: set_update_memI)
    ultimately show ?thesis using assms(4) by metis
  qed (use assms(3) in blast)
  with assms(1) show ?thesis by (simp add: extreme_inv_def)
qed

definition min_inv :: "wait_run \<Rightarrow> bool" where
  "min_inv r \<longleftrightarrow> (let m = st_queue_wait_min_us (wr_stats r) in
     extreme_inv (\<lambda>u. m \<le> u) owes_min r \<and> (m = - 1 \<or> m \<in> wait_us ` set (wr_waits r)) \<and>
     (\<forall>us cur. At_Min us cur \<in> set (wr_calls r) \<longrightarrow> m \<le> cur))"

definition max_inv :: "wait_run \<Rightarrow> bool" where
  "max_inv r \<longleftrightarrow> (let m = st_queue_wait_max_us (wr_stats r) in
     extreme_inv (\<lambda>u. u \<le> m) owes_max r \<and> (m = 0 \<or> m \<in> wait_us ` set (wr_waits r)) \<and>
     (\<forall>us cur. At_Max us cur \<in> set (wr_calls r) \<longrightarrow> cur \<le> m))"

definition samples_inv :: "wait_run \<Rightarrow> bool" where
  "samples_inv r \<longleftrightarrow> (\<forall>pc \<in> set (wr_calls r). \<forall>us. sample pc = Some us \<longrightarrow> us \<in> wait_us ` set (wr_waits r))"

lemma set_update_cases: "x \<in> set (xs[i := y]) \<Longrightarrow> x = y \<or> x \<in> set xs"
  using set_update_subset_insert [of xs i y] by blast

lemma samples_step: "wait_step r r' \<Longrightarrow> samples_inv r \<Longrightarrow> samples_inv r'"
proof (induction rule: wait_step.induct)
  case (call r w)
  then show ?case by (auto simp: samples_inv_def)
qed (force simp: samples_inv_def dest!: set_update_cases dest: nth_mem)+

lemma samples_at:
  "samples_inv r \<Longrightarrow> i < length (wr_calls r) \<Longrightarrow> sample (wr_calls r ! i) = Some us \<Longrightarrow>
   us \<in> wait_us ` set (wr_waits r)"
  unfolding samples_inv_def by (meson nth_mem)

lemma min_step: "wait_step r r' \<Longrightarrow> min_inv r \<Longrightarrow> samples_inv r \<Longrightarrow> min_inv r'"
proof (induction rule: wait_step.induct)
  case (call r w)
  then show ?case by (auto simp: min_inv_def extreme_inv_def Let_def)
next
  case (min_leave i r us cur)
  then have "st_queue_wait_min_us (wr_stats r) \<le> us"
    by (metis (no_types, lifting) min_inv_def nth_mem not_less order_trans)
  with min_leave show ?case
    by (auto simp: min_inv_def Let_def intro!: extreme_set dest!: set_update_cases)
next
  case (min_swap i r us cur)
  then have "us \<in> wait_us ` set (wr_waits r)" by (intro samples_at [of r i]) auto
  with min_swap show ?case
    by (auto simp: min_inv_def Let_def intro!: extreme_set dest!: set_update_cases)
       (meson order_trans less_imp_le)+
qed (auto simp: min_inv_def Let_def add_bucket_def intro!: extreme_set dest!: set_update_cases)

lemma max_step: "wait_step r r' \<Longrightarrow> max_inv r \<Longrightarrow> samples_inv r \<Longrightarrow> max_inv r'"
proof (induction rule: wait_step.induct)
  case (call r w)
  then show ?case by (auto simp: max_inv_def extreme_inv_def Let_def)
next
  case (max_leave i r us cur)
  then have "us \<le> st_queue_wait_max_us (wr_stats r)"
    by (metis (no_types, lifting) max_inv_def nth_mem not_less order_trans)
  with max_leave show ?case
    by (auto simp: max_inv_def Let_def intro!: extreme_set dest!: set_update_cases)
next
  case (max_swap i r us cur)
  then have "us \<in> wait_us ` set (wr_waits r)" by (intro samples_at [of r i]) auto
  moreover have "At_Max usa cura \<in> set (wr_calls r) \<Longrightarrow> cura \<le> us" for usa cura
    using max_swap(3-5) unfolding max_inv_def Let_def by (meson less_imp_le order_trans)
  ultimately show ?case using max_swap
    by (auto simp: max_inv_def Let_def intro!: extreme_set dest!: set_update_cases)
qed (auto simp: max_inv_def Let_def add_bucket_def intro!: extreme_set dest!: set_update_cases)

section \<open>No sample is lost\<close>

definition frame_inv :: "wait_run \<Rightarrow> bool" where
  "frame_inv r \<longleftrightarrow> (\<exists>c u mn mx b. wr_stats r = stats_new\<lparr>st_queue_wait_count := c,
     st_queue_wait_sum_us := u, st_queue_wait_min_us := mn, st_queue_wait_max_us := mx,
     st_queue_wait_buckets := b\<rparr>)"

lemma frame_step: "wait_step r r' \<Longrightarrow> frame_inv r \<Longrightarrow> frame_inv r'"
  by (induction rule: wait_step.induct) (auto simp: frame_inv_def add_bucket_def stats_new_def)

lemma wait_reach_inv:
  "wait_reach r \<Longrightarrow> ledgers_inv r \<and> samples_inv r \<and> min_inv r \<and> max_inv r \<and> frame_inv r"
proof (induction rule: wait_reach.induct)
  case start
  show ?case
    by (auto simp: ledgers_inv_def ledger_def samples_inv_def min_inv_def max_inv_def extreme_inv_def
        frame_inv_def stats_new_def kBucketCount_def)
next
  case (step r r')
  then show ?case using ledgers_step samples_step min_step max_step frame_step by blast
qed

lemma Min_char:
  fixes m :: u64
  assumes "finite A" and "A \<noteq> {}" and "\<And>a. a \<in> A \<Longrightarrow> m \<le> a" and "m = - 1 \<or> m \<in> A"
  shows "m = Min A"
proof -
  have "m \<in> A"
  proof (cases "m = - 1")
    case True
    from assms(2) obtain a where "a \<in> A" by blast
    with assms(3) [of a] True show ?thesis using word_order.extremum_uniqueI by blast
  qed (use assms(4) in blast)
  with assms(1,3) show ?thesis by (intro Min_eqI [symmetric]) auto
qed

lemma Max_char:
  fixes m :: u64
  assumes "finite A" and "A \<noteq> {}" and "\<And>a. a \<in> A \<Longrightarrow> a \<le> m" and "m = 0 \<or> m \<in> A"
  shows "m = Max A"
proof -
  have "m \<in> A"
  proof (cases "m = 0")
    case True
    from assms(2) obtain a where "a \<in> A" by blast
    with assms(3) [of a] True show ?thesis by simp
  qed (use assms(4) in blast)
  with assms(1,3) show ?thesis by (intro Max_eqI [symmetric]) auto
qed

lemma record_waits_frame:
  "record_waits ws = stats_new\<lparr>st_queue_wait_count := st_queue_wait_count (record_waits ws),
     st_queue_wait_sum_us := st_queue_wait_sum_us (record_waits ws),
     st_queue_wait_min_us := st_queue_wait_min_us (record_waits ws),
     st_queue_wait_max_us := st_queue_wait_max_us (record_waits ws),
     st_queue_wait_buckets := st_queue_wait_buckets (record_waits ws)\<rparr>"
proof (induction ws rule: rev_induct)
  case (snoc w ws)
  let ?s = "record_waits ws"
  have "record_queue_wait w ?s = ?s\<lparr>st_queue_wait_count := st_queue_wait_count (record_queue_wait w ?s),
     st_queue_wait_sum_us := st_queue_wait_sum_us (record_queue_wait w ?s),
     st_queue_wait_min_us := st_queue_wait_min_us (record_queue_wait w ?s),
     st_queue_wait_max_us := st_queue_wait_max_us (record_queue_wait w ?s),
     st_queue_wait_buckets := st_queue_wait_buckets (record_queue_wait w ?s)\<rparr>"
    by (simp add: record_queue_wait_def Let_def)
  then show ?case unfolding record_waits_snoc by (subst (asm) (2) snoc.IH) simp
qed simp

lemma done_owes_nothing:
  assumes "set (wr_calls r) \<subseteq> {Recorded}"
  shows "sum_list (map owes_count (wr_calls r)) = 0" and "sum_list (map owes_sum (wr_calls r)) = 0"
    and "sum_list (map (owes_bucket b) (wr_calls r)) = 0"
    and "Some u \<notin> owes_min ` set (wr_calls r)" and "Some u \<notin> owes_max ` set (wr_calls r)"
proof -
  have "wr_calls r = replicate (length (wr_calls r)) Recorded"
    using assms by (auto simp: list_eq_iff_nth_eq dest: nth_mem)
  then obtain n where "wr_calls r = replicate n Recorded" by metis
  then show "sum_list (map owes_count (wr_calls r)) = 0" "sum_list (map owes_sum (wr_calls r)) = 0"
    "sum_list (map (owes_bucket b) (wr_calls r)) = 0"
    by (simp_all add: sum_list_replicate owes_bucket_def)
  show "Some u \<notin> owes_min ` set (wr_calls r)" "Some u \<notin> owes_max ` set (wr_calls r)" using assms by auto
qed

text \<open>C27: However the worker threads' calls of \<^verbatim>\<open>record_queue_wait\<close> interleave, access by access, once
  they have all returned the statistics are exactly those of recording the same samples one after
  the other: no count, no sum, no bucket and no extreme is lost to a race.\<close>

theorem concurrent_waits_equal_sequential:
  assumes "wait_reach r" and "set (wr_calls r) \<subseteq> {Recorded}"
  shows "wr_stats r = record_waits (wr_waits r)"
proof -
  note inv = wait_reach_inv [OF assms(1)] and owe = done_owes_nothing [OF assms(2)]
  let ?s = "wr_stats r" and ?t = "record_waits (wr_waits r)"
  have "st_queue_wait_count ?s = st_queue_wait_count ?t"
    "st_queue_wait_sum_us ?s = st_queue_wait_sum_us ?t"
    using inv owe by (simp_all add: ledgers_inv_def ledger_def record_waits_sum)
  moreover have "st_queue_wait_buckets ?s = st_queue_wait_buckets ?t"
    using inv owe by (intro nth_equalityI) (simp_all add: ledgers_inv_def ledger_def record_waits_bucket)
  moreover have "st_queue_wait_min_us ?s = st_queue_wait_min_us ?t
      \<and> st_queue_wait_max_us ?s = st_queue_wait_max_us ?t"
  proof (cases "wr_waits r = []")
    case True
    with inv show ?thesis by (auto simp: min_inv_def max_inv_def Let_def stats_new_def)
  next
    case False
    have "st_queue_wait_min_us ?s = Min (wait_us ` set (wr_waits r))"
      using inv owe(4) False by (intro Min_char) (auto simp: min_inv_def Let_def extreme_inv_def)
    moreover have "st_queue_wait_max_us ?s = Max (wait_us ` set (wr_waits r))"
      using inv owe(5) False by (intro Max_char) (auto simp: max_inv_def Let_def extreme_inv_def)
    ultimately show ?thesis using record_waits_min [OF False] record_waits_max [OF False] by simp
  qed
  moreover from inv have "frame_inv r" by simp
  ultimately show ?thesis by (subst record_waits_frame) (auto simp: frame_inv_def)
qed

text \<open>One step of call \<open>i\<close>, its compare-and-swap succeeding whenever it can.\<close>

definition wait_advance :: "nat \<Rightarrow> wait_run \<Rightarrow> wait_run" where
  "wait_advance i r = (if i \<ge> length (wr_calls r) then r else case wr_calls r ! i of
     At_Count us \<Rightarrow> wr_set i (At_Sum us) (\<lambda>s. s\<lparr>st_queue_wait_count := st_queue_wait_count s + 1\<rparr>) r
   | At_Sum us \<Rightarrow> wr_set i (At_Min_Load us) (\<lambda>s. s\<lparr>st_queue_wait_sum_us := st_queue_wait_sum_us s + us\<rparr>) r
   | At_Min_Load us \<Rightarrow> wr_set i (At_Min us (st_queue_wait_min_us (wr_stats r))) id r
   | At_Min us cur \<Rightarrow>
       (if \<not> us < cur then wr_set i (At_Max_Load us) id r
        else if st_queue_wait_min_us (wr_stats r) = cur
        then wr_set i (At_Max_Load us) (\<lambda>s. s\<lparr>st_queue_wait_min_us := us\<rparr>) r
        else wr_set i (At_Min us (st_queue_wait_min_us (wr_stats r))) id r)
   | At_Max_Load us \<Rightarrow> wr_set i (At_Max us (st_queue_wait_max_us (wr_stats r))) id r
   | At_Max us cur \<Rightarrow>
       (if \<not> us > cur then wr_set i (At_Bucket us) id r
        else if st_queue_wait_max_us (wr_stats r) = cur
        then wr_set i (At_Bucket us) (\<lambda>s. s\<lparr>st_queue_wait_max_us := us\<rparr>) r
        else wr_set i (At_Max us (st_queue_wait_max_us (wr_stats r))) id r)
   | At_Bucket us \<Rightarrow> wr_set i Recorded (add_bucket us) r
   | Recorded \<Rightarrow> r)"

lemma wait_advance_reach: "wait_reach r \<Longrightarrow> wait_reach (wait_advance i r)"
  unfolding wait_advance_def
  by (auto simp: not_le split: wait_pc.splits intro: wait_reach.step wait_step.intros)

lemma wait_advances_reach: "wait_reach r \<Longrightarrow> wait_reach (fold wait_advance is r)"
  by (induction "is" arbitrary: r) (simp_all add: wait_advance_reach)

text \<open>Two calls, with samples of 5 and 3 microseconds, that read the same minimum before either of
  them writes: the second one's compare-and-swap fails and is retried.\<close>

definition two_waits :: wait_run where
  "two_waits = \<lparr>wr_stats = stats_new, wr_calls = [At_Count (wait_us 5000), At_Count (wait_us 3000)],
     wr_waits = [5000, 3000]\<rparr>"

lemma two_waits_reach: "wait_reach two_waits"
proof -
  have "wait_reach \<lparr>wr_stats = stats_new, wr_calls = [At_Count (wait_us 5000)], wr_waits = [5000]\<rparr>"
    using wait_reach.step [OF wait_reach.start wait_step.call [of _ 5000]] by simp
  from wait_reach.step [OF this wait_step.call [of _ 3000]] show ?thesis by (simp add: two_waits_def)
qed

theorem concurrent_waits_equal_sequential_witness:
  "wr_stats (fold wait_advance [0, 1, 0, 1, 0, 1, 0, 1, 1, 0, 1, 0, 1, 0, 1, 1] two_waits)
     = record_waits [5000, 3000]"
proof -
  let ?r = "fold wait_advance [0, 1, 0, 1, 0, 1, 0, 1, 1, 0, 1, 0, 1, 0, 1, 1] two_waits"
  have "wr_calls ?r = [Recorded, Recorded]" by code_simp
  then have d: "set (wr_calls ?r) \<subseteq> {Recorded}" by (simp only: list.set) blast
  have w: "wr_waits ?r = [5000, 3000]" by code_simp
  from concurrent_waits_equal_sequential [OF wait_advances_reach [OF two_waits_reach] d]
  show ?thesis unfolding w .
qed

end
