(* ===== verification/Event.thy ===== *)
theory Event
  imports Binary64
begin

text \<open>
  \<^verbatim>\<open>core/include/edgeflow/event.hpp\<close> and \<^verbatim>\<open>core/src/event.cpp\<close>: an event and its JSON line. The JSON
  library (nlohmann) is not part of the sources; it is the argument \<open>J\<close>, a record of the functions the
  code calls, an exception of the library being \<open>None\<close>. What the library documents is the predicate
  \<open>json_documented\<close>. The last section is one concrete library that satisfies it.
\<close>

section \<open>Events\<close>

record Event =
  ev_device_id :: "64 word"
  ev_timestamp :: string
  ev_temperature :: cpp_double
  ev_battery :: "32 word"
  ev_latitude :: cpp_double
  ev_longitude :: cpp_double
  ev_event_type :: string

section \<open>The JSON library\<close>

record 'j json_lib =
  json_parse :: "string \<Rightarrow> 'j option"
  json_dump :: "'j \<Rightarrow> string option"
  json_contains :: "'j \<Rightarrow> string \<Rightarrow> bool"
  json_at :: "'j \<Rightarrow> string \<Rightarrow> 'j option"
  json_get_int64 :: "'j \<Rightarrow> 64 word option"
  json_get_int :: "'j \<Rightarrow> 32 word option"
  json_get_double :: "'j \<Rightarrow> cpp_double option"
  json_get_string :: "'j \<Rightarrow> string option"
  json_null :: 'j
  json_of_int64 :: "64 word \<Rightarrow> 'j"
  json_of_int :: "32 word \<Rightarrow> 'j"
  json_of_double :: "cpp_double \<Rightarrow> 'j"
  json_of_string :: "string \<Rightarrow> 'j"
  json_assign :: "'j \<Rightarrow> string \<Rightarrow> 'j \<Rightarrow> 'j"   \<comment> \<open>\<^verbatim>\<open>j[key] = value\<close>\<close>

section \<open>Parsing and serialising\<close>

definition parse_event :: "'j json_lib \<Rightarrow> string \<Rightarrow> Event option" where
  "parse_event J line =
     (case json_parse J line of
        None \<Rightarrow> None
      | Some j \<Rightarrow>
          if \<not> (json_contains J j ''device_id'' \<and> json_contains J j ''timestamp'' \<and>
                 json_contains J j ''temperature'' \<and> json_contains J j ''battery'' \<and>
                 json_contains J j ''latitude'' \<and> json_contains J j ''longitude'' \<and>
                 json_contains J j ''event_type'')
          then None
          else Option.bind (Option.bind (json_at J j ''device_id'') (json_get_int64 J)) (\<lambda>device_id.
               Option.bind (Option.bind (json_at J j ''timestamp'') (json_get_string J)) (\<lambda>timestamp.
               Option.bind (Option.bind (json_at J j ''temperature'') (json_get_double J)) (\<lambda>temperature.
               Option.bind (Option.bind (json_at J j ''battery'') (json_get_int J)) (\<lambda>battery.
               Option.bind (Option.bind (json_at J j ''latitude'') (json_get_double J)) (\<lambda>latitude.
               Option.bind (Option.bind (json_at J j ''longitude'') (json_get_double J)) (\<lambda>longitude.
               Option.bind (Option.bind (json_at J j ''event_type'') (json_get_string J)) (\<lambda>event_type.
               if \<not> isfinite temperature \<or> \<not> isfinite latitude \<or> \<not> isfinite longitude then None
               else Some \<lparr>ev_device_id = device_id, ev_timestamp = timestamp, ev_temperature = temperature,
                 ev_battery = battery, ev_latitude = latitude, ev_longitude = longitude,
                 ev_event_type = event_type\<rparr>))))))))"

definition event_json :: "'j json_lib \<Rightarrow> Event \<Rightarrow> 'j" where
  "event_json J e =
     (let j = json_null J;
          j = json_assign J j ''device_id'' (json_of_int64 J (ev_device_id e));
          j = json_assign J j ''timestamp'' (json_of_string J (ev_timestamp e));
          j = json_assign J j ''temperature'' (json_of_double J (ev_temperature e));
          j = json_assign J j ''battery'' (json_of_int J (ev_battery e));
          j = json_assign J j ''latitude'' (json_of_double J (ev_latitude e));
          j = json_assign J j ''longitude'' (json_of_double J (ev_longitude e));
          j = json_assign J j ''event_type'' (json_of_string J (ev_event_type e))
      in j)"

text \<open>\<open>None\<close>: \<open>dump()\<close> has thrown.\<close>

definition serialize_event :: "'j json_lib \<Rightarrow> Event \<Rightarrow> string option" where
  "serialize_event J event = json_dump J (event_json J event)"

section \<open>What the library documents\<close>

text \<open>
  A number converted to a value and back is the same number, and what is read as a \<open>double\<close> is one; assignment to a key of an
  object (or of null, which becomes an object). \<open>dump()\<close> writes one line for objects whose keys and strings are UTF-8
  and whose numbers are integers or finite (\<open>printable\<close>; it throws on text that is not UTF-8), and \<open>parse()\<close> of that line gives a value that reads
  like the one written (\<open>json_reads\<close>; it need not be the same value, since a number that is not negative comes back as an unsigned one).
  The parser accepts only UTF-8, so the strings it returns are \<open>utf8\<close>; ASCII text is.
\<close>

definition json_conversions :: "'j json_lib \<Rightarrow> bool" where
  "json_conversions J \<longleftrightarrow>
     (\<forall>n. json_get_int64 J (json_of_int64 J n) = Some n) \<and>
     (\<forall>n. json_get_int J (json_of_int J n) = Some n) \<and>
     (\<forall>d. is_binary64 d \<longrightarrow> json_get_double J (json_of_double J d) = Some d) \<and>
     (\<forall>s. json_get_string J (json_of_string J s) = Some s) \<and>
     (\<forall>j d. json_get_double J j = Some d \<longrightarrow> is_binary64 d)"

definition json_scalar :: "'j json_lib \<Rightarrow> 'j \<Rightarrow> bool" where
  "json_scalar J v \<longleftrightarrow> (\<exists>n. v = json_of_int64 J n) \<or> (\<exists>n. v = json_of_int J n) \<or>
     (\<exists>d. is_binary64 d \<and> v = json_of_double J d) \<or> (\<exists>s. v = json_of_string J s)"

definition json_objects :: "('j \<Rightarrow> bool) \<Rightarrow> 'j json_lib \<Rightarrow> bool" where
  "json_objects object J \<longleftrightarrow>
     object (json_null J) \<and>
     (\<forall>j k v. object j \<longrightarrow> json_scalar J v \<longrightarrow> object (json_assign J j k v) \<and>
        (\<forall>k'. json_contains J (json_assign J j k v) k' \<longleftrightarrow> k' = k \<or> json_contains J j k') \<and>
        (\<forall>k'. json_at J (json_assign J j k v) k' = (if k' = k then Some v else json_at J j k')))"

definition json_reads :: "'j json_lib \<Rightarrow> 'j \<Rightarrow> 'j \<Rightarrow> bool" where
  "json_reads J j j' \<longleftrightarrow>
     (\<forall>k. json_contains J j' k = json_contains J j k) \<and>
     (\<forall>k n. json_at J j k = Some (json_of_int64 J n) \<longrightarrow> Option.bind (json_at J j' k) (json_get_int64 J) = Some n) \<and>
     (\<forall>k n. json_at J j k = Some (json_of_int J n) \<longrightarrow> Option.bind (json_at J j' k) (json_get_int J) = Some n) \<and>
     (\<forall>k d. is_binary64 d \<longrightarrow> json_at J j k = Some (json_of_double J d) \<longrightarrow>
        Option.bind (json_at J j' k) (json_get_double J) = Some d) \<and>
     (\<forall>k s. json_at J j k = Some (json_of_string J s) \<longrightarrow> Option.bind (json_at J j' k) (json_get_string J) = Some s)"

definition json_text :: "('j \<Rightarrow> bool) \<Rightarrow> ('j \<Rightarrow> bool) \<Rightarrow> (string \<Rightarrow> bool) \<Rightarrow> 'j json_lib \<Rightarrow> bool" where
  "json_text object printable utf8 J \<longleftrightarrow>
     printable (json_null J) \<and>
     (\<forall>j k v. object j \<longrightarrow> printable j \<longrightarrow> utf8 k \<longrightarrow> json_scalar J v \<longrightarrow> printable v \<longrightarrow> printable (json_assign J j k v)) \<and>
     (\<forall>n. printable (json_of_int64 J n)) \<and> (\<forall>n. printable (json_of_int J n)) \<and>
     (\<forall>d. is_binary64 d \<longrightarrow> isfinite d \<longrightarrow> printable (json_of_double J d)) \<and>
     (\<forall>s. utf8 s \<longrightarrow> printable (json_of_string J s)) \<and>
     (\<forall>j. printable j \<longrightarrow>
        (\<exists>s j'. json_dump J j = Some s \<and> CHR 0x0A \<notin> set s \<and> json_parse J s = Some j' \<and> json_reads J j j')) \<and>
     (\<forall>line j k v s. json_parse J line = Some j \<longrightarrow> json_at J j k = Some v \<longrightarrow>
        json_get_string J v = Some s \<longrightarrow> utf8 s) \<and>
     (\<forall>s. (\<forall>ch\<in>set s. (of_char ch :: nat) < 128) \<longrightarrow> utf8 s)"

definition json_documented :: "('j \<Rightarrow> bool) \<Rightarrow> ('j \<Rightarrow> bool) \<Rightarrow> (string \<Rightarrow> bool) \<Rightarrow> 'j json_lib \<Rightarrow> bool" where
  "json_documented object printable utf8 J \<longleftrightarrow>
     json_conversions J \<and> json_objects object J \<and> json_text object printable utf8 J"

section \<open>Facts\<close>

definition event_clean :: "(string \<Rightarrow> bool) \<Rightarrow> Event \<Rightarrow> bool" where
  "event_clean utf8 e \<longleftrightarrow> (\<forall>d\<in>{ev_temperature e, ev_latitude e, ev_longitude e}. is_binary64 d \<and> isfinite d) \<and>
     utf8 (ev_timestamp e) \<and> utf8 (ev_event_type e)"

lemma json_scalarI [simp]:
  "json_scalar J (json_of_int64 J n)" "json_scalar J (json_of_int J m)"
  "is_binary64 d \<Longrightarrow> json_scalar J (json_of_double J d)" "json_scalar J (json_of_string J s)"
  by (auto simp: json_scalar_def)

lemma json_objectsD:
  assumes "json_objects object J"
  shows "object (json_null J)" and "object j \<Longrightarrow> json_scalar J v \<Longrightarrow> object (json_assign J j k v)"
    and "object j \<Longrightarrow> json_scalar J v \<Longrightarrow>
      json_contains J (json_assign J j k v) k' \<longleftrightarrow> k' = k \<or> json_contains J j k'"
    and "object j \<Longrightarrow> json_scalar J v \<Longrightarrow>
      json_at J (json_assign J j k v) k' = (if k' = k then Some v else json_at J j k')"
  using assms unfolding json_objects_def by blast+

lemma json_textD:
  assumes "json_text object printable utf8 J"
  shows "printable (json_null J)"
    and "object j \<Longrightarrow> printable j \<Longrightarrow> utf8 k \<Longrightarrow> json_scalar J v \<Longrightarrow> printable v \<Longrightarrow> printable (json_assign J j k v)"
    and "printable (json_of_int64 J n)" and "printable (json_of_int J m)"
    and "is_binary64 d \<Longrightarrow> isfinite d \<Longrightarrow> printable (json_of_double J d)" and "utf8 s \<Longrightarrow> printable (json_of_string J s)"
    and "printable j \<Longrightarrow> \<exists>s j'. json_dump J j = Some s \<and> CHR 0x0A \<notin> set s \<and> json_parse J s = Some j' \<and> json_reads J j j'"
    and "json_parse J line = Some j \<Longrightarrow> json_at J j k = Some v \<Longrightarrow> json_get_string J v = Some s \<Longrightarrow> utf8 s"
    and "\<forall>ch\<in>set s. (of_char ch :: nat) < 128 \<Longrightarrow> utf8 s"
  using assms unfolding json_text_def by blast+

lemma json_ascii:
  "json_documented object printable utf8 J \<Longrightarrow> \<forall>ch\<in>set s. (of_char ch :: nat) < 128 \<Longrightarrow> utf8 s"
  unfolding json_documented_def using json_textD(9) by blast

lemma event_json_printable:
  assumes "json_objects object J" "json_text object printable utf8 J" "event_clean utf8 e"
  shows "printable (event_json J e)"
proof -
  have keys: "utf8 ''device_id''" "utf8 ''timestamp''" "utf8 ''temperature''" "utf8 ''battery''" "utf8 ''latitude''"
    "utf8 ''longitude''" "utf8 ''event_type''" by (rule json_textD(9) [OF assms(2)], simp)+
  note [simp] = json_objectsD(1,2) [OF assms(1)] json_textD(1-6) [OF assms(2)]
  show ?thesis using assms(3) keys by (simp add: event_json_def Let_def event_clean_def)
qed

lemma parse_event_json:
  assumes "json_objects object J" and "event_clean utf8 e"
    and "json_parse J line = Some j" "json_reads J (event_json J e) j"
  shows "parse_event J line = Some e"
proof -
  note [simp] = json_objectsD [OF assms(1)]
  have has: "json_contains J (event_json J e) k" if "k \<in> {''device_id'', ''timestamp'', ''temperature'', ''battery'',
      ''latitude'', ''longitude'', ''event_type''}" for k
    using assms(2) that by (auto simp: event_json_def Let_def event_clean_def)
  have at: "json_at J (event_json J e) ''device_id'' = Some (json_of_int64 J (ev_device_id e))"
    "json_at J (event_json J e) ''timestamp'' = Some (json_of_string J (ev_timestamp e))"
    "json_at J (event_json J e) ''temperature'' = Some (json_of_double J (ev_temperature e))"
    "json_at J (event_json J e) ''battery'' = Some (json_of_int J (ev_battery e))"
    "json_at J (event_json J e) ''latitude'' = Some (json_of_double J (ev_latitude e))"
    "json_at J (event_json J e) ''longitude'' = Some (json_of_double J (ev_longitude e))"
    "json_at J (event_json J e) ''event_type'' = Some (json_of_string J (ev_event_type e))"
    using assms(2) by (simp_all add: event_json_def Let_def event_clean_def)
  have "json_contains J j k = json_contains J (event_json J e) k" for k
    using assms(4) by (simp add: json_reads_def)
  moreover have "Option.bind (json_at J j ''device_id'') (json_get_int64 J) = Some (ev_device_id e)"
    "Option.bind (json_at J j ''timestamp'') (json_get_string J) = Some (ev_timestamp e)"
    "Option.bind (json_at J j ''temperature'') (json_get_double J) = Some (ev_temperature e)"
    "Option.bind (json_at J j ''battery'') (json_get_int J) = Some (ev_battery e)"
    "Option.bind (json_at J j ''latitude'') (json_get_double J) = Some (ev_latitude e)"
    "Option.bind (json_at J j ''longitude'') (json_get_double J) = Some (ev_longitude e)"
    "Option.bind (json_at J j ''event_type'') (json_get_string J) = Some (ev_event_type e)"
    using assms(2,4) at by (simp_all add: json_reads_def event_clean_def)
  ultimately show ?thesis using assms(2,3) has by (simp add: parse_event_def event_clean_def)
qed

lemma serialize_event_clean:
  assumes "json_documented object printable utf8 J" and "event_clean utf8 e"
  shows "\<exists>line. serialize_event J e = Some line \<and> CHR 0x0A \<notin> set line \<and> parse_event J line = Some e"
proof -
  from assms(1) have J: "json_objects object J" "json_text object printable utf8 J"
    by (simp_all add: json_documented_def)
  from json_textD(7) [OF J(2) event_json_printable [OF J assms(2)]] obtain line j where
    "json_dump J (event_json J e) = Some line" "CHR 0x0A \<notin> set line" "json_parse J line = Some j" "json_reads J (event_json J e) j"
    by blast
  with parse_event_json [OF J(1) assms(2)] show ?thesis by (auto simp: serialize_event_def)
qed

lemma parse_event_clean:
  assumes "json_documented object printable utf8 J" and "parse_event J line = Some e"
  shows "event_clean utf8 e"
proof -
  have J: "json_text object printable utf8 J" "json_conversions J" using assms(1) by (simp_all add: json_documented_def)
  have D: "json_get_double J v = Some d \<Longrightarrow> is_binary64 d" for v d using J(2) by (simp add: json_conversions_def)
  show ?thesis
    using assms(2)
    by (auto simp: parse_event_def event_clean_def bind_eq_Some_conv dest: json_textD(8) [OF J(1)] D
        split: option.splits if_splits)
qed

section \<open>A concrete library\<close>

text \<open>A library that meets the documentation: objects of scalars, written in a prefix-free code of the
  characters 0 and 1. It shows that the hypotheses can hold.\<close>

datatype bit_scalar = B_Int64 "64 word" | B_Int "32 word" | B_Double cpp_double | B_String string

datatype bit_json = B_Scalar bit_scalar | B_Object "(string \<times> bit_scalar) list"

text \<open>A number is written bit by bit, the lowest first, each bit after a 1, with a 0 at the end.\<close>

fun put_nat :: "nat \<Rightarrow> string" where
  "put_nat n = (if n = 0 then ''0'' else CHR ''1'' # (if odd n then CHR ''1'' else CHR ''0'') # put_nat (n div 2))"

declare put_nat.simps [simp del]

fun get_nat :: "string \<Rightarrow> (nat \<times> string) option" where
  "get_nat (c # b # cs) =
     (if c = CHR ''1'' then map_option (\<lambda>(n, rest). (2 * n + of_bool (b = CHR ''1''), rest)) (get_nat cs)
      else Some (0, b # cs))"
| "get_nat [c] = Some (0, [])"
| "get_nat [] = None"

definition put_list :: "('x \<Rightarrow> string) \<Rightarrow> 'x list \<Rightarrow> string" where
  "put_list put xs = put_nat (length xs) @ concat (map put xs)"

fun get_many :: "(string \<Rightarrow> ('x \<times> string) option) \<Rightarrow> nat \<Rightarrow> string \<Rightarrow> ('x list \<times> string) option" where
  "get_many get 0 cs = Some ([], cs)"
| "get_many get (Suc n) cs = Option.bind (get cs) (\<lambda>(x, cs').
     map_option (\<lambda>(xs, rest). (x # xs, rest)) (get_many get n cs'))"

definition get_list :: "(string \<Rightarrow> ('x \<times> string) option) \<Rightarrow> string \<Rightarrow> ('x list \<times> string) option" where
  "get_list get cs = Option.bind (get_nat cs) (\<lambda>(n, cs'). get_many get n cs')"

text \<open>Every field is coded as a list of numbers.\<close>

fun scalar_nats :: "bit_scalar \<Rightarrow> nat list" where
  "scalar_nats (B_Int64 w) = [0, unat w]"
| "scalar_nats (B_Int w) = [1, unat w]"
| "scalar_nats (B_Double (Finite_Double neg m e)) = [2, of_bool neg, m, of_bool (e < 0), nat \<bar>e\<bar>]"
| "scalar_nats (B_Double (Infinite_Double neg)) = [3, of_bool neg]"
| "scalar_nats (B_Double NaN_Double) = [4]"
| "scalar_nats (B_String str) = 5 # map of_char str"

definition nats_scalar :: "nat list \<Rightarrow> bit_scalar option" where
  "nats_scalar ns = (case ns of
     [] \<Rightarrow> None
   | t # r \<Rightarrow>
       if t = 5 then Some (B_String (map char_of r))
       else if t = 4 then Some (B_Double NaN_Double)
       else if r = [] then None
       else if t = 0 then Some (B_Int64 (of_nat (hd r)))
       else if t = 1 then Some (B_Int (of_nat (hd r)))
       else if t = 3 then Some (B_Double (Infinite_Double (hd r = 1)))
       else if length r < 4 then None
       else Some (B_Double (Finite_Double (hd r = 1) (r ! 1)
              (if r ! 2 = 1 then - int (r ! 3) else int (r ! 3)))))"

lemma nats_scalar_inverse: "nats_scalar (scalar_nats x) = Some x"
  by (cases x rule: scalar_nats.cases) (auto simp: nats_scalar_def map_idI comp_def)

definition put_entry :: "string \<times> bit_scalar \<Rightarrow> string" where
  "put_entry kv = put_list put_nat (map of_char (fst kv)) @ put_list put_nat (scalar_nats (snd kv))"

definition get_entry :: "string \<Rightarrow> ((string \<times> bit_scalar) \<times> string) option" where
  "get_entry cs = Option.bind (get_list get_nat cs) (\<lambda>(k, cs1).
     Option.bind (get_list get_nat cs1) (\<lambda>(v, cs2).
     map_option (\<lambda>x. ((map char_of k, x), cs2)) (nats_scalar v)))"

definition bit_dump :: "bit_json \<Rightarrow> string option" where
  "bit_dump j = (case j of
     B_Scalar x \<Rightarrow> Some (CHR ''s'' # put_list put_nat (scalar_nats x))
   | B_Object kvs \<Rightarrow> Some (CHR ''o'' # put_list put_entry kvs))"

definition bit_parse :: "string \<Rightarrow> bit_json option" where
  "bit_parse cs = (case cs of [] \<Rightarrow> None
     | c # r \<Rightarrow> if c = CHR ''s''
                then Option.bind (get_list get_nat r) (\<lambda>(ns, _). map_option B_Scalar (nats_scalar ns))
                else map_option (\<lambda>(kvs, _). B_Object kvs) (get_list get_entry r))"

lemma get_put_nat: "get_nat (put_nat n @ r) = Some (n, r)"
proof (induction n rule: put_nat.induct)
  case (1 n)
  show ?case
  proof (cases "n = 0")
    case True
    then show ?thesis by (cases r) (simp_all add: put_nat.simps [of 0])
  next
    case False
    then have "get_nat (put_nat (n div 2) @ r) = Some (n div 2, r)" by (rule 1)
    with False show ?thesis by (subst put_nat.simps) simp
  qed
qed

lemma get_put_list:
  assumes "\<And>x r. x \<in> set xs \<Longrightarrow> get (put x @ r) = Some (x, r)"
  shows "get_list get (put_list put xs @ r) = Some (xs, r)"
proof -
  have "get_many get (length xs) (concat (map put xs) @ r) = Some (xs, r)"
    using assms by (induction xs) simp_all
  then show ?thesis by (simp add: get_list_def put_list_def get_put_nat)
qed

lemma get_put_entry: "get_entry (put_entry kv @ r) = Some (kv, r)"
  by (cases kv) (simp add: get_entry_def put_entry_def get_put_list get_put_nat nats_scalar_inverse comp_def)

lemma bit_parse_dump: "bit_dump j = Some cs \<Longrightarrow> bit_parse cs = Some j"
  using get_put_list [of _ get_nat put_nat "[]"] get_put_list [of _ get_entry put_entry "[]"]
  by (cases j) (auto simp: bit_dump_def bit_parse_def get_put_nat get_put_entry nats_scalar_inverse)

definition bits :: "string set" where
  "bits = {cs. set cs \<subseteq> {CHR ''0'', CHR ''1''}}"

lemma put_bits:
  "put_nat n \<in> bits" "(\<And>x. x \<in> set xs \<Longrightarrow> put x \<in> bits) \<Longrightarrow> put_list put xs \<in> bits" "put_entry kv \<in> bits"
proof -
  show n: "put_nat n \<in> bits" for n
  proof (induction n rule: put_nat.induct)
    case (1 n)
    then show ?case by (subst put_nat.simps) (auto simp: bits_def)
  qed
  show l: "put_list put xs \<in> bits" if "\<And>x. x \<in> set xs \<Longrightarrow> put x \<in> bits" for put and xs :: "'x list"
    using that n by (fastforce simp: bits_def put_list_def)
  show "put_entry kv \<in> bits"
    using n l [of _ put_nat] by (auto simp: put_entry_def bits_def)
qed

definition bit_lib :: "bit_json json_lib" where
  "bit_lib = \<lparr>json_parse = bit_parse, json_dump = bit_dump,
     json_contains = (\<lambda>j k. case j of B_Object kvs \<Rightarrow> map_of kvs k \<noteq> None | _ \<Rightarrow> False),
     json_at = (\<lambda>j k. case j of B_Object kvs \<Rightarrow> map_option B_Scalar (map_of kvs k) | _ \<Rightarrow> None),
     json_get_int64 = (\<lambda>j. case j of B_Scalar (B_Int64 n) \<Rightarrow> Some n | _ \<Rightarrow> None),
     json_get_int = (\<lambda>j. case j of B_Scalar (B_Int n) \<Rightarrow> Some n | _ \<Rightarrow> None),
     json_get_double = (\<lambda>j. case j of B_Scalar (B_Double d) \<Rightarrow> if is_binary64 d then Some d else None | _ \<Rightarrow> None),
     json_get_string = (\<lambda>j. case j of B_Scalar (B_String str) \<Rightarrow> Some str | _ \<Rightarrow> None),
     json_null = B_Object [],
     json_of_int64 = B_Scalar \<circ> B_Int64, json_of_int = B_Scalar \<circ> B_Int,
     json_of_double = B_Scalar \<circ> B_Double, json_of_string = B_Scalar \<circ> B_String,
     json_assign = (\<lambda>j k v. case (j, v) of (B_Object kvs, B_Scalar x) \<Rightarrow> B_Object ((k, x) # kvs) | _ \<Rightarrow> j)\<rparr>"

lemma bit_lib_documented:
  "json_documented (\<lambda>j. \<exists>kvs. j = B_Object kvs) (\<lambda>_. True) (\<lambda>_. True) bit_lib"
proof -
  have "json_conversions bit_lib"
    by (auto simp: json_conversions_def bit_lib_def split: bit_json.splits bit_scalar.splits if_splits)
  moreover have "json_objects (\<lambda>j. \<exists>kvs. j = B_Object kvs) bit_lib"
    by (auto simp: json_objects_def json_scalar_def bit_lib_def split: if_splits)
  moreover have "\<exists>cs. bit_dump j = Some cs \<and> CHR 0x0A \<notin> set cs \<and> bit_parse cs = Some j" for j
    using put_bits(2) [of _ put_nat, OF put_bits(1)] put_bits(2) [of _ put_entry, OF put_bits(3)] bit_parse_dump [of j]
    by (cases j) (force simp: bit_dump_def bits_def)+
  moreover have "json_reads bit_lib j j" for j
    using calculation(1) by (simp add: json_reads_def json_conversions_def)
  ultimately show ?thesis
    by (auto simp: json_documented_def json_text_def) (simp add: bit_lib_def, blast)
qed

section \<open>Properties\<close>

text \<open>C29: An event the gateway accepted survives the way through a sink and back. If \<^verbatim>\<open>parse_event\<close>
  returns an event for a line, whatever the line looked like, then \<^verbatim>\<open>serialize_event\<close> does not throw on
  it, writes one line without a line feed inside, and \<^verbatim>\<open>parse_event\<close> reads that line back to the same
  event. The finiteness check in \<^verbatim>\<open>parse_event\<close> is what makes this hold for the three numbers.\<close>

theorem accepted_event_round_trips:
  assumes "json_documented object printable utf8 J" and "parse_event J line = Some e"
  shows "\<exists>out. serialize_event J e = Some out \<and> CHR 0x0A \<notin> set out \<and> parse_event J out = Some e"
  by (rule serialize_event_clean [OF assms(1) parse_event_clean [OF assms]])

definition sample_event :: Event where
  "sample_event = \<lparr>ev_device_id = 7, ev_timestamp = ''t'', ev_temperature = Finite_Double True (5 * 2 ^ 50) (- 51),
     ev_battery = 3, ev_latitude = Finite_Double False (2 ^ 52) (- 50), ev_longitude = Finite_Double False 0 0,
     ev_event_type = ''x''\<rparr>"

theorem accepted_event_round_trips_witness:
  "\<exists>line out. parse_event bit_lib line = Some sample_event \<and>
     serialize_event bit_lib sample_event = Some out \<and> parse_event bit_lib out = Some sample_event"
proof -
  have "event_clean (\<lambda>_. True) sample_event" by (simp add: event_clean_def sample_event_def)
  from serialize_event_clean [OF bit_lib_documented this] obtain line where
    line: "parse_event bit_lib line = Some sample_event" by blast
  from accepted_event_round_trips [OF bit_lib_documented line] line show ?thesis by blast
qed

end
