(* ===== verification/File_Sink.thy ===== *)
theory File_Sink
  imports Event
begin

text \<open>
  \<^verbatim>\<open>core/src/file_sink.cpp\<close>: batches are appended to a file, one JSON line per event. The stream is its
  text and whether it is still good; an output stream that has failed ignores what is written to it.
  Whether the file can be opened, and what it holds then, is up to the file system, an argument.
\<close>

section \<open>State and operations\<close>

record FileSink =
  fs_good :: bool
  fs_text :: string

definition fs_new :: "(string \<Rightarrow> string option) \<Rightarrow> string \<Rightarrow> FileSink result" where
  "fs_new fs path = (case fs path of
     None \<Rightarrow> Inl (Runtime_Error (''FileSink: could not open file: '' @ path))
   | Some old \<Rightarrow> Inr \<lparr>fs_good = True, fs_text = old\<rparr>)"

definition fs_put :: "string \<Rightarrow> FileSink \<Rightarrow> FileSink" where
  "fs_put str f = (if fs_good f then f\<lparr>fs_text := fs_text f @ str\<rparr> else f)"

text \<open>The result says whether the call returned (\<open>True\<close>) or an exception of \<open>serialize_event\<close> left it;
  the lines before that event are written by then.\<close>

fun fs_consume :: "'j json_lib \<Rightarrow> Event list \<Rightarrow> FileSink \<Rightarrow> bool \<times> FileSink" where
  "fs_consume J [] f = (True, f)"
| "fs_consume J (event # batch) f =
     (case serialize_event J event of
        None \<Rightarrow> (False, f)
      | Some line \<Rightarrow> fs_consume J batch (fs_put (line @ [CHR 0x0A]) f))"

section \<open>Reading the file back\<close>

text \<open>The lines of a text, each ended by a line feed.\<close>

fun text_lines :: "string \<Rightarrow> string list" where
  "text_lines [] = []"
| "text_lines (c # cs) =
     (let l = takeWhile (\<lambda>c. c \<noteq> CHR 0x0A) (c # cs)
      in l # text_lines (drop (Suc (length l)) (c # cs)))"

lemma text_lines_append:
  assumes "CHR 0x0A \<notin> set l"
  shows "text_lines (l @ CHR 0x0A # r) = l # text_lines r"
proof -
  have "takeWhile (\<lambda>c. c \<noteq> CHR 0x0A) (l @ CHR 0x0A # r) = l"
    using assms by (subst takeWhile_append2) auto
  moreover obtain c cs where c: "l @ CHR 0x0A # r = c # cs" by (cases "l @ CHR 0x0A # r") auto
  ultimately have "text_lines (c # cs) = l # text_lines (drop (Suc (length l)) (c # cs))"
    by (simp only: text_lines.simps Let_def)
  then show ?thesis by (simp flip: c)
qed

text \<open>A text all of whose lines are ended.\<close>

definition complete_lines :: "string \<Rightarrow> bool" where
  "complete_lines t \<longleftrightarrow> t = [] \<or> last t = CHR 0x0A"

lemma text_lines_complete:
  "complete_lines t \<Longrightarrow> text_lines (t @ r) = text_lines t @ text_lines r"
proof (induction "length t" arbitrary: t rule: less_induct)
  case less
  show ?case
  proof (cases "t = []")
    case False
    then have "CHR 0x0A \<in> set t" using less.prems by (metis complete_lines_def last_in_set)
    then obtain l u where t: "t = l @ CHR 0x0A # u" "CHR 0x0A \<notin> set l" by (metis split_list_first)
    with less.prems have "complete_lines u" by (auto simp: complete_lines_def split: if_splits)
    with less.hyps [of u] t show ?thesis by (simp add: text_lines_append)
  qed simp
qed

definition event_lines :: "'j json_lib \<Rightarrow> Event list \<Rightarrow> string" where
  "event_lines J batch = concat (map (\<lambda>e. the (serialize_event J e) @ [CHR 0x0A]) batch)"

lemma fs_consume_ok:
  assumes "\<And>e. e \<in> set batch \<Longrightarrow> serialize_event J e \<noteq> None" and "fs_good f"
  shows "fs_consume J batch f = (True, f\<lparr>fs_text := fs_text f @ event_lines J batch\<rparr>)"
  using assms
proof (induction batch arbitrary: f)
  case (Cons e batch)
  from Cons.prems(1) [of e] obtain line where "serialize_event J e = Some line" by auto
  with Cons show ?case by (simp add: fs_put_def event_lines_def)
qed (simp add: event_lines_def)

lemma event_lines_parse:
  assumes "json_documented object printable utf8 J" and "\<And>e. e \<in> set batch \<Longrightarrow> event_clean utf8 e"
  shows "map (parse_event J) (text_lines (event_lines J batch @ r)) = map Some batch @ map (parse_event J) (text_lines r)"
  using assms(2)
proof (induction batch)
  case (Cons e batch)
  from serialize_event_clean [OF assms(1), of e] Cons.prems obtain line where
    "serialize_event J e = Some line" "CHR 0x0A \<notin> set line" "parse_event J line = Some e" by auto
  moreover have "event_lines J (e # batch) @ r = the (serialize_event J e) @ CHR 0x0A # event_lines J batch @ r"
    by (simp add: event_lines_def)
  ultimately show ?case using Cons by (simp add: text_lines_append)
qed (simp add: event_lines_def)

lemma fs_consume_batches:
  assumes "\<And>e. e \<in> set (concat batches) \<Longrightarrow> serialize_event J e \<noteq> None" and "fs_good f"
  shows "fold (\<lambda>batch f. snd (fs_consume J batch f)) batches f
    = f\<lparr>fs_text := fs_text f @ event_lines J (concat batches)\<rparr>"
  using assms
proof (induction batches arbitrary: f)
  case (Cons batch batches)
  with fs_consume_ok [of batch J f] show ?case by (simp add: event_lines_def)
qed (simp add: event_lines_def)

section \<open>Properties\<close>

text \<open>A file sink loses nothing and mixes nothing up. When accepted events (each the result of
  \<^verbatim>\<open>parse_event\<close> on some line) are consumed, in any number of batches, the calls return without an
  exception and the file, read line by line with \<^verbatim>\<open>parse_event\<close>, yields exactly these events in order,
  after whatever complete lines it held before.\<close>

theorem file_sink_replays:
  assumes "json_documented object printable utf8 J"
    and "fs path = Some old" and "complete_lines old" and "fs_new fs path = Inr f0"
    and "\<And>e. e \<in> set (concat batches) \<Longrightarrow> \<exists>line. parse_event J line = Some e"
  shows "\<exists>f. fold (\<lambda>batch (ok, f). let (ok', f') = fs_consume J batch f in (ok \<and> ok', f')) batches (True, f0)
      = (True, f) \<and>
    map (parse_event J) (text_lines (fs_text f))
      = map (parse_event J) (text_lines old) @ map Some (concat batches)"
proof -
  have clean: "event_clean utf8 e" if "e \<in> set (concat batches)" for e
    using assms(5) [OF that] parse_event_clean [OF assms(1)] by blast
  have ser: "serialize_event J e \<noteq> None" if "e \<in> set (concat batches)" for e
    using serialize_event_clean [OF assms(1) clean [OF that]] by auto
  have "fold (\<lambda>batch (ok, f). let (ok', f') = fs_consume J batch f in (ok \<and> ok', f')) batches (True, f)
      = (True, f\<lparr>fs_text := fs_text f @ event_lines J (concat batches)\<rparr>)" if "fs_good f" for f
    using that ser
  proof (induction batches arbitrary: f)
    case (Cons batch batches)
    with fs_consume_ok [of batch J f] show ?case by (simp add: event_lines_def)
  qed (simp add: event_lines_def)
  moreover have "fs_good f0" "fs_text f0 = old" using assms(2,4) by (auto simp: fs_new_def)
  ultimately show ?thesis
    using event_lines_parse [OF assms(1), of "concat batches" "[]"] clean text_lines_complete [OF assms(3)]
    by simp
qed

theorem file_sink_replays_witness:
  "\<exists>f. fold (\<lambda>batch (ok, f). let (ok', f') = fs_consume bit_lib batch f in (ok \<and> ok', f'))
      [[sample_event], [sample_event, sample_event]] (True, \<lparr>fs_good = True, fs_text = ''''\<rparr>) = (True, f) \<and>
     map (parse_event bit_lib) (text_lines (fs_text f)) = [Some sample_event, Some sample_event, Some sample_event]"
proof -
  have "event_clean (\<lambda>_. True) sample_event" by (simp add: event_clean_def sample_event_def)
  from serialize_event_clean [OF bit_lib_documented this] have
    "\<exists>line. parse_event bit_lib line = Some sample_event" by blast
  with file_sink_replays [OF bit_lib_documented, where fs = "\<lambda>_. Some ''''" and path = "''out''" and old = "''''"
      and batches = "[[sample_event], [sample_event, sample_event]]"]
  show ?thesis by (simp add: fs_new_def complete_lines_def)
qed

end
