(* ===== verification/Connection.thy ===== *)
theory Connection
  imports Event Worker_Pool File_Sink
begin

text \<open>
  \<^verbatim>\<open>gateway/include/edgeflow/gateway/connection.hpp\<close> and \<^verbatim>\<open>server.hpp\<close>: what the completion handlers of a
  TCP connection and of the acceptor do. The asynchronous operations (Asio) are not part of the
  sources: a completion, with its error code or its data, is an input of the handler. A read
  completes with an error, or with a buffer that holds a line feed.
\<close>

section \<open>Connection\<close>

datatype conn_pc =
    Reading                        \<comment> \<open>\<open>async_read_until\<close> is pending\<close>
  | Retrying "Event TimedEvent"    \<comment> \<open>\<open>retry_timer_\<close> is pending, the event travels with it\<close>
  | Closed                         \<comment> \<open>nothing is pending; the object is released\<close>

record Connection =
  cn_buffer :: string
  cn_pc :: conn_pc

definition conn_new :: Connection where
  "conn_new = \<lparr>cn_buffer = '''', cn_pc = Reading\<rparr>"

text \<open>How \<open>push_event\<close> goes on after each result of the push, and the handler of the retry timer.\<close>

definition after_push :: "BackpressurePolicy \<Rightarrow> Event TimedEvent \<Rightarrow> PushResult \<Rightarrow> Stats \<Rightarrow> conn_pc \<times> Stats" where
  "after_push policy timed result stats =
     (if result = Accepted then (Reading, record_accepted stats)
      else if result = DroppedOldest then (Reading, record_dropped_oldest stats)
      else if policy = DropNewest then (Reading, record_dropped_newest stats)
      else (Retrying timed, stats))"

definition push_event ::
    "('q, Event TimedEvent) EventQueue \<Rightarrow> BackpressurePolicy \<Rightarrow> Event TimedEvent \<Rightarrow> 'q \<Rightarrow> Stats \<Rightarrow>
     (conn_pc \<times> 'q \<times> Stats) call" where
  "push_event Q policy timed q stats =
     map_call (\<lambda>(result, q'). let (pc, stats') = after_push policy timed result stats in (pc, q', stats'))
       (q_push Q q timed)"

definition after_retry :: "Event TimedEvent \<Rightarrow> PushResult \<Rightarrow> Stats \<Rightarrow> conn_pc \<times> Stats" where
  "after_retry timed result stats =
     (if result = RejectedBackpressure then (Retrying timed, stats)
      else if result = Accepted then (Reading, record_accepted stats)
      else (Reading, record_dropped_oldest stats))"

definition retry_push ::
    "('q, Event TimedEvent) EventQueue \<Rightarrow> Event TimedEvent \<Rightarrow> bool \<Rightarrow> 'q \<Rightarrow> Stats \<Rightarrow>
     (conn_pc \<times> 'q \<times> Stats) call" where
  "retry_push Q timed error q stats =
     (if error then Returns (Closed, q, stats)
      else map_call (\<lambda>(result, q'). let (pc, stats') = after_retry timed result stats in (pc, q', stats'))
             (q_push Q q timed))"

definition handle_line ::
    "'j json_lib \<Rightarrow> ('q, Event TimedEvent) EventQueue \<Rightarrow> BackpressurePolicy \<Rightarrow> int \<Rightarrow> string \<Rightarrow> 'q \<Rightarrow> Stats \<Rightarrow>
     (conn_pc \<times> 'q \<times> Stats) call" where
  "handle_line J Q policy now line q stats =
     (case parse_event J line of
        None \<Rightarrow> Returns (Reading, q, record_malformed stats)
      | Some event \<Rightarrow> push_event Q policy \<lparr>te_event = event, te_enqueued_at = now\<rparr> q stats)"

text \<open>\<open>std::getline\<close> on the stream buffer: the first line, and what stays in the buffer.\<close>

definition getline :: "string \<Rightarrow> string \<times> string" where
  "getline buf = (let line = takeWhile (\<lambda>c. c \<noteq> CHR 0x0A) buf in (line, drop (Suc (length line)) buf))"

text \<open>The handler of \<open>read_line\<close>: \<open>None\<close> is an error; \<open>Some bytes\<close> are the bytes that have arrived.\<close>

definition read_line ::
    "'j json_lib \<Rightarrow> ('q, Event TimedEvent) EventQueue \<Rightarrow> BackpressurePolicy \<Rightarrow> int \<Rightarrow> string option \<Rightarrow>
     Connection \<Rightarrow> 'q \<Rightarrow> Stats \<Rightarrow> (Connection \<times> 'q \<times> Stats) call" where
  "read_line J Q policy now completion conn q stats =
     (case completion of
        None \<Rightarrow> Returns (conn\<lparr>cn_pc := Closed\<rparr>, q, stats)
      | Some bytes \<Rightarrow>
          let (line, rest) = getline (cn_buffer conn @ bytes)
          in map_call (\<lambda>(pc, q', stats'). (conn\<lparr>cn_buffer := rest, cn_pc := pc\<rparr>, q', stats'))
               (handle_line J Q policy now line q stats))"

section \<open>The life of a connection\<close>

datatype conn_input = Read_Done int "string option" | Timer_Fired bool

text \<open>One handler; inputs for which nothing is pending leave the connection alone.\<close>

definition conn_step ::
    "'j json_lib \<Rightarrow> ('q, Event TimedEvent) EventQueue \<Rightarrow> BackpressurePolicy \<Rightarrow> conn_input \<Rightarrow>
     Connection \<Rightarrow> 'q \<Rightarrow> Stats \<Rightarrow> (Connection \<times> 'q \<times> Stats) call" where
  "conn_step J Q policy inp conn q stats =
     (case (inp, cn_pc conn) of
        (Read_Done now completion, Reading) \<Rightarrow> read_line J Q policy now completion conn q stats
      | (Timer_Fired error, Retrying timed) \<Rightarrow>
          map_call (\<lambda>(pc, q', stats'). (conn\<lparr>cn_pc := pc\<rparr>, q', stats')) (retry_push Q timed error q stats)
      | _ \<Rightarrow> Returns (conn, q, stats))"

section \<open>Accounting\<close>

text \<open>How many lines the statistics account for, and the one that waits for a retry.\<close>

definition counted :: "Stats \<Rightarrow> u64" where
  "counted s = st_events_accepted s + st_events_dropped_oldest s + st_events_dropped_newest s + st_events_malformed s"

fun pending :: "conn_pc \<Rightarrow> u64" where
  "pending (Retrying timed) = 1"
| "pending _ = 0"

text \<open>Lines taken from the wire by one handler, and events given up when the timer fails.\<close>

definition lines_taken :: "conn_input \<Rightarrow> Connection \<Rightarrow> u64" where
  "lines_taken inp conn = (case (inp, cn_pc conn) of (Read_Done now (Some bytes), Reading) \<Rightarrow> 1 | _ \<Rightarrow> 0)"

definition given_up :: "conn_input \<Rightarrow> Connection \<Rightarrow> u64" where
  "given_up inp conn = (case (inp, cn_pc conn) of (Timer_Fired True, Retrying timed) \<Rightarrow> 1 | _ \<Rightarrow> 0)"

lemma after_push_counts:
  "counted (snd (after_push policy timed result stats)) + pending (fst (after_push policy timed result stats)) = counted stats + 1"
  by (simp add: after_push_def counted_def stats_defs)

lemma after_retry_counts:
  "counted (snd (after_retry timed result stats)) + pending (fst (after_retry timed result stats)) = counted stats + 1"
  by (simp add: after_retry_def counted_def stats_defs)

lemma map_call_Returns: "map_call f c = Returns y \<longleftrightarrow> (\<exists>x. c = Returns x \<and> y = f x)"
  by (cases c) auto

lemma push_event_counts:
  "push_event Q policy timed q stats = Returns (pc, q', stats') \<Longrightarrow>
   counted stats' + pending pc = counted stats + 1"
  by (auto simp: push_event_def map_call_Returns split_beta Let_def after_push_counts)

lemma handle_line_counts:
  "handle_line J Q policy now line q stats = Returns (pc, q', stats') \<Longrightarrow>
   counted stats' + pending pc = counted stats + 1"
  by (auto simp: handle_line_def split: option.splits dest: push_event_counts)
     (simp add: counted_def stats_defs)

lemma conn_step_counts:
  assumes "conn_step J Q policy inp conn q stats = Returns (conn', q', stats')"
  shows "counted stats' + pending (cn_pc conn') + given_up inp conn
    = counted stats + pending (cn_pc conn) + lines_taken inp conn"
proof (cases inp)
  case (Read_Done now completion)
  then show ?thesis
    using assms
    by (auto simp: conn_step_def read_line_def lines_taken_def given_up_def map_call_Returns
        split: conn_pc.splits option.splits prod.splits dest: handle_line_counts)
next
  case (Timer_Fired error)
  then show ?thesis
    using assms
    by (cases error)
       (auto simp: conn_step_def retry_push_def lines_taken_def given_up_def map_call_Returns
        split_beta Let_def after_retry_counts split: conn_pc.splits if_splits)
qed

end
