(* ===== verification/Decimal.thy ===== *)
theory Decimal
  imports Prelude
begin

text \<open>
  Decimal numerals as the standard library reads and writes them: \<open>std::to_string\<close> on unsigned
  integers, and \<open>std::stoul\<close> (the \<open>strtoul\<close> of base 10 behind it: white space, an optional sign,
  digits) with its two exceptions and the count of consumed characters.
\<close>

section \<open>Digits\<close>

definition isdigit :: "char \<Rightarrow> bool" where
  "isdigit c \<longleftrightarrow> 48 \<le> (of_char c :: nat) \<and> (of_char c :: nat) \<le> 57"

definition isspace :: "char \<Rightarrow> bool" where
  "isspace c \<longleftrightarrow> (of_char c :: nat) = 32 \<or> 9 \<le> (of_char c :: nat) \<and> (of_char c :: nat) \<le> 13"

definition digit_value :: "char \<Rightarrow> nat" where
  "digit_value c = of_char c - 48"

definition digit_char :: "nat \<Rightarrow> char" where
  "digit_char d = char_of (48 + d)"

definition digits_value :: "string \<Rightarrow> nat" where
  "digits_value ds = foldl (\<lambda>n c. 10 * n + digit_value c) 0 ds"

fun to_string :: "nat \<Rightarrow> string" where
  "to_string n = (if n < 10 then [digit_char n] else to_string (n div 10) @ [digit_char (n mod 10)])"

declare to_string.simps [simp del]

section \<open>Reading\<close>

text \<open>\<open>stoul(s, &pos)\<close>: the value and \<open>pos\<close>. A minus sign negates modulo \<open>2 ^ 64\<close>, as \<open>strtoul\<close> does.\<close>

definition split_sign :: "string \<Rightarrow> bool \<times> string" where
  "split_sign s = (case s of [] \<Rightarrow> (False, [])
     | c # r \<Rightarrow> if c = CHR ''-'' then (True, r) else if c = CHR ''+'' then (False, r) else (False, s))"

definition stoul :: "string \<Rightarrow> (u64 \<times> nat) result" where
  "stoul s =
     (let (neg, r) = split_sign (dropWhile isspace s);
          ds = takeWhile isdigit r
      in if ds = [] then Inl (Invalid_Argument ''stoul'')
         else if digits_value ds \<ge> 2 ^ 64 then Inl (Out_Of_Range ''stoul'')
         else Inr (if neg then - of_nat (digits_value ds) else of_nat (digits_value ds),
                   length s - length r + length ds))"

section \<open>Facts\<close>

lemma digit_char_facts [simp]:
  assumes "d < 10"
  shows "isdigit (digit_char d)" and "digit_value (digit_char d) = d"
  using assms by (simp_all add: isdigit_def digit_value_def digit_char_def)

lemma digits_value_snoc [simp]: "digits_value (ds @ [c]) = 10 * digits_value ds + digit_value c"
  by (simp add: digits_value_def)

lemma to_string_digits: "\<forall>c \<in> set (to_string n). isdigit c"
proof (induction n rule: to_string.induct)
  case (1 n)
  then show ?case by (cases "n < 10") (simp_all add: to_string.simps [of n])
qed

lemma to_string_not_empty [simp]: "to_string n \<noteq> []"
  by (simp add: to_string.simps [of n])

lemma digits_value_to_string [simp]: "digits_value (to_string n) = n"
proof (induction n rule: to_string.induct)
  case (1 n)
  then show ?case
    by (cases "n < 10") (simp_all add: to_string.simps [of n] digits_value_def [of "[x]" for x])
qed

lemma to_string_inject: "to_string m = to_string n \<longleftrightarrow> m = n"
  by (metis digits_value_to_string)

lemma digit_not_special:
  assumes "isdigit c"
  shows "\<not> isspace c" and "c \<noteq> CHR ''-''" and "c \<noteq> CHR ''+''"
  using assms by (auto simp: isdigit_def isspace_def)

lemma space_not_special:
  assumes "isspace c"
  shows "\<not> isdigit c" and "c \<noteq> CHR ''-''" and "c \<noteq> CHR ''+''"
  using assms by (auto simp: isdigit_def isspace_def)

text \<open>White space, a sign and digits, read up to the end of the string.\<close>

definition numeral_parts :: "string \<Rightarrow> string \<Rightarrow> string \<Rightarrow> string \<Rightarrow> bool" where
  "numeral_parts s ws sg ds \<longleftrightarrow> s = ws @ sg @ ds \<and> (\<forall>c \<in> set ws. isspace c) \<and>
     sg \<in> {'''', ''+'', ''-''} \<and> ds \<noteq> [] \<and> (\<forall>c \<in> set ds. isdigit c)"

definition signed_value :: "string \<Rightarrow> string \<Rightarrow> u64" where
  "signed_value sg ds = (if sg = ''-'' then - of_nat (digits_value ds) else of_nat (digits_value ds))"

lemma split_sign_parts:
  assumes "split_sign r = (neg, r')"
  obtains sg where "r = sg @ r'" and "sg \<in> {'''', ''+'', ''-''}" and "neg \<longleftrightarrow> sg = ''-''"
  using assms that [of "''''"] that [of "''+''"] that [of "''-''"]
  by (cases r) (auto simp: split_sign_def split: if_splits)

lemma split_sign_digits:
  assumes "\<forall>c \<in> set ds. isdigit c" and "sg \<in> {'''', ''+'', ''-''}" and "ds \<noteq> []"
  shows "split_sign (sg @ ds) = (sg = ''-'', ds)"
  using assms digit_not_special by (cases ds) (auto simp: split_sign_def)

lemma dropWhile_space:
  assumes "\<forall>c \<in> set ws. isspace c" and "r = [] \<or> \<not> isspace (hd r)"
  shows "dropWhile isspace (ws @ r) = r"
  using assms by (induction ws) (auto simp: dropWhile_eq_Cons_conv, cases r, auto)

lemma stoul_whole_iff:
  "stoul s = Inr (w, length s) \<longleftrightarrow>
   (\<exists>ws sg ds. numeral_parts s ws sg ds \<and> digits_value ds < 2 ^ 64 \<and> w = signed_value sg ds)"
proof
  assume st: "stoul s = Inr (w, length s)"
  obtain neg r where r: "split_sign (dropWhile isspace s) = (neg, r)" by fastforce
  from split_sign_parts [OF r] obtain sg where sg: "dropWhile isspace s = sg @ r"
    "sg \<in> {'''', ''+'', ''-''}" "neg \<longleftrightarrow> sg = ''-''" by blast
  let ?ds = "takeWhile isdigit r" and ?ws = "takeWhile isspace s"
  have s: "s = ?ws @ sg @ r" using sg(1) by (metis takeWhile_dropWhile_id)
  from st r have d: "?ds \<noteq> []" "digits_value ?ds < 2 ^ 64" "w = signed_value sg ?ds"
    "length s - length r + length ?ds = length s"
    using sg(3) by (auto simp: stoul_def signed_value_def Let_def split: if_splits)
  have "length r \<le> length s" by (subst s) simp
  with d(4) have "length ?ds = length r" by linarith
  then have "?ds = r" by (metis takeWhile_eq_take take_all_iff order_refl)
  with s sg(2) d have "numeral_parts s ?ws sg r"
    unfolding numeral_parts_def by (metis set_takeWhileD)
  with d \<open>?ds = r\<close> show "\<exists>ws sg ds. numeral_parts s ws sg ds \<and> digits_value ds < 2 ^ 64 \<and> w = signed_value sg ds"
    by metis
next
  assume "\<exists>ws sg ds. numeral_parts s ws sg ds \<and> digits_value ds < 2 ^ 64 \<and> w = signed_value sg ds"
  then obtain ws sg ds where p: "s = ws @ sg @ ds" "\<forall>c \<in> set ws. isspace c" "sg \<in> {'''', ''+'', ''-''}"
    "ds \<noteq> []" "\<forall>c \<in> set ds. isdigit c" "digits_value ds < 2 ^ 64" "w = signed_value sg ds"
    by (auto simp: numeral_parts_def)
  have "\<not> isspace (hd (sg @ ds))"
    using p(3,4,5) digit_not_special(1) [of "hd ds"] by (auto simp: isspace_def)
  then have "dropWhile isspace s = sg @ ds" unfolding p(1) by (intro dropWhile_space p(2) disjI2)
  moreover have "takeWhile isdigit ds = ds" using p(5) by (simp add: takeWhile_eq_all_conv)
  moreover have "length s - length ds + length ds = length s" by (simp add: p(1))
  moreover note split_sign_digits [OF p(5,3,4)]
  moreover have "\<not> 2 ^ 64 \<le> digits_value ds" using p(6) by simp
  ultimately show "stoul s = Inr (w, length s)" using p(4,7)
    by (simp only: stoul_def signed_value_def Let_def prod.case if_False if_True simp_thms)
qed

lemma stoul_to_string:
  assumes "n < 2 ^ 64"
  shows "stoul (to_string n) = Inr (of_nat n, length (to_string n))"
  unfolding stoul_whole_iff using assms to_string_digits [of n]
  by (intro exI [of _ "[]"] exI [of _ "to_string n"]) (simp add: numeral_parts_def signed_value_def)

end
