(* ===== verification/Strtod.thy ===== *)
theory Strtod
  imports Decimal Binary64
begin

text \<open>
  \<open>std::stod\<close>: the \<open>strtod\<close> of the C locale behind it (white space, a sign, then a decimal or
  hexadecimal floating numeral, an infinity or a NaN), correctly rounded, with the count of consumed
  characters and the two exceptions. Whether a result below the normal range is reported as a range
  error is left to the implementation by the C standard; it is the argument \<open>tiny_fails\<close>.
\<close>

section \<open>Characters\<close>

definition lower :: "char \<Rightarrow> char" where
  "lower c = (let n = of_char c :: nat in if 65 \<le> n \<and> n \<le> 90 then char_of (n + 32) else c)"

definition has_prefix_nocase :: "string \<Rightarrow> string \<Rightarrow> bool" where
  "has_prefix_nocase pre s \<longleftrightarrow> map lower (take (length pre) s) = pre"

definition isxdigit :: "char \<Rightarrow> bool" where
  "isxdigit c \<longleftrightarrow> isdigit c \<or> 97 \<le> (of_char (lower c) :: nat) \<and> (of_char (lower c) :: nat) \<le> 102"

definition xdigits_value :: "string \<Rightarrow> nat" where
  "xdigits_value ds = foldl (\<lambda>n c. 16 * n + (if isdigit c then digit_value c else of_char (lower c) - 87)) 0 ds"

definition is_nchar :: "char \<Rightarrow> bool" where
  "is_nchar c \<longleftrightarrow> isdigit c \<or> 97 \<le> (of_char (lower c) :: nat) \<and> (of_char (lower c) :: nat) \<le> 122 \<or> c = CHR ''_''"

section \<open>The numeral\<close>

text \<open>Digits with at most one point among or around them: the digits, how many of them are behind the
  point, and the rest.\<close>

definition scan_mantissa :: "(char \<Rightarrow> bool) \<Rightarrow> string \<Rightarrow> (string \<times> nat \<times> string) option" where
  "scan_mantissa isd s =
     (let a = takeWhile isd s; r = dropWhile isd s;
          (b, r) = (case r of [] \<Rightarrow> ([], []) | c # t \<Rightarrow>
                      if c = CHR ''.'' then (takeWhile isd t, dropWhile isd t) else ([], r))
      in if a @ b = [] then None else Some (a @ b, length b, r))"

text \<open>An exponent part is read only when it has a digit.\<close>

definition scan_exponent :: "char \<Rightarrow> string \<Rightarrow> int \<times> string" where
  "scan_exponent mark r =
     (case r of [] \<Rightarrow> (0, [])
      | c # t \<Rightarrow>
          (let (neg, u) = split_sign t; ds = takeWhile isdigit u
           in if lower c = mark \<and> ds \<noteq> []
              then (if neg then - int (digits_value ds) else int (digits_value ds), dropWhile isdigit u)
              else (0, r)))"

datatype numeral_value = Num_Frac nat nat | Num_Inf | Num_NaN

definition scaled_frac :: "nat \<Rightarrow> nat \<Rightarrow> int \<Rightarrow> numeral_value" where
  "scaled_frac base n x = Num_Frac (n * base ^ nat x) (base ^ nat (- x))"

definition strtod_body :: "string \<Rightarrow> (numeral_value \<times> string) option" where
  "strtod_body s =
     (if has_prefix_nocase ''infinity'' s then Some (Num_Inf, drop 8 s)
      else if has_prefix_nocase ''inf'' s then Some (Num_Inf, drop 3 s)
      else if has_prefix_nocase ''nan'' s then
        (case drop 3 s of
           [] \<Rightarrow> Some (Num_NaN, [])
         | c # t \<Rightarrow> (case dropWhile is_nchar t of
              [] \<Rightarrow> Some (Num_NaN, drop 3 s)
            | d # u \<Rightarrow> Some (Num_NaN, if c = CHR ''('' \<and> d = CHR '')'' then u else drop 3 s)))
      else case (if has_prefix_nocase ''0x'' s then scan_mantissa isxdigit (drop 2 s) else None) of
             Some (ds, behind, r) \<Rightarrow>
               let (x, u) = scan_exponent CHR ''p'' r in Some (scaled_frac 2 (xdigits_value ds) (x - 4 * int behind), u)
           | None \<Rightarrow>
               (case scan_mantissa isdigit s of
                  None \<Rightarrow> None
                | Some (ds, behind, r) \<Rightarrow>
                    let (x, u) = scan_exponent CHR ''e'' r in Some (scaled_frac 10 (digits_value ds) (x - int behind), u)))"

section \<open>stod\<close>

definition below_normal :: "nat \<Rightarrow> nat \<Rightarrow> bool" where
  "below_normal p q \<longleftrightarrow> 0 < p \<and> p * 2 ^ 1022 < q"

definition stod :: "(nat \<Rightarrow> nat \<Rightarrow> bool) \<Rightarrow> string \<Rightarrow> (cpp_double \<times> nat) result" where
  "stod tiny_fails s =
     (let (neg, r) = split_sign (dropWhile isspace s)
      in case strtod_body r of
           None \<Rightarrow> Inl (Invalid_Argument ''stod'')
         | Some (v, rest) \<Rightarrow>
             (let pos = length s - length rest
              in case v of
                   Num_Inf \<Rightarrow> Inr (Infinite_Double neg, pos)
                 | Num_NaN \<Rightarrow> Inr (NaN_Double, pos)
                 | Num_Frac p q \<Rightarrow>
                     (let d = round_frac neg p q
                      in if \<not> isfinite d \<or> below_normal p q \<and> tiny_fails p q
                         then Inl (Out_Of_Range ''stod'') else Inr (d, pos))))"

section \<open>Plain digits\<close>

lemma lower_digit: "isdigit c \<Longrightarrow> lower c = c"
  by (auto simp: lower_def isdigit_def)

text \<open>A text of decimal digits is read whole, to the number it denotes.\<close>

lemma strtod_body_digits:
  assumes "ds \<noteq> []" "\<forall>c\<in>set ds. isdigit c"
  shows "strtod_body ds = Some (Num_Frac (digits_value ds) 1, [])"
proof -
  obtain c t where ds: "ds = c # t" using assms(1) by (cases ds) auto
  have c: "isdigit c" "lower c = c" using assms(2) lower_digit by (simp_all add: ds)
  have tw: "takeWhile isdigit ds = ds" "dropWhile isdigit ds = []"
    using assms(2) by (simp_all add: takeWhile_eq_all_conv)
  have not: "\<not> has_prefix_nocase ''infinity'' ds" "\<not> has_prefix_nocase ''inf'' ds" "\<not> has_prefix_nocase ''nan'' ds"
    using c by (auto simp: has_prefix_nocase_def ds isdigit_def)
  have hex: "\<not> has_prefix_nocase ''0x'' ds"
  proof
    assume "has_prefix_nocase ''0x'' ds"
    then obtain d u where t: "t = d # u" "lower d = CHR ''x''" by (cases t) (auto simp: has_prefix_nocase_def ds)
    then have "isdigit d" using assms(2) by (simp add: ds)
    with t(2) lower_digit [of d] show False by (auto simp: isdigit_def)
  qed
  have "scan_mantissa isdigit ds = Some (ds, 0, [])"
    unfolding scan_mantissa_def tw using assms(1) by simp
  then show ?thesis
    using not hex by (simp add: strtod_body_def scan_exponent_def scaled_frac_def)
qed

lemma stod_digits:
  assumes "ds \<noteq> []" "\<forall>c\<in>set ds. isdigit c" "digits_value ds < 2 ^ 53"
  shows "stod tiny_fails ds = Inr (double_of_nat (digits_value ds), length ds)"
proof -
  obtain c t where ds: "ds = c # t" using assms(1) by (cases ds) auto
  then have c: "isdigit c" using assms(2) by simp
  have "dropWhile isspace ds = ds" "split_sign ds = (False, ds)"
    using digit_not_special [OF c] by (simp_all add: ds split_sign_def)
  moreover have "\<not> below_normal (digits_value ds) 1" by (auto simp: below_normal_def)
  moreover have "isfinite (round_frac False (digits_value ds) 1)"
    using real_double_of_nat [OF assms(3)] by (simp add: double_of_nat_def)
  ultimately show ?thesis
    by (simp add: stod_def strtod_body_digits [OF assms(1,2)] double_of_nat_def)
qed

end
