(* ===== verification/Args.thy ===== *)
theory Args
  imports Strtod
begin

text \<open>
  \<^verbatim>\<open>core/include/edgeflow/args.hpp\<close>: the value of a \<^verbatim>\<open>--flag=value\<close> argument, unsigned integers,
  TCP ports and percentages.
\<close>

section \<open>Operations\<close>

definition arg_value :: "string \<Rightarrow> string result" where
  "arg_value arg =
     (if CHR ''='' \<notin> set arg then Inl (Invalid_Argument (''expected --flag=value, got: '' @ arg))
      else Inr (tl (dropWhile (\<lambda>c. c \<noteq> CHR ''='') arg)))"

definition invalid_value :: "string \<Rightarrow> string \<Rightarrow> cpp_exception" where
  "invalid_value flag_name val = Invalid_Argument (''invalid value for '' @ flag_name @ '': '' @ val)"

definition parse_positive_size :: "string \<Rightarrow> string \<Rightarrow> u64 result" where
  "parse_positive_size val flag_name =
     (if val = [] \<or> hd val = CHR ''-'' then Inl (invalid_value flag_name val)
      else case stoul val of
             Inl e \<Rightarrow> Inl (invalid_value flag_name val)
           | Inr (parsed, pos) \<Rightarrow>
               if pos \<noteq> length val then Inl (invalid_value flag_name val) else Inr parsed)"

definition parse_port :: "string \<Rightarrow> u16 result" where
  "parse_port val =
     bind_result (parse_positive_size val ''--port'') (\<lambda>raw.
       if raw = 0 \<or> raw > 65535
       then Inl (Invalid_Argument (''--port must be between 1 and 65535, got: '' @ val))
       else Inr (ucast raw))"

definition parse_percentage :: "(nat \<Rightarrow> nat \<Rightarrow> bool) \<Rightarrow> string \<Rightarrow> string \<Rightarrow> cpp_double result" where
  "parse_percentage tiny_fails val flag_name =
     (if val = [] \<or> hd val = CHR ''-'' then Inl (invalid_value flag_name val)
      else case stod tiny_fails val of
             Inl e \<Rightarrow> Inl (invalid_value flag_name val)
           | Inr (parsed, pos) \<Rightarrow>
               if pos \<noteq> length val then Inl (invalid_value flag_name val)
               else if \<not> isfinite parsed \<or> double_less parsed (double_of_nat 0) \<or> double_less (double_of_nat 100) parsed
               then Inl (Invalid_Argument (flag_name @ '' must be between 0 and 100, got: '' @ val))
               else Inr parsed)"

section \<open>Facts\<close>

lemma arg_value_flag:
  assumes "CHR ''='' \<notin> set flag"
  shows "arg_value (flag @ CHR ''='' # v) = Inr v"
proof -
  have "dropWhile (\<lambda>c. c \<noteq> CHR ''='') (flag @ CHR ''='' # v) = CHR ''='' # v"
    using assms by (induction flag) auto
  then show ?thesis by (simp add: arg_value_def)
qed

lemma parse_positive_size_iff:
  "parse_positive_size val flag_name = Inr w \<longleftrightarrow>
   (\<exists>ws sg ds. numeral_parts val ws sg ds \<and> digits_value ds < 2 ^ 64 \<and>
      \<not> (ws = [] \<and> sg = ''-'') \<and> w = signed_value sg ds)"
proof -
  have "parse_positive_size val flag_name = Inr w \<longleftrightarrow>
      val \<noteq> [] \<and> hd val \<noteq> CHR ''-'' \<and> stoul val = Inr (w, length val)"
    by (auto simp: parse_positive_size_def split: sum.splits)
  moreover have "val \<noteq> [] \<and> hd val \<noteq> CHR ''-'' \<longleftrightarrow> \<not> (ws = [] \<and> sg = ''-'')"
    if "numeral_parts val ws sg ds" for ws sg ds
  proof (cases ws)
    case Nil
    then show ?thesis
      using that digit_not_special(2) [of "hd ds"] by (auto simp: numeral_parts_def)
  next
    case (Cons c r)
    then show ?thesis using that space_not_special(2) [of c] by (auto simp: numeral_parts_def)
  qed
  ultimately show ?thesis unfolding stoul_whole_iff by blast
qed

lemma parse_positive_size_to_string [simp]:
  "n < 2 ^ 64 \<Longrightarrow> parse_positive_size (to_string n) flag_name = Inr (of_nat n)"
  unfolding parse_positive_size_iff using to_string_digits [of n]
  by (intro exI [of _ "[]"] exI [of _ "to_string n"]) (simp add: numeral_parts_def signed_value_def)

lemma parse_port_pos: "parse_port val = Inr p \<Longrightarrow> 1 \<le> unat p"
proof -
  assume "parse_port val = Inr p"
  then obtain raw :: u64 where "(if raw = 0 \<or> raw > 65535
      then Inl (Invalid_Argument (''--port must be between 1 and 65535, got: '' @ val))
      else Inr (ucast raw)) = (Inr p :: u16 result)"
    unfolding parse_port_def bind_result_Inr_iff by blast
  then have raw: "raw \<noteq> 0" "\<not> raw > 65535" "p = ucast raw" by (auto split: if_splits)
  then have "unat raw \<le> 65535" "unat raw \<noteq> 0" by (auto simp: word_less_nat_alt not_less word_unat_eq_iff)
  then have "unat p = unat raw" by (simp add: raw(3) unsigned_ucast_eq take_bit_nat_eq_self)
  with \<open>unat raw \<noteq> 0\<close> show "1 \<le> unat p" by simp
qed

lemma parse_port_to_string:
  assumes n: "1 \<le> n" "n \<le> 65535"
  shows "parse_port (to_string n) = Inr (of_nat n)"
proof -
  have "n < 2 ^ 64" using n by simp
  with n have "(of_nat n :: u64) \<noteq> 0 \<and> \<not> (of_nat n :: u64) > 65535"
    by (auto simp: word_less_nat_alt word_unat_eq_iff)
  with n show ?thesis
    by (simp add: parse_port_def word_unat_eq_iff unsigned_ucast_eq unat_of_nat take_bit_nat_eq_self)
qed

section \<open>Properties\<close>

text \<open>\<^verbatim>\<open>parse_positive_size\<close> accepts exactly the texts made of optional white space, an optional sign
  and at least one decimal digit, with a value below \<open>2 ^ 64\<close>, and nothing after them, except that a
  minus sign may not be the very first character. After white space a minus sign is accepted and the
  value is negated modulo \<open>2 ^ 64\<close>. Everything else is rejected with an exception.\<close>

theorem parse_positive_size_accepts:
  "parse_positive_size val flag_name = Inr w \<longleftrightarrow>
     (\<exists>ws sg ds. val = ws @ sg @ ds \<and> list_all isspace ws \<and> sg \<in> {'''', ''+'', ''-''} \<and>
        ds \<noteq> [] \<and> list_all isdigit ds \<and> digits_value ds < 2 ^ 64 \<and> \<not> (ws = [] \<and> sg = ''-'') \<and>
        w = (if sg = ''-'' then - of_nat (digits_value ds) else of_nat (digits_value ds)))"
  unfolding parse_positive_size_iff numeral_parts_def signed_value_def list_all_iff by blast

text \<open>A negative value behind a blank slips through: \<^verbatim>\<open>" -5"\<close> is parsed as \<open>2 ^ 64 - 5\<close>, and
  \<^verbatim>\<open>" -18446744073709551615"\<close> is a valid TCP port, 1.\<close>

theorem negative_after_blank_accepted:
  "parse_positive_size '' -5'' flag_name = Inr (- 5) \<and> unat (- 5 :: u64) = 2 ^ 64 - 5 \<and>
   parse_port '' -18446744073709551615'' = Inr 1"
proof -
  have 1: "parse_positive_size '' -5'' f = Inr (- 5)" for f
    unfolding parse_positive_size_iff
    by (intro exI [of _ "'' ''"] exI [of _ "''-''"] exI [of _ "''5''"])
       (simp add: numeral_parts_def signed_value_def isspace_def isdigit_def digits_value_def digit_value_def)
  have "parse_positive_size '' -18446744073709551615'' ''--port'' = Inr 1"
    unfolding parse_positive_size_iff
    by (intro exI [of _ "'' ''"] exI [of _ "''-''"] exI [of _ "''18446744073709551615''"])
       (simp add: numeral_parts_def signed_value_def isspace_def isdigit_def digits_value_def digit_value_def)
  then have "parse_port '' -18446744073709551615'' = Inr 1" by (simp add: parse_port_def)
  with 1 show ?thesis by simp
qed

text \<open>Every port from 1 to 65535 written in decimal is parsed to itself, and whatever text
  \<^verbatim>\<open>parse_port\<close> accepts, the result is not 0.\<close>

theorem parse_port_range:
  "(1 \<le> n \<and> n \<le> 65535 \<longrightarrow> parse_port (to_string n) = Inr (of_nat n)) \<and>
   (parse_port val = Inr p \<longrightarrow> 1 \<le> unat p)"
  using parse_port_to_string parse_port_pos by blast

theorem parse_port_range_witness:
  "parse_port (to_string 9000) = Inr 9000 \<and> 1 \<le> unat (9000 :: u16)"
  using parse_port_range [of 9000 "to_string 9000" 9000] by simp

lemma parse_percentage_Inr:
  assumes "parse_percentage tiny_fails val flag_name = Inr d"
  shows "isfinite d \<and> 0 \<le> real_of_double d \<and> real_of_double d \<le> 100"
proof -
  have "isfinite d" "\<not> double_less d (double_of_nat 0)" "\<not> double_less (double_of_nat 100) d"
    using assms by (auto simp: parse_percentage_def split: if_splits sum.splits)
  then show ?thesis
    using real_double_of_nat [of 0] real_double_of_nat [of 100] by (auto simp: double_less_real)
qed

lemma to_string_front: "hd (to_string n) \<noteq> CHR ''-''"
  using digit_not_special(2) [of "hd (to_string n)"] to_string_digits [of n] by simp

lemma parse_percentage_to_string:
  assumes "n \<le> 100"
  shows "parse_percentage tiny_fails (to_string n) flag_name = Inr (double_of_nat n)"
proof -
  have n: "n < 2 ^ 53" using assms by simp
  have "stod tiny_fails (to_string n) = Inr (double_of_nat n, length (to_string n))"
    using stod_digits [of "to_string n"] to_string_digits [of n] n by simp
  moreover have "\<not> double_less (double_of_nat n) (double_of_nat 0)" "\<not> double_less (double_of_nat 100) (double_of_nat n)"
    using real_double_of_nat [OF n] real_double_of_nat [of 0] real_double_of_nat [of 100] assms
    by (simp_all add: double_less_real)
  ultimately show ?thesis
    using real_double_of_nat [OF n] to_string_front [of n] by (simp add: parse_percentage_def)
qed

text \<open>A percentage that \<^verbatim>\<open>parse_percentage\<close> accepts is a finite number from 0 to 100; every whole
  percentage written in decimal is accepted and exact; and every rejection, also of a text that
  \<^verbatim>\<open>std::stod\<close> finds out of range, is an invalid argument.\<close>

theorem parse_percentage_range:
  "(parse_percentage tiny_fails val flag_name = Inr d \<longrightarrow>
      isfinite d \<and> 0 \<le> real_of_double d \<and> real_of_double d \<le> 100) \<and>
   (n \<le> 100 \<longrightarrow> (\<exists>d. parse_percentage tiny_fails (to_string n) flag_name = Inr d \<and> real_of_double d = real n)) \<and>
   (parse_percentage tiny_fails val flag_name = Inl e \<longrightarrow> (\<exists>msg. e = Invalid_Argument msg))"
proof (intro conjI impI)
  assume "parse_percentage tiny_fails val flag_name = Inr d"
  then show "isfinite d" "0 \<le> real_of_double d" "real_of_double d \<le> 100"
    using parse_percentage_Inr by blast+
next
  assume "n \<le> 100"
  with parse_percentage_to_string real_double_of_nat [of n] show
    "\<exists>d. parse_percentage tiny_fails (to_string n) flag_name = Inr d \<and> real_of_double d = real n" by auto
next
  assume "parse_percentage tiny_fails val flag_name = Inl e"
  then show "\<exists>msg. e = Invalid_Argument msg"
    by (auto simp: parse_percentage_def invalid_value_def split: if_splits sum.splits)
qed

theorem parse_percentage_range_witness:
  "\<exists>d. parse_percentage (\<lambda>_ _. True) (to_string 25) ''--chaos-packet-loss-percent'' = Inr d \<and>
     real_of_double d = 25 \<and> real_of_double d \<le> 100"
proof -
  obtain d where "parse_percentage (\<lambda>_ _. True) (to_string 25) ''--chaos-packet-loss-percent'' = Inr d"
    "real_of_double d = 25"
    using parse_percentage_range [of "\<lambda>_ _. True" "[]" "''--chaos-packet-loss-percent''" _ 25] by auto
  with parse_percentage_range [of "\<lambda>_ _. True" "to_string 25" "''--chaos-packet-loss-percent''" d]
  show ?thesis by auto
qed

end
