(* ===== verification/Gateway_Config.thy ===== *)
theory Gateway_Config
  imports Args Bounded_Queue
begin

text \<open>
  \<^verbatim>\<open>gateway/src/config.cpp\<close> and \<^verbatim>\<open>gateway/include/edgeflow/gateway/config.hpp\<close>: the gateway's
  configuration, its defaults, and the command line parser with its validation. A
  \<open>std::chrono::milliseconds\<close> made from a \<open>size_t\<close> converts it to a signed 64-bit count.
\<close>

section \<open>Configuration\<close>

datatype SinkKind = File | Http

definition kMaxSinkConcurrency :: u64 where
  "kMaxSinkConcurrency = 1024"

record Config =
  cf_port :: u16
  cf_workers :: u64
  cf_queue_capacity :: u64
  cf_backpressure :: BackpressurePolicy
  cf_batch_size :: u64
  cf_batch_age :: int
  cf_sink_file :: string
  cf_sink_kind :: SinkKind
  cf_sink_url :: string
  cf_sink_outbound_capacity :: u64
  cf_sink_concurrency :: u64
  cf_sink_backpressure :: BackpressurePolicy
  cf_sink_max_retries :: u64
  cf_sink_backoff_ms :: int
  cf_sink_timeout_ms :: int

definition default_config :: Config where
  "default_config = \<lparr>cf_port = 9000, cf_workers = 4, cf_queue_capacity = 1024, cf_backpressure = Block,
     cf_batch_size = 100, cf_batch_age = 200, cf_sink_file = ''edgeflow_events.ndjson'',
     cf_sink_kind = File, cf_sink_url = '''', cf_sink_outbound_capacity = 256, cf_sink_concurrency = 4,
     cf_sink_backpressure = DropOldest, cf_sink_max_retries = 3, cf_sink_backoff_ms = 100,
     cf_sink_timeout_ms = 5000\<rparr>"

section \<open>Parsing\<close>

definition parse_policy :: "string \<Rightarrow> BackpressurePolicy result" where
  "parse_policy val =
     (if val = ''block'' then Inr Block
      else if val = ''drop-oldest'' then Inr DropOldest
      else if val = ''drop-newest'' then Inr DropNewest
      else Inl (Invalid_Argument (''unknown --backpressure value: '' @ val)))"

definition parse_sink_kind :: "string \<Rightarrow> SinkKind result" where
  "parse_sink_kind val =
     (if val = ''file'' then Inr File
      else if val = ''http'' then Inr Http
      else Inl (Invalid_Argument (''--sink must be file or http, got: '' @ val)))"

definition milliseconds :: "u64 \<Rightarrow> int" where
  "milliseconds n = sint n"

definition starts_with :: "string \<Rightarrow> string \<Rightarrow> bool" where
  "starts_with arg prefix \<longleftrightarrow> take (length prefix) arg = prefix"

text \<open>\<open>with_value arg parse upd config\<close>: parse the value of the argument and store it.\<close>

definition with_value :: "string \<Rightarrow> (string \<Rightarrow> 'v result) \<Rightarrow> ('v \<Rightarrow> 'c \<Rightarrow> 'c) \<Rightarrow> 'c \<Rightarrow> 'c result" where
  "with_value arg parse upd config =
     bind_result (arg_value arg) (\<lambda>val. bind_result (parse val) (\<lambda>v. Inr (upd v config)))"

abbreviation size_flag :: "string \<Rightarrow> string \<Rightarrow> u64 result" where
  "size_flag flag \<equiv> (\<lambda>val. parse_positive_size val flag)"

definition apply_arg :: "string \<Rightarrow> Config \<Rightarrow> Config result" where
  "apply_arg arg config =
     (if starts_with arg ''--port='' then with_value arg parse_port (\<lambda>v. cf_port_update (\<lambda>_. v)) config
      else if starts_with arg ''--workers='' then
        with_value arg (size_flag ''--workers'') (\<lambda>v. cf_workers_update (\<lambda>_. v)) config
      else if starts_with arg ''--queue-capacity='' then
        with_value arg (size_flag ''--queue-capacity'') (\<lambda>v. cf_queue_capacity_update (\<lambda>_. v)) config
      else if starts_with arg ''--backpressure='' then
        with_value arg parse_policy (\<lambda>v. cf_backpressure_update (\<lambda>_. v)) config
      else if starts_with arg ''--batch-size='' then
        with_value arg (size_flag ''--batch-size'') (\<lambda>v. cf_batch_size_update (\<lambda>_. v)) config
      else if starts_with arg ''--batch-age-ms='' then
        with_value arg (size_flag ''--batch-age-ms'') (\<lambda>v. cf_batch_age_update (\<lambda>_. milliseconds v)) config
      else if starts_with arg ''--sink-file='' then
        with_value arg Inr (\<lambda>v. cf_sink_file_update (\<lambda>_. v)) config
      else if starts_with arg ''--sink='' then
        with_value arg parse_sink_kind (\<lambda>v. cf_sink_kind_update (\<lambda>_. v)) config
      else if starts_with arg ''--sink-url='' then
        with_value arg Inr (\<lambda>v. cf_sink_url_update (\<lambda>_. v)) config
      else if starts_with arg ''--sink-outbound-capacity='' then
        with_value arg (size_flag ''--sink-outbound-capacity'')
          (\<lambda>v. cf_sink_outbound_capacity_update (\<lambda>_. v)) config
      else if starts_with arg ''--sink-concurrency='' then
        with_value arg (size_flag ''--sink-concurrency'') (\<lambda>v. cf_sink_concurrency_update (\<lambda>_. v)) config
      else if starts_with arg ''--sink-backpressure='' then
        with_value arg parse_policy (\<lambda>v. cf_sink_backpressure_update (\<lambda>_. v)) config
      else if starts_with arg ''--sink-max-retries='' then
        with_value arg (size_flag ''--sink-max-retries'') (\<lambda>v. cf_sink_max_retries_update (\<lambda>_. v)) config
      else if starts_with arg ''--sink-backoff-ms='' then
        with_value arg (size_flag ''--sink-backoff-ms'') (\<lambda>v. cf_sink_backoff_ms_update (\<lambda>_. milliseconds v)) config
      else if starts_with arg ''--sink-timeout-ms='' then
        with_value arg (size_flag ''--sink-timeout-ms'') (\<lambda>v. cf_sink_timeout_ms_update (\<lambda>_. milliseconds v)) config
      else Inl (Invalid_Argument (''unknown argument: '' @ arg)))"

fun apply_args :: "string list \<Rightarrow> Config \<Rightarrow> Config result" where
  "apply_args [] config = Inr config"
| "apply_args (arg # argv) config = bind_result (apply_arg arg config) (apply_args argv)"

definition validate_config :: "Config \<Rightarrow> Config result" where
  "validate_config config =
     (if cf_workers config = 0 then Inl (Invalid_Argument ''--workers must be at least 1'')
      else if cf_queue_capacity config = 0 then Inl (Invalid_Argument ''--queue-capacity must be at least 1'')
      else if cf_sink_kind config = Http \<and> cf_sink_url config = '''' then
        Inl (Invalid_Argument ''--sink=http requires --sink-url'')
      else if cf_sink_outbound_capacity config = 0 then
        Inl (Invalid_Argument ''--sink-outbound-capacity must be at least 1'')
      else if cf_sink_concurrency config = 0 then
        Inl (Invalid_Argument ''--sink-concurrency must be at least 1'')
      else if cf_sink_concurrency config > kMaxSinkConcurrency then
        Inl (Invalid_Argument (''--sink-concurrency must be at most '' @ to_string (unat kMaxSinkConcurrency)))
      else Inr config)"

text \<open>\<open>argv\<close> without the program name.\<close>

definition parse_args :: "string list \<Rightarrow> Config result" where
  "parse_args argv = bind_result (apply_args argv default_config) validate_config"

section \<open>What a parsed configuration guarantees\<close>

definition config_ok :: "Config \<Rightarrow> bool" where
  "config_ok c \<longleftrightarrow> 1 \<le> unat (cf_port c) \<and> 1 \<le> unat (cf_workers c) \<and> 1 \<le> unat (cf_queue_capacity c) \<and>
     1 \<le> unat (cf_sink_outbound_capacity c) \<and> 1 \<le> unat (cf_sink_concurrency c) \<and>
     unat (cf_sink_concurrency c) \<le> 1024 \<and> (cf_sink_kind c = Http \<longrightarrow> cf_sink_url c \<noteq> '''')"

lemma with_value_Inr:
  "with_value arg parse upd c = Inr c' \<Longrightarrow> \<exists>val v. parse val = Inr v \<and> c' = upd v c"
  by (auto simp: with_value_def bind_result_Inr_iff)

lemma apply_arg_port:
  assumes "apply_arg arg c = Inr c'" and "1 \<le> unat (cf_port c)"
  shows "1 \<le> unat (cf_port c')"
  using assms unfolding apply_arg_def
  by (auto dest!: with_value_Inr dest: parse_port_pos split: if_splits)

lemma apply_args_port:
  "apply_args argv c = Inr c' \<Longrightarrow> 1 \<le> unat (cf_port c) \<Longrightarrow> 1 \<le> unat (cf_port c')"
proof (induction argv arbitrary: c)
  case (Cons arg argv)
  then obtain c1 where "apply_arg arg c = Inr c1" "apply_args argv c1 = Inr c'"
    by (auto simp: bind_result_Inr_iff)
  with Cons.IH [of c1] apply_arg_port [of arg c c1] Cons.prems(2) show ?case by simp
qed simp

lemma validate_config_Inr:
  assumes "validate_config c = Inr c'"
  shows "c' = c" and "cf_workers c \<noteq> 0" and "cf_queue_capacity c \<noteq> 0"
    and "cf_sink_outbound_capacity c \<noteq> 0" and "cf_sink_concurrency c \<noteq> 0"
    and "cf_sink_concurrency c \<le> kMaxSinkConcurrency" and "cf_sink_kind c = Http \<Longrightarrow> cf_sink_url c \<noteq> ''''"
  using assms by (auto simp: validate_config_def not_less split: if_splits)

lemma parse_args_ok: "parse_args argv = Inr c \<Longrightarrow> config_ok c"
proof -
  assume "parse_args argv = Inr c"
  then obtain c1 where c1: "apply_args argv default_config = Inr c1" "validate_config c1 = Inr c"
    by (auto simp: parse_args_def bind_result_Inr_iff)
  have "1 \<le> unat (cf_port c1)" using apply_args_port [OF c1(1)] by (simp add: default_config_def)
  with validate_config_Inr [OF c1(2)] show ?thesis
    by (auto simp: config_ok_def kMaxSinkConcurrency_def word_le_nat_alt Suc_le_eq unat_gt_0)
qed

section \<open>Writing a configuration\<close>

fun policy_name :: "BackpressurePolicy \<Rightarrow> string" where
  "policy_name Block = ''block''"
| "policy_name DropOldest = ''drop-oldest''"
| "policy_name DropNewest = ''drop-newest''"

fun sink_name :: "SinkKind \<Rightarrow> string" where
  "sink_name File = ''file''"
| "sink_name Http = ''http''"

text \<open>The command line that asks for a configuration, one flag for each field.\<close>

definition config_argv :: "Config \<Rightarrow> string list" where
  "config_argv c =
     [''--port='' @ to_string (unat (cf_port c)),
      ''--workers='' @ to_string (unat (cf_workers c)),
      ''--queue-capacity='' @ to_string (unat (cf_queue_capacity c)),
      ''--backpressure='' @ policy_name (cf_backpressure c),
      ''--batch-size='' @ to_string (unat (cf_batch_size c)),
      ''--batch-age-ms='' @ to_string (nat (cf_batch_age c)),
      ''--sink-file='' @ cf_sink_file c,
      ''--sink='' @ sink_name (cf_sink_kind c),
      ''--sink-url='' @ cf_sink_url c,
      ''--sink-outbound-capacity='' @ to_string (unat (cf_sink_outbound_capacity c)),
      ''--sink-concurrency='' @ to_string (unat (cf_sink_concurrency c)),
      ''--sink-backpressure='' @ policy_name (cf_sink_backpressure c),
      ''--sink-max-retries='' @ to_string (unat (cf_sink_max_retries c)),
      ''--sink-backoff-ms='' @ to_string (nat (cf_sink_backoff_ms c)),
      ''--sink-timeout-ms='' @ to_string (nat (cf_sink_timeout_ms c))]"

definition ms_ok :: "int \<Rightarrow> bool" where
  "ms_ok t \<longleftrightarrow> 0 \<le> t \<and> t < 2 ^ 63"

lemma parse_policy_name [simp]: "parse_policy (policy_name p) = Inr p"
  by (cases p) (simp_all add: parse_policy_def)

lemma parse_sink_name [simp]: "parse_sink_kind (sink_name k) = Inr k"
  by (cases k) (simp_all add: parse_sink_kind_def)

lemma parse_size_word [simp]:
  fixes w :: u64
  shows "parse_positive_size (to_string (unat w)) flag = Inr w"
  using unat_less_u64 [of w] by simp

lemma parse_port_word:
  fixes p :: u16
  assumes "1 \<le> unat p"
  shows "parse_port (to_string (unat p)) = Inr p"
proof -
  have "unat p < 2 ^ 16" using unsigned_less [of p] by simp
  with parse_port_to_string [OF assms] show ?thesis by simp
qed

lemma parse_ms:
  assumes "ms_ok t"
  shows "parse_positive_size (to_string (nat t)) flag = Inr (of_nat (nat t))"
    and "milliseconds (of_nat (nat t)) = t"
proof -
  have "nat t < 2 ^ 63" using assms by (simp add: ms_ok_def nat_less_iff)
  then show "parse_positive_size (to_string (nat t)) flag = Inr (of_nat (nat t))" by simp
  show "milliseconds (of_nat (nat t)) = t"
    using sint_of_nat_u64 [OF \<open>nat t < 2 ^ 63\<close>] assms by (simp add: milliseconds_def ms_ok_def)
qed

text \<open>Each flag reaches its own branch.\<close>

lemma apply_arg_flags:
  "apply_arg (''--port='' @ v) c = bind_result (parse_port v) (\<lambda>v. Inr (c\<lparr>cf_port := v\<rparr>))"
  "apply_arg (''--workers='' @ v) c =
     bind_result (parse_positive_size v ''--workers'') (\<lambda>v. Inr (c\<lparr>cf_workers := v\<rparr>))"
  "apply_arg (''--queue-capacity='' @ v) c =
     bind_result (parse_positive_size v ''--queue-capacity'') (\<lambda>v. Inr (c\<lparr>cf_queue_capacity := v\<rparr>))"
  "apply_arg (''--backpressure='' @ v) c =
     bind_result (parse_policy v) (\<lambda>v. Inr (c\<lparr>cf_backpressure := v\<rparr>))"
  "apply_arg (''--batch-size='' @ v) c =
     bind_result (parse_positive_size v ''--batch-size'') (\<lambda>v. Inr (c\<lparr>cf_batch_size := v\<rparr>))"
  "apply_arg (''--batch-age-ms='' @ v) c =
     bind_result (parse_positive_size v ''--batch-age-ms'') (\<lambda>v. Inr (c\<lparr>cf_batch_age := milliseconds v\<rparr>))"
  "apply_arg (''--sink-file='' @ v) c = bind_result (Inr v) (\<lambda>v. Inr (c\<lparr>cf_sink_file := v\<rparr>))"
  "apply_arg (''--sink='' @ v) c = bind_result (parse_sink_kind v) (\<lambda>v. Inr (c\<lparr>cf_sink_kind := v\<rparr>))"
  "apply_arg (''--sink-url='' @ v) c = bind_result (Inr v) (\<lambda>v. Inr (c\<lparr>cf_sink_url := v\<rparr>))"
  "apply_arg (''--sink-outbound-capacity='' @ v) c =
     bind_result (parse_positive_size v ''--sink-outbound-capacity'') (\<lambda>v. Inr (c\<lparr>cf_sink_outbound_capacity := v\<rparr>))"
  "apply_arg (''--sink-concurrency='' @ v) c =
     bind_result (parse_positive_size v ''--sink-concurrency'') (\<lambda>v. Inr (c\<lparr>cf_sink_concurrency := v\<rparr>))"
  "apply_arg (''--sink-backpressure='' @ v) c =
     bind_result (parse_policy v) (\<lambda>v. Inr (c\<lparr>cf_sink_backpressure := v\<rparr>))"
  "apply_arg (''--sink-max-retries='' @ v) c =
     bind_result (parse_positive_size v ''--sink-max-retries'') (\<lambda>v. Inr (c\<lparr>cf_sink_max_retries := v\<rparr>))"
  "apply_arg (''--sink-backoff-ms='' @ v) c =
     bind_result (parse_positive_size v ''--sink-backoff-ms'') (\<lambda>v. Inr (c\<lparr>cf_sink_backoff_ms := milliseconds v\<rparr>))"
  "apply_arg (''--sink-timeout-ms='' @ v) c =
     bind_result (parse_positive_size v ''--sink-timeout-ms'') (\<lambda>v. Inr (c\<lparr>cf_sink_timeout_ms := milliseconds v\<rparr>))"
  by (simp_all add: apply_arg_def starts_with_def with_value_def arg_value_def)

section \<open>Properties\<close>

text \<open>A configuration that \<^verbatim>\<open>parse_args\<close> returns can be run: the port, the number of workers, the
  capacities and the number of sink threads are at least 1, there are at most 1024 sink threads, an
  HTTP sink has a URL, and the constructors of the event queue and of the outbound queue accept their
  capacities.\<close>

theorem parse_args_valid:
  assumes "parse_args argv = Inr c"
  shows "config_ok c \<and> (\<exists>q. bq_new (unat (cf_queue_capacity c)) (cf_backpressure c) = Inr q) \<and>
    (\<exists>q. bq_new (unat (cf_sink_outbound_capacity c)) (cf_sink_backpressure c) = Inr q)"
  using parse_args_ok [OF assms] by (simp add: config_ok_def bq_new_def)

theorem parse_args_valid_witness:
  "config_ok (default_config\<lparr>cf_workers := 8\<rparr>) \<and>
   parse_args [''--workers='' @ to_string 8] = Inr (default_config\<lparr>cf_workers := 8\<rparr>)"
proof -
  have "apply_arg (''--workers='' @ to_string 8) default_config = Inr (default_config\<lparr>cf_workers := 8\<rparr>)"
    unfolding apply_arg_flags by simp
  then have "parse_args [''--workers='' @ to_string 8] = Inr (default_config\<lparr>cf_workers := 8\<rparr>)"
    unfolding parse_args_def apply_args.simps
    by (simp add: default_config_def validate_config_def kMaxSinkConcurrency_def del: append.simps)
  with parse_args_valid [OF this] show ?thesis by blast
qed

text \<open>C31: The command line can express every configuration: for any configuration with valid bounds
  and times that fit a signed 64-bit count, parsing the flags that spell out its fields gives back
  that configuration, whatever the file name and the URL contain. Flags whose names begin alike
  (\<^verbatim>\<open>--sink=\<close>, \<^verbatim>\<open>--sink-file=\<close>, \<^verbatim>\<open>--sink-url=\<close>) are told apart.\<close>

theorem config_round_trip:
  assumes "config_ok c" and "ms_ok (cf_batch_age c)" and "ms_ok (cf_sink_backoff_ms c)"
    and "ms_ok (cf_sink_timeout_ms c)"
  shows "parse_args (config_argv c) = Inr c"
proof -
  note ms = parse_ms [OF assms(2)] parse_ms [OF assms(3)] parse_ms [OF assms(4)]
  have port: "parse_port (to_string (unat (cf_port c))) = Inr (cf_port c)"
    using assms(1) by (intro parse_port_word) (simp add: config_ok_def)
  have "apply_args (config_argv c) default_config = Inr c"
    unfolding config_argv_def apply_args.simps apply_arg_flags
    by (simp add: port ms default_config_def)
  moreover have "validate_config c = Inr c"
    using assms(1)
    by (auto simp: config_ok_def validate_config_def kMaxSinkConcurrency_def word_less_nat_alt not_less)
  ultimately show ?thesis by (simp add: parse_args_def)
qed

theorem config_round_trip_witness:
  "parse_args (config_argv (default_config\<lparr>cf_sink_kind := Http, cf_sink_url := ''http://a=b/''\<rparr>))
     = Inr (default_config\<lparr>cf_sink_kind := Http, cf_sink_url := ''http://a=b/''\<rparr>)"
  by (rule config_round_trip) (simp_all add: config_ok_def ms_ok_def default_config_def)

end
