(* ===== verification/Gateway.thy ===== *)
theory Gateway
  imports Connection Bounded_Queue Lock_Free_Queue Gateway_Config
begin

text \<open>
  \<^verbatim>\<open>gateway/src/main.cpp\<close> and \<^verbatim>\<open>server.hpp\<close>: the running gateway. The reactor thread runs the handlers of
  the acceptor and of the connections, one at a time; the workers, the flush thread and the reactor
  interleave. A signal ends the reactor; then \<open>pool.stop()\<close> shuts the queue down and joins the workers,
  and \<open>batcher.flush()\<close> hands over the last batch. The theorems are proved once for any queue that
  keeps the contract and then stated for the mutex queue and for the lock-free queue.
\<close>

section \<open>State\<close>

datatype acceptor_pc = Accepting | Backing_Off | Aborted

record ('q, 's) gateway =
  gw_pipe :: "('q, Event, 's) pipeline"
  gw_conns :: "Connection list"
  gw_acceptor :: acceptor_pc
  gw_running :: bool
  gw_lines :: u64       \<comment> \<open>history: lines read from all connections\<close>
  gw_given_up :: u64    \<comment> \<open>history: events whose retry timer failed\<close>

text \<open>The event a handler pushes, if any.\<close>

definition conn_pushes :: "'j json_lib \<Rightarrow> conn_input \<Rightarrow> Connection \<Rightarrow> Event TimedEvent option" where
  "conn_pushes J inp conn =
     (case (inp, cn_pc conn) of
        (Read_Done now (Some bytes), Reading) \<Rightarrow>
          map_option (\<lambda>event. \<lparr>te_event = event, te_enqueued_at = now\<rparr>)
            (parse_event J (fst (getline (cn_buffer conn @ bytes))))
      | (Timer_Fired False, Retrying timed) \<Rightarrow> Some timed
      | _ \<Rightarrow> None)"

text \<open>The history variables of the pipeline after that push.\<close>

definition log_push :: "('q, 'e TimedEvent) EventQueue \<Rightarrow> 'e TimedEvent option \<Rightarrow> ('q, 'e, 's) pipeline \<Rightarrow> ('q, 'e, 's) pipeline" where
  "log_push Q pushed s =
     (case pushed of
        None \<Rightarrow> s
      | Some timed \<Rightarrow>
          (case q_push Q (pl_queue s) timed of
             Returns (r, q') \<Rightarrow> s\<lparr>pl_queue := q', pl_pushes := pl_pushes s + 1,
               pl_stored := (if r = RejectedBackpressure then pl_stored s else pl_stored s @ [timed]),
               pl_discards := (if r = DroppedOldest then pl_discards s + 1 else pl_discards s)\<rparr>
           | _ \<Rightarrow> s))"

section \<open>Steps\<close>

text \<open>The completion handler of \<open>async_accept\<close> and that of the back-off timer.\<close>

datatype accept_completion = Accept_Ok | Accept_Aborted | Accept_Failed

definition on_accept :: "accept_completion \<Rightarrow> ('q, 's) gateway \<Rightarrow> ('q, 's) gateway" where
  "on_accept completion g =
     (case completion of
        Accept_Aborted \<Rightarrow> g\<lparr>gw_acceptor := Aborted\<rparr>
      | Accept_Failed \<Rightarrow> g\<lparr>gw_acceptor := Backing_Off\<rparr>
      | Accept_Ok \<Rightarrow> g\<lparr>gw_conns := gw_conns g @ [conn_new], gw_acceptor := Accepting\<rparr>)"

definition on_retry_timer :: "bool \<Rightarrow> ('q, 's) gateway \<Rightarrow> ('q, 's) gateway" where
  "on_retry_timer timer_error g = g\<lparr>gw_acceptor := if timer_error then Aborted else Accepting\<rparr>"

text \<open>One handler run by \<open>io_context.run()\<close>.\<close>

inductive reactor_step ::
    "'j json_lib \<Rightarrow> ('q, Event TimedEvent) EventQueue \<Rightarrow> BackpressurePolicy \<Rightarrow>
     ('q, 's) gateway \<Rightarrow> ('q, 's) gateway \<Rightarrow> bool" for J Q policy where
  accepted: "gw_acceptor g = Accepting \<Longrightarrow> reactor_step J Q policy g (on_accept completion g)"
| retried: "gw_acceptor g = Backing_Off \<Longrightarrow> reactor_step J Q policy g (on_retry_timer timer_error g)"
| connection: "i < length (gw_conns g) \<Longrightarrow>
    conn_step J Q policy inp (gw_conns g ! i) (pl_queue (gw_pipe g)) (pl_stats (gw_pipe g))
      = Returns (conn', q', stats') \<Longrightarrow>
    reactor_step J Q policy g
      (g\<lparr>gw_pipe := (log_push Q (conn_pushes J inp (gw_conns g ! i)) (gw_pipe g))\<lparr>pl_queue := q', pl_stats := stats'\<rparr>,
         gw_conns := (gw_conns g)[i := conn'],
         gw_lines := gw_lines g + lines_taken inp (gw_conns g ! i),
         gw_given_up := gw_given_up g + given_up inp (gw_conns g ! i)\<rparr>)"

inductive gateway_step ::
    "'j json_lib \<Rightarrow> ('q, Event TimedEvent) EventQueue \<Rightarrow> BackpressurePolicy \<Rightarrow> (Event list \<Rightarrow> 's \<Rightarrow> 's) \<Rightarrow>
     ('q, 's) gateway \<Rightarrow> ('q, 's) gateway \<Rightarrow> bool" for J Q policy on_flush where
  reactor: "gw_running g \<Longrightarrow> reactor_step J Q policy g g' \<Longrightarrow> gateway_step J Q policy on_flush g g'"
| worker: "worker_step Q on_flush (gw_pipe g) pipe' \<Longrightarrow> gateway_step J Q policy on_flush g (g\<lparr>gw_pipe := pipe'\<rparr>)"
| flush: "batcher_flush on_flush (pl_batcher (gw_pipe g)) (pl_sink (gw_pipe g)) = (b', k') \<Longrightarrow>
    gateway_step J Q policy on_flush g (g\<lparr>gw_pipe := (gw_pipe g)\<lparr>pl_batcher := b', pl_sink := k'\<rparr>\<rparr>)"
| signal: "gw_running g \<Longrightarrow> gateway_step J Q policy on_flush g (g\<lparr>gw_running := False\<rparr>)"
| stop: "\<not> gw_running g \<Longrightarrow> \<not> pl_stopped (gw_pipe g) \<Longrightarrow>
    gateway_step J Q policy on_flush g
      (g\<lparr>gw_pipe := (gw_pipe g)\<lparr>pl_stopped := True, pl_queue := q_shutdown Q (pl_queue (gw_pipe g))\<rparr>\<rparr>)"

definition gateway_start :: "Config \<Rightarrow> 'q \<Rightarrow> 's \<Rightarrow> int \<Rightarrow> ('q, 's) gateway" where
  "gateway_start config q k now =
     \<lparr>gw_pipe = pipeline_start q (batcher_new (unat (cf_batch_size config)) (cf_batch_age config) now) k stats_new
        (unat (cf_workers config)),
      gw_conns = [], gw_acceptor = Accepting, gw_running = True, gw_lines = 0, gw_given_up = 0\<rparr>"

inductive gateway_reach ::
    "'j json_lib \<Rightarrow> ('q, Event TimedEvent) EventQueue \<Rightarrow> BackpressurePolicy \<Rightarrow> (Event list \<Rightarrow> 's \<Rightarrow> 's) \<Rightarrow>
     ('q, 's) gateway \<Rightarrow> ('q, 's) gateway \<Rightarrow> bool" for J Q policy on_flush g0 where
  start: "gateway_reach J Q policy on_flush g0 g0"
| step: "gateway_reach J Q policy on_flush g0 g \<Longrightarrow> gateway_step J Q policy on_flush g g' \<Longrightarrow>
    gateway_reach J Q policy on_flush g0 g'"

lemmas acceptor_defs = on_accept_def on_retry_timer_def

text \<open>The acceptor touches nothing but itself and the list of connections.\<close>

lemma acceptor_frame:
  "gw_pipe (on_accept completion g) = gw_pipe g" "gw_pipe (on_retry_timer timer_error g) = gw_pipe g"
  by (simp_all add: acceptor_defs split: accept_completion.splits)

section \<open>What a handler does to the queue and to the counters\<close>

lemma after_push_stats:
  "st_events_accepted (snd (after_push policy timed r st)) = st_events_accepted st + of_bool (r = Accepted)"
  "st_events_dropped_oldest (snd (after_push policy timed r st)) = st_events_dropped_oldest st + of_bool (r = DroppedOldest)"
  "st_queue_wait_count (snd (after_push policy timed r st)) = st_queue_wait_count st"
  by (simp_all add: after_push_def stats_defs)

lemma after_retry_stats:
  "st_events_accepted (snd (after_retry timed r st)) = st_events_accepted st + of_bool (r = Accepted)"
  "st_events_dropped_oldest (snd (after_retry timed r st)) = st_events_dropped_oldest st + of_bool (r = DroppedOldest)"
  "st_queue_wait_count (snd (after_retry timed r st)) = st_queue_wait_count st"
  by (cases r; simp add: after_retry_def stats_defs)+

lemma conn_step_no_push:
  assumes "conn_step J Q policy inp conn q st = Returns (conn', q', st')" and "conn_pushes J inp conn = None"
  shows "q' = q" and "st_events_accepted st' = st_events_accepted st"
    and "st_events_dropped_oldest st' = st_events_dropped_oldest st"
    and "st_queue_wait_count st' = st_queue_wait_count st"
  using assms
  by (auto simp: conn_step_def conn_pushes_def read_line_def handle_line_def retry_push_def map_call_Returns
      stats_defs split_beta Let_def
      split: conn_input.splits conn_pc.splits option.splits bool.splits if_splits)

lemma conn_step_push:
  assumes "conn_step J Q policy inp conn q st = Returns (conn', q', st')" and "conn_pushes J inp conn = Some timed"
  obtains r where "q_push Q q timed = Returns (r, q')"
    and "st_events_accepted st' = st_events_accepted st + of_bool (r = Accepted)"
    and "st_events_dropped_oldest st' = st_events_dropped_oldest st + of_bool (r = DroppedOldest)"
    and "st_queue_wait_count st' = st_queue_wait_count st"
proof -
  have "\<exists>r. q_push Q q timed = Returns (r, q') \<and>
      (st' = snd (after_push policy timed r st) \<or> st' = snd (after_retry timed r st))"
  proof (cases inp)
    case (Read_Done now completion)
    with assms obtain bytes event where c: "completion = Some bytes" "cn_pc conn = Reading"
      "parse_event J (fst (getline (cn_buffer conn @ bytes))) = Some event"
      "timed = \<lparr>te_event = event, te_enqueued_at = now\<rparr>"
      by (auto simp: conn_pushes_def split: conn_pc.splits option.splits)
    with assms(1) Read_Done show ?thesis
      by (auto simp: conn_step_def read_line_def handle_line_def push_event_def map_call_Returns split_beta Let_def)
  next
    case (Timer_Fired error)
    with assms have c: "\<not> error" "cn_pc conn = Retrying timed"
      by (auto simp: conn_pushes_def split: conn_pc.splits bool.splits)
    with assms(1) Timer_Fired show ?thesis
      by (auto simp: conn_step_def retry_push_def map_call_Returns split_beta Let_def)
  qed
  with that show ?thesis by (metis after_push_stats after_retry_stats)
qed

section \<open>Invariant\<close>

definition gw_inv ::
    "('q \<Rightarrow> Event TimedEvent list) \<Rightarrow> ('q \<Rightarrow> bool) \<Rightarrow> (nat \<Rightarrow> 'q \<Rightarrow> bool) \<Rightarrow> nat \<Rightarrow>
     (Event list \<Rightarrow> 's \<Rightarrow> 's) \<Rightarrow> 's \<Rightarrow> ('q, 's) gateway \<Rightarrow> bool" where
  "gw_inv contents is_closed invar N on_flush k0 g \<longleftrightarrow>
     (let s = gw_pipe g in
     pool_inv contents is_closed invar N on_flush k0 s \<and> (pl_stopped s \<longrightarrow> \<not> gw_running g) \<and>
     st_events_accepted (pl_stats s) + of_nat (pl_discards s) = of_nat (length (pl_stored s)) \<and>
     st_events_dropped_oldest (pl_stats s) = of_nat (pl_discards s) \<and>
     counted (pl_stats s) + sum_list (map (\<lambda>c. pending (cn_pc c)) (gw_conns g)) + gw_given_up g = gw_lines g)"

lemma pool_inv_stats:
  "pool_inv contents is_closed invar N on_flush k0 s \<Longrightarrow> st_queue_wait_count st = st_queue_wait_count (pl_stats s) \<Longrightarrow>
   pool_inv contents is_closed invar N on_flush k0 (s\<lparr>pl_stats := st\<rparr>)"
  by (simp add: pool_inv_def)

lemma counted_record_queue_wait [simp]:
  "counted (record_queue_wait w s) = counted s"
  "st_events_accepted (record_queue_wait w s) = st_events_accepted s"
  "st_events_dropped_oldest (record_queue_wait w s) = st_events_dropped_oldest s"
  by (simp_all add: counted_def record_queue_wait_def Let_def)

lemma pool_work_bound:
  "pool_work contents s \<le> 3 * length (contents (pl_queue s)) + 3 * length (pl_workers s)"
proof -
  have "sum_list (map weight ws) \<le> 3 * length ws" for ws :: "'b worker_pc list"
  proof (induction ws)
    case (Cons w ws)
    then show ?case by (cases w) simp_all
  qed simp
  then show ?thesis by (simp add: pool_work_def)
qed

text \<open>A worker leaves the counters of the events and the history of the pushes alone.\<close>

lemma worker_step_frame:
  assumes "worker_step Q on_flush s s'"
  shows "counted (pl_stats s') = counted (pl_stats s) \<and>
    st_events_accepted (pl_stats s') = st_events_accepted (pl_stats s) \<and>
    st_events_dropped_oldest (pl_stats s') = st_events_dropped_oldest (pl_stats s) \<and>
    pl_stored s' = pl_stored s \<and> pl_discards s' = pl_discards s \<and> pl_stopped s' = pl_stopped s \<and>
    pl_pushes s' = pl_pushes s"
  using assms by (cases rule: worker_step.cases) simp_all

text \<open>Replacing one connection's share of a balance.\<close>

lemma balance_shift:
  fixes c :: u64
  assumes "S' + p = S + p'" and "c' + p' + u = c + p + l"
  shows "c' + S' + (v + u) = c + S + v + l"
proof -
  have "c' + S' + (v + u) + (p + p') = (c' + p' + u) + (S' + p) + v" by (simp add: ac_simps)
  also have "\<dots> = c + S + v + l + (p + p')" unfolding assms by (simp add: ac_simps)
  finally show ?thesis by (simp only: add_right_cancel)
qed

locale gateway_queue = timed_queue Q policy contents is_closed invar
  for Q :: "('q, Event TimedEvent) EventQueue"
    and policy :: "'q \<Rightarrow> BackpressurePolicy"
    and contents :: "'q \<Rightarrow> Event TimedEvent list"
    and is_closed :: "'q \<Rightarrow> bool"
    and invar :: "nat \<Rightarrow> 'q \<Rightarrow> bool"
begin

lemma gateway_connection_inv:
  assumes "gw_inv contents is_closed invar N on_flush k0 g" and "gw_running g" and "i < length (gw_conns g)"
    and step: "conn_step J Q pol inp (gw_conns g ! i) (pl_queue (gw_pipe g)) (pl_stats (gw_pipe g))
      = Returns (conn', q', stats')"
    and pipe: "pipe' = (log_push Q (conn_pushes J inp (gw_conns g ! i)) (gw_pipe g))\<lparr>pl_queue := q', pl_stats := stats'\<rparr>"
    and "pl_pushes pipe' \<le> N"
  shows "gw_inv contents is_closed invar N on_flush k0
    (g\<lparr>gw_pipe := pipe', gw_conns := (gw_conns g)[i := conn'],
       gw_lines := gw_lines g + lines_taken inp (gw_conns g ! i),
       gw_given_up := gw_given_up g + given_up inp (gw_conns g ! i)\<rparr>)"
proof -
  let ?s = "gw_pipe g" and ?c = "gw_conns g ! i" and ?p = "\<lambda>c. pending (cn_pc c)"
  have run: "\<not> pl_stopped ?s" and pool: "pool_inv contents is_closed invar N on_flush k0 ?s"
    and acc: "st_events_accepted (pl_stats ?s) + of_nat (pl_discards ?s) = of_nat (length (pl_stored ?s))"
    and old: "st_events_dropped_oldest (pl_stats ?s) = of_nat (pl_discards ?s)"
    and lines: "counted (pl_stats ?s) + sum_list (map ?p (gw_conns g)) + gw_given_up g = gw_lines g"
    using assms(1,2) by (auto simp: gw_inv_def Let_def)
  have "counted stats' + sum_list (map ?p ((gw_conns g)[i := conn'])) + (gw_given_up g + given_up inp ?c)
      = counted (pl_stats ?s) + sum_list (map ?p (gw_conns g)) + gw_given_up g + lines_taken inp ?c"
    by (rule balance_shift [OF sum_list_map_update [OF assms(3), of ?p conn'] conn_step_counts [OF step]])
  then have "counted stats' + sum_list (map ?p ((gw_conns g)[i := conn'])) + (gw_given_up g + given_up inp ?c)
      = gw_lines g + lines_taken inp ?c" unfolding lines .
  moreover have "pool_inv contents is_closed invar N on_flush k0 pipe' \<and> pl_stopped pipe' = pl_stopped ?s \<and>
      pl_stats pipe' = stats' \<and>
      st_events_accepted stats' + of_nat (pl_discards pipe') = of_nat (length (pl_stored pipe')) \<and>
      st_events_dropped_oldest stats' = of_nat (pl_discards pipe')"
  proof (cases "conn_pushes J inp ?c")
    case None
    note F = conn_step_no_push [OF step None]
    have "pipe' = ?s\<lparr>pl_stats := stats'\<rparr>" by (simp add: pipe None log_push_def F(1))
    with pool_inv_stats [OF pool F(4)] F acc old show ?thesis by simp
  next
    case (Some timed)
    obtain r where r: "q_push Q (pl_queue ?s) timed = Returns (r, q')"
      "st_events_accepted stats' = st_events_accepted (pl_stats ?s) + of_bool (r = Accepted)"
      "st_events_dropped_oldest stats' = st_events_dropped_oldest (pl_stats ?s) + of_bool (r = DroppedOldest)"
      "st_queue_wait_count stats' = st_queue_wait_count (pl_stats ?s)"
      using conn_step_push [OF step Some] by blast
    let ?t = "log_push Q (Some timed) ?s"
    have t: "?t = ?s\<lparr>pl_queue := q', pl_pushes := pl_pushes ?s + 1,
        pl_stored := (if r = RejectedBackpressure then pl_stored ?s else pl_stored ?s @ [timed]),
        pl_discards := (if r = DroppedOldest then pl_discards ?s + 1 else pl_discards ?s)\<rparr>"
      by (simp add: log_push_def r(1))
    have "pipeline_step Q on_flush ?s ?t" unfolding t by (rule pipeline_step.push [OF run r(1)])
    moreover have pt: "pipe' = ?t\<lparr>pl_stats := stats'\<rparr>" by (simp add: pipe Some t)
    moreover have "pl_pushes ?t \<le> N" using assms(6) by (simp add: pt)
    ultimately have "pool_inv contents is_closed invar N on_flush k0 ?t" using pool by (blast intro: pipeline_step_inv)
    then have "pool_inv contents is_closed invar N on_flush k0 pipe'"
      unfolding pt by (rule pool_inv_stats) (simp add: r(4) t)
    moreover have "st_events_accepted stats' + of_nat (pl_discards pipe') = of_nat (length (pl_stored pipe'))"
      using acc by (cases r) (simp_all add: pt t r(2) algebra_simps)
    moreover have "st_events_dropped_oldest stats' = of_nat (pl_discards pipe')"
      using old by (simp add: pt t r(3))
    ultimately show ?thesis by (simp add: pt t)
  qed
  ultimately show ?thesis using run by (simp add: gw_inv_def)
qed

lemma gateway_step_inv:
  assumes "gateway_step J Q pol on_flush g g'" and "gw_inv contents is_closed invar N on_flush k0 g"
    and "pl_pushes (gw_pipe g') \<le> N"
  shows "gw_inv contents is_closed invar N on_flush k0 g'"
  using assms
proof (cases rule: gateway_step.cases)
  case reactor
  then have r: "gw_running g" "reactor_step J Q pol g g'" by simp_all
  from r(2) show ?thesis
  proof (cases rule: reactor_step.cases)
    case (connection i inp conn' q' stats')
    then show ?thesis using assms(2,3) r(1) by (auto intro: gateway_connection_inv)
  qed (use assms(2) in \<open>auto simp: gw_inv_def Let_def conn_new_def acceptor_defs split: accept_completion.splits\<close>)
next
  case (worker pipe')
  with assms(2) have "pool_inv contents is_closed invar N on_flush k0 pipe'"
    by (auto simp: gw_inv_def Let_def dest: worker_step_inv)
  with worker assms(2) worker_step_frame [OF worker(2)] show ?thesis by (simp add: gw_inv_def Let_def)
next
  case (flush b' k')
  let ?s' = "(gw_pipe g)\<lparr>pl_batcher := b', pl_sink := k'\<rparr>"
  have "pipeline_step Q on_flush (gw_pipe g) ?s'" by (rule pipeline_step.flush [OF flush(2)])
  moreover have "pool_inv contents is_closed invar N on_flush k0 (gw_pipe g)" using assms(2) by (simp add: gw_inv_def Let_def)
  moreover have "pl_pushes ?s' \<le> N" using assms(3) flush(1) by simp
  ultimately have "pool_inv contents is_closed invar N on_flush k0 ?s'" by (rule pipeline_step_inv)
  with flush(1) assms(2) show ?thesis by (simp add: gw_inv_def Let_def)
next
  case stop
  let ?s' = "(gw_pipe g)\<lparr>pl_stopped := True, pl_queue := q_shutdown Q (pl_queue (gw_pipe g))\<rparr>"
  have "pipeline_step Q on_flush (gw_pipe g) ?s'" by (rule pipeline_step.stop [OF stop(3)])
  moreover have "pool_inv contents is_closed invar N on_flush k0 (gw_pipe g)" using assms(2) by (simp add: gw_inv_def Let_def)
  moreover have "pl_pushes ?s' \<le> N" using assms(3) stop(1) by simp
  ultimately have "pool_inv contents is_closed invar N on_flush k0 ?s'" by (rule pipeline_step_inv)
  with stop assms(2) show ?thesis by (simp add: gw_inv_def Let_def)
qed (auto simp: gw_inv_def Let_def conn_new_def)

lemma gateway_step_pushes: "gateway_step J Q pol on_flush g g' \<Longrightarrow> pl_pushes (gw_pipe g) \<le> pl_pushes (gw_pipe g')"
proof (induction rule: gateway_step.induct)
  case (reactor g g')
  from reactor(2) show ?case
    by (cases rule: reactor_step.cases) (auto simp: acceptor_frame log_push_def split: option.splits call.splits)
next
  case (worker g pipe')
  then show ?case using worker_step_frame [of Q on_flush "gw_pipe g" pipe'] by simp
qed simp_all

lemma gateway_reach_inv:
  assumes "gateway_reach J Q pol on_flush (gateway_start config q k0 now) g"
    and "invar N q" and "contents q = []" and "\<not> is_closed q" and "pl_pushes (gw_pipe g) \<le> N"
  shows "gw_inv contents is_closed invar N on_flush k0 g"
  using assms
proof (induction rule: gateway_reach.induct)
  case start
  let ?s = "gw_pipe (gateway_start config q k0 now)"
  have "pool_inv contents is_closed invar N on_flush k0 ?s"
    unfolding gateway_start_def gateway.simps
    by (rule pipeline_reach_inv [OF pipeline_reach.start start(1-3)]) (simp add: pipeline_start_def)
  then show ?case
    by (simp add: gw_inv_def gateway_start_def pipeline_start_def stats_new_def counted_def)
next
  case (step g g')
  then have "pl_pushes (gw_pipe g) \<le> N" using gateway_step_pushes by (meson le_trans)
  with step show ?case by (blast intro: gateway_step_inv)
qed

text \<open>What holds at any time, and what holds when the workers have been joined.\<close>

lemma gateway_books:
  assumes "gateway_reach J Q pol on_flush (gateway_start config q k0 now) g"
    and "invar N q" and "contents q = []" and "\<not> is_closed q" and "pl_pushes (gw_pipe g) \<le> N"
  shows "counted (pl_stats (gw_pipe g)) + sum_list (map (\<lambda>c. pending (cn_pc c)) (gw_conns g)) + gw_given_up g
    = gw_lines g"
  using gateway_reach_inv [OF assms] by (simp add: gw_inv_def Let_def)

lemma gateway_drained:
  assumes reach: "gateway_reach J Q pol on_flush (gateway_start config q k0 now) g"
    and q: "invar N q" "contents q = []" "\<not> is_closed q" and "pl_pushes (gw_pipe g) \<le> N"
    and "pl_workers (gw_pipe g) \<noteq> []" and "set (pl_workers (gw_pipe g)) \<subseteq> {Exited}"
  shows "\<exists>batches. snd (batcher_flush on_flush (pl_batcher (gw_pipe g)) (pl_sink (gw_pipe g))) = fold on_flush batches k0 \<and>
    mset (concat batches) \<subseteq># mset (map te_event (pl_stored (gw_pipe g))) \<and>
    length (pl_stored (gw_pipe g)) = length (concat batches) + pl_discards (gw_pipe g) \<and>
    st_events_accepted (pl_stats (gw_pipe g)) = of_nat (length (concat batches)) \<and>
    st_queue_wait_count (pl_stats (gw_pipe g)) = of_nat (length (concat batches))"
proof -
  let ?s = "gw_pipe g"
  have inv: "gw_inv contents is_closed invar N on_flush k0 g" by (rule gateway_reach_inv [OF reach q assms(5)])
  have "pool_inv contents is_closed invar N on_flush k0 ?s" using inv by (simp add: gw_inv_def Let_def)
  note D = pool_drained [OF this assms(6,7)]
  then obtain batches where b: "snd (batcher_flush on_flush (pl_batcher ?s) (pl_sink ?s)) = fold on_flush batches k0"
    "concat batches = pl_added ?s" by blast
  have m: "mset (concat batches) = mset (map te_event (pl_popped ?s))" using D b(2) by simp
  then have len: "length (concat batches) = length (pl_popped ?s)"
    by (metis length_map size_mset)
  have "image_mset te_event (mset (pl_popped ?s)) \<subseteq># image_mset te_event (mset (pl_stored ?s))"
    using D by (intro image_mset_subseteq_mono) simp
  then have "mset (concat batches) \<subseteq># mset (map te_event (pl_stored ?s))" by (simp add: m)
  moreover have "st_events_accepted (pl_stats ?s) = of_nat (length (concat batches))"
  proof -
    have "st_events_accepted (pl_stats ?s) + of_nat (pl_discards ?s)
        = of_nat (length (pl_popped ?s)) + of_nat (pl_discards ?s)"
      using inv D by (simp add: gw_inv_def Let_def)
    then show ?thesis by (simp add: len)
  qed
  ultimately show ?thesis using D b(1) len by auto
qed

lemma gateway_workers_finish:
  assumes reach: "gateway_reach J Q pol on_flush (gateway_start config q k0 now) g"
    and q: "invar N q" "contents q = []" "\<not> is_closed q" and "pl_pushes (gw_pipe g) \<le> N"
    and "pl_stopped (gw_pipe g)"
  shows "(\<exists>s. (worker_step Q on_flush)\<^sup>*\<^sup>* (gw_pipe g) s \<and> set (pl_workers s) \<subseteq> {Exited}) \<and>
    (\<forall>n s. (worker_step Q on_flush ^^ n) (gw_pipe g) s \<longrightarrow> n \<le> pool_work contents (gw_pipe g))"
proof -
  have "pool_inv contents is_closed invar N on_flush k0 (gw_pipe g)"
    using gateway_reach_inv [OF reach q assms(5)] by (simp add: gw_inv_def Let_def)
  with pool_finishes [OF this assms(6)] worker_runs_bounded [OF _ this] show ?thesis
    by (meson add_leD1)
qed

text \<open>A run with one connection that sends one line, and one worker.\<close>

lemma demo_run:
  assumes q: "invar 1 q" "contents q = []" "\<not> is_closed q" and w: "cf_workers config = 1"
    and line: "parse_event J line = Some e" "CHR 0x0A \<notin> set line"
  shows "\<exists>g. gateway_reach J Q pol on_flush (gateway_start config q k0 now) g \<and>
    set (pl_workers (gw_pipe g)) \<subseteq> {Exited} \<and> pl_stopped (gw_pipe g) \<and> pl_pushes (gw_pipe g) = 1 \<and> gw_lines g = 1 \<and>
    st_events_accepted (pl_stats (gw_pipe g)) = 1"
proof -
  let ?b = "batcher_new (unat (cf_batch_size config)) (cf_batch_age config) now"
  let ?te = "\<lparr>te_event = e, te_enqueued_at = 0\<rparr>"
  let ?R = "gateway_reach J Q pol on_flush (gateway_start config q k0 now)"
  let ?G = "\<lambda>pipe run. \<lparr>gw_pipe = pipe, gw_conns = [conn_new], gw_acceptor = Accepting, gw_running = run,
    gw_lines = 1, gw_given_up = 0\<rparr>"
  let ?P = "\<lambda>qu b k st ws stp pp ad. \<lparr>pl_queue = qu, pl_batcher = b, pl_sink = k, pl_stats = st, pl_workers = ws,
    pl_stopped = stp, pl_stored = [?te], pl_pushes = 1, pl_discards = 0, pl_popped = pp, pl_added = ad\<rparr>"
  have q1: "invar (Suc 0) q" using q(1) by simp
  obtain r q1 where push: "q_push Q q ?te = Returns (r, q1)" using push_returns [OF q1] by blast
  have cap: "0 < q_capacity Q q" using capacity_pos [OF q1] .
  then have r: "r = Accepted" "contents q1 = [?te]"
    using push_contents [OF q1 push] q(2) by (auto simp: spec_push_def)
  have F1: "is_closed q1 = is_closed q" "invar 0 q1" using push_frame [OF q1 push] by simp_all
  obtain q2 where pop: "q_pop Q q1 = Returns (Some ?te, q2)" "contents q2 = []" "is_closed q2 = is_closed q1" "invar 0 q2"
    using pop_item [OF F1(2) r(2)] by blast
  let ?q3 = "q_shutdown Q q2"
  have F3: "contents ?q3 = []" "is_closed ?q3" "invar 0 ?q3" using shutdown_frame [OF pop(4)] pop(2) by simp_all
  obtain q4 where exit: "q_pop Q ?q3 = Returns (None, q4)" using pop_nullopt_iff [OF F3(3)] F3 by blast
  let ?st1 = "record_accepted stats_new"
  let ?st2 = "record_queue_wait 0 ?st1"
  obtain b' k' where add: "add_event on_flush 0 0 e ?b k0 = (b', k')" by fastforce
  let ?g1 = "(gateway_start config q k0 now)\<lparr>gw_conns := [conn_new]\<rparr>"
  have "gateway_step J Q pol on_flush (gateway_start config q k0 now) ?g1"
    using gateway_step.reactor [OF _ accepted [of "gateway_start config q k0 now" J Q pol Accept_Ok]]
    by (simp add: gateway_start_def on_accept_def)
  with gateway_reach.start have 1: "?R ?g1" by (rule gateway_reach.step)
  have "takeWhile (\<lambda>c. c \<noteq> CHR 0x0A) line = line" using line(2) by (auto simp: takeWhile_eq_all_conv)
  then have gl: "getline (line @ [CHR 0x0A]) = (line, [])" by (simp add: getline_def takeWhile_tail)
  have step: "conn_step J Q pol (Read_Done 0 (Some (line @ [CHR 0x0A]))) conn_new q stats_new
      = Returns (conn_new, q1, ?st1)"
    using push r(1) line(1) gl
    by (simp add: conn_step_def read_line_def conn_new_def handle_line_def push_event_def after_push_def)
  have pushed: "conn_pushes J (Read_Done 0 (Some (line @ [CHR 0x0A]))) conn_new = Some ?te"
    using line(1) gl by (simp add: conn_pushes_def conn_new_def)
  have "gateway_step J Q pol on_flush ?g1 (?G (?P q1 ?b k0 ?st1 [Popping] False [] []) True)"
    using gateway_step.reactor [OF _ connection [of 0 ?g1 J Q pol "Read_Done 0 (Some (line @ [CHR 0x0A]))" conn_new q1 ?st1]]
      step pushed push r(1) w
    by (simp add: gateway_start_def pipeline_start_def log_push_def lines_taken_def given_up_def conn_new_def)
  with 1 have 2: "?R (?G (?P q1 ?b k0 ?st1 [Popping] False [] []) True)" by (rule gateway_reach.step)
  have 3: "?R (?G (?P q2 ?b k0 ?st1 [Timing ?te] False [?te] []) True)"
    using gateway_reach.step [OF 2 gateway_step.worker [OF worker_pop [of 0 _ Q ?te q2]]] pop(1) by simp
  have 4: "?R (?G (?P q2 ?b k0 ?st2 [Adding e] False [?te] []) True)"
    using gateway_reach.step [OF 3 gateway_step.worker [OF worker_record [of 0 _ ?te Q on_flush 0]]] by simp
  have 5: "?R (?G (?P q2 b' k' ?st2 [Popping] False [?te] [e]) True)"
    using gateway_reach.step [OF 4 gateway_step.worker [OF worker_add [of 0 _ e on_flush 0 0 b' k']]] add by simp
  have 6: "?R (?G (?P q2 b' k' ?st2 [Popping] False [?te] [e]) False)"
    using gateway_reach.step [OF 5 gateway_step.signal] by simp
  have 7: "?R (?G (?P ?q3 b' k' ?st2 [Popping] True [?te] [e]) False)"
    using gateway_reach.step [OF 6 gateway_step.stop] by simp
  have 8: "?R (?G (?P q4 b' k' ?st2 [Exited] True [?te] [e]) False)"
    using gateway_reach.step [OF 7 gateway_step.worker [OF worker_exit [of 0 _ Q q4]]] exit by simp
  show ?thesis
    by (rule exI, rule conjI, rule 8) (simp add: record_accepted_def stats_new_def)
qed

end

section \<open>Both queues\<close>

interpretation gbq: gateway_queue bounded_queue_ops bq_policy bq_items bq_shutting_down "\<lambda>_. bq_inv"
  by (intro gateway_queue.intro timed_queue.intro) (rule bq.event_queue_contract_axioms)

interpretation glf: gateway_queue lock_free_queue_ops lf_policy lf_contents lf_shutting_down lf_inv
  by (intro gateway_queue.intro timed_queue.intro) (rule lfq.event_queue_contract_axioms)

section \<open>Every stored event was parsed from a line\<close>

definition parsed :: "'j json_lib \<Rightarrow> Event TimedEvent \<Rightarrow> bool" where
  "parsed J timed \<longleftrightarrow> (\<exists>line. parse_event J line = Some (te_event timed))"

definition parsed_inv :: "'j json_lib \<Rightarrow> ('q, 's) gateway \<Rightarrow> bool" where
  "parsed_inv J g \<longleftrightarrow> (\<forall>timed \<in> set (pl_stored (gw_pipe g)). parsed J timed) \<and>
     (\<forall>c \<in> set (gw_conns g). \<forall>timed. cn_pc c = Retrying timed \<longrightarrow> parsed J timed)"

lemma conn_pushes_parsed:
  assumes "conn_pushes J inp conn = Some timed" and "\<And>t. cn_pc conn = Retrying t \<Longrightarrow> parsed J t"
  shows "parsed J timed"
  using assms
  by (auto simp: conn_pushes_def parsed_def split: conn_input.splits conn_pc.splits option.splits bool.splits)

lemma conn_step_retrying:
  assumes "conn_step J Q policy inp conn q st = Returns (conn', q', st')" and "cn_pc conn' = Retrying timed"
  shows "conn_pushes J inp conn = Some timed \<or> cn_pc conn = Retrying timed"
  using assms
  by (auto simp: conn_step_def conn_pushes_def read_line_def handle_line_def push_event_def retry_push_def
      after_push_def after_retry_def map_call_Returns split_beta Let_def
      split: conn_input.splits conn_pc.splits option.splits bool.splits if_splits)

lemma log_push_frame:
  "set (pl_stored (log_push Q pushed s)) \<subseteq> set (pl_stored s) \<union> set_option pushed"
  by (auto simp: log_push_def split: option.splits call.splits if_splits)

lemma parsed_reactor:
  assumes "reactor_step J Q pol g g'" and "parsed_inv J g"
  shows "parsed_inv J g'"
  using assms
proof (induction rule: reactor_step.induct)
  case (connection i g inp conn' q' stats')
  let ?c = "gw_conns g ! i"
  have old: "parsed J t" if "cn_pc ?c = Retrying t" for t
    using connection(1,3) that by (auto simp: parsed_inv_def)
  have new: "parsed J t" if "conn_pushes J inp ?c = Some t" for t
    using conn_pushes_parsed [OF that old] .
  have "parsed J t" if "t \<in> set (pl_stored (log_push Q (conn_pushes J inp ?c) (gw_pipe g)))" for t
    using that log_push_frame [of Q "conn_pushes J inp ?c" "gw_pipe g"] connection(3) new
    by (auto simp: parsed_inv_def)
  moreover have "parsed J t" if "c \<in> set ((gw_conns g)[i := conn'])" "cn_pc c = Retrying t" for c t
  proof (cases "c = conn'")
    case True
    with that(2) conn_step_retrying [OF connection(2)] old new show ?thesis by blast
  next
    case False
    with that(1) have "c \<in> set (gw_conns g)" using set_update_subset_insert [of "gw_conns g" i conn'] by blast
    with that(2) connection(3) show ?thesis by (auto simp: parsed_inv_def)
  qed
  ultimately show ?case by (simp add: parsed_inv_def)
qed (auto simp: parsed_inv_def conn_new_def acceptor_defs split: accept_completion.splits)

lemma parsed_step: "gateway_step J Q pol on_flush g g' \<Longrightarrow> parsed_inv J g \<Longrightarrow> parsed_inv J g'"
proof (induction rule: gateway_step.induct)
  case (reactor g g')
  then show ?case by (blast intro: parsed_reactor)
next
  case (worker g pipe')
  then show ?case using worker_step_frame [OF worker(1)] by (simp add: parsed_inv_def)
qed (auto simp: parsed_inv_def)

lemma parsed_reach:
  "gateway_reach J Q pol on_flush (gateway_start config q k0 now) g \<Longrightarrow> parsed_inv J g"
proof (induction rule: gateway_reach.induct)
  case start
  show ?case by (simp add: parsed_inv_def gateway_start_def pipeline_start_def)
next
  case (step g g')
  then show ?case by (blast intro: parsed_step)
qed

lemma gateway_workers:
  "gateway_reach J Q pol on_flush (gateway_start config q k0 now) g \<Longrightarrow>
   length (pl_workers (gw_pipe g)) = unat (cf_workers config)"
proof (induction rule: gateway_reach.induct)
  case start
  then show ?case by (simp add: gateway_start_def pipeline_start_def)
next
  case (step g g')
  from step(2,3) show ?case
  proof (cases rule: gateway_step.cases)
    case reactor
    from reactor(2) show ?thesis using step(3)
      by (cases rule: reactor_step.cases) (simp_all add: acceptor_frame log_push_def split: option.splits call.splits)
  next
    case (worker pipe')
    then have "length (pl_workers pipe') = length (pl_workers (gw_pipe g))"
      by (auto elim: worker_step.cases)
    then show ?thesis using worker step(3) by simp
  qed simp_all
qed

lemma gateway_has_workers:
  assumes "gateway_reach J Q pol on_flush (gateway_start config q k0 now) g" and "parse_args argv = Inr config"
  shows "pl_workers (gw_pipe g) \<noteq> []"
  using gateway_workers [OF assms(1)] parse_args_ok [OF assms(2)] by (auto simp: config_ok_def)

text \<open>A configuration with one worker, and the run of \<open>demo_run\<close> on both queues.\<close>

definition one_worker :: Config where
  "one_worker = default_config\<lparr>cf_workers := 1\<rparr>"

lemma one_worker_parsed: "parse_args [''--workers='' @ to_string 1] = Inr one_worker"
proof -
  have "apply_arg (''--workers='' @ to_string 1) default_config = Inr one_worker"
    unfolding apply_arg_flags one_worker_def by simp
  then show ?thesis
    unfolding parse_args_def apply_args.simps
    by (simp add: one_worker_def default_config_def validate_config_def kMaxSinkConcurrency_def del: append.simps)
qed

definition demo_bq :: "Event TimedEvent BoundedQueue" where
  "demo_bq = \<lparr>bq_cap = 1024, bq_policy = Block, bq_items = [], bq_shutting_down = False\<rparr>"

lemma demo_bq_new: "bq_new (unat (cf_queue_capacity one_worker)) (cf_backpressure one_worker) = Inr demo_bq"
  by (simp add: bq_new_def one_worker_def default_config_def demo_bq_def)

definition sample_timed :: "Event TimedEvent" where
  "sample_timed = \<lparr>te_event = sample_event, te_enqueued_at = 0\<rparr>"

lemma sample_line:
  obtains line where "parse_event bit_lib line = Some sample_event" and "CHR 0x0A \<notin> set line"
proof -
  have "event_clean (\<lambda>_. True) sample_event" by (simp add: event_clean_def sample_event_def)
  with serialize_event_clean [OF bit_lib_documented this] that show ?thesis by blast
qed

lemma demo_bq_run:
  "\<exists>g. gateway_reach bit_lib bounded_queue_ops (cf_backpressure one_worker) on_flush (gateway_start one_worker demo_bq k0 0) g \<and>
    set (pl_workers (gw_pipe g)) \<subseteq> {Exited} \<and> pl_stopped (gw_pipe g) \<and> pl_pushes (gw_pipe g) = 1 \<and> gw_lines g = 1 \<and>
    st_events_accepted (pl_stats (gw_pipe g)) = 1"
proof -
  obtain line where line: "parse_event bit_lib line = Some sample_event" "CHR 0x0A \<notin> set line"
    by (rule sample_line)
  show ?thesis
    by (rule gbq.demo_run [OF _ _ _ _ line]) (simp_all add: demo_bq_def bq_inv_def one_worker_def)
qed

lemma demo_lf_run:
  "\<exists>q g. lf_new sample_timed (cf_queue_capacity one_worker) (cf_backpressure one_worker) = Some (Inr q) \<and>
    gateway_reach bit_lib lock_free_queue_ops (cf_backpressure one_worker) on_flush (gateway_start one_worker q k0 0) g \<and>
    set (pl_workers (gw_pipe g)) \<subseteq> {Exited} \<and> pl_stopped (gw_pipe g) \<and> pl_pushes (gw_pipe g) = 1 \<and> gw_lines g = 1 \<and>
    st_events_accepted (pl_stats (gw_pipe g)) = 1"
proof -
  obtain line where line: "parse_event bit_lib line = Some sample_event" "CHR 0x0A \<notin> set line"
    by (rule sample_line)
  have c: "0 < unat (cf_queue_capacity one_worker)" "unat (cf_queue_capacity one_worker) \<le> 2 ^ 30"
    by (simp_all add: one_worker_def default_config_def)
  then obtain k where k: "1 \<le> k" "k \<le> 30" "validated_capacity (cf_queue_capacity one_worker) = Some (Inr (2 ^ k))"
    by (rule validated_capacity_ok)
  let ?q = "lf_ring sample_timed (2 ^ k) (cf_backpressure one_worker)"
  have new: "lf_new sample_timed (cf_queue_capacity one_worker) (cf_backpressure one_worker) = Some (Inr ?q)"
    by (simp add: lf_new_def k(3))
  have "\<exists>g. gateway_reach bit_lib lock_free_queue_ops (cf_backpressure one_worker) on_flush (gateway_start one_worker ?q k0 0) g \<and>
    set (pl_workers (gw_pipe g)) \<subseteq> {Exited} \<and> pl_stopped (gw_pipe g) \<and> pl_pushes (gw_pipe g) = 1 \<and> gw_lines g = 1 \<and>
    st_events_accepted (pl_stats (gw_pipe g)) = 1"
    using lf_ring_inv [OF k(1,2), of 1]
    by (intro glf.demo_run [OF _ _ _ _ line]) (simp_all add: one_worker_def)
  with new show ?thesis by blast
qed

section \<open>Properties\<close>

text \<open>C14: Every line is accounted for. At any moment of a run of the gateway, with any number of
  connections and whatever they send, the lines read so far are exactly the events counted as
  accepted, dropped (oldest or newest) or malformed, plus the events that wait for a retry, plus those
  whose retry timer failed. (Counted modulo \<open>2 ^ 64\<close>, as the counters are.)\<close>

theorem gateway_accounts_for_every_line:
  assumes "bq_new cap policy = Inr q"
    and "gateway_reach J bounded_queue_ops pol on_flush (gateway_start config q k0 now) g"
  shows "st_events_accepted (pl_stats (gw_pipe g)) + st_events_dropped_oldest (pl_stats (gw_pipe g)) +
      st_events_dropped_newest (pl_stats (gw_pipe g)) + st_events_malformed (pl_stats (gw_pipe g)) +
      sum_list (map (\<lambda>c. pending (cn_pc c)) (gw_conns g)) + gw_given_up g = gw_lines g"
proof -
  have "bq_inv q" "bq_items q = []" "\<not> bq_shutting_down q"
    using assms(1) bq_new_inv [OF assms(1)] by (auto simp: bq_new_def split: if_splits)
  from gbq.gateway_books [OF assms(2) this le_refl] show ?thesis by (simp add: counted_def)
qed

theorem gateway_accounts_for_every_line_witness:
  "\<exists>g :: (Event TimedEvent BoundedQueue, Event list list) gateway.
     gw_lines g = 1 \<and> st_events_accepted (pl_stats (gw_pipe g)) = 1 \<and>
     st_events_accepted (pl_stats (gw_pipe g)) + st_events_dropped_oldest (pl_stats (gw_pipe g)) +
      st_events_dropped_newest (pl_stats (gw_pipe g)) + st_events_malformed (pl_stats (gw_pipe g)) +
      sum_list (map (\<lambda>c. pending (cn_pc c)) (gw_conns g)) + gw_given_up g = gw_lines g"
proof -
  obtain g where g: "gateway_reach bit_lib bounded_queue_ops (cf_backpressure one_worker) (\<lambda>batch bs. bs @ [batch])
      (gateway_start one_worker demo_bq [] 0) g" "gw_lines g = 1" "st_events_accepted (pl_stats (gw_pipe g)) = 1"
    using demo_bq_run [of "\<lambda>batch bs. bs @ [batch]" "[]"] by blast
  from gateway_accounts_for_every_line [OF demo_bq_new g(1)] g(2,3) show ?thesis by blast
qed

text \<open>C4: A graceful shutdown delivers every accepted event, in the build with the mutex queue. Once the
  workers of a gateway with a parsed configuration have been joined, the final \<^verbatim>\<open>batcher.flush()\<close>
  leaves the sink with batches whose events are among those stored in the queue, as many as were
  stored less those discarded under \<^verbatim>\<open>DropOldest\<close>; their number is the counter of accepted events and
  the counter of recorded queue waits.\<close>

theorem mutex_gateway_delivers_accepted:
  assumes "parse_args argv = Inr config" and "bq_new (unat (cf_queue_capacity config)) (cf_backpressure config) = Inr q"
    and "gateway_reach J bounded_queue_ops (cf_backpressure config) on_flush (gateway_start config q k0 now) g"
    and "set (pl_workers (gw_pipe g)) \<subseteq> {Exited}"
  shows "\<exists>batches. snd (batcher_flush on_flush (pl_batcher (gw_pipe g)) (pl_sink (gw_pipe g))) = fold on_flush batches k0 \<and>
    mset (concat batches) \<subseteq># mset (map te_event (pl_stored (gw_pipe g))) \<and>
    length (pl_stored (gw_pipe g)) = length (concat batches) + pl_discards (gw_pipe g) \<and>
    st_events_accepted (pl_stats (gw_pipe g)) = of_nat (length (concat batches)) \<and>
    st_queue_wait_count (pl_stats (gw_pipe g)) = of_nat (length (concat batches))"
proof -
  have "bq_inv q" "bq_items q = []" "\<not> bq_shutting_down q"
    using assms(2) bq_new_inv [OF assms(2)] by (auto simp: bq_new_def split: if_splits)
  from gbq.gateway_drained [OF assms(3) this le_refl gateway_has_workers [OF assms(3,1)] assms(4)]
  show ?thesis .
qed

theorem mutex_gateway_delivers_accepted_witness:
  "\<exists>g batches. gateway_reach bit_lib bounded_queue_ops (cf_backpressure one_worker) (\<lambda>batch bs. bs @ [batch])
      (gateway_start one_worker demo_bq [] 0) g \<and>
    snd (batcher_flush (\<lambda>batch bs. bs @ [batch]) (pl_batcher (gw_pipe g)) (pl_sink (gw_pipe g)))
      = fold (\<lambda>batch bs. bs @ [batch]) batches [] \<and>
    st_events_accepted (pl_stats (gw_pipe g)) = 1 \<and>
    st_events_accepted (pl_stats (gw_pipe g)) = of_nat (length (concat batches))"
proof -
  obtain g where g: "gateway_reach bit_lib bounded_queue_ops (cf_backpressure one_worker) (\<lambda>batch bs. bs @ [batch])
      (gateway_start one_worker demo_bq [] 0) g" "set (pl_workers (gw_pipe g)) \<subseteq> {Exited}"
      "st_events_accepted (pl_stats (gw_pipe g)) = 1"
    using demo_bq_run [of "\<lambda>batch bs. bs @ [batch]" "[]"] by fastforce
  from mutex_gateway_delivers_accepted [OF one_worker_parsed demo_bq_new g(1,2)] g(1,3)
  show ?thesis by blast
qed

text \<open>The same in the build with the lock-free queue, under every policy but \<^verbatim>\<open>DropOldest\<close>, up to \<open>2 ^ 62\<close> pushes and with each call
  of the queue as one step. Under \<^verbatim>\<open>DropOldest\<close> a call is not one step: beside a slow consumer it can discard an event and
  still be refused, and nothing counts that discard.\<close>

theorem lock_free_gateway_delivers_accepted:
  assumes "parse_args argv = Inr config" and "lf_new dflt (cf_queue_capacity config) (cf_backpressure config) = Some (Inr q)"
    and "gateway_reach J lock_free_queue_ops (cf_backpressure config) on_flush (gateway_start config q k0 now) g"
    and "set (pl_workers (gw_pipe g)) \<subseteq> {Exited}" and "pl_pushes (gw_pipe g) \<le> 2 ^ 62"
    and "cf_backpressure config \<noteq> DropOldest"
  shows "\<exists>batches. snd (batcher_flush on_flush (pl_batcher (gw_pipe g)) (pl_sink (gw_pipe g))) = fold on_flush batches k0 \<and>
    mset (concat batches) \<subseteq># mset (map te_event (pl_stored (gw_pipe g))) \<and>
    length (pl_stored (gw_pipe g)) = length (concat batches) + pl_discards (gw_pipe g) \<and>
    st_events_accepted (pl_stats (gw_pipe g)) = of_nat (length (concat batches)) \<and>
    st_queue_wait_count (pl_stats (gw_pipe g)) = of_nat (length (concat batches))"
proof -
  from assms(2) obtain k where k: "1 \<le> k" "k \<le> 30" "q = lf_ring dflt (2 ^ k) (cf_backpressure config)"
    by (rule lf_new_Inr)
  have "lf_inv (2 ^ 62) q" "lf_contents q = []" "\<not> lf_shutting_down q"
    using lf_ring_inv [OF k(1,2) order_refl] by (simp_all add: k(3))
  from glf.gateway_drained [OF assms(3) this assms(5) gateway_has_workers [OF assms(3,1)] assms(4)]
  show ?thesis .
qed

theorem lock_free_gateway_delivers_accepted_witness:
  "\<exists>q g batches. gateway_reach bit_lib lock_free_queue_ops (cf_backpressure one_worker) (\<lambda>batch bs. bs @ [batch])
      (gateway_start one_worker q [] 0) g \<and>
    snd (batcher_flush (\<lambda>batch bs. bs @ [batch]) (pl_batcher (gw_pipe g)) (pl_sink (gw_pipe g)))
      = fold (\<lambda>batch bs. bs @ [batch]) batches [] \<and>
    st_events_accepted (pl_stats (gw_pipe g)) = 1 \<and>
    st_events_accepted (pl_stats (gw_pipe g)) = of_nat (length (concat batches))"
proof -
  obtain q g where g: "lf_new sample_timed (cf_queue_capacity one_worker) (cf_backpressure one_worker) = Some (Inr q)"
      "gateway_reach bit_lib lock_free_queue_ops (cf_backpressure one_worker) (\<lambda>batch bs. bs @ [batch])
        (gateway_start one_worker q [] 0) g" "set (pl_workers (gw_pipe g)) \<subseteq> {Exited}"
      "pl_pushes (gw_pipe g) \<le> 2 ^ 62" "st_events_accepted (pl_stats (gw_pipe g)) = 1"
    using demo_lf_run [of "\<lambda>batch bs. bs @ [batch]" "[]"] by fastforce
  have "cf_backpressure one_worker \<noteq> DropOldest" by (simp add: one_worker_def default_config_def)
  from lock_free_gateway_delivers_accepted [OF one_worker_parsed g(1-4) this] g(2,5)
  show ?thesis by blast
qed

text \<open>\<^verbatim>\<open>pool.stop()\<close> returns. Once it has shut the queue down, the workers can always run to their end
  without any help (none of them blocks in \<^verbatim>\<open>pop()\<close>), and however their steps are interleaved, they make
  at most three steps for each event still queued and three for each worker before all have left.
  This is for the build with the lock-free queue.\<close>

theorem lock_free_shutdown_terminates:
  assumes "lf_new dflt c p = Some (Inr q)"
    and "gateway_reach J lock_free_queue_ops pol on_flush (gateway_start config q k0 now) g"
    and "pl_pushes (gw_pipe g) \<le> 2 ^ 62" and "pl_stopped (gw_pipe g)"
  shows "(\<exists>s. (worker_step lock_free_queue_ops on_flush)\<^sup>*\<^sup>* (gw_pipe g) s \<and> set (pl_workers s) \<subseteq> {Exited}) \<and>
    (\<forall>n s. (worker_step lock_free_queue_ops on_flush ^^ n) (gw_pipe g) s \<longrightarrow>
       n \<le> 3 * length (lf_contents (pl_queue (gw_pipe g))) + 3 * length (pl_workers (gw_pipe g)))"
proof -
  from assms(1) obtain k where k: "1 \<le> k" "k \<le> 30" "q = lf_ring dflt (2 ^ k) p" by (rule lf_new_Inr)
  have "lf_inv (2 ^ 62) q" "lf_contents q = []" "\<not> lf_shutting_down q"
    using lf_ring_inv [OF k(1,2) order_refl] by (simp_all add: k(3))
  note F = glf.gateway_workers_finish [OF assms(2) this assms(3,4)]
  then show ?thesis using pool_work_bound [of lf_contents "gw_pipe g"] by (meson le_trans)
qed

theorem lock_free_shutdown_terminates_witness:
  "\<exists>q g s. gateway_reach bit_lib lock_free_queue_ops (cf_backpressure one_worker) (\<lambda>batch bs. bs @ [batch])
      (gateway_start one_worker q [] 0) g \<and>
    (worker_step lock_free_queue_ops (\<lambda>batch bs. bs @ [batch]))\<^sup>*\<^sup>* (gw_pipe g) s \<and> set (pl_workers s) \<subseteq> {Exited}"
proof -
  obtain q g where g: "lf_new sample_timed (cf_queue_capacity one_worker) (cf_backpressure one_worker) = Some (Inr q)"
      "gateway_reach bit_lib lock_free_queue_ops (cf_backpressure one_worker) (\<lambda>batch bs. bs @ [batch])
        (gateway_start one_worker q [] 0) g" "pl_pushes (gw_pipe g) \<le> 2 ^ 62" "pl_stopped (gw_pipe g)"
    using demo_lf_run [of "\<lambda>batch bs. bs @ [batch]" "[]"] by fastforce
  from lock_free_shutdown_terminates [OF g] g(2) show ?thesis by blast
qed

text \<open>The shutdown terminates in the same way in the build with the mutex queue.\<close>

theorem mutex_shutdown_terminates:
  assumes "bq_new cap p = Inr q"
    and "gateway_reach J bounded_queue_ops pol on_flush (gateway_start config q k0 now) g"
    and "pl_stopped (gw_pipe g)"
  shows "(\<exists>s. (worker_step bounded_queue_ops on_flush)\<^sup>*\<^sup>* (gw_pipe g) s \<and> set (pl_workers s) \<subseteq> {Exited}) \<and>
    (\<forall>n s. (worker_step bounded_queue_ops on_flush ^^ n) (gw_pipe g) s \<longrightarrow>
       n \<le> 3 * length (bq_items (pl_queue (gw_pipe g))) + 3 * length (pl_workers (gw_pipe g)))"
proof -
  have "bq_inv q" "bq_items q = []" "\<not> bq_shutting_down q"
    using assms(1) bq_new_inv [OF assms(1)] by (auto simp: bq_new_def split: if_splits)
  note F = gbq.gateway_workers_finish [OF assms(2) this le_refl assms(3)]
  then show ?thesis using pool_work_bound [of bq_items "gw_pipe g"] by (meson le_trans)
qed

theorem mutex_shutdown_terminates_witness:
  "\<exists>g s. gateway_reach bit_lib bounded_queue_ops (cf_backpressure one_worker) (\<lambda>batch bs. bs @ [batch])
      (gateway_start one_worker demo_bq [] 0) g \<and>
    (worker_step bounded_queue_ops (\<lambda>batch bs. bs @ [batch]))\<^sup>*\<^sup>* (gw_pipe g) s \<and> set (pl_workers s) \<subseteq> {Exited}"
proof -
  obtain g where g: "gateway_reach bit_lib bounded_queue_ops (cf_backpressure one_worker) (\<lambda>batch bs. bs @ [batch])
      (gateway_start one_worker demo_bq [] 0) g" "pl_stopped (gw_pipe g)"
    using demo_bq_run [of "\<lambda>batch bs. bs @ [batch]" "[]"] by blast
  from mutex_shutdown_terminates [OF demo_bq_new g] g(1) show ?thesis by blast
qed

context gateway_queue
begin

text \<open>What a file holds after a shutdown.\<close>

lemma drained_to_file:
  assumes "json_documented object printable utf8 J" and "parse_args argv = Inr config"
    and "invar N q" "contents q = []" "\<not> is_closed q" "pl_pushes (gw_pipe g) \<le> N"
    and "fs (cf_sink_file config) = Some ''''" and "fs_new fs (cf_sink_file config) = Inr f0"
    and "gateway_reach J Q pol (\<lambda>batch f. snd (fs_consume J batch f))
      (gateway_start config q f0 now) g"
    and "set (pl_workers (gw_pipe g)) \<subseteq> {Exited}"
    and "f = snd (batcher_flush (\<lambda>batch f. snd (fs_consume J batch f)) (pl_batcher (gw_pipe g)) (pl_sink (gw_pipe g)))"
  shows "\<exists>events. map (parse_event J) (text_lines (fs_text f)) = map Some events \<and>
    mset events \<subseteq># mset (map te_event (pl_stored (gw_pipe g))) \<and>
    length (pl_stored (gw_pipe g)) = length events + pl_discards (gw_pipe g) \<and>
    st_events_accepted (pl_stats (gw_pipe g)) = of_nat (length events)"
proof -
  from gateway_drained [OF assms(9,3-6) gateway_has_workers [OF assms(9,2)] assms(10)]
  obtain batches where b: "f = fold (\<lambda>batch f. snd (fs_consume J batch f)) batches f0"
    "mset (concat batches) \<subseteq># mset (map te_event (pl_stored (gw_pipe g)))"
    "length (pl_stored (gw_pipe g)) = length (concat batches) + pl_discards (gw_pipe g)"
    "st_events_accepted (pl_stats (gw_pipe g)) = of_nat (length (concat batches))"
    unfolding assms(11) by blast
  have clean: "event_clean utf8 e" if "e \<in> set (concat batches)" for e
  proof -
    have "e \<in># mset (map te_event (pl_stored (gw_pipe g)))"
      using mset_subset_eqD [OF b(2), of e] that by simp
    then obtain timed where "timed \<in> set (pl_stored (gw_pipe g))" "e = te_event timed" by auto
    with parsed_reach [OF assms(9)] parse_event_clean [OF assms(1)] show ?thesis
      by (auto simp: parsed_inv_def parsed_def)
  qed
  have f0: "fs_good f0" "fs_text f0 = ''''" using assms(7,8) by (auto simp: fs_new_def)
  have "f = f0\<lparr>fs_text := fs_text f0 @ event_lines J (concat batches)\<rparr>"
    unfolding b(1)
  proof (rule fs_consume_batches [OF _ f0(1)])
    show "serialize_event J e \<noteq> None" if "e \<in> set (concat batches)" for e
      using serialize_event_clean [OF assms(1) clean [OF that]] by auto
  qed
  with event_lines_parse [OF assms(1), of "concat batches" "''''"] clean f0(2)
  have "map (parse_event J) (text_lines (fs_text f)) = map Some (concat batches)" by simp
  with b(2-4) show ?thesis by blast
qed

end

lemma file_drained:
  assumes "json_documented object printable utf8 J" and "parse_args argv = Inr config"
    and "bq_new (unat (cf_queue_capacity config)) (cf_backpressure config) = Inr q"
    and "fs (cf_sink_file config) = Some ''''" and "fs_new fs (cf_sink_file config) = Inr f0"
    and "gateway_reach J bounded_queue_ops (cf_backpressure config) (\<lambda>batch f. snd (fs_consume J batch f))
      (gateway_start config q f0 now) g"
    and "set (pl_workers (gw_pipe g)) \<subseteq> {Exited}"
    and "f = snd (batcher_flush (\<lambda>batch f. snd (fs_consume J batch f)) (pl_batcher (gw_pipe g)) (pl_sink (gw_pipe g)))"
  shows "\<exists>events. map (parse_event J) (text_lines (fs_text f)) = map Some events \<and>
    mset events \<subseteq># mset (map te_event (pl_stored (gw_pipe g))) \<and>
    length (pl_stored (gw_pipe g)) = length events + pl_discards (gw_pipe g) \<and>
    st_events_accepted (pl_stats (gw_pipe g)) = of_nat (length events)"
proof -
  have "bq_inv q" "bq_items q = []" "\<not> bq_shutting_down q"
    using assms(3) bq_new_inv [OF assms(3)] by (auto simp: bq_new_def split: if_splits)
  from gbq.drained_to_file [OF assms(1,2) this le_refl assms(4-8)] show ?thesis .
qed

text \<open>From the wire to the disk. With the file sink on a new file, after a graceful shutdown the
  file, read line by line with \<^verbatim>\<open>parse_event\<close>, holds events that were read from connections and stored
  in the queue, every line parses, and their number is the counter of accepted events.\<close>

theorem file_gateway_end_to_end:
  assumes "json_documented object printable utf8 J" and "parse_args argv = Inr config"
    and "bq_new (unat (cf_queue_capacity config)) (cf_backpressure config) = Inr q"
    and "fs (cf_sink_file config) = Some ''''" and "fs_new fs (cf_sink_file config) = Inr f0"
    and "gateway_reach J bounded_queue_ops (cf_backpressure config) (\<lambda>batch f. snd (fs_consume J batch f))
      (gateway_start config q f0 now) g"
    and "set (pl_workers (gw_pipe g)) \<subseteq> {Exited}"
    and "f = snd (batcher_flush (\<lambda>batch f. snd (fs_consume J batch f)) (pl_batcher (gw_pipe g)) (pl_sink (gw_pipe g)))"
  shows "\<exists>events. map (parse_event J) (text_lines (fs_text f)) = map Some events \<and>
    mset events \<subseteq># mset (map te_event (pl_stored (gw_pipe g))) \<and>
    st_events_accepted (pl_stats (gw_pipe g)) = of_nat (length events)"
  using file_drained [OF assms] by blast

theorem file_gateway_end_to_end_witness:
  "\<exists>g (f :: FileSink) events. gateway_reach bit_lib bounded_queue_ops (cf_backpressure one_worker)
      (\<lambda>batch f. snd (fs_consume bit_lib batch f)) (gateway_start one_worker demo_bq \<lparr>fs_good = True, fs_text = ''''\<rparr> 0) g \<and>
    map (parse_event bit_lib) (text_lines (fs_text f)) = map Some events \<and> of_nat (length events) = (1 :: u64)"
proof -
  let ?k = "\<lparr>fs_good = True, fs_text = ''''\<rparr>"
  obtain g where g: "gateway_reach bit_lib bounded_queue_ops (cf_backpressure one_worker)
      (\<lambda>batch f. snd (fs_consume bit_lib batch f)) (gateway_start one_worker demo_bq ?k 0) g"
      "set (pl_workers (gw_pipe g)) \<subseteq> {Exited}" "st_events_accepted (pl_stats (gw_pipe g)) = 1"
    using demo_bq_run [of "\<lambda>batch f. snd (fs_consume bit_lib batch f)" ?k] by blast
  have new: "fs_new (\<lambda>_. Some '''') (cf_sink_file one_worker) = Inr ?k" by (simp add: fs_new_def)
  from file_gateway_end_to_end [OF bit_lib_documented one_worker_parsed demo_bq_new refl new g(1,2) refl] obtain f :: FileSink and events where
    ev: "map (parse_event bit_lib) (text_lines (fs_text f)) = map Some events"
    "st_events_accepted (pl_stats (gw_pipe g)) = of_nat (length events)" by blast
  have "of_nat (length events) = (1 :: u64)" using ev(2) g(3) by simp
  with g(1) ev(1) show ?thesis by blast
qed

end
