(* ===== verification/Http_Target.thy ===== *)
theory Http_Target
  imports Decimal
begin

text \<open>
  The parts of \<^verbatim>\<open>gateway/src/http_sink.cpp\<close> that make strings: \<open>parse_url\<close> splits the sink's URL into a
  target once at construction; \<open>make_key_prefix\<close> and \<open>next_idempotency_key\<close> make the keys of the
  batches. The random 64-bit number behind the prefix is an argument.
\<close>

section \<open>URL\<close>

record Target =
  tg_host :: string
  tg_port :: string
  tg_path :: string
  tg_use_tls :: bool

definition has_prefix :: "string \<Rightarrow> string \<Rightarrow> bool" where
  "has_prefix p s \<longleftrightarrow> take (length p) s = p"

text \<open>\<open>find\<close> and \<open>substr\<close> as the code combines them: what is before the first \<open>c\<close>, and what is from it on
  (\<open>None\<close> for \<open>npos\<close>).\<close>

definition before :: "char \<Rightarrow> string \<Rightarrow> string" where
  "before c s = takeWhile (\<lambda>x. x \<noteq> c) s"

definition from_char :: "char \<Rightarrow> string \<Rightarrow> string option" where
  "from_char c s = (if c \<in> set s then Some (dropWhile (\<lambda>x. x \<noteq> c) s) else None)"

definition parse_authority :: "string \<Rightarrow> bool \<Rightarrow> string \<Rightarrow> string \<Rightarrow> Target result" where
  "parse_authority url use_tls authority path =
     (case from_char CHR '':'' authority of
        None \<Rightarrow> Inr \<lparr>tg_host = authority, tg_port = (if use_tls then ''443'' else ''80''), tg_path = path,
                     tg_use_tls = use_tls\<rparr>
      | Some colon_port \<Rightarrow>
          let host = before CHR '':'' authority; port = tl colon_port
          in if host = '''' \<or> port = ''''
             then Inl (Invalid_Argument (''--sink-url has a malformed host:port: '' @ url))
             else Inr \<lparr>tg_host = host, tg_port = port, tg_path = path, tg_use_tls = use_tls\<rparr>)"

definition parse_rest :: "string \<Rightarrow> bool \<Rightarrow> string \<Rightarrow> Target result" where
  "parse_rest url use_tls rest =
     (let authority = before CHR ''/'' rest;
          path = (case from_char CHR ''/'' rest of None \<Rightarrow> ''/'' | Some p \<Rightarrow> p)
      in if authority = '''' then Inl (Invalid_Argument (''--sink-url has no host: '' @ url))
         else parse_authority url use_tls authority path)"

definition parse_url :: "string \<Rightarrow> Target result" where
  "parse_url url =
     (if has_prefix ''https://'' url then parse_rest url True (drop 8 url)
      else if has_prefix ''http://'' url then parse_rest url False (drop 7 url)
      else Inl (Invalid_Argument (''--sink-url must start with http:// or https:// , got: '' @ url)))"

section \<open>Idempotency keys\<close>

definition hex_digit :: "nat \<Rightarrow> char" where
  "hex_digit d = (if d < 10 then char_of (48 + d) else char_of (87 + d))"

text \<open>\<^verbatim>\<open>snprintf(buffer, 17, "%016llx", n)\<close>: sixteen digits, the most significant first.\<close>

definition make_key_prefix :: "u64 \<Rightarrow> string" where
  "make_key_prefix n = map (\<lambda>i. hex_digit (unat n div 16 ^ i mod 16)) (rev [0..<16])"

definition next_idempotency_key :: "string \<Rightarrow> u64 \<Rightarrow> string \<times> u64" where
  "next_idempotency_key key_prefix key_counter =
     (key_prefix @ ''-'' @ to_string (unat key_counter), key_counter + 1)"

section \<open>Facts\<close>

lemma before_append: "c \<notin> set a \<Longrightarrow> before c (a @ c # r) = a"
  by (simp add: before_def takeWhile_tail takeWhile_eq_all_conv) (metis takeWhile_eq_all_conv)

lemma before_none: "c \<notin> set a \<Longrightarrow> before c a = a"
  by (simp add: before_def takeWhile_eq_all_conv) metis

lemma from_char_append: "c \<notin> set a \<Longrightarrow> from_char c (a @ c # r) = Some (c # r)"
proof -
  assume "c \<notin> set a"
  then have "dropWhile (\<lambda>x. x \<noteq> c) (a @ c # r) = c # r" by (induction a) auto
  then show ?thesis by (simp add: from_char_def)
qed

lemma key_inject:
  "fst (next_idempotency_key p m) = fst (next_idempotency_key p n) \<longleftrightarrow> m = n"
  by (simp add: next_idempotency_key_def to_string_inject word_unat_eq_iff)

section \<open>Properties\<close>

text \<open>C33: \<^verbatim>\<open>parse_url\<close> reads back every URL of the documented form. For a host without a slash or a colon, a
  port without a slash and a path that begins with a slash (or none), \<^verbatim>\<open>http[s]://host[:port][path]\<close> is
  split into these parts; the missing port is 80 or 443 by the scheme, the missing path is \<^verbatim>\<open>/\<close>, and TLS
  is used exactly for \<^verbatim>\<open>https\<close>.\<close>

theorem parse_url_parts:
  assumes "host \<noteq> ''''" and "CHR ''/'' \<notin> set host" and "CHR '':'' \<notin> set host"
    and "case port of None \<Rightarrow> True | Some p \<Rightarrow> p \<noteq> '''' \<and> CHR ''/'' \<notin> set p"
    and "case path of None \<Rightarrow> True | Some p \<Rightarrow> has_prefix ''/'' p"
  shows "parse_url ((if tls then ''https://'' else ''http://'') @ host @
      (case port of None \<Rightarrow> '''' | Some p \<Rightarrow> '':'' @ p) @ (case path of None \<Rightarrow> '''' | Some p \<Rightarrow> p))
    = Inr \<lparr>tg_host = host,
        tg_port = (case port of None \<Rightarrow> if tls then ''443'' else ''80'' | Some p \<Rightarrow> p),
        tg_path = (case path of None \<Rightarrow> ''/'' | Some p \<Rightarrow> p), tg_use_tls = tls\<rparr>"
proof -
  let ?auth = "host @ (case port of None \<Rightarrow> '''' | Some p \<Rightarrow> '':'' @ p)"
  let ?rest = "?auth @ (case path of None \<Rightarrow> '''' | Some p \<Rightarrow> p)"
  let ?url = "(if tls then ''https://'' else ''http://'') @ ?rest"
  have auth: "CHR ''/'' \<notin> set ?auth" "?auth \<noteq> ''''"
    using assms(1,2,4) by (auto split: option.splits)
  have "parse_authority ?url tls ?auth p = Inr \<lparr>tg_host = host,
      tg_port = (case port of None \<Rightarrow> if tls then ''443'' else ''80'' | Some p \<Rightarrow> p), tg_path = p, tg_use_tls = tls\<rparr>" for p
    using assms(1,3,4) from_char_append [OF assms(3)] before_append [OF assms(3)]
    by (cases port) (simp_all add: parse_authority_def from_char_def [of _ host])
  moreover have "before CHR ''/'' ?rest = ?auth \<and>
      (case from_char CHR ''/'' ?rest of None \<Rightarrow> ''/'' | Some p \<Rightarrow> p) = (case path of None \<Rightarrow> ''/'' | Some p \<Rightarrow> p)"
  proof (cases path)
    case None
    moreover have "from_char CHR ''/'' ?auth = None" using auth(1) by (simp only: from_char_def if_False)
    ultimately show ?thesis using before_none [OF auth(1)] by simp
  next
    case (Some p)
    with assms(5) obtain r where "p = CHR ''/'' # r" by (cases p) (auto simp: has_prefix_def)
    with Some before_append [OF auth(1)] from_char_append [OF auth(1)] show ?thesis by simp
  qed
  ultimately have "parse_rest ?url tls ?rest = Inr \<lparr>tg_host = host,
      tg_port = (case port of None \<Rightarrow> if tls then ''443'' else ''80'' | Some p \<Rightarrow> p),
      tg_path = (case path of None \<Rightarrow> ''/'' | Some p \<Rightarrow> p), tg_use_tls = tls\<rparr>"
    using auth(2) by (simp add: parse_rest_def Let_def)
  then show ?thesis by (cases tls) (simp_all add: parse_url_def has_prefix_def)
qed

theorem parse_url_parts_witness:
  "parse_url ''https://example.org:8443/ingest'' =
     Inr \<lparr>tg_host = ''example.org'', tg_port = ''8443'', tg_path = ''/ingest'', tg_use_tls = True\<rparr>"
  using parse_url_parts [of "''example.org''" "Some ''8443''" "Some ''/ingest''" True]
  by (simp add: has_prefix_def)

end
