(* ===== verification/Http_Send.thy ===== *)
theory Http_Send
  imports Http_Target Queue_Types Stats "HOL-Library.Signed_Division"
begin

text \<open>
  The sending side of \<^verbatim>\<open>gateway/src/http_sink.cpp\<close>: the persistent connection of a sink thread,
  \<open>send_once\<close> and \<open>send_with_retries\<close>. The network (Asio, Beast, OpenSSL) is not part of the sources:
  what each of its calls answers in one attempt is the record \<open>net\<close>, and every request handed to the
  network is recorded with the stream it was written to.
\<close>

section \<open>The persistent connection\<close>

text \<open>How far a stream has got: just emplaced, connected, or with its TLS handshake completed, with a peer whose certificate
  chain is trusted and names the host (\<open>Secured\<close>) or with some other peer (\<open>Unverified\<close>).\<close>

datatype link = Fresh | Connected | Unverified | Secured

text \<open>The two optional streams, whether the TLS context has been built and set to \<open>verify_peer\<close>, whether the TLS stream has its
  callback that verifies the host name, what is left over in the read buffer, and whether the \<open>io_context\<close> is in the stopped state a finished \<open>run()\<close> leaves it in.\<close>

record PersistentConnection =
  pc_stream :: "link option"
  pc_tls_stream :: "link option"
  pc_tls_context :: bool
  pc_verify_peer :: bool
  pc_verify_host :: bool
  pc_buffer :: string
  pc_io_stopped :: bool

definition pc_new :: PersistentConnection where
  "pc_new = \<lparr>pc_stream = None, pc_tls_stream = None, pc_tls_context = False, pc_verify_peer = False,
             pc_verify_host = False, pc_buffer = [], pc_io_stopped = False\<rparr>"

definition pc_live :: "PersistentConnection \<Rightarrow> bool" where
  "pc_live c \<longleftrightarrow> pc_stream c \<noteq> None \<or> pc_tls_stream c \<noteq> None"

definition pc_drop :: "PersistentConnection \<Rightarrow> PersistentConnection" where
  "pc_drop c = c\<lparr>pc_tls_stream := None, pc_verify_host := False, pc_stream := None, pc_buffer := [], pc_io_stopped := False\<rparr>"

text \<open>\<open>io_context::run()\<close> completes the operation that was started and delivers its error code, and
  leaves the context stopped; on a context that is already stopped it returns at once, so the error
  code keeps its initial value: no error. The first component is the error, the second whether the
  operation was performed at all.\<close>

definition io_run :: "bool \<Rightarrow> PersistentConnection \<Rightarrow> bool \<times> bool \<times> PersistentConnection" where
  "io_run err c =
     (if pc_io_stopped c then (False, False, c) else (err, True, c\<lparr>pc_io_stopped := True\<rparr>))"

definition io_restart :: "PersistentConnection \<Rightarrow> PersistentConnection" where
  "io_restart c = c\<lparr>pc_io_stopped := False\<rparr>"

section \<open>One attempt\<close>

record OutboundBatch =
  ob_body :: string
  ob_idempotency_key :: string

datatype SendOutcome = Success | RetryableFailure | PermanentFailure

text \<open>What the network answers during one attempt.\<close>

record net =
  net_resolve_error :: bool
  net_trust_error :: bool
  net_sni_ok :: bool
  net_connect_error :: bool
  net_handshake_error :: bool   \<comment> \<open>of the negotiation or the deadline\<close>
  net_chain_trusted :: bool     \<comment> \<open>the peer's chain leads to a trusted authority\<close>
  net_names_host :: bool        \<comment> \<open>the peer's certificate names the host\<close>
  net_failure :: bool        \<comment> \<open>write error, read error or the deadline\<close>
  net_status :: nat
  net_keep_alive :: bool
  net_rest :: string         \<comment> \<open>bytes read beyond the response\<close>

record Request =
  rq_target :: string
  rq_host :: string
  rq_user_agent :: string
  rq_content_type :: string
  rq_idempotency_key :: string
  rq_body :: string

definition make_request :: "Target \<Rightarrow> OutboundBatch \<Rightarrow> Request" where
  "make_request target batch = \<lparr>rq_target = tg_path target, rq_host = tg_host target,
     rq_user_agent = ''edgeflow-gateway'', rq_content_type = ''application/x-ndjson'',
     rq_idempotency_key = ob_idempotency_key batch, rq_body = ob_body batch\<rparr>"

text \<open>A request as the network got it: over the TLS stream or in clear, with how far that stream had
  got when the request was written to it.\<close>

datatype wire = Over_Tls (wire_link: link) (wire_request: Request)
  | In_Clear (wire_link: link) (wire_request: Request)

text \<open>Marking the stream that is engaged: \<open>async_connect\<close> acts on the transport of whichever stream is
  live, \<open>async_handshake\<close> on the TLS stream.\<close>

definition pc_connected :: "PersistentConnection \<Rightarrow> PersistentConnection" where
  "pc_connected c = (if pc_tls_stream c \<noteq> None then c\<lparr>pc_tls_stream := Some Connected\<rparr>
                     else c\<lparr>pc_stream := Some Connected\<rparr>)"

text \<open>OpenSSL in the mode \<open>verify_peer\<close> fails the handshake with a peer whose chain is not trusted or that the callback rejects;
  without that mode it takes any peer.\<close>

definition verify_error :: "net \<Rightarrow> PersistentConnection \<Rightarrow> bool" where
  "verify_error n c \<longleftrightarrow> pc_verify_peer c \<and> (\<not> net_chain_trusted n \<or> pc_verify_host c \<and> \<not> net_names_host n)"

text \<open>Opening a connection, up to the handshake; \<open>False\<close> is a failure the attempt ends with.\<close>

definition tls_handshake :: "net \<Rightarrow> PersistentConnection \<Rightarrow> bool \<times> PersistentConnection" where
  "tls_handshake n c =
     (let (err, ran, c1) = io_run (net_handshake_error n \<or> verify_error n c) (io_restart c);
          peer = (if net_chain_trusted n \<and> net_names_host n then Secured else Unverified)
      in if err then (False, pc_drop c1)
         else (True, if ran then c1\<lparr>pc_tls_stream := Some peer\<rparr> else c1))"

definition tcp_connect :: "Target \<Rightarrow> net \<Rightarrow> PersistentConnection \<Rightarrow> bool \<times> PersistentConnection" where
  "tcp_connect target n c =
     (let (err, ran, c1) = io_run (net_connect_error n) c
      in if err then (False, pc_drop c1)
         else let c2 = (if ran then pc_connected c1 else c1)
              in if tg_use_tls target then tls_handshake n c2 else (True, c2))"

definition open_connection :: "Target \<Rightarrow> net \<Rightarrow> PersistentConnection \<Rightarrow> bool \<times> PersistentConnection" where
  "open_connection target n c =
     (if net_resolve_error n then (False, c)
      else if tg_use_tls target \<and> \<not> pc_tls_context c \<and> net_trust_error n
      then (False, c\<lparr>pc_tls_context := False, pc_verify_peer := False\<rparr>)
      else if tg_use_tls target
      then let c1 = (if pc_tls_context c then c else c\<lparr>pc_tls_context := True, pc_verify_peer := True\<rparr>);
               c2 = c1\<lparr>pc_tls_stream := Some Fresh, pc_verify_host := False\<rparr>
           in if \<not> net_sni_ok n then (False, pc_drop c2)
              else tcp_connect target n (c2\<lparr>pc_verify_host := True\<rparr>)
      else tcp_connect target n (c\<lparr>pc_stream := Some Fresh\<rparr>))"

definition classify :: "nat \<Rightarrow> SendOutcome" where
  "classify status =
     (if status \<ge> 200 \<and> status < 300 then Success
      else if status \<ge> 500 \<or> status = 429 then RetryableFailure
      else PermanentFailure)"

definition exchange :: "Target \<Rightarrow> OutboundBatch \<Rightarrow> net \<Rightarrow> PersistentConnection \<Rightarrow>
    SendOutcome \<times> PersistentConnection \<times> wire list" where
  "exchange target batch n c =
     (let (failure, ran, c1) = io_run (net_failure n) (io_restart c);
          request = make_request target batch;
          sent = (case pc_tls_stream c of
                    Some l \<Rightarrow> [Over_Tls l request]
                  | None \<Rightarrow> (case pc_stream c of Some l \<Rightarrow> [In_Clear l request] | None \<Rightarrow> []))
      in if failure then (RetryableFailure, pc_drop c1, sent)
         else let c2 = c1\<lparr>pc_buffer := net_rest n\<rparr>;
                  c3 = (if \<not> net_keep_alive n then pc_drop c2 else c2)
              in (classify (net_status n), c3, sent))"

definition send_once :: "Target \<Rightarrow> OutboundBatch \<Rightarrow> net \<Rightarrow> PersistentConnection \<Rightarrow>
    SendOutcome \<times> PersistentConnection \<times> wire list" where
  "send_once target batch n c =
     (if pc_live c then exchange target batch n c
      else let (ok, c1) = open_connection target n c
           in if ok then exchange target batch n c1 else (RetryableFailure, c1, []))"

section \<open>Retries\<close>

record http_options =
  ho_url :: string
  ho_outbound_capacity :: nat
  ho_concurrency :: nat
  ho_backpressure :: BackpressurePolicy
  ho_max_retries :: nat
  ho_backoff_base :: int   \<comment> \<open>milliseconds\<close>
  ho_timeout :: int        \<comment> \<open>milliseconds; its effect is in the errors of \<open>net\<close>\<close>

definition http_default_options :: http_options where
  "http_default_options = \<lparr>ho_url = [], ho_outbound_capacity = 256, ho_concurrency = 4,
     ho_backpressure = DropOldest, ho_max_retries = 3, ho_backoff_base = 100, ho_timeout = 5000\<rparr>"

text \<open>What follows from one outcome: return true, return false, or sleep and go round again.\<close>

datatype decision = Delivered | Given_Up | Retry_After int int   \<comment> \<open>the delay and the next backoff\<close>

text \<open>\<open>draw lo hi\<close> is what a \<open>uniform_int_distribution(lo, hi)\<close> answers. The counts of \<open>milliseconds\<close> are 64-bit integers.\<close>

definition wrap64 :: "int \<Rightarrow> int" where
  "wrap64 i = sint (word_of_int i :: 64 word)"

definition after_attempt :: "http_options \<Rightarrow> SendOutcome \<Rightarrow> nat \<Rightarrow> int \<Rightarrow> (int \<Rightarrow> int \<Rightarrow> int) \<Rightarrow> decision" where
  "after_attempt opts outcome attempt backoff draw =
     (if outcome = Success then Delivered
      else if outcome = PermanentFailure then Given_Up
      else if attempt = ho_max_retries opts then Given_Up
      else Retry_After (wrap64 (backoff + draw 0 (backoff sdiv 2))) (min (wrap64 (backoff * 2)) 30000))"

text \<open>The loop from attempt \<open>attempt\<close> on. \<open>nets\<close> and \<open>jitter\<close> give what the network and the random
  distribution answer at each attempt; the result is whether the batch was delivered, the connection,
  the statistics, what went over the wire, the delays slept and the outcome of each attempt.\<close>

record send_result =
  sr_delivered :: bool
  sr_connection :: PersistentConnection
  sr_stats :: Stats
  sr_wire :: "wire list"
  sr_delays :: "int list"
  sr_outcomes :: "SendOutcome list"

function retry_loop ::
    "Target \<Rightarrow> http_options \<Rightarrow> OutboundBatch \<Rightarrow> (nat \<Rightarrow> net) \<Rightarrow> (nat \<Rightarrow> int \<Rightarrow> int \<Rightarrow> int) \<Rightarrow> nat \<Rightarrow> int \<Rightarrow>
     PersistentConnection \<Rightarrow> Stats \<Rightarrow> send_result" where
  "retry_loop target opts batch nets jitter attempt backoff c stats =
     (if attempt > ho_max_retries opts
      then \<lparr>sr_delivered = False, sr_connection = c, sr_stats = stats, sr_wire = [], sr_delays = [],
             sr_outcomes = []\<rparr>
      else
        let (outcome, c1, sent) = send_once target batch (nets attempt) c
        in case after_attempt opts outcome attempt backoff (jitter attempt) of
             Retry_After delay backoff' \<Rightarrow>
               let r = retry_loop target opts batch nets jitter (attempt + 1) backoff' c1
                         (record_batch_retried stats)
               in r\<lparr>sr_wire := sent @ sr_wire r, sr_delays := delay # sr_delays r,
                    sr_outcomes := outcome # sr_outcomes r\<rparr>
           | d \<Rightarrow> \<lparr>sr_delivered = (d = Delivered), sr_connection = c1, sr_stats = stats, sr_wire = sent,
                  sr_delays = [], sr_outcomes = [outcome]\<rparr>)"
  by pat_completeness auto

termination by (relation "measure (\<lambda>(_, opts, _, _, _, attempt, _). Suc (ho_max_retries opts) - attempt)") auto

declare retry_loop.simps [simp del]

definition send_with_retries ::
    "Target \<Rightarrow> http_options \<Rightarrow> OutboundBatch \<Rightarrow> (nat \<Rightarrow> net) \<Rightarrow> (nat \<Rightarrow> int \<Rightarrow> int \<Rightarrow> int) \<Rightarrow>
     PersistentConnection \<Rightarrow> Stats \<Rightarrow> send_result" where
  "send_with_retries target opts batch nets jitter c stats =
     retry_loop target opts batch nets jitter 0 (ho_backoff_base opts) c stats"

text \<open>The backoff in force at each attempt, for stating what the loop does.\<close>

fun backoff_at :: "int \<Rightarrow> nat \<Rightarrow> int" where
  "backoff_at base 0 = base"
| "backoff_at base (Suc k) = backoff_at (min (wrap64 (base * 2)) 30000) k"

section \<open>The connection invariant\<close>

text \<open>Between attempts a connection is live only when fully set up for its scheme, with a verified peer under TLS; a TLS context
  that is built verifies the peer; and a connection that is not live can be opened: its \<open>io_context\<close> would run and its buffer is empty.\<close>

definition pc_ok :: "Target \<Rightarrow> PersistentConnection \<Rightarrow> bool" where
  "pc_ok target c \<longleftrightarrow>
     (if tg_use_tls target then pc_stream c = None \<and> pc_tls_stream c \<in> {None, Some Secured}
      else pc_tls_stream c = None \<and> pc_stream c \<in> {None, Some Connected}) \<and>
     (pc_tls_context c \<longrightarrow> pc_verify_peer c) \<and> (\<not> pc_live c \<longrightarrow> \<not> pc_io_stopped c \<and> pc_buffer c = [])"

definition wire_ok :: "Target \<Rightarrow> OutboundBatch \<Rightarrow> wire \<Rightarrow> bool" where
  "wire_ok target batch w \<longleftrightarrow>
     w = (if tg_use_tls target then Over_Tls Secured (make_request target batch)
          else In_Clear Connected (make_request target batch))"

lemmas conn_defs = pc_ok_def pc_live_def pc_drop_def io_run_def io_restart_def pc_connected_def

lemma pc_ok_new [simp]: "pc_ok target pc_new"
  by (simp add: conn_defs pc_new_def)

lemma pc_drop_ok [simp]:
  "pc_ok target (pc_drop c) \<longleftrightarrow> (pc_tls_context c \<longrightarrow> pc_verify_peer c)" "\<not> pc_live (pc_drop c)" "pc_buffer (pc_drop c) = []"
  by (simp_all add: conn_defs)

lemma open_connection_ok:
  assumes "pc_ok target c" "\<not> pc_live c" "open_connection target n c = (ok, c1)"
  shows "pc_ok target c1 \<and> pc_live c1 = ok"
  using assms
  by (auto simp: open_connection_def tcp_connect_def tls_handshake_def verify_error_def conn_defs Let_def
      split: if_splits prod.splits)

lemma exchange_ok:
  assumes "pc_ok target c" "pc_live c" "exchange target batch n c = (outcome, c1, sent)"
  shows "pc_ok target c1" "\<exists>w. sent = [w] \<and> wire_ok target batch w"
  using assms by (auto simp: exchange_def conn_defs wire_ok_def Let_def split: if_splits option.splits)

lemma send_once_ok:
  assumes "pc_ok target c" "send_once target batch n c = (outcome, c1, sent)"
  shows "pc_ok target c1" "\<forall>w\<in>set sent. wire_ok target batch w" "length sent \<le> 1"
    "outcome \<noteq> RetryableFailure \<Longrightarrow> sent \<noteq> []"
  using assms open_connection_ok [of target c n] exchange_ok [of target _ batch n outcome c1 sent]
  by (fastforce simp: send_once_def split: if_splits prod.splits)+

lemma exchange_outcome:
  assumes "exchange target batch n c = (outcome, c1, sent)" "pc_ok target c" "pc_live c"
  shows "sent \<noteq> []" "pc_live c1 \<longleftrightarrow> \<not> net_failure n \<and> net_keep_alive n"
    "outcome = (if net_failure n then RetryableFailure else classify (net_status n))"
  using assms by (auto simp: exchange_def conn_defs Let_def split: if_splits option.splits)

section \<open>The retry loop\<close>

lemma retry_loop_unfold:
  assumes "attempt \<le> ho_max_retries opts" "send_once target batch (nets attempt) c = (outcome, c1, sent)"
  shows "retry_loop target opts batch nets jitter attempt backoff c stats =
    (case after_attempt opts outcome attempt backoff (jitter attempt) of
       Retry_After delay backoff' \<Rightarrow>
         let r = retry_loop target opts batch nets jitter (attempt + 1) backoff' c1
                   (record_batch_retried stats)
         in r\<lparr>sr_wire := sent @ sr_wire r, sr_delays := delay # sr_delays r,
              sr_outcomes := outcome # sr_outcomes r\<rparr>
     | d \<Rightarrow> \<lparr>sr_delivered = (d = Delivered), sr_connection = c1, sr_stats = stats, sr_wire = sent,
            sr_delays = [], sr_outcomes = [outcome]\<rparr>)"
  using assms by (subst retry_loop.simps) simp

lemma after_attempt_retry:
  assumes "after_attempt opts outcome attempt backoff j = Retry_After delay backoff'" "attempt \<le> ho_max_retries opts"
  shows "outcome = RetryableFailure \<and> attempt < ho_max_retries opts \<and> delay = wrap64 (backoff + j 0 (backoff sdiv 2)) \<and>
    backoff' = min (wrap64 (backoff * 2)) 30000"
  using assms by (cases outcome) (auto simp: after_attempt_def split: if_splits)

text \<open>Everything one call of \<open>send_with_retries\<close> does, for a loop that is at attempt \<open>attempt\<close>.\<close>

definition retry_contract ::
    "Target \<Rightarrow> http_options \<Rightarrow> OutboundBatch \<Rightarrow> (nat \<Rightarrow> int \<Rightarrow> int \<Rightarrow> int) \<Rightarrow> nat \<Rightarrow> int \<Rightarrow> Stats \<Rightarrow> send_result \<Rightarrow> bool" where
  "retry_contract target opts batch jitter attempt backoff stats r \<longleftrightarrow>
     (let n = length (sr_delays r) in
      attempt + n \<le> ho_max_retries opts \<and>
      (\<exists>final. sr_outcomes r = replicate n RetryableFailure @ [final] \<and>
         sr_delivered r = (final = Success) \<and>
         (final = RetryableFailure \<longrightarrow> attempt + n = ho_max_retries opts)) \<and>
      length (sr_wire r) \<le> n + 1 \<and> (sr_delivered r \<longrightarrow> sr_wire r \<noteq> []) \<and>
      (\<forall>w\<in>set (sr_wire r). wire_ok target batch w) \<and>
      sr_stats r = (record_batch_retried ^^ n) stats \<and>
      (\<forall>i<n. sr_delays r ! i =
         wrap64 (backoff_at backoff i + jitter (attempt + i) 0 (backoff_at backoff i sdiv 2))) \<and>
      pc_ok target (sr_connection r))"

lemma retry_contract_final:
  assumes "send_once target batch n c = (outcome, c1, sent)" "pc_ok target c"
    and "attempt \<le> ho_max_retries opts"
    and "after_attempt opts outcome attempt backoff j = d" "\<nexists>delay b. d = Retry_After delay b"
  shows "retry_contract target opts batch jitter attempt backoff stats
    \<lparr>sr_delivered = (d = Delivered), sr_connection = c1, sr_stats = stats, sr_wire = sent,
     sr_delays = [], sr_outcomes = [outcome]\<rparr>"
  using assms send_once_ok [OF assms(2,1)]
  by (cases outcome) (auto simp: retry_contract_def after_attempt_def split: if_splits)

lemma retry_contract_again:
  assumes "retry_contract target opts batch jitter (Suc attempt) (min (wrap64 (backoff * 2)) 30000) (record_batch_retried stats) r"
    and "\<forall>w\<in>set sent. wire_ok target batch w" "length sent \<le> 1"
  shows "retry_contract target opts batch jitter attempt backoff stats
    (r\<lparr>sr_wire := sent @ sr_wire r, sr_delays := wrap64 (backoff + jitter attempt 0 (backoff sdiv 2)) # sr_delays r,
       sr_outcomes := RetryableFailure # sr_outcomes r\<rparr>)"
  using assms unfolding retry_contract_def Let_def
  by (auto simp: nth_Cons funpow_swap1 split: nat.splits)

lemma retry_loop_contract:
  assumes "pc_ok target c" "attempt \<le> ho_max_retries opts"
  shows "retry_contract target opts batch jitter attempt backoff stats
    (retry_loop target opts batch nets jitter attempt backoff c stats)"
  using assms
proof (induction "ho_max_retries opts - attempt" arbitrary: attempt backoff c stats rule: less_induct)
  case less
  obtain outcome c1 sent where once: "send_once target batch (nets attempt) c = (outcome, c1, sent)"
    by (metis prod_cases3)
  note sent = send_once_ok [OF less.prems(1) once]
  note unfold = retry_loop_unfold [where nets = nets, OF less.prems(2) once]
  show ?case
  proof (cases "after_attempt opts outcome attempt backoff (jitter attempt)")
    case (Retry_After delay backoff')
    with after_attempt_retry less.prems(2) have *: "outcome = RetryableFailure" "attempt < ho_max_retries opts"
      "delay = wrap64 (backoff + jitter attempt 0 (backoff sdiv 2))" "backoff' = min (wrap64 (backoff * 2)) 30000" by blast+
    have "retry_contract target opts batch jitter (Suc attempt) (min (wrap64 (backoff * 2)) 30000)
        (record_batch_retried stats) (retry_loop target opts batch nets jitter (Suc attempt)
          (min (wrap64 (backoff * 2)) 30000) c1 (record_batch_retried stats))"
      using less.hyps [of "Suc attempt" c1] sent(1) *(2) by simp
    from retry_contract_again [OF this sent(2,3)] show ?thesis
      unfolding unfold Retry_After by (simp add: * Let_def)
  qed (use retry_contract_final [OF once less.prems] in \<open>force simp: unfold\<close>)+
qed

section \<open>Properties\<close>

text \<open>One attempt, from a connection in order (\<open>pc_ok\<close>, which a new connection is and every attempt
  keeps). The outcome is a retryable failure when no request could be sent or the exchange failed, and
  otherwise follows the status: success for 2xx, retryable for 5xx and 429, permanent for the rest. A
  live connection always carries the request without being reopened, and afterwards the connection is
  live exactly when the exchange completed and the response allows keep-alive, whatever the status.\<close>

theorem send_once_outcome:
  assumes "pc_ok target c" "send_once target batch n c = (outcome, c1, sent)"
  shows "pc_ok target c1 \<and>
    (pc_live c \<longrightarrow> sent \<noteq> []) \<and>
    outcome = (if sent = [] \<or> net_failure n then RetryableFailure
               else if net_status n \<in> {200..<300} then Success
               else if net_status n \<ge> 500 \<or> net_status n = 429 then RetryableFailure
               else PermanentFailure) \<and>
    (pc_live c1 \<longleftrightarrow> sent \<noteq> [] \<and> \<not> net_failure n \<and> net_keep_alive n)"
proof (cases "pc_live c")
  case True
  with assms(2) have "exchange target batch n c = (outcome, c1, sent)" by (simp add: send_once_def)
  from exchange_outcome [OF this assms(1) True] show ?thesis
    using send_once_ok(1) [OF assms] by (auto simp: classify_def)
next
  case dead: False
  obtain ok c' where op: "open_connection target n c = (ok, c')" by force
  note opened = open_connection_ok [OF assms(1) dead op]
  show ?thesis
  proof (cases ok)
    case True
    with assms(2) dead op have "exchange target batch n c' = (outcome, c1, sent)" by (simp add: send_once_def)
    from exchange_outcome [OF this] opened True show ?thesis
      using send_once_ok(1) [OF assms] dead by (auto simp: classify_def)
  next
    case False
    with assms(2) dead op opened show ?thesis by (auto simp: send_once_def)
  qed
qed


text \<open>A backend that answers with the given status, and one that cannot be reached.\<close>

definition net_up :: "nat \<Rightarrow> net" where
  "net_up status = \<lparr>net_resolve_error = False, net_trust_error = False, net_sni_ok = True,
     net_connect_error = False, net_handshake_error = False, net_chain_trusted = True, net_names_host = True, net_failure = False, net_status = status,
     net_keep_alive = True, net_rest = []\<rparr>"

definition net_down :: net where
  "net_down = (net_up 0)\<lparr>net_connect_error := True\<rparr>"

definition tls_target :: Target where
  "tls_target = \<lparr>tg_host = ''h'', tg_port = ''443'', tg_path = ''/'', tg_use_tls = True\<rparr>"

definition sample_batch :: OutboundBatch where
  "sample_batch = \<lparr>ob_body = ''b'', ob_idempotency_key = ''k-0''\<rparr>"

lemmas sample_net_defs = net_up_def net_down_def tls_target_def sample_batch_def pc_new_def
  send_once_def open_connection_def tcp_connect_def tls_handshake_def verify_error_def exchange_def classify_def
  pc_live_def pc_drop_def io_run_def io_restart_def pc_connected_def

theorem send_once_outcome_witness:
  "\<exists>c1 sent. send_once tls_target sample_batch (net_up 503) pc_new = (RetryableFailure, c1, sent) \<and>
     pc_ok tls_target c1 \<and> pc_live c1"
proof -
  obtain outcome c1 sent where
    once: "send_once tls_target sample_batch (net_up 503) pc_new = (outcome, c1, sent)"
    by (metis prod_cases3)
  moreover have "sent \<noteq> []" using once by (auto simp: sample_net_defs)
  ultimately show ?thesis
    using send_once_outcome [OF pc_ok_new once] by (simp add: net_up_def)
qed

text \<open>C20: One call of \<open>send_with_retries\<close>, whatever the network answers. It makes at most
  \<open>1 + max_retries\<close> attempts; all but the last were retryable failures, it returns true exactly when
  the last was a success, and stops on a retryable failure only when the attempts are exhausted. Every
  request put on the wire is the same request, with the batch's body and the one key it was minted
  with, and with an https target each went over a stream whose TLS handshake had completed with a peer whose chain is trusted
  and whose certificate names the host. The
  retry counter rises by one for each delay slept.\<close>

theorem send_with_retries_contract:
  assumes "pc_ok target c" "r = send_with_retries target opts batch nets jitter c stats"
  shows "\<exists>n final. n \<le> ho_max_retries opts \<and> length (sr_delays r) = n \<and>
      sr_outcomes r = replicate n RetryableFailure @ [final] \<and>
      sr_delivered r = (final = Success) \<and>
      (final = RetryableFailure \<longrightarrow> n = ho_max_retries opts) \<and>
      length (sr_wire r) \<le> n + 1 \<and> (sr_delivered r \<longrightarrow> sr_wire r \<noteq> []) \<and>
      (\<forall>w\<in>set (sr_wire r). wire_request w = make_request target batch \<and>
         (tg_use_tls target \<longrightarrow> w = Over_Tls Secured (make_request target batch))) \<and>
      sr_stats r = (record_batch_retried ^^ n) stats \<and> pc_ok target (sr_connection r)"
  using retry_loop_contract [OF assms(1), of 0 opts batch jitter "ho_backoff_base opts" stats nets]
  unfolding assms(2) send_with_retries_def retry_contract_def Let_def wire_ok_def
  by (fastforce split: if_splits)

theorem send_with_retries_contract_witness:
  "\<exists>n final. n \<le> 3 \<and> sr_outcomes (send_with_retries tls_target http_default_options sample_batch
       (\<lambda>k. if k = 0 then net_down else net_up 200) (\<lambda>_ lo hi. lo) pc_new stats_new) =
     replicate n RetryableFailure @ [final] \<and> pc_ok tls_target pc_new"
  using send_with_retries_contract [OF pc_ok_new [of tls_target] refl, where opts = http_default_options and
      batch = sample_batch and nets = "\<lambda>k. if k = 0 then net_down else net_up 200" and
      jitter = "\<lambda>_ lo hi. lo" and stats = stats_new]
  by (auto simp: http_default_options_def)

lemma wrap64_small [simp]: "- (2 ^ 63) \<le> i \<Longrightarrow> i < 2 ^ 63 \<Longrightarrow> wrap64 i = i"
  by (simp add: wrap64_def signed_of_int signed_take_bit_int_eq_self)

lemma backoff_at_low: "0 \<le> base \<Longrightarrow> base \<le> 30000 \<Longrightarrow> backoff_at base k = min (base * 2 ^ k) 30000"
proof (induction k arbitrary: base)
  case (Suc k)
  have one: "1 \<le> (2 :: int) ^ k" by simp
  have w: "wrap64 (base * 2) = base * 2" using Suc.prems by (intro wrap64_small) simp_all
  show ?case
  proof (cases "base * 2 > 30000")
    case True
    have "base * 2 * 1 \<le> base * 2 * 2 ^ k" "30000 * 1 \<le> 30000 * (2 :: int) ^ k"
      using True by (intro mult_left_mono one; simp)+
    moreover have "base * 2 ^ Suc k = base * 2 * 2 ^ k" by simp
    ultimately have "min (base * 2 ^ Suc k) 30000 = 30000" "min (30000 * 2 ^ k) 30000 = (30000 :: int)"
      using True by linarith+
    moreover have "backoff_at base (Suc k) = min (30000 * 2 ^ k) 30000"
      using True Suc.IH [of 30000] by (simp add: w)
    ultimately show ?thesis by simp
  next
    case False
    with Suc show ?thesis by (simp add: w min_def mult_ac)
  qed
qed simp

lemma backoff_at_capped:
  assumes "0 \<le> base" "base < 2 ^ 62"
  shows "backoff_at base i = (if i = 0 then base else min (base * 2 ^ i) 30000)"
proof (cases i)
  case (Suc k)
  have "wrap64 (base * 2) = base * 2" using assms by (intro wrap64_small) simp_all
  moreover have "min (min (base * 2) 30000 * 2 ^ k) 30000 = min (base * 2 ^ Suc k) 30000"
  proof -
    have "(30000 :: int) * 1 \<le> 30000 * 2 ^ k" by (intro mult_left_mono) simp_all
    moreover have "min (base * 2) 30000 * 2 ^ k = min (base * 2 ^ Suc k) (30000 * 2 ^ k)"
      by (simp add: min_mult_distrib_right mult.assoc)
    ultimately show ?thesis by linarith
  qed
  ultimately show ?thesis using assms(1) backoff_at_low [of "min (base * 2) 30000" k] by (simp add: Suc)
qed simp

text \<open>C32: The delays between attempts, with a distribution that answers within the bounds it is given and a base below \<open>2 ^ 62\<close>
  milliseconds (beyond it the doubling overflows). The first delay is at least the base; the \<open>i\<close>-th after it is at least the base
  doubled \<open>i\<close> times and capped at 30 seconds. No delay is shortened by the jitter, and none is longer than one and a half times that.
  The cap does not apply to the first delay: a base above 30 seconds is slept in full once.\<close>

theorem retry_delays_bounded:
  assumes "pc_ok target c" "r = send_with_retries target opts batch nets jitter c stats"
    and "0 \<le> ho_backoff_base opts" "ho_backoff_base opts < 2 ^ 62"
    and "\<And>i lo hi. lo \<le> hi \<Longrightarrow> lo \<le> jitter i lo hi \<and> jitter i lo hi \<le> hi"
    and "i < length (sr_delays r)"
    and "b = (if i = 0 then ho_backoff_base opts else min (ho_backoff_base opts * 2 ^ i) 30000)"
  shows "b \<le> sr_delays r ! i \<and> 2 * (sr_delays r ! i) \<le> 3 * b"
proof -
  have b: "backoff_at (ho_backoff_base opts) i = b" unfolding assms(7) using assms(3,4) by (rule backoff_at_capped)
  have "0 \<le> ho_backoff_base opts * 2 ^ i" using assms(3) by simp
  then have range: "0 \<le> b" "b < 2 ^ 62" using assms(3,4) unfolding assms(7) by (auto simp: min_less_iff_disj)
  have half: "b sdiv 2 = b div 2" using range(1) by (simp add: signed_divide_int_def sgn_if)
  have "sr_delays r ! i = wrap64 (backoff_at (ho_backoff_base opts) i + jitter i 0 (backoff_at (ho_backoff_base opts) i sdiv 2))"
    using retry_loop_contract [OF assms(1), of 0 opts batch jitter "ho_backoff_base opts" stats nets] assms(6)
    unfolding assms(2) send_with_retries_def retry_contract_def Let_def by simp
  then have delay: "sr_delays r ! i = wrap64 (b + jitter i 0 (b div 2))" by (simp only: b half)
  have j: "0 \<le> jitter i 0 (b div 2)" "jitter i 0 (b div 2) \<le> b div 2" using assms(5) [of 0 "b div 2" i] range(1) by simp_all
  have "wrap64 (b + jitter i 0 (b div 2)) = b + jitter i 0 (b div 2)"
    using range j by (intro wrap64_small) simp_all
  then show ?thesis using delay j by linarith
qed

theorem retry_delays_bounded_witness:
  "sr_delays (send_with_retries tls_target http_default_options sample_batch (\<lambda>_. net_down) (\<lambda>_ lo hi. hi) pc_new stats_new) ! 2 \<in>
     {400..600}"
proof -
  let ?r = "send_with_retries tls_target http_default_options sample_batch (\<lambda>_. net_down) (\<lambda>_ lo hi. hi) pc_new stats_new"
  have len: "length (sr_delays ?r) = 3"
    by (simp add: send_with_retries_def retry_loop.simps after_attempt_def http_default_options_def sample_net_defs Let_def)
  from retry_delays_bounded [OF pc_ok_new refl, of http_default_options "\<lambda>_ lo hi. hi" 2 tls_target sample_batch "\<lambda>_. net_down" stats_new] len
  show ?thesis by (simp add: http_default_options_def)
qed

end
