(* ===== verification/Http_Sink.thy ===== *)
theory Http_Sink
  imports Http_Send Bounded_Queue File_Sink
begin

text \<open>
  \<^verbatim>\<open>gateway/src/http_sink.cpp\<close>, the class \<open>HttpSink\<close>: callers of \<open>consume\<close> serialise a batch, mint its key and
  push it on the outbound queue; sink threads pop batches and send them; \<open>stop()\<close> sets the drain
  deadline, shuts the queue down and joins the threads. The steps of callers, sink threads and
  \<open>stop()\<close> interleave: each queue call, each atomic access and each attempt to send is one step.
  History variables record every batch made and where each of them ended.
\<close>

section \<open>The body of a batch\<close>

text \<open>\<open>None\<close>: \<open>serialize_event\<close> has thrown, which leaves \<open>consume\<close> before anything is queued.\<close>

fun batch_body :: "'j json_lib \<Rightarrow> string \<Rightarrow> Event list \<Rightarrow> string option" where
  "batch_body J body [] = Some body"
| "batch_body J body (event # batch) =
     (case serialize_event J event of
        None \<Rightarrow> None
      | Some line \<Rightarrow> batch_body J (body @ line @ [CHR 0x0A]) batch)"

section \<open>State\<close>

text \<open>Where a call of \<open>consume\<close> is.\<close>

datatype consume_pc =
    Outside
  | Has_Body string           \<comment> \<open>serialised, no key yet\<close>
  | Has_Batch OutboundBatch   \<comment> \<open>key minted, not yet pushed\<close>
  | Has_Result PushResult     \<comment> \<open>pushed, drop not yet counted\<close>

text \<open>Where a sink thread is in \<open>run()\<close>.\<close>

datatype sink_pc =
    Sink_Popping
  | Sink_Popped OutboundBatch
  | Sink_Sending OutboundBatch nat int   \<comment> \<open>the attempt about to be made and its backoff\<close>
  | Sink_Exited

record sink_thread =
  th_pc :: sink_pc
  th_connection :: PersistentConnection

datatype stop_pc = Not_Stopped | Stop_Claimed | Deadline_Set | Draining | Joining

record http_sink =
  hs_options :: http_options
  hs_target :: Target
  hs_stats :: Stats
  hs_outbound :: "OutboundBatch BoundedQueue"
  hs_key_prefix :: string
  hs_key_counter :: u64
  hs_draining :: bool
  hs_drain_deadline :: int
  hs_threads :: "sink_thread list"
  hs_stop :: stop_pc                      \<comment> \<open>\<open>stopped_\<close> and how far \<open>stop()\<close> has got\<close>
  hs_callers :: "consume_pc list"
  hs_now :: int                           \<comment> \<open>the steady clock, in milliseconds\<close>
  hs_made :: "OutboundBatch list"         \<comment> \<open>history: every batch that got a key\<close>
  hs_evicted :: "OutboundBatch list"      \<comment> \<open>history: refused by or pushed out of the queue\<close>
  hs_delivered :: "OutboundBatch list"
  hs_abandoned :: "OutboundBatch list"
  hs_wire :: "wire list"
  hs_stop_time :: int                     \<comment> \<open>history: when \<open>stop()\<close> read the clock\<close>

definition kDrainDeadline :: int where
  "kDrainDeadline = 5000"

text \<open>The constructor, with the number drawn for the key prefix; the list of callers is empty-handed.\<close>

definition hs_new :: "http_options \<Rightarrow> u64 \<Rightarrow> int \<Rightarrow> nat \<Rightarrow> Stats \<Rightarrow> http_sink result" where
  "hs_new opts drawn now callers stats =
     bind_result (parse_url (ho_url opts)) (\<lambda>target.
     bind_result (bq_new (ho_outbound_capacity opts) (ho_backpressure opts)) (\<lambda>outbound.
       Inr \<lparr>hs_options = opts, hs_target = target, hs_stats = stats, hs_outbound = outbound,
         hs_key_prefix = make_key_prefix drawn, hs_key_counter = 0, hs_draining = False,
         hs_drain_deadline = 0,
         hs_threads = replicate (ho_concurrency opts) \<lparr>th_pc = Sink_Popping, th_connection = pc_new\<rparr>,
         hs_stop = Not_Stopped, hs_callers = replicate callers Outside, hs_now = now, hs_made = [],
         hs_evicted = [], hs_delivered = [], hs_abandoned = [], hs_wire = [], hs_stop_time = 0\<rparr>))"

section \<open>consume\<close>

text \<open>What a push takes away: the batch itself when it is refused, the oldest one when that is dropped.\<close>

definition push_evicts :: "OutboundBatch BoundedQueue \<Rightarrow> OutboundBatch \<Rightarrow> PushResult \<Rightarrow> OutboundBatch list" where
  "push_evicts q batch r =
     (case r of Accepted \<Rightarrow> [] | DroppedOldest \<Rightarrow> [hd (bq_items q)] | RejectedBackpressure \<Rightarrow> [batch])"

definition count_push :: "PushResult \<Rightarrow> Stats \<Rightarrow> Stats" where
  "count_push r stats =
     (if r = RejectedBackpressure \<or> r = DroppedOldest then record_batch_dropped_outbound stats else stats)"

text \<open>The gateway makes no call of \<open>consume\<close> once \<open>stop()\<close> has begun: \<open>stop()\<close> is called by the destructor,
  after the worker pool was joined and the batcher flushed for the last time.\<close>

inductive consume_step :: "'j json_lib \<Rightarrow> http_sink \<Rightarrow> http_sink \<Rightarrow> bool" for J where
  consume_enter: "i < length (hs_callers s) \<Longrightarrow> hs_callers s ! i = Outside \<Longrightarrow> hs_stop s = Not_Stopped \<Longrightarrow>
    batch \<noteq> [] \<Longrightarrow> batch_body J [] batch = Some body \<Longrightarrow>
    consume_step J s (s\<lparr>hs_callers := (hs_callers s)[i := Has_Body body]\<rparr>)"
| consume_mint: "i < length (hs_callers s) \<Longrightarrow> hs_callers s ! i = Has_Body body \<Longrightarrow>
    next_idempotency_key (hs_key_prefix s) (hs_key_counter s) = (key, counter') \<Longrightarrow>
    queued = \<lparr>ob_body = body, ob_idempotency_key = key\<rparr> \<Longrightarrow>
    consume_step J s (s\<lparr>hs_key_counter := counter', hs_made := hs_made s @ [queued],
      hs_callers := (hs_callers s)[i := Has_Batch queued]\<rparr>)"
| consume_push: "i < length (hs_callers s) \<Longrightarrow> hs_callers s ! i = Has_Batch queued \<Longrightarrow>
    bq_push (hs_outbound s) queued = (r, q') \<Longrightarrow>
    consume_step J s (s\<lparr>hs_outbound := q', hs_evicted := hs_evicted s @ push_evicts (hs_outbound s) queued r,
      hs_callers := (hs_callers s)[i := Has_Result r]\<rparr>)"
| consume_return: "i < length (hs_callers s) \<Longrightarrow> hs_callers s ! i = Has_Result r \<Longrightarrow>
    consume_step J s (s\<lparr>hs_stats := count_push r (hs_stats s), hs_callers := (hs_callers s)[i := Outside]\<rparr>)"

section \<open>run\<close>

definition deadline_passed :: "http_sink \<Rightarrow> bool" where
  "deadline_passed s \<longleftrightarrow> hs_draining s \<and> hs_now s \<ge> hs_drain_deadline s"

inductive sink_step :: "http_sink \<Rightarrow> http_sink \<Rightarrow> bool" where
  sink_pop: "i < length (hs_threads s) \<Longrightarrow> th_pc (hs_threads s ! i) = Sink_Popping \<Longrightarrow>
    bq_pop (hs_outbound s) = Some (Some batch, q') \<Longrightarrow>
    sink_step s (s\<lparr>hs_outbound := q',
      hs_threads := (hs_threads s)[i := (hs_threads s ! i)\<lparr>th_pc := Sink_Popped batch\<rparr>]\<rparr>)"
| sink_exit: "i < length (hs_threads s) \<Longrightarrow> th_pc (hs_threads s ! i) = Sink_Popping \<Longrightarrow>
    bq_pop (hs_outbound s) = Some (None, q') \<Longrightarrow>
    sink_step s (s\<lparr>hs_outbound := q',
      hs_threads := (hs_threads s)[i := (hs_threads s ! i)\<lparr>th_pc := Sink_Exited\<rparr>]\<rparr>)"
| sink_expire: "i < length (hs_threads s) \<Longrightarrow> th_pc (hs_threads s ! i) = Sink_Popped batch \<Longrightarrow>
    deadline_passed s \<Longrightarrow>
    sink_step s (s\<lparr>hs_stats := record_batch_dropped_exhausted (hs_stats s),
      hs_abandoned := hs_abandoned s @ [batch],
      hs_threads := (hs_threads s)[i := (hs_threads s ! i)\<lparr>th_pc := Sink_Popping\<rparr>]\<rparr>)"
| sink_begin: "i < length (hs_threads s) \<Longrightarrow> th_pc (hs_threads s ! i) = Sink_Popped batch \<Longrightarrow>
    \<not> deadline_passed s \<Longrightarrow>
    sink_step s (s\<lparr>hs_threads := (hs_threads s)
      [i := (hs_threads s ! i)\<lparr>th_pc := Sink_Sending batch 0 (ho_backoff_base (hs_options s))\<rparr>]\<rparr>)"
| sink_delivered: "i < length (hs_threads s) \<Longrightarrow> th_pc (hs_threads s ! i) = Sink_Sending batch attempt backoff \<Longrightarrow>
    send_once (hs_target s) batch n (th_connection (hs_threads s ! i)) = (outcome, c', sent) \<Longrightarrow>
    after_attempt (hs_options s) outcome attempt backoff draw = Delivered \<Longrightarrow>
    sink_step s (s\<lparr>hs_stats := record_batch_sent (hs_stats s), hs_wire := hs_wire s @ sent,
      hs_delivered := hs_delivered s @ [batch],
      hs_threads := (hs_threads s)[i := \<lparr>th_pc = Sink_Popping, th_connection = c'\<rparr>]\<rparr>)"
| sink_given_up: "i < length (hs_threads s) \<Longrightarrow> th_pc (hs_threads s ! i) = Sink_Sending batch attempt backoff \<Longrightarrow>
    send_once (hs_target s) batch n (th_connection (hs_threads s ! i)) = (outcome, c', sent) \<Longrightarrow>
    after_attempt (hs_options s) outcome attempt backoff draw = Given_Up \<Longrightarrow>
    sink_step s (s\<lparr>hs_stats := record_batch_dropped_exhausted (hs_stats s), hs_wire := hs_wire s @ sent,
      hs_abandoned := hs_abandoned s @ [batch],
      hs_threads := (hs_threads s)[i := \<lparr>th_pc = Sink_Popping, th_connection = c'\<rparr>]\<rparr>)"
| sink_retry: "i < length (hs_threads s) \<Longrightarrow> th_pc (hs_threads s ! i) = Sink_Sending batch attempt backoff \<Longrightarrow>
    send_once (hs_target s) batch n (th_connection (hs_threads s ! i)) = (outcome, c', sent) \<Longrightarrow>
    after_attempt (hs_options s) outcome attempt backoff draw = Retry_After delay backoff' \<Longrightarrow>
    sink_step s (s\<lparr>hs_stats := record_batch_retried (hs_stats s), hs_wire := hs_wire s @ sent,
      hs_threads := (hs_threads s)[i := \<lparr>th_pc = Sink_Sending batch (attempt + 1) backoff', th_connection = c'\<rparr>]\<rparr>)"

section \<open>stop\<close>

text \<open>The writes of \<open>stop()\<close> in their order; a caller that finds \<open>stopped_\<close> set returns at once and
  changes nothing.\<close>

inductive stop_step :: "http_sink \<Rightarrow> http_sink \<Rightarrow> bool" where
  stop_claim: "hs_stop s = Not_Stopped \<Longrightarrow> set (hs_callers s) \<subseteq> {Outside} \<Longrightarrow>
    stop_step s (s\<lparr>hs_stop := Stop_Claimed\<rparr>)"
| stop_deadline: "hs_stop s = Stop_Claimed \<Longrightarrow>
    stop_step s (s\<lparr>hs_drain_deadline := hs_now s + kDrainDeadline, hs_stop_time := hs_now s,
      hs_stop := Deadline_Set\<rparr>)"
| stop_draining: "hs_stop s = Deadline_Set \<Longrightarrow>
    stop_step s (s\<lparr>hs_draining := True, hs_stop := Draining\<rparr>)"
| stop_shutdown: "hs_stop s = Draining \<Longrightarrow>
    stop_step s (s\<lparr>hs_outbound := bq_shutdown (hs_outbound s), hs_stop := Joining\<rparr>)"

inductive http_step :: "'j json_lib \<Rightarrow> http_sink \<Rightarrow> http_sink \<Rightarrow> bool" for J where
  http_consume: "consume_step J s s' \<Longrightarrow> http_step J s s'"
| http_sink: "sink_step s s' \<Longrightarrow> http_step J s s'"
| http_stop: "stop_step s s' \<Longrightarrow> http_step J s s'"
| http_tick: "hs_now s \<le> now \<Longrightarrow> http_step J s (s\<lparr>hs_now := now\<rparr>)"

inductive http_reach :: "'j json_lib \<Rightarrow> http_sink \<Rightarrow> http_sink \<Rightarrow> bool" for J s0 where
  http_start: "http_reach J s0 s0"
| http_next: "http_reach J s0 s \<Longrightarrow> http_step J s s' \<Longrightarrow> http_reach J s0 s'"

section \<open>Invariants\<close>

fun caller_holds :: "consume_pc \<Rightarrow> OutboundBatch multiset" where
  "caller_holds (Has_Batch batch) = {#batch#}"
| "caller_holds _ = {#}"

fun sink_holds :: "sink_pc \<Rightarrow> OutboundBatch multiset" where
  "sink_holds (Sink_Popped batch) = {#batch#}"
| "sink_holds (Sink_Sending batch attempt backoff) = {#batch#}"
| "sink_holds _ = {#}"

fun uncounted :: "consume_pc \<Rightarrow> u64" where
  "uncounted (Has_Result r) = of_bool (r \<noteq> Accepted)"
| "uncounted _ = 0"

abbreviation calls_hold :: "http_sink \<Rightarrow> OutboundBatch multiset" where
  "calls_hold s \<equiv> sum_list (map caller_holds (hs_callers s))"

abbreviation threads_hold :: "http_sink \<Rightarrow> OutboundBatch multiset" where
  "threads_hold s \<equiv> sum_list (map (\<lambda>t. sink_holds (th_pc t)) (hs_threads s))"

text \<open>Every batch made is in exactly one place.\<close>

definition batch_ledger :: "http_sink \<Rightarrow> bool" where
  "batch_ledger s \<longleftrightarrow> mset (hs_made s) = calls_hold s + mset (bq_items (hs_outbound s)) + threads_hold s +
     mset (hs_evicted s) + mset (hs_delivered s) + mset (hs_abandoned s)"

definition counters :: "http_sink \<Rightarrow> bool" where
  "counters s \<longleftrightarrow> st_batches_sent (hs_stats s) = of_nat (length (hs_delivered s)) \<and>
     st_batches_dropped_exhausted (hs_stats s) = of_nat (length (hs_abandoned s)) \<and>
     st_batches_dropped_outbound (hs_stats s) + sum_list (map uncounted (hs_callers s))
       = of_nat (length (hs_evicted s))"

definition keys :: "http_sink \<Rightarrow> bool" where
  "keys s \<longleftrightarrow> hs_key_counter s = of_nat (length (hs_made s)) \<and>
     map ob_idempotency_key (hs_made s) =
       map (\<lambda>i. fst (next_idempotency_key (hs_key_prefix s) (of_nat i))) [0..<length (hs_made s)]"

definition sending :: "http_sink \<Rightarrow> bool" where
  "sending s \<longleftrightarrow> (\<forall>t\<in>set (hs_threads s). pc_ok (hs_target s) (th_connection t)) \<and>
     (\<forall>w\<in>set (hs_wire s). \<exists>batch\<in>set (hs_made s). wire_ok (hs_target s) batch w) \<and>
     (\<forall>batch\<in>set (hs_delivered s). \<exists>w\<in>set (hs_wire s). wire_ok (hs_target s) batch w)"

fun within_attempts :: "nat \<Rightarrow> sink_pc \<Rightarrow> bool" where
  "within_attempts limit (Sink_Sending batch attempt backoff) = (attempt \<le> limit)"
| "within_attempts limit _ = True"

definition stopping :: "http_sink \<Rightarrow> bool" where
  "stopping s \<longleftrightarrow> bq_inv (hs_outbound s) \<and>
     (bq_shutting_down (hs_outbound s) \<longleftrightarrow> hs_stop s = Joining) \<and>
     (hs_draining s \<longleftrightarrow> hs_stop s \<in> {Draining, Joining}) \<and>
     (hs_stop s \<in> {Deadline_Set, Draining, Joining} \<longrightarrow>
        hs_drain_deadline s = hs_stop_time s + kDrainDeadline) \<and>
     (hs_stop s \<noteq> Not_Stopped \<longrightarrow> set (hs_callers s) \<subseteq> {Outside}) \<and>
     (Sink_Exited \<in> th_pc ` set (hs_threads s) \<longrightarrow> hs_stop s = Joining \<and> bq_items (hs_outbound s) = []) \<and>
     (\<forall>t\<in>set (hs_threads s). within_attempts (ho_max_retries (hs_options s)) (th_pc t))"

lemmas caller_update = sum_list_map_update [of _ "hs_callers s" for s]
lemmas thread_update = sum_list_map_update [of _ "hs_threads s" for s]

lemma bq_pop_cases:
  "bq_pop q = Some (Some x, q') \<longleftrightarrow> (\<exists>rest. bq_items q = x # rest \<and> q' = q\<lparr>bq_items := rest\<rparr>)"
  "bq_pop q = Some (None, q') \<longleftrightarrow> bq_items q = [] \<and> bq_shutting_down q \<and> q' = q"
  by (auto simp: bq_pop_def bq_pop_ready_def split: list.splits if_splits)

lemma bq_push_ledger:
  assumes "bq_push q batch = (r, q')" "bq_inv q"
  shows "mset (bq_items q') + mset (push_evicts q batch r) = mset (bq_items q) + {#batch#}"
    and "of_nat (length (push_evicts q batch r)) = (of_bool (r \<noteq> Accepted) :: u64)"
  using assms
  by (cases "bq_items q"; auto simp: bq_push_def push_evicts_def bq_inv_def split: if_splits)+

lemma consume_step_ledger:
  assumes "consume_step J s s'" "batch_ledger s" "bq_inv (hs_outbound s)"
  shows "batch_ledger s'"
  using assms
proof (induction rule: consume_step.induct)
  case (consume_push i s queued r q')
  have "calls_hold s = calls_hold (s\<lparr>hs_callers := (hs_callers s)[i := Has_Result r]\<rparr>) + {#queued#}"
    using caller_update [OF consume_push(1), of caller_holds "Has_Result r"] consume_push(2) by simp
  with consume_push(4) bq_push_ledger(1) [OF consume_push(3,5)] show ?case
    by (simp add: batch_ledger_def add_ac)
next
  case (consume_enter i s batch body)
  with caller_update [OF consume_enter(1), of caller_holds "Has_Body body"] show ?case by (simp add: batch_ledger_def)
next
  case (consume_mint i s body key counter' queued)
  with caller_update [OF consume_mint(1), of caller_holds "Has_Batch queued"] show ?case by (simp add: batch_ledger_def)
next
  case (consume_return i s r)
  with caller_update [OF consume_return(1), of caller_holds Outside] show ?case by (simp add: batch_ledger_def)
qed

lemma thread_holds_update:
  assumes "i < length (hs_threads s)" and "th_pc (hs_threads s ! i) = pc"
  shows "threads_hold (s\<lparr>hs_threads := (hs_threads s)[i := t]\<rparr>) + sink_holds pc = threads_hold s + sink_holds (th_pc t)"
  using thread_update [OF assms(1), of "\<lambda>t. sink_holds (th_pc t)" t] assms(2) by simp

lemma sink_step_ledger:
  assumes "sink_step s s'" "batch_ledger s"
  shows "batch_ledger s'"
  using assms
proof (induction rule: sink_step.induct)
  case (sink_pop i s batch q')
  with thread_holds_update [OF sink_pop(1,2), of "(hs_threads s ! i)\<lparr>th_pc := Sink_Popped batch\<rparr>"]
  show ?case by (auto simp: batch_ledger_def bq_pop_cases add_ac)
next
  case (sink_exit i s q')
  with thread_holds_update [OF sink_exit(1,2), of "(hs_threads s ! i)\<lparr>th_pc := Sink_Exited\<rparr>"]
  show ?case by (auto simp: batch_ledger_def bq_pop_cases add_ac)
next
  case (sink_expire i s batch)
  with thread_holds_update [OF sink_expire(1,2), of "(hs_threads s ! i)\<lparr>th_pc := Sink_Popping\<rparr>"]
  show ?case by (auto simp: batch_ledger_def add_ac)
next
  case (sink_begin i s batch)
  with thread_holds_update [OF sink_begin(1,2), of
      "(hs_threads s ! i)\<lparr>th_pc := Sink_Sending batch 0 (ho_backoff_base (hs_options s))\<rparr>"]
  show ?case by (auto simp: batch_ledger_def add_ac)
next
  case (sink_delivered i s batch attempt backoff n outcome c' sent jitter)
  with thread_holds_update [OF sink_delivered(1,2), of "\<lparr>th_pc = Sink_Popping, th_connection = c'\<rparr>"]
  show ?case by (auto simp: batch_ledger_def add_ac)
next
  case (sink_given_up i s batch attempt backoff n outcome c' sent jitter)
  with thread_holds_update [OF sink_given_up(1,2), of "\<lparr>th_pc = Sink_Popping, th_connection = c'\<rparr>"]
  show ?case by (auto simp: batch_ledger_def add_ac)
next
  case (sink_retry i s batch attempt backoff n outcome c' sent jitter delay backoff')
  with thread_holds_update [OF sink_retry(1,2), of
      "\<lparr>th_pc = Sink_Sending batch (attempt + 1) backoff', th_connection = c'\<rparr>"]
  show ?case by (auto simp: batch_ledger_def add_ac)
qed

lemma consume_step_counters:
  assumes "consume_step J s s'" "counters s" "bq_inv (hs_outbound s)"
  shows "counters s'"
  using assms
proof (induction rule: consume_step.induct)
  case (consume_push i s queued r q')
  have "sum_list (map uncounted ((hs_callers s)[i := Has_Result r]))
      = sum_list (map uncounted (hs_callers s)) + of_bool (r \<noteq> Accepted)"
    using caller_update [OF consume_push(1), of uncounted "Has_Result r"] consume_push(2) by simp
  with consume_push(4) bq_push_ledger(2) [OF consume_push(3,5)] show ?case
    by (simp add: counters_def add_ac del: of_bool_eq_0_iff)
next
  case (consume_return i s r)
  have "sum_list (map uncounted (hs_callers s))
      = sum_list (map uncounted ((hs_callers s)[i := Outside])) + of_bool (r \<noteq> Accepted)"
    using caller_update [OF consume_return(1), of uncounted Outside] consume_return(2) by simp
  with consume_return(3) show ?case
    by (cases r) (auto simp: counters_def count_push_def stats_defs add_ac)
next
  case (consume_enter i s batch body)
  with caller_update [OF consume_enter(1), of uncounted "Has_Body body"] show ?case by (simp add: counters_def)
next
  case (consume_mint i s body key counter' queued)
  with caller_update [OF consume_mint(1), of uncounted "Has_Batch queued"] show ?case by (simp add: counters_def)
qed

lemma sink_step_counters: "sink_step s s' \<Longrightarrow> counters s \<Longrightarrow> counters s'"
  by (induction rule: sink_step.induct) (simp_all add: counters_def stats_defs)

lemma consume_step_keys: "consume_step J s s' \<Longrightarrow> keys s \<Longrightarrow> keys s'"
  by (induction rule: consume_step.induct) (auto simp: keys_def next_idempotency_key_def)

lemma http_step_frame:
  "http_step J s s' \<Longrightarrow> hs_target s' = hs_target s \<and> hs_options s' = hs_options s \<and> hs_key_prefix s' = hs_key_prefix s"
  by (induction rule: http_step.induct) (auto elim!: consume_step.cases sink_step.cases stop_step.cases)

lemma consume_step_frame:
  "consume_step J s s' \<Longrightarrow> hs_threads s' = hs_threads s \<and> hs_wire s' = hs_wire s \<and>
     hs_delivered s' = hs_delivered s \<and> hs_target s' = hs_target s \<and> set (hs_made s) \<subseteq> set (hs_made s')"
  by (induction rule: consume_step.induct) auto

lemma sink_step_frame:
  "sink_step s s' \<Longrightarrow> hs_made s' = hs_made s \<and> hs_key_counter s' = hs_key_counter s \<and>
     hs_key_prefix s' = hs_key_prefix s \<and> hs_target s' = hs_target s \<and> hs_callers s' = hs_callers s \<and>
     hs_stop s' = hs_stop s"
  by (induction rule: sink_step.induct) auto

text \<open>The one step of a thread that uses its connection.\<close>

lemma sink_step_sending:
  assumes "sink_step s s'" "sending s" "batch_ledger s"
  shows "sending s'"
proof -
  have made: "batch \<in> set (hs_made s)" if "i < length (hs_threads s)" "th_pc (hs_threads s ! i) = Sink_Sending batch a b" for i batch a b
  proof -
    have "\<exists>t\<in>set (hs_threads s). batch \<in># sink_holds (th_pc t)"
      using that nth_mem [OF that(1)] by (intro bexI [of _ "hs_threads s ! i"]) simp_all
    then have "batch \<in># mset (hs_made s)" using assms(3) unfolding batch_ledger_def by simp
    then show ?thesis by simp
  qed
  have use: "pc_ok (hs_target s) c' \<and> (\<forall>w\<in>set sent. \<exists>b\<in>set (hs_made s). wire_ok (hs_target s) b w) \<and>
      (outcome = Success \<longrightarrow> (\<exists>w\<in>set sent. wire_ok (hs_target s) batch w))"
    if "i < length (hs_threads s)" "th_pc (hs_threads s ! i) = Sink_Sending batch a b"
      "send_once (hs_target s) batch n (th_connection (hs_threads s ! i)) = (outcome, c', sent)" for i batch a b n outcome c' sent
  proof -
    have "pc_ok (hs_target s) (th_connection (hs_threads s ! i))"
      using assms(2) that(1) by (simp add: sending_def)
    from send_once_ok [OF this that(3)] made [OF that(1,2)] show ?thesis
      by (cases sent) auto
  qed
  have upd: "\<forall>t\<in>set ((hs_threads s)[i := t']). pc_ok (hs_target s) (th_connection t)"
    if "pc_ok (hs_target s) (th_connection t')" for i t'
    using assms(2) that set_update_subset_insert [of "hs_threads s" i t'] by (auto simp: sending_def)
  have moved: "\<forall>t\<in>set ((hs_threads s)[i := (hs_threads s ! i)\<lparr>th_pc := pc\<rparr>]). pc_ok (hs_target s) (th_connection t)"
    if "i < length (hs_threads s)" for i pc
    using assms(2) that by (intro upd) (simp add: sending_def)
  show ?thesis
    using assms(1)
  proof (cases rule: sink_step.cases)
    case (sink_delivered i batch attempt backoff n outcome c' sent jitter)
    moreover have "outcome = Success" using sink_delivered(5) by (auto simp: after_attempt_def split: if_splits)
    ultimately show ?thesis
      using use [OF sink_delivered(2-4)] upd [of "\<lparr>th_pc = Sink_Popping, th_connection = c'\<rparr>" i] assms(2)
      by (auto simp: sending_def)
  next
    case (sink_given_up i batch attempt backoff n outcome c' sent jitter)
    then show ?thesis
      using use [OF sink_given_up(2-4)] upd [of "\<lparr>th_pc = Sink_Popping, th_connection = c'\<rparr>" i] assms(2)
      by (auto simp: sending_def)
  next
    case (sink_retry i batch attempt backoff n outcome c' sent jitter delay backoff')
    then show ?thesis
      using use [OF sink_retry(2-4)] assms(2)
        upd [of "\<lparr>th_pc = Sink_Sending batch (attempt + 1) backoff', th_connection = c'\<rparr>" i]
      by (auto simp: sending_def)
  qed (use assms(2) in \<open>simp_all add: sending_def moved\<close>)
qed

lemma consume_step_stopping:
  assumes "consume_step J s s'" "stopping s"
  shows "stopping s'"
proof -
  have outside: "hs_callers s ! i = Outside" if "hs_stop s \<noteq> Not_Stopped" "i < length (hs_callers s)" for i
    using assms(2) that nth_mem [OF that(2)] unfolding stopping_def by blast
  have exited: "Sink_Exited \<notin> th_pc ` set (hs_threads s)" if "hs_stop s = Not_Stopped"
    using assms(2) that by (auto simp: stopping_def)
  show ?thesis
    using assms(1)
  proof (cases rule: consume_step.cases)
    case (consume_push i queued r q')
    then have "hs_stop s = Not_Stopped" using outside [of i] by (cases "hs_stop s = Not_Stopped") auto
    moreover have "bq_shutting_down q' = bq_shutting_down (hs_outbound s)"
      using consume_push(4) by (auto simp: bq_push_def split: if_splits)
    moreover have "bq_inv q'"
      using bq_push_inv [OF _ consume_push(4)] assms(2) by (simp add: stopping_def)
    ultimately show ?thesis using consume_push(1) exited assms(2) by (simp add: stopping_def)
  next
    case (consume_mint i body key counter' queued)
    then have "hs_stop s = Not_Stopped" using outside [of i] by (cases "hs_stop s = Not_Stopped") auto
    with consume_mint(1) assms(2) show ?thesis by (simp add: stopping_def)
  next
    case (consume_return i r)
    then have "hs_stop s = Not_Stopped" using outside [of i] by (cases "hs_stop s = Not_Stopped") auto
    with consume_return(1) assms(2) show ?thesis by (simp add: stopping_def)
  next
    case (consume_enter i batch body)
    with assms(2) show ?thesis by (simp add: stopping_def)
  qed
qed

text \<open>How a thread's new state enters the invariant of \<open>stop()\<close>.\<close>

lemma stopping_thread:
  assumes "stopping s" and "bq_inv q" "bq_shutting_down q = bq_shutting_down (hs_outbound s)"
    and "bq_items (hs_outbound s) = [] \<Longrightarrow> bq_items q = []"
    and "th_pc t = Sink_Exited \<Longrightarrow> hs_stop s = Joining \<and> bq_items q = []"
    and "within_attempts (ho_max_retries (hs_options s)) (th_pc t)"
    and "hs_outbound s' = q" "hs_threads s' = (hs_threads s)[i := t]" "hs_options s' = hs_options s"
    and "hs_stop s' = hs_stop s" "hs_callers s' = hs_callers s" "hs_draining s' = hs_draining s"
    and "hs_drain_deadline s' = hs_drain_deadline s" "hs_stop_time s' = hs_stop_time s"
  shows "stopping s'"
proof -
  have sub: "set ((hs_threads s)[i := t]) \<subseteq> insert t (set (hs_threads s))"
    by (rule set_update_subset_insert)
  have "Sink_Exited \<in> th_pc ` set (hs_threads s) \<Longrightarrow> hs_stop s = Joining \<and> bq_items (hs_outbound s) = []"
    using assms(1) unfolding stopping_def by (elim conjE) simp
  moreover have "th_pc ` set ((hs_threads s)[i := t]) \<subseteq> insert (th_pc t) (th_pc ` set (hs_threads s))"
    using sub by auto
  ultimately have "Sink_Exited \<in> th_pc ` set ((hs_threads s)[i := t]) \<longrightarrow> hs_stop s = Joining \<and> bq_items q = []"
    using assms(4,5) by (metis insertE subsetD)
  moreover have "within_attempts (ho_max_retries (hs_options s)) (th_pc u)"
    if "u \<in> set ((hs_threads s)[i := t])" for u
    using assms(1,6) subsetD [OF sub that] by (auto simp: stopping_def)
  moreover note assms(1) [unfolded stopping_def] assms(2,3)
  ultimately show ?thesis unfolding stopping_def assms(7-14) by (intro conjI ballI) blast+
qed

lemma sink_step_stopping:
  assumes "sink_step s s'" "stopping s"
  shows "stopping s'"
proof -
  have q: "bq_inv (hs_outbound s)" using assms(2) by (simp add: stopping_def)
  have att: "attempt \<le> ho_max_retries (hs_options s)"
    if "i < length (hs_threads s)" "th_pc (hs_threads s ! i) = Sink_Sending batch attempt backoff" for i batch attempt backoff
  proof -
    have "within_attempts (ho_max_retries (hs_options s)) (th_pc (hs_threads s ! i))"
      using assms(2) nth_mem [OF that(1)] unfolding stopping_def by blast
    then show ?thesis by (simp add: that(2))
  qed
  show ?thesis
    using assms(1)
  proof (cases rule: sink_step.cases)
    case (sink_pop i batch q')
    then show ?thesis
      by (intro stopping_thread [OF assms(2), of q' "(hs_threads s ! i)\<lparr>th_pc := Sink_Popped batch\<rparr>" _ i])
         (use q in \<open>auto simp: bq_pop_cases bq_inv_def\<close>)
  next
    case (sink_exit i q')
    then show ?thesis
      by (intro stopping_thread [OF assms(2), of q' "(hs_threads s ! i)\<lparr>th_pc := Sink_Exited\<rparr>" _ i])
         (use q assms(2) in \<open>auto simp: bq_pop_cases stopping_def\<close>)
  next
    case (sink_retry i batch attempt backoff n outcome c' sent jitter delay backoff')
    with att after_attempt_retry [OF sink_retry(5)] show ?thesis
      by (intro stopping_thread [OF assms(2) q,
            of "\<lparr>th_pc = Sink_Sending batch (attempt + 1) backoff', th_connection = c'\<rparr>" _ i]) fastforce+
  next
    case (sink_expire i batch)
    then show ?thesis
      by (intro stopping_thread [OF assms(2) q, of "(hs_threads s ! i)\<lparr>th_pc := Sink_Popping\<rparr>" _ i]) auto
  next
    case (sink_begin i batch)
    then show ?thesis
      by (intro stopping_thread [OF assms(2) q, of
            "(hs_threads s ! i)\<lparr>th_pc := Sink_Sending batch 0 (ho_backoff_base (hs_options s))\<rparr>" _ i]) auto
  next
    case (sink_delivered i batch attempt backoff n outcome c' sent jitter)
    then show ?thesis
      by (intro stopping_thread [OF assms(2) q, of "\<lparr>th_pc = Sink_Popping, th_connection = c'\<rparr>" _ i]) auto
  next
    case (sink_given_up i batch attempt backoff n outcome c' sent jitter)
    then show ?thesis
      by (intro stopping_thread [OF assms(2) q, of "\<lparr>th_pc = Sink_Popping, th_connection = c'\<rparr>" _ i]) auto
  qed
qed

definition http_inv :: "http_sink \<Rightarrow> bool" where
  "http_inv s \<longleftrightarrow> batch_ledger s \<and> counters s \<and> keys s \<and> sending s \<and> stopping s"

lemma http_step_inv:
  assumes "http_step J s s'" "http_inv s"
  shows "http_inv s'"
  using assms
proof (induction rule: http_step.induct)
  case (http_consume s s')
  have "sending s'"
    using consume_step_frame [OF http_consume(1)] http_consume(2) by (fastforce simp: http_inv_def sending_def)
  with http_consume consume_step_ledger consume_step_counters consume_step_keys consume_step_stopping
  show ?case unfolding http_inv_def by (metis stopping_def)
next
  case (http_sink s s')
  have "keys s'" using sink_step_frame [OF http_sink(1)] http_sink(2) by (auto simp: http_inv_def keys_def)
  with http_sink sink_step_ledger sink_step_counters sink_step_sending sink_step_stopping
  show ?case unfolding http_inv_def by blast
next
  case (http_stop s s')
  then show ?case
    by (cases rule: stop_step.cases)
       (auto simp: http_inv_def batch_ledger_def counters_def keys_def sending_def stopping_def bq_inv_def bq_shutdown_def)
next
  case (http_tick s now)
  then show ?case
    by (auto simp: http_inv_def batch_ledger_def counters_def keys_def sending_def stopping_def)
qed

lemma hs_new_inv:
  assumes "hs_new opts drawn now callers stats_new = Inr s"
  shows "http_inv s"
proof -
  have "sum_list (map uncounted (replicate n Outside)) = 0" "sum_list (map caller_holds (replicate n Outside)) = {#}"
    "sum_list (map (\<lambda>t. sink_holds (th_pc t)) (replicate n \<lparr>th_pc = Sink_Popping, th_connection = pc_new\<rparr>)) = {#}" for n
    by (induction n) simp_all
  then show ?thesis using assms
    by (auto simp: hs_new_def bq_new_def bind_result_def http_inv_def batch_ledger_def counters_def keys_def sending_def
        stopping_def stats_new_def bq_inv_def simp del: map_replicate sum_list_replicate split: sum.splits if_splits)
qed

lemma http_reach_inv:
  assumes "http_reach J s0 s" "hs_new opts drawn now callers stats_new = Inr s0"
  shows "http_inv s"
  using assms by (induction rule: http_reach.induct) (blast intro: hs_new_inv http_step_inv)+

section \<open>Stopping comes to an end\<close>

fun sink_weight :: "nat \<Rightarrow> sink_pc \<Rightarrow> nat" where
  "sink_weight limit Sink_Popping = 1"
| "sink_weight limit (Sink_Popped batch) = limit + 3"
| "sink_weight limit (Sink_Sending batch attempt backoff) = limit - attempt + 2"
| "sink_weight limit Sink_Exited = 0"

definition sink_work :: "http_sink \<Rightarrow> nat" where
  "sink_work s = (ho_max_retries (hs_options s) + 3) * length (bq_items (hs_outbound s)) +
     sum_list (map (\<lambda>t. sink_weight (ho_max_retries (hs_options s)) (th_pc t)) (hs_threads s))"

lemma sink_work_bound:
  "sink_work s \<le> (ho_max_retries (hs_options s) + 3) * (length (bq_items (hs_outbound s)) + length (hs_threads s))"
proof -
  have "sum_list (map (\<lambda>t. sink_weight m (th_pc t)) ts) \<le> (m + 3) * length ts" for m and ts :: "sink_thread list"
  proof (induction ts)
    case (Cons t ts)
    have "sink_weight m (th_pc t) \<le> m + 3" by (cases "th_pc t") auto
    with Cons show ?case by simp
  qed simp
  then show ?thesis by (simp add: sink_work_def distrib_left)
qed

lemma sink_weight_update:
  assumes "i < length (hs_threads s)" "th_pc (hs_threads s ! i) = pc"
  shows "sum_list (map (\<lambda>t. sink_weight m (th_pc t)) ((hs_threads s)[i := t'])) + sink_weight m pc
    = sum_list (map (\<lambda>t. sink_weight m (th_pc t)) (hs_threads s)) + sink_weight m (th_pc t')"
  using thread_update [OF assms(1), of "\<lambda>t. sink_weight m (th_pc t)" t'] assms(2) by simp

lemma sink_step_work:
  assumes "sink_step s s'" "stopping s"
  shows "sink_work s' < sink_work s"
proof -
  let ?m = "ho_max_retries (hs_options s)"
  have att: "within_attempts ?m (th_pc (hs_threads s ! i))" if "i < length (hs_threads s)" for i
    using assms(2) nth_mem [OF that] unfolding stopping_def by blast
  show ?thesis
    using assms(1)
  proof (cases rule: sink_step.cases)
    case (sink_pop i batch q')
    with sink_weight_update [OF sink_pop(2,3), of ?m "(hs_threads s ! i)\<lparr>th_pc := Sink_Popped batch\<rparr>"]
    show ?thesis by (auto simp: sink_work_def bq_pop_cases)
  next
    case (sink_exit i q')
    with sink_weight_update [OF sink_exit(2,3), of ?m "(hs_threads s ! i)\<lparr>th_pc := Sink_Exited\<rparr>"]
    show ?thesis by (auto simp: sink_work_def bq_pop_cases)
  next
    case (sink_expire i batch)
    with sink_weight_update [OF sink_expire(2,3), of ?m "(hs_threads s ! i)\<lparr>th_pc := Sink_Popping\<rparr>"]
    show ?thesis by (simp add: sink_work_def)
  next
    case (sink_begin i batch)
    with sink_weight_update [OF sink_begin(2,3), of ?m
        "(hs_threads s ! i)\<lparr>th_pc := Sink_Sending batch 0 (ho_backoff_base (hs_options s))\<rparr>"]
    show ?thesis by (simp add: sink_work_def)
  next
    case (sink_delivered i batch attempt backoff n outcome c' sent jitter)
    with sink_weight_update [OF sink_delivered(2,3), of ?m "\<lparr>th_pc = Sink_Popping, th_connection = c'\<rparr>"]
    show ?thesis by (simp add: sink_work_def)
  next
    case (sink_given_up i batch attempt backoff n outcome c' sent jitter)
    with sink_weight_update [OF sink_given_up(2,3), of ?m "\<lparr>th_pc = Sink_Popping, th_connection = c'\<rparr>"]
    show ?thesis by (simp add: sink_work_def)
  next
    case (sink_retry i batch attempt backoff n outcome c' sent jitter delay backoff')
    have "attempt < ?m" using after_attempt_retry [OF sink_retry(5)] att [OF sink_retry(2)] sink_retry(3) by simp
    with sink_retry sink_weight_update [OF sink_retry(2,3), of ?m
        "\<lparr>th_pc = Sink_Sending batch (attempt + 1) backoff', th_connection = c'\<rparr>"]
    show ?thesis by (simp add: sink_work_def)
  qed
qed

lemma sink_progress:
  assumes "stopping s" "hs_stop s = Joining" "i < length (hs_threads s)" "th_pc (hs_threads s ! i) \<noteq> Sink_Exited"
  shows "\<exists>s'. sink_step s s'"
proof (cases "th_pc (hs_threads s ! i)")
  case Sink_Popping
  have "bq_shutting_down (hs_outbound s)" using assms(1,2) by (simp add: stopping_def)
  then obtain r q' where "bq_pop (hs_outbound s) = Some (r, q')"
    by (cases "bq_items (hs_outbound s)") (auto simp: bq_pop_def bq_pop_ready_def)
  then show ?thesis using sink_pop [OF assms(3) Sink_Popping] sink_exit [OF assms(3) Sink_Popping] by (cases r) blast+
next
  case (Sink_Popped batch)
  then show ?thesis using sink_expire [OF assms(3)] sink_begin [OF assms(3)] by blast
next
  case (Sink_Sending batch attempt backoff)
  obtain outcome c' sent where
    "send_once (hs_target s) batch (net_up 200) (th_connection (hs_threads s ! i)) = (outcome, c', sent)"
    by (metis prod_cases3)
  note steps = sink_delivered [OF assms(3) Sink_Sending this] sink_given_up [OF assms(3) Sink_Sending this]
    sink_retry [OF assms(3) Sink_Sending this]
  show ?thesis using steps by (cases "after_attempt (hs_options s) outcome attempt backoff (\<lambda>lo hi. lo)") blast+
qed (use assms(4) in simp)

lemma sink_runs_bounded:
  "(sink_step ^^ n) s s' \<Longrightarrow> http_inv s \<Longrightarrow> n + sink_work s' \<le> sink_work s \<and> http_inv s'"
proof (induction n arbitrary: s')
  case (Suc n)
  then obtain s1 where s1: "(sink_step ^^ n) s s1" "sink_step s1 s'" by auto
  with Suc have "n + sink_work s1 \<le> sink_work s" "http_inv s1" by blast+
  moreover have "sink_work s' < sink_work s1"
    using sink_step_work [OF s1(2)] calculation(2) by (simp add: http_inv_def)
  moreover have "http_inv s'" using http_step_inv [OF http_step.http_sink [OF s1(2)] calculation(2)] .
  ultimately show ?case by simp
qed simp

lemma sink_threads_finish:
  assumes "http_inv s" "hs_stop s = Joining"
  shows "\<exists>s'. sink_step\<^sup>*\<^sup>* s s' \<and> th_pc ` set (hs_threads s') \<subseteq> {Sink_Exited}"
  using assms
proof (induction "sink_work s" arbitrary: s rule: less_induct)
  case less
  show ?case
  proof (cases "th_pc ` set (hs_threads s) \<subseteq> {Sink_Exited}")
    case False
    then obtain i where "i < length (hs_threads s)" "th_pc (hs_threads s ! i) \<noteq> Sink_Exited"
      by (metis image_subsetI in_set_conv_nth singletonI)
    then obtain s1 where s1: "sink_step s s1"
      using sink_progress less.prems by (auto simp: http_inv_def)
    have "http_inv s1" using http_step_inv [OF http_step.http_sink [OF s1] less.prems(1)] .
    moreover have "sink_work s1 < sink_work s" using sink_step_work [OF s1] less.prems(1) by (simp add: http_inv_def)
    moreover have "hs_stop s1 = Joining" using sink_step_frame [OF s1] less.prems(2) by simp
    ultimately show ?thesis using less.hyps s1 by (meson converse_rtranclp_into_rtranclp)
  qed blast
qed

lemma stop_joins:
  assumes "set (hs_callers s) \<subseteq> {Outside}"
  shows "\<exists>s'. stop_step\<^sup>*\<^sup>* s s' \<and> hs_stop s' = Joining"
proof -
  have 4: "\<exists>s'. stop_step\<^sup>*\<^sup>* s s' \<and> hs_stop s' = Joining" if "hs_stop s = Draining" for s
    using stop_shutdown [OF that]
    by (intro exI [of _ "s\<lparr>hs_outbound := bq_shutdown (hs_outbound s), hs_stop := Joining\<rparr>"]) auto
  have 3: "\<exists>s'. stop_step\<^sup>*\<^sup>* s s' \<and> hs_stop s' = Joining" if "hs_stop s = Deadline_Set" for s
    using stop_draining [OF that] 4 [of "s\<lparr>hs_draining := True, hs_stop := Draining\<rparr>"]
    by (auto intro: converse_rtranclp_into_rtranclp)
  have 2: "\<exists>s'. stop_step\<^sup>*\<^sup>* s s' \<and> hs_stop s' = Joining" if "hs_stop s = Stop_Claimed" for s
    using stop_deadline [OF that] 3 [of "s\<lparr>hs_drain_deadline := hs_now s + kDrainDeadline, hs_stop_time := hs_now s,
      hs_stop := Deadline_Set\<rparr>"] by (auto intro: converse_rtranclp_into_rtranclp)
  have 1: "\<exists>s'. stop_step\<^sup>*\<^sup>* s s' \<and> hs_stop s' = Joining" if "hs_stop s = Not_Stopped"
    using stop_claim [OF that assms] 2 [of "s\<lparr>hs_stop := Stop_Claimed\<rparr>"]
    by (auto intro: converse_rtranclp_into_rtranclp)
  show ?thesis using 1 2 3 4 by (cases "hs_stop s") blast+
qed

lemma sink_drained:
  assumes "http_inv s" "hs_threads s \<noteq> []" "th_pc ` set (hs_threads s) \<subseteq> {Sink_Exited}"
  shows "mset (hs_made s) = mset (hs_delivered s) + mset (hs_abandoned s) + mset (hs_evicted s)"
    and "st_batches_dropped_outbound (hs_stats s) = of_nat (length (hs_evicted s))"
    and "hs_stop s = Joining"
proof -
  have "Sink_Exited \<in> th_pc ` set (hs_threads s)" using assms(2,3) by (cases "hs_threads s") auto
  with assms(1) have q: "hs_stop s = Joining" "bq_items (hs_outbound s) = []" "set (hs_callers s) \<subseteq> {Outside}"
    by (auto simp: http_inv_def stopping_def)
  have "sum_list (map caller_holds cs) = {#} \<and> sum_list (map uncounted cs) = 0" if "set cs \<subseteq> {Outside}" for cs
    using that by (induction cs) auto
  from this [OF q(3)] have "calls_hold s = {#}" "sum_list (map uncounted (hs_callers s)) = 0" by blast+
  moreover have "sum_list (map (\<lambda>t. sink_holds (th_pc t)) ts) = {#}" if "th_pc ` set ts \<subseteq> {Sink_Exited}"
    for ts :: "sink_thread list" using that by (induction ts) auto
  then have "threads_hold s = {#}" using assms(3) .
  ultimately show "mset (hs_made s) = mset (hs_delivered s) + mset (hs_abandoned s) + mset (hs_evicted s)"
    "st_batches_dropped_outbound (hs_stats s) = of_nat (length (hs_evicted s))" "hs_stop s = Joining"
    using assms(1) q by (auto simp: http_inv_def batch_ledger_def counters_def)
qed

section \<open>A run\<close>

text \<open>One caller, one thread, an https target: a batch is queued and delivered, and the sink is stopped.\<close>

definition demo_options :: http_options where
  "demo_options = http_default_options\<lparr>ho_url := ''https://h'', ho_concurrency := 1\<rparr>"

definition demo_connection :: PersistentConnection where
  "demo_connection = \<lparr>pc_stream = None, pc_tls_stream = Some Secured, pc_tls_context = True,
     pc_verify_peer = True, pc_verify_host = True, pc_buffer = [],
     pc_io_stopped = True\<rparr>"

definition demo_batch :: "string \<Rightarrow> OutboundBatch" where
  "demo_batch body = \<lparr>ob_body = body, ob_idempotency_key = fst (next_idempotency_key (make_key_prefix 7) 0)\<rparr>"

lemma demo_new:
  "hs_new demo_options 7 0 1 stats_new = Inr \<lparr>hs_options = demo_options, hs_target = tls_target,
     hs_stats = stats_new, hs_outbound = \<lparr>bq_cap = 256, bq_policy = DropOldest, bq_items = [], bq_shutting_down = False\<rparr>,
     hs_key_prefix = make_key_prefix 7, hs_key_counter = 0, hs_draining = False, hs_drain_deadline = 0,
     hs_threads = [\<lparr>th_pc = Sink_Popping, th_connection = pc_new\<rparr>], hs_stop = Not_Stopped,
     hs_callers = [Outside], hs_now = 0, hs_made = [], hs_evicted = [], hs_delivered = [], hs_abandoned = [],
     hs_wire = [], hs_stop_time = 0\<rparr>"
proof -
  have "parse_url ''https://h'' = Inr tls_target"
    by (simp add: parse_url_def parse_rest_def parse_authority_def has_prefix_def before_def from_char_def
        tls_target_def)
  then show ?thesis
    by (simp add: hs_new_def demo_options_def http_default_options_def bq_new_def)
qed

lemma demo_send:
  "send_once tls_target batch (net_up 200) pc_new =
     (Success, demo_connection, [Over_Tls Secured (make_request tls_target batch)])"
  by (simp add: sample_net_defs demo_connection_def)

lemma http_demo_run:
  assumes "batch \<noteq> []" "batch_body J [] batch = Some body" "hs_new demo_options 7 0 1 stats_new = Inr s0"
  shows "\<exists>s. http_reach J s0 s \<and> hs_made s = [demo_batch body] \<and> hs_delivered s = [demo_batch body] \<and>
    hs_wire s = [Over_Tls Secured (make_request tls_target (demo_batch body))] \<and> hs_target s = tls_target \<and>
    hs_threads s \<noteq> [] \<and> th_pc ` set (hs_threads s) = {Sink_Exited} \<and> hs_stop s = Joining"
proof -
  let ?q = "\<lambda>xs c. \<lparr>bq_cap = 256, bq_policy = DropOldest, bq_items = xs, bq_shutting_down = c\<rparr>"
  let ?D = "\<lambda>st q n dr dl pc c stp cl made del w. \<lparr>hs_options = demo_options, hs_target = tls_target, hs_stats = st,
     hs_outbound = q, hs_key_prefix = make_key_prefix 7, hs_key_counter = n, hs_draining = dr, hs_drain_deadline = dl,
     hs_threads = [\<lparr>th_pc = pc, th_connection = c\<rparr>], hs_stop = stp, hs_callers = [cl], hs_now = 0, hs_made = made,
     hs_evicted = [], hs_delivered = del, hs_abandoned = [], hs_wire = w, hs_stop_time = 0\<rparr>"
  let ?b = "demo_batch body" and ?st = "record_batch_sent stats_new"
  let ?w = "[Over_Tls Secured (make_request tls_target ?b)]"
  let ?E = "?D stats_new (?q [] False) 0 False 0 Sink_Popping pc_new Not_Stopped"
  let ?M = "?D stats_new (?q [] False) 1 False 0 Sink_Popping pc_new Not_Stopped"
  let ?P = "\<lambda>pc xs. ?D stats_new (?q xs False) 1 False 0 pc pc_new Not_Stopped Outside [?b] [] []"
  let ?F = "\<lambda>stp q dr dl pc. ?D ?st q 1 dr dl pc demo_connection stp Outside [?b] [?b] ?w"
  have 0: "s0 = ?E Outside [] [] []" using assms(3) unfolding demo_new by simp
  have 1: "http_step J s0 (?E (Has_Body body) [] [] [])"
    unfolding 0 using consume_enter [of 0 "?E Outside [] [] []" batch J body] assms(1,2)
    by (intro http_consume) simp
  have 2: "http_step J (?E (Has_Body body) [] [] []) (?M (Has_Batch ?b) [?b] [] [])"
    using consume_mint [of 0 "?E (Has_Body body) [] [] []" body
        "fst (next_idempotency_key (make_key_prefix 7) 0)" 1 ?b J]
    by (intro http_consume) (simp add: demo_batch_def next_idempotency_key_def)
  have 3: "http_step J (?M (Has_Batch ?b) [?b] [] []) (?D stats_new (?q [?b] False) 1 False 0 Sink_Popping pc_new
      Not_Stopped (Has_Result Accepted) [?b] [] [])"
    using consume_push [of 0 "?M (Has_Batch ?b) [?b] [] []" ?b Accepted "?q [?b] False" J]
    by (intro http_consume) (simp add: bq_push_def push_evicts_def)
  have 4: "http_step J (?D stats_new (?q [?b] False) 1 False 0 Sink_Popping pc_new Not_Stopped (Has_Result Accepted) [?b] [] [])
      (?P Sink_Popping [?b])"
    using consume_return [of 0 "?D stats_new (?q [?b] False) 1 False 0 Sink_Popping pc_new
        Not_Stopped (Has_Result Accepted) [?b] [] []" Accepted J]
    by (intro http_consume) (simp add: count_push_def)
  have 5: "http_step J (?P Sink_Popping [?b]) (?P (Sink_Popped ?b) [])"
    using sink_pop [of 0 "?P Sink_Popping [?b]" ?b "?q [] False"]
    by (intro http_step.http_sink) (simp add: bq_pop_cases)
  have 6: "http_step J (?P (Sink_Popped ?b) []) (?P (Sink_Sending ?b 0 100) [])"
    using sink_begin [of 0 "?P (Sink_Popped ?b) []" ?b]
    by (intro http_step.http_sink) (simp add: deadline_passed_def demo_options_def http_default_options_def)
  have 7: "http_step J (?P (Sink_Sending ?b 0 100) []) (?F Not_Stopped (?q [] False) False 0 Sink_Popping)"
    using sink_delivered [of 0 "?P (Sink_Sending ?b 0 100) []" ?b 0 100 "net_up 200" Success demo_connection ?w "\<lambda>lo hi. lo"]
    by (intro http_step.http_sink) (simp add: demo_send after_attempt_def)
  have 8: "http_step J (?F Not_Stopped (?q [] False) False 0 Sink_Popping) (?F Stop_Claimed (?q [] False) False 0 Sink_Popping)"
    using stop_claim [of "?F Not_Stopped (?q [] False) False 0 Sink_Popping"] by (intro http_stop) simp
  have 9: "http_step J (?F Stop_Claimed (?q [] False) False 0 Sink_Popping) (?F Deadline_Set (?q [] False) False 5000 Sink_Popping)"
    using stop_deadline [of "?F Stop_Claimed (?q [] False) False 0 Sink_Popping"]
    by (intro http_stop) (simp add: kDrainDeadline_def)
  have 10: "http_step J (?F Deadline_Set (?q [] False) False 5000 Sink_Popping) (?F Draining (?q [] False) True 5000 Sink_Popping)"
    using stop_draining [of "?F Deadline_Set (?q [] False) False 5000 Sink_Popping"] by (intro http_stop) simp
  have 11: "http_step J (?F Draining (?q [] False) True 5000 Sink_Popping) (?F Joining (?q [] True) True 5000 Sink_Popping)"
    using stop_shutdown [of "?F Draining (?q [] False) True 5000 Sink_Popping"]
    by (intro http_stop) (simp add: bq_shutdown_def)
  have 12: "http_step J (?F Joining (?q [] True) True 5000 Sink_Popping) (?F Joining (?q [] True) True 5000 Sink_Exited)"
    using sink_exit [of 0 "?F Joining (?q [] True) True 5000 Sink_Popping" "?q [] True"]
    by (intro http_step.http_sink) (simp add: bq_pop_cases)
  have "http_reach J s0 (?F Joining (?q [] True) True 5000 Sink_Exited)"
    by (rule http_next [OF http_next [OF http_next [OF http_next [OF http_next [OF http_next [OF http_next [OF
      http_next [OF http_next [OF http_next [OF http_next [OF http_next [OF http_start 1] 2] 3] 4] 5] 6] 7] 8] 9] 10] 11] 12])
  then show ?thesis by (intro exI conjI) (assumption | simp)+
qed

lemma sample_body:
  "\<exists>body. batch_body bit_lib [] [sample_event] = Some body"
proof -
  have "serialize_event bit_lib sample_event \<noteq> None"
    using serialize_event_clean [OF bit_lib_documented, of sample_event]
    by (auto simp: event_clean_def sample_event_def)
  then show ?thesis by auto
qed

section \<open>Properties\<close>

text \<open>C10: Accounting of batches. At every moment each batch that got a key is in exactly one place: held
  by a call of \<open>consume\<close>, in the outbound queue, held by a sink thread, delivered, abandoned, or pushed
  out of the queue. The counters of sent and exhausted batches count the delivered and the abandoned
  ones, and the outbound counter the ones pushed out, less the calls that have yet to count. When the
  sink threads have all returned, every batch was delivered, abandoned or pushed out, and the three
  counters add up to the number of batches made.\<close>

theorem http_batches_accounted:
  assumes "hs_new opts drawn now callers stats_new = Inr s0" "http_reach J s0 s"
  shows "mset (hs_made s) = sum_list (map caller_holds (hs_callers s)) + mset (bq_items (hs_outbound s)) +
      sum_list (map (\<lambda>t. sink_holds (th_pc t)) (hs_threads s)) +
      mset (hs_evicted s) + mset (hs_delivered s) + mset (hs_abandoned s) \<and>
    st_batches_sent (hs_stats s) = of_nat (length (hs_delivered s)) \<and>
    st_batches_dropped_exhausted (hs_stats s) = of_nat (length (hs_abandoned s)) \<and>
    st_batches_dropped_outbound (hs_stats s) + sum_list (map uncounted (hs_callers s))
      = of_nat (length (hs_evicted s)) \<and>
    (hs_threads s \<noteq> [] \<and> th_pc ` set (hs_threads s) \<subseteq> {Sink_Exited} \<longrightarrow>
      mset (hs_made s) = mset (hs_delivered s) + mset (hs_abandoned s) + mset (hs_evicted s) \<and>
      st_batches_sent (hs_stats s) + st_batches_dropped_exhausted (hs_stats s) +
        st_batches_dropped_outbound (hs_stats s) = of_nat (length (hs_made s)))"
proof -
  note inv = http_reach_inv [OF assms(2,1)]
  have counts: "counters s" and batch_ledger: "batch_ledger s" using inv by (simp_all add: http_inv_def)
  have "length (hs_made s) = length (hs_delivered s) + length (hs_abandoned s) + length (hs_evicted s) \<and>
      st_batches_dropped_outbound (hs_stats s) = of_nat (length (hs_evicted s)) \<and>
      mset (hs_made s) = mset (hs_delivered s) + mset (hs_abandoned s) + mset (hs_evicted s)"
    if "hs_threads s \<noteq> []" "th_pc ` set (hs_threads s) \<subseteq> {Sink_Exited}"
    using sink_drained(1,2) [OF inv that] by (metis size_mset size_union)
  with counts batch_ledger show ?thesis unfolding counters_def batch_ledger_def by auto
qed

theorem http_batches_accounted_witness:
  "\<exists>s0 s. hs_new demo_options 7 0 1 stats_new = Inr s0 \<and> http_reach bit_lib s0 s \<and> length (hs_made s) = 1 \<and>
     st_batches_sent (hs_stats s) = 1 \<and>
     st_batches_sent (hs_stats s) + st_batches_dropped_exhausted (hs_stats s) +
        st_batches_dropped_outbound (hs_stats s) = 1"
proof -
  obtain body where body: "batch_body bit_lib [] [sample_event] = Some body" using sample_body by blast
  obtain s0 where s0: "hs_new demo_options 7 0 1 stats_new = Inr s0" unfolding demo_new by blast
  obtain s where s: "http_reach bit_lib s0 s" "hs_made s = [demo_batch body]" "hs_delivered s = [demo_batch body]"
    "hs_threads s \<noteq> []" "th_pc ` set (hs_threads s) = {Sink_Exited}"
    using http_demo_run [OF _ body s0] by auto
  show ?thesis using http_batches_accounted [OF s0 s(1)] s0 s by auto
qed

text \<open>C21: Idempotency keys. The \<open>i\<close>-th batch made carries the process prefix and the decimal number
  \<open>i\<close>, and as long as the 64-bit counter has not wrapped no two batches share a key, whatever the
  interleaving of the callers.\<close>

theorem http_keys_unique:
  assumes "hs_new opts drawn now callers stats_new = Inr s0" "http_reach J s0 s" "length (hs_made s) \<le> 2 ^ 64"
  shows "distinct (map ob_idempotency_key (hs_made s))"
proof -
  have "keys s" using http_reach_inv [OF assms(2,1)] by (simp add: http_inv_def)
  then have "map ob_idempotency_key (hs_made s) =
      map (\<lambda>i. fst (next_idempotency_key (hs_key_prefix s) (of_nat i))) [0..<length (hs_made s)]"
    by (simp add: keys_def)
  moreover have "inj_on (\<lambda>i. fst (next_idempotency_key (hs_key_prefix s) (of_nat i))) {0..<length (hs_made s)}"
  proof (rule inj_onI)
    fix i j assume "i \<in> {0..<length (hs_made s)}" "j \<in> {0..<length (hs_made s)}"
    with assms(3) have "i < 2 ^ 64" "j < 2 ^ 64" by auto
    moreover assume "fst (next_idempotency_key (hs_key_prefix s) (of_nat i)) = fst (next_idempotency_key (hs_key_prefix s) (of_nat j))"
    then have "(of_nat i :: u64) = of_nat j" by (simp only: key_inject)
    ultimately show "i = j" by (metis unat_of_nat_u64)
  qed
  ultimately show ?thesis by (simp add: distinct_map)
qed


theorem http_keys_unique_witness:
  "\<exists>s0 s. hs_new demo_options 7 0 1 stats_new = Inr s0 \<and> http_reach bit_lib s0 s \<and> length (hs_made s) = 1 \<and>
     distinct (map ob_idempotency_key (hs_made s))"
proof -
  obtain body where body: "batch_body bit_lib [] [sample_event] = Some body" using sample_body by blast
  obtain s0 where s0: "hs_new demo_options 7 0 1 stats_new = Inr s0" unfolding demo_new by blast
  obtain s where s: "http_reach bit_lib s0 s" "hs_made s = [demo_batch body]"
    using http_demo_run [OF _ body s0] by auto
  have "length (hs_made s) \<le> 2 ^ 64" by (simp add: s(2))
  from http_keys_unique [OF s0 s(1) this] s0 s show ?thesis by auto
qed

text \<open>C11: No cleartext. With an https URL every request any thread has ever handed to the network is
  the request of a batch made by \<open>consume\<close>, written to a TLS stream whose handshake had completed with a
  peer whose certificate chain is trusted and names the host, and every batch counted as delivered was sent so.\<close>

theorem https_never_in_clear:
  assumes "hs_new opts drawn now callers stats_new = Inr s0" "http_reach J s0 s" "tg_use_tls (hs_target s)"
  shows "(\<forall>w\<in>set (hs_wire s). \<exists>batch\<in>set (hs_made s). w = Over_Tls Secured (make_request (hs_target s) batch)) \<and>
    (\<forall>batch\<in>set (hs_delivered s). Over_Tls Secured (make_request (hs_target s) batch) \<in> set (hs_wire s))"
  using http_reach_inv [OF assms(2,1)] assms(3) by (auto simp: http_inv_def sending_def wire_ok_def)

theorem https_never_in_clear_witness:
  "\<exists>s0 s batch. hs_new demo_options 7 0 1 stats_new = Inr s0 \<and> http_reach bit_lib s0 s \<and> hs_delivered s = [batch] \<and>
     Over_Tls Secured (make_request (hs_target s) batch) \<in> set (hs_wire s)"
proof -
  obtain body where body: "batch_body bit_lib [] [sample_event] = Some body" using sample_body by blast
  obtain s0 where s0: "hs_new demo_options 7 0 1 stats_new = Inr s0" unfolding demo_new by blast
  obtain s where s: "http_reach bit_lib s0 s" "hs_delivered s = [demo_batch body]" "hs_target s = tls_target"
    using http_demo_run [OF _ body s0] by auto
  have "tg_use_tls (hs_target s)" by (simp add: s(3) tls_target_def)
  from https_never_in_clear [OF s0 s(1) this] s0 s show ?thesis by auto
qed

text \<open>C19: Stopping. Once \<open>stop()\<close> has shut the queue down the sink threads take at most
  \<open>(max_retries + 3)\<close> steps for each queued batch and each thread, whatever the network answers, and
  can always go on until every thread has returned. A thread drops a batch for the deadline only when
  at least five seconds have passed since \<open>stop()\<close> read the clock.\<close>

theorem http_stop_terminates:
  assumes "hs_new opts drawn now callers stats_new = Inr s0" "http_reach J s0 s" "hs_stop s = Joining"
  shows "(\<exists>s'. sink_step\<^sup>*\<^sup>* s s' \<and> th_pc ` set (hs_threads s') \<subseteq> {Sink_Exited}) \<and>
    (\<forall>n s'. (sink_step ^^ n) s s' \<longrightarrow>
       n \<le> (ho_max_retries (hs_options s) + 3) * (length (bq_items (hs_outbound s)) + length (hs_threads s))) \<and>
    (deadline_passed s \<longrightarrow> hs_stop_time s + 5000 \<le> hs_now s)"
proof -
  note inv = http_reach_inv [OF assms(2,1)]
  note sink_work_bound [of s]
  moreover have "n \<le> sink_work s" if "(sink_step ^^ n) s s'" for n s'
    using sink_runs_bounded [OF that inv] by linarith
  moreover have "hs_stop_time s + 5000 \<le> hs_now s" if "deadline_passed s"
    using that inv assms(3) by (simp add: http_inv_def stopping_def deadline_passed_def kDrainDeadline_def)
  ultimately show ?thesis using sink_threads_finish [OF inv assms(3)] by (meson le_trans)
qed

theorem http_stop_terminates_witness:
  "\<exists>s0 s s'. hs_new demo_options 7 0 1 stats_new = Inr s0 \<and> http_reach bit_lib s0 s \<and> hs_stop s = Joining \<and>
     sink_step\<^sup>*\<^sup>* s s' \<and> th_pc ` set (hs_threads s') \<subseteq> {Sink_Exited}"
proof -
  obtain body where body: "batch_body bit_lib [] [sample_event] = Some body" using sample_body by blast
  obtain s0 where s0: "hs_new demo_options 7 0 1 stats_new = Inr s0" unfolding demo_new by blast
  obtain s where s: "http_reach bit_lib s0 s" "hs_stop s = Joining"
    using http_demo_run [OF _ body s0] by auto
  from http_stop_terminates [OF s0 s] s0 s show ?thesis by blast
qed

lemma batch_body_acc: "batch_body J acc batch = map_option (\<lambda>body. acc @ body) (batch_body J [] batch)"
proof (induction batch arbitrary: acc)
  case (Cons e batch)
  show ?case
  proof (cases "serialize_event J e")
    case (Some line)
    then show ?thesis
      using Cons [of "acc @ line @ [CHR 0x0A]"] Cons [of "line @ [CHR 0x0A]"]
      by (simp add: option.map_comp comp_def)
  qed simp
qed simp

text \<open>The body of a POST is byte for byte what \<open>FileSink\<close> appends for the same batch, and
  \<open>consume\<close> of the one throws exactly when \<open>consume\<close> of the other does.\<close>

theorem http_body_is_file_text:
  assumes "fs_good f"
  shows "case batch_body J [] batch of
      Some body \<Rightarrow> fs_consume J batch f = (True, f\<lparr>fs_text := fs_text f @ body\<rparr>)
    | None \<Rightarrow> \<not> fst (fs_consume J batch f)"
  using assms
proof (induction batch arbitrary: f)
  case (Cons e batch)
  show ?case
  proof (cases "serialize_event J e")
    case (Some line)
    with Cons.prems Cons.IH [of "fs_put (line @ [CHR 0x0A]) f"] show ?thesis
      by (auto simp: fs_put_def batch_body_acc [of J "line @ [CHR 0x0A]"] split: option.splits)
  qed simp
qed simp

theorem http_body_is_file_text_witness:
  "\<exists>body. batch_body bit_lib [] [sample_event] = Some body \<and>
     fs_consume bit_lib [sample_event] \<lparr>fs_good = True, fs_text = ''x''\<rparr> = (True, \<lparr>fs_good = True, fs_text = ''x'' @ body\<rparr>)"
proof -
  obtain body where body: "batch_body bit_lib [] [sample_event] = Some body" using sample_body by blast
  have "fs_good \<lparr>fs_good = True, fs_text = ''x''\<rparr>" by simp
  from http_body_is_file_text [OF this, of bit_lib "[sample_event]"] body show ?thesis by simp
qed

text \<open>\<open>consume\<close> never waits, under any policy: a call that has a batch to push always gets through
  the push and the count in two steps. Under \<open>Block\<close> with a full queue, where the class comment says
  that \<open>consume\<close> waits, the queue is left as it is, the new batch is lost and the outbound counter
  rises by one.\<close>

theorem consume_never_waits:
  assumes "i < length (hs_callers s)" "hs_callers s ! i = Has_Batch queued"
  shows "\<exists>s1 s2. consume_step J s s1 \<and> consume_step J s1 s2 \<and> hs_callers s2 = (hs_callers s)[i := Outside] \<and>
    (bq_policy (hs_outbound s) = Block \<and> bq_cap (hs_outbound s) \<le> length (bq_items (hs_outbound s)) \<longrightarrow>
       hs_outbound s2 = hs_outbound s \<and> hs_evicted s2 = hs_evicted s @ [queued] \<and>
       st_batches_dropped_outbound (hs_stats s2) = st_batches_dropped_outbound (hs_stats s) + 1)"
proof -
  obtain r q' where push: "bq_push (hs_outbound s) queued = (r, q')" by force
  let ?s1 = "s\<lparr>hs_outbound := q', hs_evicted := hs_evicted s @ push_evicts (hs_outbound s) queued r,
    hs_callers := (hs_callers s)[i := Has_Result r]\<rparr>"
  have 1: "consume_step J s ?s1" by (rule consume_push [OF assms push])
  have 2: "consume_step J ?s1 (?s1\<lparr>hs_stats := count_push r (hs_stats ?s1),
      hs_callers := (hs_callers ?s1)[i := Outside]\<rparr>)"
    by (rule consume_return) (use assms(1) in simp_all)
  have "r = RejectedBackpressure \<and> q' = hs_outbound s"
    if "bq_policy (hs_outbound s) = Block" "bq_cap (hs_outbound s) \<le> length (bq_items (hs_outbound s))"
    using push that by (simp add: bq_push_def)
  then show ?thesis
    by (intro exI [of _ ?s1] exI [of _ "?s1\<lparr>hs_stats := count_push r (hs_stats ?s1),
          hs_callers := (hs_callers ?s1)[i := Outside]\<rparr>"] conjI 1 2)
       (auto simp: count_push_def push_evicts_def stats_defs)
qed

definition full_sink :: http_sink where
  "full_sink = \<lparr>hs_options = demo_options, hs_target = tls_target, hs_stats = stats_new,
     hs_outbound = \<lparr>bq_cap = 1, bq_policy = Block, bq_items = [sample_batch], bq_shutting_down = False\<rparr>,
     hs_key_prefix = [], hs_key_counter = 2, hs_draining = False, hs_drain_deadline = 0, hs_threads = [],
     hs_stop = Not_Stopped, hs_callers = [Has_Batch (demo_batch ''b'')], hs_now = 0,
     hs_made = [sample_batch, demo_batch ''b''], hs_evicted = [], hs_delivered = [], hs_abandoned = [], hs_wire = [],
     hs_stop_time = 0\<rparr>"

theorem consume_never_waits_witness:
  "\<exists>s1 s2. consume_step bit_lib full_sink s1 \<and> consume_step bit_lib s1 s2 \<and>
     hs_evicted s2 = [demo_batch ''b''] \<and> st_batches_dropped_outbound (hs_stats s2) = 1"
  using consume_never_waits [of 0 full_sink "demo_batch ''b''" bit_lib]
  by (fastforce simp: full_sink_def stats_new_def)

end
