(* ===== verification/Gateway_Main.thy ===== *)
theory Gateway_Main
  imports Gateway Http_Sink
begin

text \<open>
  \<open>main\<close> of \<^verbatim>\<open>gateway/src/main.cpp\<close>: the construction of the queue and of the sink from the command line, and
  the threads with the order of the shutdown: the reactor returns after a signal, the flush thread is
  told and joined, the pool is stopped and joined, the batcher is flushed for the last time. The theory
  \<open>Gateway\<close> leaves the flush thread free to run at any time; here it has its mutex, its condition
  variable and its flag. Every step is a step of that coarser model or changes nothing there.
\<close>

section \<open>Construction\<close>

definition sink_options :: "Config \<Rightarrow> http_options" where
  "sink_options config = http_default_options\<lparr>ho_url := cf_sink_url config,
     ho_outbound_capacity := unat (cf_sink_outbound_capacity config),
     ho_concurrency := unat (cf_sink_concurrency config), ho_backpressure := cf_sink_backpressure config,
     ho_max_retries := unat (cf_sink_max_retries config), ho_backoff_base := cf_sink_backoff_ms config,
     ho_timeout := cf_sink_timeout_ms config\<rparr>"

datatype gateway_sink = Http_Backend http_sink | File_Backend FileSink

text \<open>What the operating system answers while the program starts: to the start of each sink thread and of each worker, to the
  handlers of the signals, to the port, to the flush thread.\<close>

record os =
  os_sink_thread :: "nat \<Rightarrow> bool"
  os_signals :: bool
  os_worker_thread :: "nat \<Rightarrow> bool"
  os_port :: bool
  os_flush_thread :: bool

text \<open>A loop that starts \<open>n\<close> threads; \<open>std::thread\<close> throws when one is refused. A constructor or destructor then joins those
  that run: \<open>stop()\<close> of the HTTP sink, which \<open>Http_Start\<close> has step by step, and \<open>stop()\<close> of the pool.\<close>

fun start_threads :: "(nat \<Rightarrow> bool) \<Rightarrow> nat \<Rightarrow> nat \<Rightarrow> unit result" where
  "start_threads started i 0 = Inr ()"
| "start_threads started i (Suc n) =
     (if started i then start_threads started (Suc i) n else Inl (Runtime_Error ''thread''))"

text \<open>The threads that call \<open>consume\<close> are the workers, the flush thread and \<open>main\<close> itself.\<close>

definition make_sink :: "os \<Rightarrow> (string \<Rightarrow> string option) \<Rightarrow> u64 \<Rightarrow> int \<Rightarrow> Config \<Rightarrow> Stats \<Rightarrow> gateway_sink result" where
  "make_sink answers fs drawn now config stats =
     (if cf_sink_kind config = Http
      then bind_result (hs_new (sink_options config) drawn now (unat (cf_workers config) + 2) stats) (\<lambda>sink.
           bind_result (start_threads (os_sink_thread answers) 0 (ho_concurrency (sink_options config))) (\<lambda>_.
             Inr (Http_Backend sink)))
      else bind_result (fs_new fs (cf_sink_file config)) (\<lambda>sink. Inr (File_Backend sink)))"

text \<open>The acceptor of \<open>Server\<close> throws when the port cannot be bound; otherwise the first accept is pending. The
  workers run by then, and the destructor of the pool stops them when the exception leaves \<open>main\<close>'s block.\<close>

definition server_new :: "bool \<Rightarrow> ('q, 's) gateway \<Rightarrow> ('q, 's) gateway result" where
  "server_new bound g = (if bound then Inr (g\<lparr>gw_acceptor := Accepting\<rparr>) else Inl (Runtime_Error ''bind''))"

definition gateway_status :: "'a result \<Rightarrow> string \<times> nat" where
  "gateway_status r = main_status ''edgeflow-gateway'' r"

section \<open>Threads\<close>

datatype main_pc = In_Reactor | Flag_Flush | Notify_Flush | Join_Flush | Stop_Pool | Join_Workers | Final_Flush | Main_Returned

datatype flush_pc =
    Flush_Locking    \<comment> \<open>about to take the mutex and look at the flag\<close>
  | Flush_Waiting    \<comment> \<open>in \<open>wait_for\<close>, without the mutex\<close>
  | Flush_Flushing   \<comment> \<open>about to call \<open>batcher.flush()\<close>, without the mutex\<close>
  | Flush_Exited

record ('q, 's) gateway_main =
  gm_gateway :: "('q, 's) gateway"
  gm_main :: main_pc
  gm_flush :: flush_pc
  gm_flush_shutdown :: bool

text \<open>What the flush thread does while it holds the mutex: \<open>after_lock\<close> at the head of the loop, \<open>after_wait\<close>
  when \<open>wait_for\<close> has woken, by the timeout or not; the predicate is looked at in both cases.\<close>

definition after_lock :: "bool \<Rightarrow> flush_pc" where
  "after_lock flush_shutdown = (if flush_shutdown then Flush_Exited else Flush_Waiting)"

definition after_wait :: "bool \<Rightarrow> bool \<Rightarrow> flush_pc" where
  "after_wait timed_out flush_shutdown =
     (if flush_shutdown then Flush_Exited else if timed_out then Flush_Flushing else Flush_Waiting)"

definition flush_now :: "(Event list \<Rightarrow> 's \<Rightarrow> 's) \<Rightarrow> ('q, 's) gateway \<Rightarrow> ('q, 's) gateway" where
  "flush_now on_flush g =
     (let (b, k) = batcher_flush on_flush (pl_batcher (gw_pipe g)) (pl_sink (gw_pipe g))
      in g\<lparr>gw_pipe := (gw_pipe g)\<lparr>pl_batcher := b, pl_sink := k\<rparr>\<rparr>)"

definition stop_pool :: "('q, Event TimedEvent) EventQueue \<Rightarrow> ('q, 's) gateway \<Rightarrow> ('q, 's) gateway" where
  "stop_pool Q g = g\<lparr>gw_pipe := (gw_pipe g)\<lparr>pl_stopped := True, pl_queue := q_shutdown Q (pl_queue (gw_pipe g))\<rparr>\<rparr>"

inductive main_step ::
    "'j json_lib \<Rightarrow> ('q, Event TimedEvent) EventQueue \<Rightarrow> BackpressurePolicy \<Rightarrow> (Event list \<Rightarrow> 's \<Rightarrow> 's) \<Rightarrow>
     ('q, 's) gateway_main \<Rightarrow> ('q, 's) gateway_main \<Rightarrow> bool" for J Q policy on_flush where
  main_reactor: "gm_main m = In_Reactor \<Longrightarrow> reactor_step J Q policy (gm_gateway m) g' \<Longrightarrow>
    main_step J Q policy on_flush m (m\<lparr>gm_gateway := g'\<rparr>)"
| main_signal: "gm_main m = In_Reactor \<Longrightarrow>
    main_step J Q policy on_flush m (m\<lparr>gm_gateway := (gm_gateway m)\<lparr>gw_running := False\<rparr>, gm_main := Flag_Flush\<rparr>)"
| main_flag: "gm_main m = Flag_Flush \<Longrightarrow>
    main_step J Q policy on_flush m (m\<lparr>gm_flush_shutdown := True, gm_main := Notify_Flush\<rparr>)"
| main_notify: "gm_main m = Notify_Flush \<Longrightarrow> main_step J Q policy on_flush m (m\<lparr>gm_main := Join_Flush\<rparr>)"
| main_join_flush: "gm_main m = Join_Flush \<Longrightarrow> gm_flush m = Flush_Exited \<Longrightarrow>
    main_step J Q policy on_flush m (m\<lparr>gm_main := Stop_Pool\<rparr>)"
| main_stop_pool: "gm_main m = Stop_Pool \<Longrightarrow>
    main_step J Q policy on_flush m (m\<lparr>gm_gateway := stop_pool Q (gm_gateway m), gm_main := Join_Workers\<rparr>)"
| main_join_workers: "gm_main m = Join_Workers \<Longrightarrow> set (pl_workers (gw_pipe (gm_gateway m))) \<subseteq> {Exited} \<Longrightarrow>
    main_step J Q policy on_flush m (m\<lparr>gm_main := Final_Flush\<rparr>)"
| main_final_flush: "gm_main m = Final_Flush \<Longrightarrow>
    main_step J Q policy on_flush m (m\<lparr>gm_gateway := flush_now on_flush (gm_gateway m), gm_main := Main_Returned\<rparr>)"
| main_worker: "worker_step Q on_flush (gw_pipe (gm_gateway m)) pipe' \<Longrightarrow>
    main_step J Q policy on_flush m (m\<lparr>gm_gateway := (gm_gateway m)\<lparr>gw_pipe := pipe'\<rparr>\<rparr>)"
| flush_lock: "gm_flush m = Flush_Locking \<Longrightarrow>
    main_step J Q policy on_flush m (m\<lparr>gm_flush := after_lock (gm_flush_shutdown m)\<rparr>)"
| flush_wake: "gm_flush m = Flush_Waiting \<Longrightarrow>
    main_step J Q policy on_flush m (m\<lparr>gm_flush := after_wait timed_out (gm_flush_shutdown m)\<rparr>)"
| flush_periodic: "gm_flush m = Flush_Flushing \<Longrightarrow>
    main_step J Q policy on_flush m (m\<lparr>gm_gateway := flush_now on_flush (gm_gateway m), gm_flush := Flush_Locking\<rparr>)"

definition main_start :: "Config \<Rightarrow> 'q \<Rightarrow> 's \<Rightarrow> int \<Rightarrow> ('q, 's) gateway_main" where
  "main_start config q k now = \<lparr>gm_gateway = gateway_start config q k now, gm_main = In_Reactor,
     gm_flush = Flush_Locking, gm_flush_shutdown = False\<rparr>"

text \<open>\<open>main\<close> from its first line to the start of the flush thread. \<open>Inl\<close>: the message is printed and \<open>main\<close> returns 1.\<close>

definition gateway_setup ::
    "(u64 \<Rightarrow> BackpressurePolicy \<Rightarrow> 'q result option) \<Rightarrow> os \<Rightarrow> (string \<Rightarrow> string option) \<Rightarrow> u64 \<Rightarrow> int \<Rightarrow> string list \<Rightarrow>
     (Config \<times> ('q, gateway_sink) gateway_main) result option" where
  "gateway_setup make_queue answers fs drawn now argv =
     (case parse_args argv of
        Inl e \<Rightarrow> Some (Inl e)
      | Inr config \<Rightarrow>
          map_option (\<lambda>r. bind_result r (\<lambda>queue.
              bind_result (make_sink answers fs drawn now config stats_new) (\<lambda>sink.
              bind_result (if os_signals answers then Inr () else Inl (Runtime_Error ''signal_set'')) (\<lambda>_.
              bind_result (start_threads (os_worker_thread answers) 0 (unat (cf_workers config))) (\<lambda>_.
              bind_result (server_new (os_port answers) (gateway_start config queue sink now)) (\<lambda>server.
              bind_result (start_threads (\<lambda>_. os_flush_thread answers) 0 1) (\<lambda>_.
                Inr (config, \<lparr>gm_gateway = server, gm_main = In_Reactor, gm_flush = Flush_Locking,
                  gm_flush_shutdown = False\<rparr>))))))))
            (make_queue (cf_queue_capacity config) (cf_backpressure config)))"

abbreviation main_reach ::
    "'j json_lib \<Rightarrow> ('q, Event TimedEvent) EventQueue \<Rightarrow> BackpressurePolicy \<Rightarrow> (Event list \<Rightarrow> 's \<Rightarrow> 's) \<Rightarrow>
     ('q, 's) gateway_main \<Rightarrow> ('q, 's) gateway_main \<Rightarrow> bool" where
  "main_reach J Q policy on_flush \<equiv> (main_step J Q policy on_flush)\<^sup>*\<^sup>*"

section \<open>Control invariant\<close>

fun main_phase :: "main_pc \<Rightarrow> nat" where
  "main_phase In_Reactor = 7"
| "main_phase Flag_Flush = 6"
| "main_phase Notify_Flush = 5"
| "main_phase Join_Flush = 4"
| "main_phase Stop_Pool = 3"
| "main_phase Join_Workers = 2"
| "main_phase Final_Flush = 1"
| "main_phase Main_Returned = 0"

text \<open>The points of \<open>main\<close> in the order of the code.\<close>

lemma main_phase_inj: "main_phase a = main_phase b \<Longrightarrow> a = b"
  by (cases a; cases b) simp_all

instantiation main_pc :: linorder
begin

definition less_eq_main_pc :: "main_pc \<Rightarrow> main_pc \<Rightarrow> bool" where
  "less_eq_main_pc a b \<longleftrightarrow> main_phase b \<le> main_phase a"

definition less_main_pc :: "main_pc \<Rightarrow> main_pc \<Rightarrow> bool" where
  "less_main_pc a b \<longleftrightarrow> main_phase b < main_phase a"

instance
  by standard (auto simp: less_eq_main_pc_def less_main_pc_def dest: main_phase_inj)

end

lemma main_pc_top [simp]: "pc \<le> Main_Returned" "Main_Returned \<le> pc \<longleftrightarrow> pc = Main_Returned"
  by (cases pc; simp add: less_eq_main_pc_def)+

fun flush_weight :: "flush_pc \<Rightarrow> nat" where
  "flush_weight Flush_Locking = 1"
| "flush_weight Flush_Waiting = 1"
| "flush_weight Flush_Flushing = 2"
| "flush_weight Flush_Exited = 0"

definition main_control :: "('q, 's) gateway_main \<Rightarrow> bool" where
  "main_control m \<longleftrightarrow>
     gw_running (gm_gateway m) = (main_phase (gm_main m) = 7) \<and>
     gm_flush_shutdown m = (main_phase (gm_main m) \<le> 5) \<and>
     pl_stopped (gw_pipe (gm_gateway m)) = (main_phase (gm_main m) \<le> 2) \<and>
     (gm_flush m = Flush_Exited \<longrightarrow> gm_flush_shutdown m) \<and>
     (main_phase (gm_main m) \<le> 3 \<longrightarrow> gm_flush m = Flush_Exited) \<and>
     (main_phase (gm_main m) \<le> 1 \<longrightarrow> set (pl_workers (gw_pipe (gm_gateway m))) \<subseteq> {Exited}) \<and>
     (gm_main m = Main_Returned \<longrightarrow> ba_buffer (pl_batcher (gw_pipe (gm_gateway m))) = [])"

lemma worker_step_control:
  assumes "worker_step Q on_flush s s'"
  shows "pl_stopped s' = pl_stopped s" "\<not> set (pl_workers s) \<subseteq> {Exited}"
  using assms by (auto elim!: worker_step.cases dest: nth_mem)

lemma flush_now_frame [simp]:
  "gw_running (flush_now on_flush g) = gw_running g" "pl_stopped (gw_pipe (flush_now on_flush g)) = pl_stopped (gw_pipe g)"
  "pl_workers (gw_pipe (flush_now on_flush g)) = pl_workers (gw_pipe g)"
  "pl_pushes (gw_pipe (flush_now on_flush g)) = pl_pushes (gw_pipe g)"
  "pl_queue (gw_pipe (flush_now on_flush g)) = pl_queue (gw_pipe g)"
  "pl_stats (gw_pipe (flush_now on_flush g)) = pl_stats (gw_pipe g)"
  "ba_buffer (pl_batcher (gw_pipe (flush_now on_flush g))) = []"
  by (simp_all add: flush_now_def split_beta batcher_flush_def flush_locked_def)

lemma reactor_control:
  "reactor_step J Q policy g g' \<Longrightarrow> gw_running g' = gw_running g \<and> pl_stopped (gw_pipe g') = pl_stopped (gw_pipe g)"
  by (erule reactor_step.cases)
     (auto simp: acceptor_defs log_push_def split: accept_completion.splits option.splits call.splits)

lemma main_step_control:
  assumes "main_step J Q policy on_flush m m'" "main_control m"
  shows "main_control m'"
  using assms
proof (induction rule: main_step.induct)
  case (main_reactor m g')
  then show ?case using reactor_control [OF main_reactor(2)] by (auto simp: main_control_def)
next
  case (main_worker m pipe')
  note W = worker_step_control [OF main_worker(1)]
  have "\<not> main_phase (gm_main m) \<le> 1" using main_worker(2) W(2) by (auto simp: main_control_def)
  then have "\<not> main_phase (gm_main m) \<le> 1" "gm_main m \<noteq> Main_Returned" by auto
  with main_worker(2) W(1) show ?case by (auto simp: main_control_def)
next
  case (flush_periodic m)
  then have "\<not> main_phase (gm_main m) \<le> 3" by (auto simp: main_control_def)
  with flush_periodic show ?case by (auto simp: main_control_def)
qed (auto simp: main_control_def after_lock_def after_wait_def stop_pool_def)

text \<open>\<open>main\<close> never goes back.\<close>

lemma main_step_mono: "main_step J Q policy on_flush m m' \<Longrightarrow> gm_main m \<le> gm_main m'"
  by (erule main_step.cases) (simp_all add: less_eq_main_pc_def)

section \<open>Refinement\<close>

lemma flush_now_step: "gateway_step J Q policy on_flush g (flush_now on_flush g)"
  by (cases "batcher_flush on_flush (pl_batcher (gw_pipe g)) (pl_sink (gw_pipe g))")
     (simp add: flush_now_def gateway_step.flush)

lemma main_step_refines:
  assumes "main_step J Q policy on_flush m m'" "main_control m"
  shows "gateway_step J Q policy on_flush (gm_gateway m) (gm_gateway m') \<or> gm_gateway m' = gm_gateway m"
  using assms
proof (induction rule: main_step.induct)
  case (main_reactor m g')
  then have "gw_running (gm_gateway m)" by (simp add: main_control_def)
  with main_reactor(2) show ?case by (simp add: gateway_step.reactor)
next
  case (main_signal m)
  then have "gw_running (gm_gateway m)" by (simp add: main_control_def)
  then show ?case by (simp add: gateway_step.signal)
next
  case (main_stop_pool m)
  then have "\<not> gw_running (gm_gateway m)" "\<not> pl_stopped (gw_pipe (gm_gateway m))" by (simp_all add: main_control_def)
  then show ?case by (simp add: stop_pool_def gateway_step.stop)
next
  case (main_worker m pipe')
  then show ?case by (simp add: gateway_step.worker)
qed (simp_all add: flush_now_step)

lemma main_start_control: "main_control (main_start config q k now)"
  by (simp add: main_control_def main_start_def gateway_start_def pipeline_start_def)

lemma main_reach_refines:
  assumes "main_reach J Q policy on_flush (main_start config q k now) m"
  shows "main_control m \<and> gateway_reach J Q policy on_flush (gateway_start config q k now) (gm_gateway m)"
  using assms
proof (induction rule: rtranclp_induct)
  case base
  then show ?case using main_start_control by (simp add: main_start_def gateway_reach.start)
next
  case (step m m')
  then show ?case
    using main_step_control [OF step(2)] main_step_refines [OF step(2)] by (metis gateway_reach.step)
qed

section \<open>The end of the program\<close>

context gateway_queue
begin

definition main_work :: "('q, 's) gateway_main \<Rightarrow> nat" where
  "main_work m = main_phase (gm_main m) + flush_weight (gm_flush m) + pool_work contents (gw_pipe (gm_gateway m))"

definition ending :: "nat \<Rightarrow> (Event list \<Rightarrow> 's \<Rightarrow> 's) \<Rightarrow> 's \<Rightarrow> ('q, 's) gateway_main \<Rightarrow> bool" where
  "ending N on_flush k0 m \<longleftrightarrow> main_control m \<and> gm_flush_shutdown m \<and>
     gw_inv contents is_closed invar N on_flush k0 (gm_gateway m) \<and> pl_pushes (gw_pipe (gm_gateway m)) \<le> N"

lemma ending_pool: "ending N on_flush k0 m \<Longrightarrow> pool_inv contents is_closed invar N on_flush k0 (gw_pipe (gm_gateway m))"
  by (simp add: ending_def gw_inv_def Let_def)

text \<open>Once the flag is set every step of any thread brings the end nearer.\<close>

lemma ending_step:
  assumes "main_step J Q pol on_flush m m'" "ending N on_flush k0 m"
  shows "main_work m' < main_work m" and "ending N on_flush k0 m'"
    and "st_events_accepted (pl_stats (gw_pipe (gm_gateway m'))) = st_events_accepted (pl_stats (gw_pipe (gm_gateway m)))"
proof -
  have ctl: "main_control m" "gm_flush_shutdown m" and phase: "main_phase (gm_main m) \<le> 5"
    using assms(2) by (auto simp: ending_def main_control_def)
  note pool = ending_pool [OF assms(2)]
  then have inv: "invar (N - pl_pushes (gw_pipe (gm_gateway m))) (pl_queue (gw_pipe (gm_gateway m)))"
    by (simp add: pool_inv_def)
  have "main_work m' < main_work m \<and> gm_flush_shutdown m' \<and>
    pl_pushes (gw_pipe (gm_gateway m')) = pl_pushes (gw_pipe (gm_gateway m)) \<and>
    st_events_accepted (pl_stats (gw_pipe (gm_gateway m'))) = st_events_accepted (pl_stats (gw_pipe (gm_gateway m)))"
    using assms(1)
  proof (cases rule: main_step.cases)
    case main_stop_pool
    then show ?thesis using ctl(2) shutdown_frame [OF inv] by (simp add: main_work_def stop_pool_def pool_work_def)
  next
    case (main_worker pipe')
    then show ?thesis
      using ctl(2) worker_step_decreases [OF main_worker(2) pool] worker_step_frame [OF main_worker(2)]
      by (simp add: main_work_def)
  qed (use ctl(2) phase in \<open>auto simp: main_work_def pool_work_def after_lock_def after_wait_def\<close>)
  moreover have "gw_inv contents is_closed invar N on_flush k0 (gm_gateway m')"
    using main_step_refines [OF assms(1) ctl(1)] assms(2) calculation gateway_step_inv
    by (metis ending_def)
  ultimately show "main_work m' < main_work m" "ending N on_flush k0 m'"
    "st_events_accepted (pl_stats (gw_pipe (gm_gateway m'))) = st_events_accepted (pl_stats (gw_pipe (gm_gateway m)))"
    using main_step_control [OF assms(1) ctl(1)] assms(2) by (simp_all add: ending_def)
qed

lemma ending_progress:
  assumes "ending N on_flush k0 m" "gm_main m \<noteq> Main_Returned"
  shows "\<exists>m'. main_step J Q pol on_flush m m'"
proof -
  have ctl: "main_control m" using assms(1) by (simp add: ending_def)
  show ?thesis
  proof (cases "gm_main m")
    case Join_Flush
    then show ?thesis
      by (cases "gm_flush m") (blast intro: flush_lock flush_wake flush_periodic main_join_flush)+
  next
    case Join_Workers
    then have "pl_stopped (gw_pipe (gm_gateway m))" using ctl by (simp add: main_control_def)
    with Join_Workers worker_can_step [OF ending_pool [OF assms(1)]] show ?thesis
      by (cases "set (pl_workers (gw_pipe (gm_gateway m))) \<subseteq> {Exited}") (blast intro: main_join_workers main_worker)+
  qed (use assms in \<open>auto simp: ending_def main_control_def
      intro: main_notify main_stop_pool main_final_flush\<close>)
qed

lemma ending_bounded:
  "(main_step J Q pol on_flush ^^ n) m m' \<Longrightarrow> ending N on_flush k0 m \<Longrightarrow>
   n + main_work m' \<le> main_work m \<and> ending N on_flush k0 m'"
proof (induction n arbitrary: m')
  case (Suc n)
  then obtain m1 where m1: "(main_step J Q pol on_flush ^^ n) m m1" "main_step J Q pol on_flush m1 m'" by auto
  with Suc.IH [OF m1(1) Suc.prems(2)] ending_step(1,2) [OF m1(2)] show ?case by fastforce
qed simp

lemma ending_finishes:
  "ending N on_flush k0 m \<Longrightarrow> \<exists>m'. main_reach J Q pol on_flush m m' \<and> gm_main m' = Main_Returned \<and>
     pl_pushes (gw_pipe (gm_gateway m')) \<le> N \<and>
     st_events_accepted (pl_stats (gw_pipe (gm_gateway m'))) = st_events_accepted (pl_stats (gw_pipe (gm_gateway m)))"
proof (induction "main_work m" arbitrary: m rule: less_induct)
  case less
  show ?case
  proof (cases "gm_main m = Main_Returned")
    case True
    with less.prems show ?thesis by (auto simp: ending_def)
  next
    case False
    obtain m1 where m1: "main_step J Q pol on_flush m m1" using ending_progress [OF less.prems False] by blast
    note E = ending_step [OF m1 less.prems]
    from less.hyps [OF E(1,2)] E(3) m1 show ?thesis by (metis converse_rtranclp_into_rtranclp)
  qed
qed

lemma main_reach_ending:
  assumes "main_reach J Q pol on_flush (main_start config q k0 now) m" "gm_flush_shutdown m"
    and "invar N q" "contents q = []" "\<not> is_closed q" "pl_pushes (gw_pipe (gm_gateway m)) \<le> N"
  shows "ending N on_flush k0 m"
  using main_reach_refines [OF assms(1)] assms(2-6) gateway_reach_inv by (auto simp: ending_def)

lemma main_work_bound:
  assumes "main_reach J Q pol on_flush (main_start config q k0 now) m" "gm_flush_shutdown m"
  shows "main_work m \<le> 7 + 3 * length (contents (pl_queue (gw_pipe (gm_gateway m)))) + 3 * unat (cf_workers config)"
proof -
  have "main_phase (gm_main m) \<le> 5" using main_reach_refines [OF assms(1)] assms(2) by (simp add: main_control_def)
  moreover have "flush_weight (gm_flush m) \<le> 2" by (cases "gm_flush m") simp_all
  moreover have "length (pl_workers (gw_pipe (gm_gateway m))) = unat (cf_workers config)"
    using main_reach_refines [OF assms(1)] by (blast dest: gateway_workers)
  ultimately show ?thesis
    using pool_work_bound [of contents "gw_pipe (gm_gateway m)"] by (simp add: main_work_def)
qed

lemma main_returned_delivers:
  assumes "main_reach J Q pol on_flush (main_start config q k0 now) m" "gm_main m = Main_Returned"
    and "invar N q" "contents q = []" "\<not> is_closed q" "pl_pushes (gw_pipe (gm_gateway m)) \<le> N"
    and "pl_workers (gw_pipe (gm_gateway m)) \<noteq> []"
  shows "\<exists>batches. pl_sink (gw_pipe (gm_gateway m)) = fold on_flush batches k0 \<and>
    mset (concat batches) \<subseteq># mset (map te_event (pl_stored (gw_pipe (gm_gateway m)))) \<and>
    length (pl_stored (gw_pipe (gm_gateway m))) = length (concat batches) + pl_discards (gw_pipe (gm_gateway m)) \<and>
    st_events_accepted (pl_stats (gw_pipe (gm_gateway m))) = of_nat (length (concat batches)) \<and>
    st_queue_wait_count (pl_stats (gw_pipe (gm_gateway m))) = of_nat (length (concat batches))"
proof -
  have R: "main_control m" "gateway_reach J Q pol on_flush (gateway_start config q k0 now) (gm_gateway m)"
    using main_reach_refines [OF assms(1)] by simp_all
  have "set (pl_workers (gw_pipe (gm_gateway m))) \<subseteq> {Exited}" "ba_buffer (pl_batcher (gw_pipe (gm_gateway m))) = []"
    using R(1) assms(2) by (simp_all add: main_control_def)
  with gateway_drained [OF R(2) assms(3-7)] show ?thesis by (simp add: batcher_flush_def)
qed

text \<open>A run from the start to the end with one accepted event.\<close>

lemma main_demo:
  assumes q: "invar 1 q" "contents q = []" "\<not> is_closed q"
    and line: "parse_event J line = Some e" "CHR 0x0A \<notin> set line"
  shows "\<exists>m m'. main_reach J Q pol on_flush (main_start config q k0 now) m \<and> gm_flush_shutdown m \<and> 
    pl_pushes (gw_pipe (gm_gateway m)) = 1 \<and> st_events_accepted (pl_stats (gw_pipe (gm_gateway m))) = 1 \<and>
    main_reach J Q pol on_flush m m' \<and> gm_main m' = Main_Returned \<and>
    pl_pushes (gw_pipe (gm_gateway m')) \<le> 1 \<and> st_events_accepted (pl_stats (gw_pipe (gm_gateway m'))) = 1"
proof -
  let ?m0 = "main_start config q k0 now" and ?te = "\<lparr>te_event = e, te_enqueued_at = 0\<rparr>"
  let ?inp = "Read_Done 0 (Some (line @ [CHR 0x0A]))"
  have q1: "invar (Suc 0) q" using q(1) by simp
  obtain r q1 where push: "q_push Q q ?te = Returns (r, q1)" using push_returns [OF q1] by blast
  have r: "r = Accepted" using push_contents [OF q1 push] q(2) capacity_pos [OF q1] by (auto simp: spec_push_def)
  have "takeWhile (\<lambda>c. c \<noteq> CHR 0x0A) line = line" using line(2) by (auto simp: takeWhile_eq_all_conv)
  then have gl: "getline (line @ [CHR 0x0A]) = (line, [])" by (simp add: getline_def takeWhile_tail)
  have step: "conn_step J Q pol ?inp conn_new q stats_new = Returns (conn_new, q1, record_accepted stats_new)"
    using push r line(1) gl
    by (simp add: conn_step_def read_line_def conn_new_def handle_line_def push_event_def after_push_def)
  have pushed: "conn_pushes J ?inp conn_new = Some ?te"
    using line(1) gl by (simp add: conn_pushes_def conn_new_def)
  let ?m1 = "?m0\<lparr>gm_gateway := on_accept Accept_Ok (gm_gateway ?m0)\<rparr>"
  have s1: "main_step J Q pol on_flush ?m0 ?m1"
    by (rule main_reactor [OF _ accepted]) (simp_all add: main_start_def gateway_start_def)
  obtain g2 where g2: "reactor_step J Q pol (gm_gateway ?m1) g2" "pl_pushes (gw_pipe g2) = 1"
    "pl_stats (gw_pipe g2) = record_accepted stats_new"
    using connection [of 0 "gm_gateway ?m1" J Q pol ?inp conn_new q1 "record_accepted stats_new"] step pushed push r
    by (auto simp: main_start_def gateway_start_def pipeline_start_def on_accept_def log_push_def)
  have s2: "main_step J Q pol on_flush ?m1 (?m1\<lparr>gm_gateway := g2\<rparr>)"
    by (rule main_reactor [OF _ g2(1)]) (simp add: main_start_def)
  let ?m2 = "?m1\<lparr>gm_gateway := g2\<rparr>"
  let ?m3 = "?m2\<lparr>gm_gateway := (gm_gateway ?m2)\<lparr>gw_running := False\<rparr>, gm_main := Flag_Flush\<rparr>"
  let ?m4 = "?m3\<lparr>gm_flush_shutdown := True, gm_main := Notify_Flush\<rparr>"
  have s3: "main_step J Q pol on_flush ?m2 ?m3" by (rule main_signal) (simp add: main_start_def)
  have s4: "main_step J Q pol on_flush ?m3 ?m4" by (rule main_flag) simp
  note once = r_into_rtranclp [of "main_step J Q pol on_flush"]
  have m4: "main_reach J Q pol on_flush ?m0 ?m4"
    by (rule rtranclp_trans [OF once [OF s1] rtranclp_trans [OF once [OF s2] rtranclp_trans [OF once [OF s3] once [OF s4]]]])
  have p4: "gm_flush_shutdown ?m4" "pl_pushes (gw_pipe (gm_gateway ?m4)) = 1"
    "st_events_accepted (pl_stats (gw_pipe (gm_gateway ?m4))) = 1"
    using g2 by (simp_all add: record_accepted_def stats_new_def)
  have "ending 1 on_flush k0 ?m4" by (rule main_reach_ending [OF m4 p4(1) q]) (use g2(2) in simp)
  from ending_finishes [OF this, of J pol] m4 p4 show ?thesis by metis
qed

end

section \<open>Properties\<close>

text \<open>Shutdown of the whole program. When \<open>main\<close> of the mutex build returns, the sink has been handed exactly
  the stored events less the discarded ones, in batches; none is left in the queue, in a worker or in
  the batcher, and the accepted counter is their number.\<close>

theorem mutex_main_delivers:
  assumes "parse_args argv = Inr config" and "bq_new (unat (cf_queue_capacity config)) (cf_backpressure config) = Inr q"
    and "main_reach J bounded_queue_ops (cf_backpressure config) on_flush (main_start config q k0 now) m"
    and "gm_main m = Main_Returned"
  shows "\<exists>batches. pl_sink (gw_pipe (gm_gateway m)) = fold on_flush batches k0 \<and>
    mset (concat batches) \<subseteq># mset (map te_event (pl_stored (gw_pipe (gm_gateway m)))) \<and>
    length (pl_stored (gw_pipe (gm_gateway m))) = length (concat batches) + pl_discards (gw_pipe (gm_gateway m)) \<and>
    st_events_accepted (pl_stats (gw_pipe (gm_gateway m))) = of_nat (length (concat batches)) \<and>
    st_queue_wait_count (pl_stats (gw_pipe (gm_gateway m))) = of_nat (length (concat batches))"
proof -
  have q: "bq_inv q" "bq_items q = []" "\<not> bq_shutting_down q"
    using assms(2) bq_new_inv [OF assms(2)] by (auto simp: bq_new_def split: if_splits)
  have "gateway_reach J bounded_queue_ops (cf_backpressure config) on_flush (gateway_start config q k0 now) (gm_gateway m)"
    using main_reach_refines [OF assms(3)] by simp
  from gbq.main_returned_delivers [OF assms(3,4) q le_refl gateway_has_workers [OF this assms(1)]]
  show ?thesis .
qed

text \<open>C17: The program ends. Once \<open>main\<close> of the lock-free build has set the flag of the flush thread, no thread is
  ever stuck: some step is possible until \<open>main\<close> has returned, and however the threads are scheduled
  at most seven steps, and three for each queued event and each worker, remain.\<close>

theorem lock_free_main_terminates:
  assumes "lf_new dflt c p = Some (Inr q)"
    and "main_reach J lock_free_queue_ops pol on_flush (main_start config q k0 now) m"
    and "gm_flush_shutdown m" and "pl_pushes (gw_pipe (gm_gateway m)) \<le> 2 ^ 62"
    and "(main_step J lock_free_queue_ops pol on_flush ^^ n) m m'"
  shows "n \<le> 7 + 3 * length (lf_contents (pl_queue (gw_pipe (gm_gateway m)))) + 3 * unat (cf_workers config) \<and>
    (gm_main m' = Main_Returned \<or> (\<exists>m''. main_step J lock_free_queue_ops pol on_flush m' m''))"
proof -
  from assms(1) obtain k where k: "1 \<le> k" "k \<le> 30" "q = lf_ring dflt (2 ^ k) p" by (rule lf_new_Inr)
  have q: "lf_inv (2 ^ 62) q" "lf_contents q = []" "\<not> lf_shutting_down q"
    using lf_ring_inv [OF k(1,2) order_refl] by (simp_all add: k(3))
  have E: "glf.ending (2 ^ 62) on_flush k0 m" by (rule glf.main_reach_ending [OF assms(2,3) q assms(4)])
  note B = glf.ending_bounded [OF assms(5) E]
  note glf.main_work_bound [OF assms(2,3)]
  with B glf.ending_progress [of "2 ^ 62" on_flush k0 m' J pol] show ?thesis by fastforce
qed

lemma start_threads_Inr: "start_threads started i n = Inr r \<longleftrightarrow> (\<forall>k<n. started (i + k))"
proof (induction n arbitrary: i)
  case (Suc n)
  have "(\<forall>k<Suc n. started (i + k)) \<longleftrightarrow> started i \<and> (\<forall>k<n. started (Suc i + k))"
    by (metis Suc_less_eq add_0_right add_Suc_shift less_Suc_eq_0_disj)
  with Suc.IH [of "Suc i"] show ?case by simp
qed simp

text \<open>What the start of an accepted configuration depends on, besides the queue.\<close>

definition can_start :: "os \<Rightarrow> (string \<Rightarrow> string option) \<Rightarrow> Config \<Rightarrow> bool" where
  "can_start answers fs config \<longleftrightarrow>
     (case cf_sink_kind config of
        Http \<Rightarrow> \<not> isl (parse_url (cf_sink_url config)) \<and> (\<forall>i<unat (cf_sink_concurrency config). os_sink_thread answers i)
      | File \<Rightarrow> fs (cf_sink_file config) \<noteq> None) \<and>
     os_signals answers \<and> (\<forall>i<unat (cf_workers config). os_worker_thread answers i) \<and> os_port answers \<and> os_flush_thread answers"

lemma make_sink_Inr:
  assumes "config_ok config"
  shows "(\<exists>sink. make_sink answers fs drawn now config stats = Inr sink) \<longleftrightarrow>
    (case cf_sink_kind config of
       Http \<Rightarrow> \<not> isl (parse_url (cf_sink_url config)) \<and> (\<forall>i<unat (cf_sink_concurrency config). os_sink_thread answers i)
     | File \<Rightarrow> fs (cf_sink_file config) \<noteq> None)"
  using assms
  by (cases "cf_sink_kind config"; cases "parse_url (cf_sink_url config)"; cases "fs (cf_sink_file config)")
     (auto simp: make_sink_def hs_new_def fs_new_def sink_options_def bq_new_def config_ok_def bind_result_Inr_iff start_threads_Inr)

lemma bq_new_config: "config_ok config \<Longrightarrow> \<exists>q. bq_new (unat (cf_queue_capacity config)) p = Inr q"
  by (auto simp: bq_new_def config_ok_def)

lemma gateway_setup_Inr:
  assumes "parse_args argv = Inr config" "make_queue (cf_queue_capacity config) (cf_backpressure config) = Some r"
  shows "gateway_setup make_queue answers fs drawn now argv = Some (Inr (c, m)) \<longleftrightarrow> c = config \<and>
    (\<exists>q sink. r = Inr q \<and> make_sink answers fs drawn now config stats_new = Inr sink \<and> can_start answers fs config \<and>
       m = main_start config q sink now)"
proof -
  have ok: "config_ok config" by (rule parse_args_ok [OF assms(1)])
  have "(if os_signals answers then Inr () else Inl (Runtime_Error ''signal_set'')) = Inr u \<longleftrightarrow> os_signals answers" for u by simp
  then have "gateway_setup make_queue answers fs drawn now argv = Some (Inr (c, m)) \<longleftrightarrow> c = config \<and>
    (\<exists>q sink. r = Inr q \<and> make_sink answers fs drawn now config stats_new = Inr sink \<and> os_signals answers \<and>
       (\<forall>i<unat (cf_workers config). os_worker_thread answers i) \<and> os_port answers \<and> os_flush_thread answers \<and>
       m = main_start config q sink now)"
    by (auto simp: gateway_setup_def assms bind_result_Inr_iff start_threads_Inr server_new_def main_start_def gateway_start_def)
  also have "\<dots> \<longleftrightarrow> c = config \<and> (\<exists>q sink. r = Inr q \<and> make_sink answers fs drawn now config stats_new = Inr sink \<and>
      can_start answers fs config \<and> m = main_start config q sink now)"
    using make_sink_Inr [OF ok, of answers fs drawn now stats_new] by (auto simp: can_start_def)
  finally show ?thesis .
qed

lemma gateway_setup_status:
  assumes "parse_args argv = Inr config" "make_queue (cf_queue_capacity config) (cf_backpressure config) = Some r"
  shows "\<exists>r'. gateway_setup make_queue answers fs drawn now argv = Some r' \<and>
    (snd (gateway_status r') = 1 \<longleftrightarrow> \<not> (\<exists>m. r' = Inr (config, m)))"
proof -
  obtain r' where r': "gateway_setup make_queue answers fs drawn now argv = Some r'" using assms by (simp add: gateway_setup_def)
  have "c = config" if "r' = Inr (c, m)" for c m
    using gateway_setup_Inr [where make_queue = make_queue, OF assms, of answers fs drawn now c m] r' that by simp
  then have "(\<exists>m. r' = Inr (config, m)) \<longleftrightarrow> \<not> isl r'" by (cases r') auto
  then have "snd (gateway_status r') = 1 \<longleftrightarrow> \<not> (\<exists>m. r' = Inr (config, m))"
    by (cases r') (simp_all add: gateway_status_def main_status_def)
  then show ?thesis using r' by blast
qed

text \<open>C37: When the program starts with an accepted command line. The mutex build starts exactly when the sink can be made (the file
  opens, or the URL is understood and every sink thread can be started) and the system grants the signal handlers, every worker,
  the port and the flush thread. The lock-free build also refuses a capacity above \<open>2 ^ 30\<close>. A build that starts enters the reactor
  with the queue and the sink of the configuration; otherwise \<open>main\<close> returns 1. Both always come to an answer.\<close>

theorem gateway_setup_outcome:
  assumes "parse_args argv = Inr config"
  shows "((\<exists>m. gateway_setup (\<lambda>c p. Some (bq_new (unat c) p)) answers fs drawn now argv = Some (Inr (config, m))) \<longleftrightarrow>
      can_start answers fs config) \<and>
    ((\<exists>m. gateway_setup (lf_new dflt) answers fs drawn now argv = Some (Inr (config, m))) \<longleftrightarrow>
      unat (cf_queue_capacity config) \<le> 2 ^ 30 \<and> can_start answers fs config) \<and>
    (\<forall>c m. gateway_setup (\<lambda>c p. Some (bq_new (unat c) p)) answers fs drawn now argv = Some (Inr (c, m)) \<longrightarrow>
      c = config \<and> (\<exists>q sink. bq_new (unat (cf_queue_capacity config)) (cf_backpressure config) = Inr q \<and>
        make_sink answers fs drawn now config stats_new = Inr sink \<and> m = main_start config q sink now)) \<and>
    (\<exists>r. gateway_setup (\<lambda>c p. Some (bq_new (unat c) p)) answers fs drawn now argv = Some r \<and>
      (snd (gateway_status r) = 1 \<longleftrightarrow> \<not> can_start answers fs config)) \<and>
    (\<exists>r. gateway_setup (lf_new dflt) answers fs drawn now argv = Some r \<and>
      (snd (gateway_status r) = 1 \<longleftrightarrow> \<not> (unat (cf_queue_capacity config) \<le> 2 ^ 30 \<and> can_start answers fs config)))"
proof -
  let ?c = "cf_queue_capacity config" and ?p = "cf_backpressure config" and ?bq = "\<lambda>c p. Some (bq_new (unat c) p)"
  have ok: "config_ok config" by (rule parse_args_ok [OF assms])
  have sink: "\<exists>sink. make_sink answers fs drawn now config stats_new = Inr sink" if "can_start answers fs config"
    using make_sink_Inr [OF ok] that by (auto simp: can_start_def)
  note B = gateway_setup_Inr [where make_queue = ?bq, OF assms refl, of answers fs drawn now]
  obtain r where r: "lf_new dflt ?c ?p = Some r" "(\<exists>q. r = Inr q) \<longleftrightarrow> unat ?c \<le> 2 ^ 30"
    using lf_new_answers [of dflt ?c ?p] ok by (auto simp: config_ok_def)
  note L = gateway_setup_Inr [where make_queue = "lf_new dflt", OF assms r(1), of answers fs drawn now]
  have bq: "(\<exists>m. gateway_setup ?bq answers fs drawn now argv = Some (Inr (config, m))) \<longleftrightarrow> can_start answers fs config"
    using B [of config] sink bq_new_config [OF ok] by auto
  have lf: "(\<exists>m. gateway_setup (lf_new dflt) answers fs drawn now argv = Some (Inr (config, m))) \<longleftrightarrow>
      unat ?c \<le> 2 ^ 30 \<and> can_start answers fs config"
    using L [of config] r(2) sink by auto
  have "\<forall>c m. gateway_setup ?bq answers fs drawn now argv = Some (Inr (c, m)) \<longrightarrow>
      c = config \<and> (\<exists>q sink. bq_new (unat ?c) ?p = Inr q \<and> make_sink answers fs drawn now config stats_new = Inr sink \<and>
        m = main_start config q sink now)" unfolding B by blast
  moreover have "\<exists>r. gateway_setup ?bq answers fs drawn now argv = Some r \<and>
      (snd (gateway_status r) = 1 \<longleftrightarrow> \<not> can_start answers fs config)"
    using gateway_setup_status [where make_queue = ?bq, OF assms refl, of answers fs drawn now] bq by auto
  moreover have "\<exists>r. gateway_setup (lf_new dflt) answers fs drawn now argv = Some r \<and>
      (snd (gateway_status r) = 1 \<longleftrightarrow> \<not> (unat ?c \<le> 2 ^ 30 \<and> can_start answers fs config))"
    using gateway_setup_status [where make_queue = "lf_new dflt", OF assms r(1), of answers fs drawn now] lf by auto
  ultimately show ?thesis using bq lf by blast
qed

text \<open>A port that is taken. The status of \<open>main\<close> is 1, and the pool's destructor comes to its end: the workers, which
  have found nothing in the queue, all return within one step each, and the sink has been handed nothing.\<close>

theorem port_taken:
  assumes "bq_new cap p = Inr q"
  shows "snd (gateway_status (server_new False (gateway_start config q k0 now))) = 1 \<and>
    (\<exists>s. (worker_step bounded_queue_ops on_flush)\<^sup>*\<^sup>* (gw_pipe (stop_pool bounded_queue_ops (gateway_start config q k0 now))) s \<and>
       set (pl_workers s) \<subseteq> {Exited}) \<and>
    (\<forall>n s. (worker_step bounded_queue_ops on_flush ^^ n) (gw_pipe (stop_pool bounded_queue_ops (gateway_start config q k0 now))) s \<longrightarrow>
       n \<le> unat (cf_workers config))"
proof -
  let ?g = "gateway_start config q k0 now"
  let ?s = "gw_pipe (stop_pool bounded_queue_ops ?g)"
  have q: "bq_inv q" "bq_items q = []" "\<not> bq_shutting_down q"
    using assms bq_new_inv [OF assms] by (auto simp: bq_new_def split: if_splits)
  have stopped: "pl_stopped ?s" by (simp add: stop_pool_def)
  have "\<not> pl_stopped (gw_pipe ?g)" by (simp add: gateway_start_def pipeline_start_def)
  from pipeline_step.stop [OF this, of bounded_queue_ops on_flush]
  have "pipeline_step bounded_queue_ops on_flush (gw_pipe ?g) ?s" by (simp add: stop_pool_def)
  with pipeline_reach.start have "pipeline_reach bounded_queue_ops on_flush (gw_pipe ?g) ?s" by (rule pipeline_reach.step)
  then have pool: "pool_inv bq_items bq_shutting_down (\<lambda>_. bq_inv) (pl_pushes ?s) on_flush k0 ?s"
    unfolding gateway_start_def gateway.simps by (rule gbq.pipeline_reach_inv [OF _ q]) (simp add: stop_pool_def)
  have "pool_work bq_items ?s = unat (cf_workers config)"
    using q(2) by (simp add: pool_work_def stop_pool_def gateway_start_def pipeline_start_def bounded_queue_ops_def bq_shutdown_def
        sum_list_replicate)
  moreover have "n \<le> pool_work bq_items ?s" if "(worker_step bounded_queue_ops on_flush ^^ n) ?s s" for n s
    using gbq.worker_runs_bounded [OF that pool] by simp
  moreover have "snd (gateway_status (server_new False ?g)) = 1"
    by (simp add: gateway_status_def server_new_def main_status_def)
  ultimately show ?thesis using gbq.pool_finishes [OF pool stopped] by force
qed

section \<open>Witnesses\<close>

lemma demo_mutex_main:
  "\<exists>m. main_reach bit_lib bounded_queue_ops (cf_backpressure one_worker) on_flush (main_start one_worker demo_bq k0 0) m \<and>
    gm_main m = Main_Returned \<and> st_events_accepted (pl_stats (gw_pipe (gm_gateway m))) = 1"
proof -
  obtain line where line: "parse_event bit_lib line = Some sample_event" "CHR 0x0A \<notin> set line"
    by (rule sample_line)
  have q: "bq_inv demo_bq" "bq_items demo_bq = []" "\<not> bq_shutting_down demo_bq"
    by (simp_all add: demo_bq_def bq_inv_def)
  from gbq.main_demo [OF q line, of "cf_backpressure one_worker" on_flush one_worker k0 0] show ?thesis
    by (meson rtranclp_trans)
qed

theorem mutex_main_delivers_witness:
  "\<exists>m batches. main_reach bit_lib bounded_queue_ops (cf_backpressure one_worker) (\<lambda>batch bs. bs @ [batch])
      (main_start one_worker demo_bq [] 0) m \<and> gm_main m = Main_Returned \<and>
    pl_sink (gw_pipe (gm_gateway m)) = fold (\<lambda>batch bs. bs @ [batch]) batches [] \<and>
    st_events_accepted (pl_stats (gw_pipe (gm_gateway m))) = 1 \<and>
    st_events_accepted (pl_stats (gw_pipe (gm_gateway m))) = of_nat (length (concat batches))"
proof -
  obtain m where m: "main_reach bit_lib bounded_queue_ops (cf_backpressure one_worker) (\<lambda>batch bs. bs @ [batch])
      (main_start one_worker demo_bq [] 0) m" "gm_main m = Main_Returned"
      "st_events_accepted (pl_stats (gw_pipe (gm_gateway m))) = 1"
    using demo_mutex_main [of "\<lambda>batch bs. bs @ [batch]" "[]"] by fastforce
  from mutex_main_delivers [OF one_worker_parsed demo_bq_new m(1,2)] m show ?thesis by blast
qed

lemma demo_lf_main:
  "\<exists>q m. lf_new sample_timed (cf_queue_capacity one_worker) (cf_backpressure one_worker) = Some (Inr q) \<and>
    main_reach bit_lib lock_free_queue_ops (cf_backpressure one_worker) on_flush (main_start one_worker q k0 0) m \<and>
    gm_flush_shutdown m \<and> pl_pushes (gw_pipe (gm_gateway m)) = 1 \<and>
    st_events_accepted (pl_stats (gw_pipe (gm_gateway m))) = 1"
proof -
  obtain line where line: "parse_event bit_lib line = Some sample_event" "CHR 0x0A \<notin> set line"
    by (rule sample_line)
  have "0 < unat (cf_queue_capacity one_worker)" "unat (cf_queue_capacity one_worker) \<le> 2 ^ 30"
    by (simp_all add: one_worker_def default_config_def)
  then obtain q where new: "lf_new sample_timed (cf_queue_capacity one_worker) (cf_backpressure one_worker) = Some (Inr q)"
    using lf_new_answers [of sample_timed "cf_queue_capacity one_worker" "cf_backpressure one_worker"] by fastforce
  then obtain k where k: "1 \<le> k" "k \<le> 30" "q = lf_ring sample_timed (2 ^ k) (cf_backpressure one_worker)"
    by (rule lf_new_Inr)
  have q: "lf_inv 1 q" "lf_contents q = []" "\<not> lf_shutting_down q"
    using lf_ring_inv [OF k(1,2), of 1] by (simp_all add: k(3))
  from glf.main_demo [OF q line, of "cf_backpressure one_worker" on_flush one_worker k0 0] new show ?thesis by meson
qed

theorem lock_free_main_terminates_witness:
  "\<exists>q m m'. main_reach bit_lib lock_free_queue_ops (cf_backpressure one_worker) (\<lambda>batch bs. bs @ [batch])
      (main_start one_worker q [] 0) m \<and> pl_pushes (gw_pipe (gm_gateway m)) = 1 \<and>
    (gm_main m = Main_Returned \<or>
     main_step bit_lib lock_free_queue_ops (cf_backpressure one_worker) (\<lambda>batch bs. bs @ [batch]) m m')"
proof -
  obtain q m where m: "lf_new sample_timed (cf_queue_capacity one_worker) (cf_backpressure one_worker) = Some (Inr q)"
    "main_reach bit_lib lock_free_queue_ops (cf_backpressure one_worker) (\<lambda>batch bs. bs @ [batch]) (main_start one_worker q [] 0) m"
    "gm_flush_shutdown m" "pl_pushes (gw_pipe (gm_gateway m)) = 1"
    using demo_lf_main [of "\<lambda>batch bs. bs @ [batch]" "[]"] by fastforce
  have p: "pl_pushes (gw_pipe (gm_gateway m)) \<le> 2 ^ 62" by (simp add: m(4))
  from lock_free_main_terminates [OF m(1-3) p, of 0 m] m(2,4) show ?thesis by auto
qed

theorem gateway_setup_outcome_witness:
  "\<exists>m. gateway_setup (\<lambda>c p. Some (bq_new (unat c) p))
       \<lparr>os_sink_thread = (\<lambda>_. True), os_signals = True, os_worker_thread = (\<lambda>_. True), os_port = True, os_flush_thread = True\<rparr>
       (\<lambda>_. Some []) 0 0 [''--workers='' @ to_string 1]
     = Some (Inr (one_worker, m :: (Event TimedEvent BoundedQueue, gateway_sink) gateway_main))"
  by (rule iffD2 [OF conjunct1 [OF gateway_setup_outcome [OF one_worker_parsed]]])
     (simp add: can_start_def one_worker_def default_config_def)

end
