(* ===== verification/Gateway_Http.thy ===== *)
theory Gateway_Http
  imports Gateway_Main
begin

text \<open>
  The gateway of \<^verbatim>\<open>gateway/src/main.cpp\<close> with the sink of \<^verbatim>\<open>gateway/src/http_sink.cpp\<close> behind its batcher:
  the callback of the batcher is \<open>sink->consume(batch)\<close>, called under the batcher's mutex; \<open>stop()\<close> is called by
  the destructor of the sink, after \<open>main\<close> has flushed the batcher for the last time. The state is the
  product of \<open>gateway_main\<close>, with the list of the batches handed over in place of the sink, and of
  \<open>http_sink\<close>. A step that hands a batch over is a step of both. The gateway may go on while \<open>consume\<close>
  is under way, as long as no other batch is handed over; that allows more interleavings than the mutex.
\<close>

section \<open>State and steps\<close>

record 'q http_gateway =
  hg_main :: "('q, Event list list) gateway_main"
  hg_sink :: http_sink

abbreviation handed :: "('q, Event list list) gateway_main \<Rightarrow> Event list list" where
  "handed m \<equiv> pl_sink (gw_pipe (gm_gateway m))"

text \<open>The callers that are not inside \<open>consume\<close>.\<close>

definition idle :: "http_sink \<Rightarrow> nat set" where
  "idle s = {i. i < length (hs_callers s) \<and> hs_callers s ! i = Outside}"

inductive hg_step ::
    "'j json_lib \<Rightarrow> ('q, Event TimedEvent) EventQueue \<Rightarrow> BackpressurePolicy \<Rightarrow> 'q http_gateway \<Rightarrow> 'q http_gateway \<Rightarrow> bool"
    for J Q policy where
  quiet: "main_step J Q policy collect (hg_main h) m' \<Longrightarrow> handed m' = handed (hg_main h) \<Longrightarrow>
    hg_step J Q policy h (h\<lparr>hg_main := m'\<rparr>)"
| hand_over: "main_step J Q policy collect (hg_main h) m' \<Longrightarrow> handed m' = handed (hg_main h) @ [batch] \<Longrightarrow>
    set (hs_callers (hg_sink h)) \<subseteq> {Outside} \<Longrightarrow> i < length (hs_callers (hg_sink h)) \<Longrightarrow>
    hs_stop (hg_sink h) = Not_Stopped \<Longrightarrow> batch \<noteq> [] \<Longrightarrow> batch_body J [] batch = Some body \<Longrightarrow>
    hg_step J Q policy h (h\<lparr>hg_main := m',
      hg_sink := (hg_sink h)\<lparr>hs_callers := (hs_callers (hg_sink h))[i := Has_Body body]\<rparr>\<rparr>)"
| consume_goes_on: "consume_step J (hg_sink h) s' \<Longrightarrow> idle (hg_sink h) \<subseteq> idle s' \<Longrightarrow>
    hg_step J Q policy h (h\<lparr>hg_sink := s'\<rparr>)"
| thread_runs: "sink_step (hg_sink h) s' \<Longrightarrow> hg_step J Q policy h (h\<lparr>hg_sink := s'\<rparr>)"
| destructor: "gm_main (hg_main h) = Main_Returned \<Longrightarrow> stop_step (hg_sink h) s' \<Longrightarrow>
    hg_step J Q policy h (h\<lparr>hg_sink := s'\<rparr>)"
| clock: "hs_now (hg_sink h) \<le> now \<Longrightarrow> hg_step J Q policy h (h\<lparr>hg_sink := (hg_sink h)\<lparr>hs_now := now\<rparr>\<rparr>)"

definition hg_start :: "Config \<Rightarrow> 'q \<Rightarrow> http_sink \<Rightarrow> int \<Rightarrow> 'q http_gateway" where
  "hg_start config q sink now = \<lparr>hg_main = main_start config q [] now, hg_sink = sink\<rparr>"

abbreviation hg_reach ::
    "'j json_lib \<Rightarrow> ('q, Event TimedEvent) EventQueue \<Rightarrow> BackpressurePolicy \<Rightarrow> 'q http_gateway \<Rightarrow> 'q http_gateway \<Rightarrow> bool" where
  "hg_reach J Q policy \<equiv> (hg_step J Q policy)\<^sup>*\<^sup>*"

text \<open>The batcher's mutex admits one caller at a time.\<close>

definition one_caller :: "consume_pc list \<Rightarrow> nat \<Rightarrow> bool" where
  "one_caller cs i \<longleftrightarrow> i < length cs \<and> (\<forall>j < length cs. j \<noteq> i \<longrightarrow> cs ! j = Outside)"

lemma one_caller_update: "one_caller cs i \<Longrightarrow> one_caller (cs[i := c]) i"
  by (simp add: one_caller_def)

lemma one_caller_busy: "one_caller cs i \<Longrightarrow> j < length cs \<Longrightarrow> cs ! j \<noteq> Outside \<Longrightarrow> j = i"
  by (auto simp: one_caller_def)

lemma one_caller_idle:
  assumes "set cs \<subseteq> {Outside}" "j < length cs"
  shows "one_caller cs j" "cs ! j = Outside"
  using assms nth_mem by (force simp: one_caller_def)+

section \<open>The product projects to its parts\<close>

lemma hg_step_main: "hg_step J Q policy h h' \<Longrightarrow> main_reach J Q policy collect (hg_main h) (hg_main h')"
  by (erule hg_step.cases) auto

lemma hg_step_sink:
  assumes "hg_step J Q policy h h'"
  shows "hg_sink h' = hg_sink h \<or> http_step J (hg_sink h) (hg_sink h')"
  using assms
proof (cases rule: hg_step.cases)
  case (hand_over m' batch i body)
  from consume_enter [OF hand_over(5) one_caller_idle(2) [OF hand_over(4,5)] hand_over(6-8)] hand_over(1)
  show ?thesis by (simp add: http_consume)
qed (auto intro: http_step.intros)

lemma hg_reach_parts:
  assumes "hg_reach J Q policy (hg_start config q sink now) h"
  shows "main_reach J Q policy collect (main_start config q [] now) (hg_main h)" "http_reach J sink (hg_sink h)"
  using assms
proof (induction rule: rtranclp_induct)
  case base
  { case 1 show ?case by (simp add: hg_start_def) }
  { case 2 show ?case by (simp add: hg_start_def http_start) }
next
  case (step h h')
  { case 1 show ?case using rtranclp_trans [OF step(3) hg_step_main [OF step(2)]] . }
  { case 2 show ?case using hg_step_sink [OF step(2)] step(4) by (metis http_next) }
qed

section \<open>The batches made are the batches handed over\<close>

lemma batch_body_lines: "batch_body J [] batch = Some body \<Longrightarrow> body = event_lines J batch"
proof (induction batch arbitrary: body)
  case (Cons e batch)
  then show ?case
    by (auto simp: batch_body_acc [of J "_ @ _"] event_lines_def split: option.splits)
qed (simp add: event_lines_def)

lemma batch_body_clean:
  assumes "json_documented object printable utf8 J" "\<forall>e\<in>set batch. event_clean utf8 e"
  shows "batch_body J [] batch = Some (event_lines J batch)"
  using assms(2)
proof (induction batch)
  case (Cons e batch)
  obtain line where "serialize_event J e = Some line" using serialize_event_clean [OF assms(1), of e] Cons.prems by auto
  with Cons show ?case by (simp add: batch_body_acc [of J "line @ [CHR 0x0A]"] event_lines_def)
qed (simp add: event_lines_def)

fun in_hand :: "consume_pc \<Rightarrow> string list" where
  "in_hand (Has_Body body) = [body]"
| "in_hand _ = []"

definition hg_inv :: "'j json_lib \<Rightarrow> 'q http_gateway \<Rightarrow> bool" where
  "hg_inv J h \<longleftrightarrow> (\<exists>i. one_caller (hs_callers (hg_sink h)) i \<and>
     map ob_body (hs_made (hg_sink h)) @ in_hand (hs_callers (hg_sink h) ! i) = map (event_lines J) (handed (hg_main h)))"

lemma hg_step_inv:
  assumes "hg_step J Q policy h h'" "hg_inv J h"
  shows "hg_inv J h'"
proof -
  obtain i where i: "one_caller (hs_callers (hg_sink h)) i"
    "map ob_body (hs_made (hg_sink h)) @ in_hand (hs_callers (hg_sink h) ! i) = map (event_lines J) (handed (hg_main h))"
    using assms(2) by (auto simp: hg_inv_def)
  have len: "i < length (hs_callers (hg_sink h))" using i(1) by (simp add: one_caller_def)
  show ?thesis using assms(1)
  proof (cases rule: hg_step.cases)
    case (quiet m')
    with i show ?thesis by (auto simp: hg_inv_def)
  next
    case (hand_over m' batch k body)
    note C = one_caller_idle [OF hand_over(4)]
    have "in_hand (hs_callers (hg_sink h) ! i) = []" using C(2) [OF len] by simp
    with i(2) batch_body_lines [OF hand_over(8)] hand_over one_caller_update [OF C(1) [OF hand_over(5)]] show ?thesis
      by (intro hg_inv_def [THEN iffD2] exI [of _ k]) simp
  next
    case (consume_goes_on s')
    from consume_goes_on(2,3) i len show ?thesis
    proof (cases rule: consume_step.cases)
      case (consume_enter k batch body)
      then have "k \<in> idle (hg_sink h)" "k \<notin> idle s'" by (auto simp: idle_def)
      with consume_goes_on(3) show ?thesis by blast
    next
      case (consume_mint k body key counter' queued)
      then have "k = i" using one_caller_busy [OF i(1)] by simp
      with consume_mint consume_goes_on(1) i len one_caller_update [OF i(1)] show ?thesis
        by (intro hg_inv_def [THEN iffD2] exI [of _ i]) simp
    next
      case (consume_push k queued r q')
      then have "k = i" using one_caller_busy [OF i(1)] by simp
      with consume_push consume_goes_on(1) i len one_caller_update [OF i(1)] show ?thesis
        by (intro hg_inv_def [THEN iffD2] exI [of _ i]) simp
    next
      case (consume_return k r)
      then have "k = i" using one_caller_busy [OF i(1)] by simp
      with consume_return consume_goes_on(1) i len one_caller_update [OF i(1)] show ?thesis
        by (intro hg_inv_def [THEN iffD2] exI [of _ i]) simp
    qed
  next
    case (thread_runs s')
    with sink_step_frame [OF thread_runs(2)] i show ?thesis by (auto simp: hg_inv_def)
  next
    case (destructor s')
    then have "hs_callers s' = hs_callers (hg_sink h) \<and> hs_made s' = hs_made (hg_sink h)"
      by (auto elim!: stop_step.cases)
    with destructor i show ?thesis by (auto simp: hg_inv_def)
  next
    case (clock now)
    with i show ?thesis by (auto simp: hg_inv_def)
  qed
qed

lemma hg_reach_inv:
  assumes "hg_reach J Q policy (hg_start config q sink now) h" "set (hs_callers sink) \<subseteq> {Outside}" "hs_callers sink \<noteq> []"
    "hs_made sink = []"
  shows "hg_inv J h"
  using assms(1)
proof (induction rule: rtranclp_induct)
  case base
  have 0: "0 < length (hs_callers sink)" using assms(3) by simp
  from one_caller_idle [OF assms(2) 0] assms(4) show ?case
    by (intro hg_inv_def [THEN iffD2] exI [of _ 0])
       (simp add: hg_start_def main_start_def gateway_start_def pipeline_start_def)
next
  case (step h h')
  then show ?case by (blast intro: hg_step_inv)
qed

section \<open>What is handed over\<close>

lemma fold_collect: "fold collect bs acc = acc @ bs"
  by (induction bs arbitrary: acc) simp_all

text \<open>A step of the gateway hands over nothing or one batch that is not empty.\<close>

lemma batcher_log:
  assumes "batcher_step collect c (b, bl) = (b', bl')" "batcher_inv b"
  shows "bl' = bl \<or> (\<exists>batch. bl' = bl @ [batch] \<and> batch_ok (ba_max_batch_size b) batch)"
proof -
  obtain bs where bs: "batcher_step collect c (b, []) = (b', bs)" "bl' = bl @ bs"
    using assms(1) batcher_step_append [of c b bl] by (auto simp: Let_def split: prod.splits)
  have "length bs \<le> 1"
    using bs(1) by (cases c) (auto simp: add_event_def batcher_flush_def flush_locked_def Let_def split: if_splits)
  with bs(2) batcher_step_facts(2) [OF bs(1) assms(2)] show ?thesis by (cases bs) auto
qed

lemma flush_now_log:
  assumes "batcher_inv (pl_batcher (gw_pipe g))"
  shows "pl_sink (gw_pipe (flush_now collect g)) = pl_sink (gw_pipe g) \<or>
    (\<exists>batch. pl_sink (gw_pipe (flush_now collect g)) = pl_sink (gw_pipe g) @ [batch] \<and>
       batch_ok (ba_max_batch_size (pl_batcher (gw_pipe g))) batch)"
proof -
  obtain b' k' where f: "batcher_step collect Flush (pl_batcher (gw_pipe g), pl_sink (gw_pipe g)) = (b', k')" by force
  with batcher_log [OF f assms] show ?thesis by (simp add: flush_now_def)
qed

lemma main_step_log:
  assumes "main_step J Q policy collect m m'" "batcher_inv (pl_batcher (gw_pipe (gm_gateway m)))"
  shows "handed m' = handed m \<or> (\<exists>batch. handed m' = handed m @ [batch] \<and>
    batch_ok (ba_max_batch_size (pl_batcher (gw_pipe (gm_gateway m)))) batch)"
  using assms(1)
proof (cases rule: main_step.cases)
  case (main_reactor g')
  from main_reactor(3,1) show ?thesis
    by (cases rule: reactor_step.cases)
       (auto simp: acceptor_frame log_push_def split: option.splits call.splits)
next
  case (main_worker pipe')
  from main_worker(2) show ?thesis
  proof (cases rule: worker_step.cases)
    case (worker_add i event now1 now2 b' k')
    then have "batcher_step collect (Add_Event now1 now2 event) (pl_batcher (gw_pipe (gm_gateway m)), handed m) = (b', k')"
      by simp
    from batcher_log [OF this assms(2)] worker_add(1) main_worker(1) show ?thesis by simp
  qed (use main_worker(1) in simp_all)
next
  case main_final_flush
  with flush_now_log [OF assms(2)] show ?thesis by simp
next
  case flush_periodic
  with flush_now_log [OF assms(2)] show ?thesis by simp
qed (simp_all add: stop_pool_def)

context gateway_queue
begin

text \<open>Every event that was handed over came out of the parser.\<close>

lemma handed_parsed:
  assumes "main_reach J Q pol collect (main_start config q [] now) m"
    and "invar N q" "contents q = []" "\<not> is_closed q" "pl_pushes (gw_pipe (gm_gateway m)) \<le> N"
    and "batch \<in> set (handed m)" "e \<in> set batch"
  shows "\<exists>line. parse_event J line = Some e"
proof -
  let ?s = "gw_pipe (gm_gateway m)"
  have R: "gateway_reach J Q pol collect (gateway_start config q [] now) (gm_gateway m)"
    using main_reach_refines [OF assms(1)] by simp
  have pool: "pool_inv contents is_closed invar N collect [] ?s"
    using gateway_reach_inv [OF R assms(2-5)] by (simp add: gw_inv_def Let_def)
  obtain batches where b: "handed m = fold collect batches []" "concat batches @ ba_buffer (pl_batcher ?s) = pl_added ?s"
    using pool by (auto simp: pool_inv_def sink_split_def)
  then have "e \<in># mset (pl_added ?s)" using assms(6,7) by (auto simp: fold_collect simp flip: b(2))
  moreover have "mset (map te_event (pl_popped ?s)) = held_mset (pl_workers ?s) + mset (pl_added ?s)"
    using pool by (simp add: pool_inv_def)
  ultimately have "e \<in># mset (map te_event (pl_popped ?s))" by simp
  moreover have "mset (pl_popped ?s) \<subseteq># mset (pl_stored ?s)"
    using pool fifo_split_subseq_mset by (auto simp: pool_inv_def)
  ultimately obtain timed where "timed \<in> set (pl_stored ?s)" "e = te_event timed"
    by (auto dest: mset_subset_eqD)
  with parsed_reach [OF R] show ?thesis by (auto simp: parsed_inv_def parsed_def)
qed

text \<open>When \<open>main\<close> has returned everything that was added has been handed over, in order.\<close>

lemma returned_in_order:
  assumes "main_reach J Q pol collect (main_start config q [] now) m" "gm_main m = Main_Returned"
    and "invar N q" "contents q = []" "\<not> is_closed q" "pl_pushes (gw_pipe (gm_gateway m)) \<le> N"
  shows "concat (handed m) = pl_added (gw_pipe (gm_gateway m))"
proof -
  have R: "main_control m" "gateway_reach J Q pol collect (gateway_start config q [] now) (gm_gateway m)"
    using main_reach_refines [OF assms(1)] by simp_all
  have "pool_inv contents is_closed invar N collect [] (gw_pipe (gm_gateway m))"
    using gateway_reach_inv [OF R(2) assms(3-6)] by (simp add: gw_inv_def Let_def)
  then obtain batches where "handed m = fold collect batches []"
    "concat batches @ ba_buffer (pl_batcher (gw_pipe (gm_gateway m))) = pl_added (gw_pipe (gm_gateway m))"
    by (auto simp: pool_inv_def sink_split_def)
  moreover have "ba_buffer (pl_batcher (gw_pipe (gm_gateway m))) = []" using R(1) assms(2) by (simp add: main_control_def)
  ultimately show ?thesis by (simp add: fold_collect)
qed

lemma main_batcher_inv:
  assumes "main_reach J Q pol on_flush (main_start config q k0 now) m"
    and "invar N q" "contents q = []" "\<not> is_closed q" "pl_pushes (gw_pipe (gm_gateway m)) \<le> N"
  shows "batcher_inv (pl_batcher (gw_pipe (gm_gateway m)))"
  using gateway_reach_inv [OF conjunct2 [OF main_reach_refines [OF assms(1)]] assms(2-5)]
  by (simp add: gw_inv_def Let_def pool_inv_def sink_split_def)

lemma main_step_pushes:
  assumes "main_reach J Q pol on_flush (main_start config q k0 now) m" "main_step J Q pol on_flush m m'"
  shows "pl_pushes (gw_pipe (gm_gateway m)) \<le> pl_pushes (gw_pipe (gm_gateway m'))"
  using main_step_refines [OF assms(2)] main_reach_refines [OF assms(1)] gateway_step_pushes by force

lemma handover_ok:
  assumes J: "json_documented object printable utf8 J"
    and m: "main_reach J Q pol collect (main_start config q [] now) m" "main_step J Q pol collect m m'"
    and q: "invar N q" "contents q = []" "\<not> is_closed q" "pl_pushes (gw_pipe (gm_gateway m')) \<le> N"
  shows "handed m' = handed m \<or> (\<exists>batch. handed m' = handed m @ [batch] \<and>
      batch_ok (ba_max_batch_size (pl_batcher (gw_pipe (gm_gateway m)))) batch \<and>
      (\<forall>e\<in>set batch. event_clean utf8 e))"
proof -
  have m': "main_reach J Q pol collect (main_start config q [] now) m'"
    by (rule rtranclp.rtrancl_into_rtrancl [OF m])
  have N: "pl_pushes (gw_pipe (gm_gateway m)) \<le> N" using main_step_pushes [OF m] q(4) by simp
  have "event_clean utf8 e" if "batch \<in> set (handed m')" "e \<in> set batch" for batch e
    using handed_parsed [OF m' q that] parse_event_clean [OF J] by blast
  then show ?thesis using main_step_log [OF m(2) main_batcher_inv [OF m(1) q(1-3) N]] by force
qed

end

section \<open>Runs of the gateway are runs of the product\<close>

definition settled :: "http_sink \<Rightarrow> bool" where
  "settled s \<longleftrightarrow> set (hs_callers s) \<subseteq> {Outside} \<and> hs_callers s \<noteq> []"

lemma one_caller_settled: "one_caller cs i \<Longrightarrow> cs[i := Outside] \<noteq> [] \<and> set (cs[i := Outside]) \<subseteq> {Outside}"
  by (auto simp: one_caller_def in_set_conv_nth nth_list_update)

lemma idle_update: "hs_callers s ! i \<noteq> Outside \<Longrightarrow> hs_callers s' = (hs_callers s)[i := c] \<Longrightarrow> idle s \<subseteq> idle s'"
  by (auto simp: idle_def) (metis nth_list_update_neq)

text \<open>The steps of a call of \<open>consume\<close> that has begun, from the last to the first.\<close>

lemma settle_result:
  assumes "one_caller (hs_callers (hg_sink h)) i" "hs_callers (hg_sink h) ! i = Has_Result r"
  shows "\<exists>s. hg_reach J Q policy h (h\<lparr>hg_sink := s\<rparr>) \<and> settled s \<and> hs_stop s = hs_stop (hg_sink h)"
proof -
  let ?s = "(hg_sink h)\<lparr>hs_stats := count_push r (hs_stats (hg_sink h)), hs_callers := (hs_callers (hg_sink h))[i := Outside]\<rparr>"
  have "consume_step J (hg_sink h) ?s" using assms by (intro consume_return) (simp_all add: one_caller_def)
  then have "hg_step J Q policy h (h\<lparr>hg_sink := ?s\<rparr>)"
    by (rule consume_goes_on) (rule idle_update [of _ i _ Outside]; simp add: assms(2))
  then show ?thesis using one_caller_settled [OF assms(1)] by (intro exI [of _ ?s]) (auto simp: settled_def)
qed

lemma settle_batch:
  assumes "one_caller (hs_callers (hg_sink h)) i" "hs_callers (hg_sink h) ! i = Has_Batch queued"
  shows "\<exists>s. hg_reach J Q policy h (h\<lparr>hg_sink := s\<rparr>) \<and> settled s \<and> hs_stop s = hs_stop (hg_sink h)"
proof -
  obtain r q' where push: "bq_push (hs_outbound (hg_sink h)) queued = (r, q')" by force
  let ?s = "(hg_sink h)\<lparr>hs_outbound := q', hs_evicted := hs_evicted (hg_sink h) @ push_evicts (hs_outbound (hg_sink h)) queued r,
    hs_callers := (hs_callers (hg_sink h))[i := Has_Result r]\<rparr>"
  have len: "i < length (hs_callers (hg_sink h))" using assms(1) by (simp add: one_caller_def)
  have "consume_step J (hg_sink h) ?s" by (rule consume_push [OF len assms(2) push])
  then have 1: "hg_step J Q policy h (h\<lparr>hg_sink := ?s\<rparr>)"
    by (rule consume_goes_on) (rule idle_update [of _ i _ "Has_Result r"]; simp add: assms(2))
  show ?thesis
    using settle_result [of "h\<lparr>hg_sink := ?s\<rparr>" i r J Q policy] one_caller_update [OF assms(1)] len 1
    by (auto intro: converse_rtranclp_into_rtranclp)
qed

lemma settle_body:
  assumes "one_caller (hs_callers (hg_sink h)) i" "hs_callers (hg_sink h) ! i = Has_Body body"
  shows "\<exists>s. hg_reach J Q policy h (h\<lparr>hg_sink := s\<rparr>) \<and> settled s \<and> hs_stop s = hs_stop (hg_sink h)"
proof -
  obtain key counter' where mint: "next_idempotency_key (hs_key_prefix (hg_sink h)) (hs_key_counter (hg_sink h)) = (key, counter')"
    by force
  let ?b = "\<lparr>ob_body = body, ob_idempotency_key = key\<rparr>"
  let ?s = "(hg_sink h)\<lparr>hs_key_counter := counter', hs_made := hs_made (hg_sink h) @ [?b],
    hs_callers := (hs_callers (hg_sink h))[i := Has_Batch ?b]\<rparr>"
  have len: "i < length (hs_callers (hg_sink h))" using assms(1) by (simp add: one_caller_def)
  have "consume_step J (hg_sink h) ?s" by (rule consume_mint [OF len assms(2) mint refl])
  then have 1: "hg_step J Q policy h (h\<lparr>hg_sink := ?s\<rparr>)"
    by (rule consume_goes_on) (rule idle_update [of _ i _ "Has_Batch ?b"]; simp add: assms(2))
  show ?thesis
    using settle_batch [of "h\<lparr>hg_sink := ?s\<rparr>" i ?b J Q policy] one_caller_update [OF assms(1)] len 1
    by (auto intro: converse_rtranclp_into_rtranclp)
qed

lemma settle:
  assumes "one_caller (hs_callers (hg_sink h)) i"
  shows "\<exists>s. hg_reach J Q policy h (h\<lparr>hg_sink := s\<rparr>) \<and> settled s \<and> hs_stop s = hs_stop (hg_sink h)"
proof (cases "hs_callers (hg_sink h) ! i")
  case Outside
  then have "settled (hg_sink h)" using one_caller_settled [OF assms] by (simp add: settled_def flip: Outside)
  then show ?thesis by (intro exI [of _ "hg_sink h"]) simp
qed (use settle_body [OF assms] settle_batch [OF assms] settle_result [OF assms] in blast)+

text \<open>A step of the gateway, with the whole call of \<open>consume\<close> if it hands a batch over.\<close>

lemma lift_step:
  assumes "main_step J Q policy collect (hg_main h) m'" "settled (hg_sink h)" "hs_stop (hg_sink h) = Not_Stopped"
    and "handed m' = handed (hg_main h) \<or>
      (\<exists>batch. handed m' = handed (hg_main h) @ [batch] \<and> batch \<noteq> [] \<and> batch_body J [] batch \<noteq> None)"
  shows "\<exists>s. hg_reach J Q policy h \<lparr>hg_main = m', hg_sink = s\<rparr> \<and> settled s \<and> hs_stop s = Not_Stopped"
  using assms(4)
proof
  assume "handed m' = handed (hg_main h)"
  with quiet [OF assms(1)] assms(2,3) show ?thesis by (intro exI [of _ "hg_sink h"]) (cases h, auto)
next
  assume "\<exists>batch. handed m' = handed (hg_main h) @ [batch] \<and> batch \<noteq> [] \<and> batch_body J [] batch \<noteq> None"
  then obtain batch body where b: "handed m' = handed (hg_main h) @ [batch]" "batch \<noteq> []" "batch_body J [] batch = Some body"
    by blast
  have c: "set (hs_callers (hg_sink h)) \<subseteq> {Outside}" "0 < length (hs_callers (hg_sink h))"
    using assms(2) by (simp_all add: settled_def)
  let ?h = "h\<lparr>hg_main := m', hg_sink := (hg_sink h)\<lparr>hs_callers := (hs_callers (hg_sink h))[0 := Has_Body body]\<rparr>\<rparr>"
  have 1: "hg_step J Q policy h ?h" by (rule hand_over [OF assms(1) b(1) c assms(3) b(2,3)])
  have "one_caller (hs_callers (hg_sink ?h)) 0" using one_caller_update [OF one_caller_idle(1) [OF c]] by simp
  from settle_body [OF this, of body J Q policy] c(2) obtain s where
    "hg_reach J Q policy ?h (?h\<lparr>hg_sink := s\<rparr>)" "settled s" "hs_stop s = Not_Stopped" using assms(3) by auto
  with 1 show ?thesis by (intro exI [of _ s]) (cases h, auto intro: converse_rtranclp_into_rtranclp)
qed

lemma lift_stop:
  assumes "stop_step\<^sup>*\<^sup>* (hg_sink h) s" "gm_main (hg_main h) = Main_Returned"
  shows "hg_reach J Q policy h (h\<lparr>hg_sink := s\<rparr>)"
  using assms(1)
proof (induction rule: rtranclp_induct)
  case (step s s')
  have "hg_step J Q policy (h\<lparr>hg_sink := s\<rparr>) (h\<lparr>hg_sink := s'\<rparr>)"
    using destructor [of "h\<lparr>hg_sink := s\<rparr>" s'] assms(2) step(2) by simp
  with step(3) show ?case by simp
qed simp

lemma lift_threads:
  assumes "sink_step\<^sup>*\<^sup>* (hg_sink h) s"
  shows "hg_reach J Q policy h (h\<lparr>hg_sink := s\<rparr>)"
  using assms
proof (induction rule: rtranclp_induct)
  case (step s s')
  have "hg_step J Q policy (h\<lparr>hg_sink := s\<rparr>) (h\<lparr>hg_sink := s'\<rparr>)"
    using thread_runs [of "h\<lparr>hg_sink := s\<rparr>" s'] step(2) by simp
  with step(3) show ?case by simp
qed simp

section \<open>The end\<close>

lemma hg_stop_after_main:
  assumes "hg_reach J Q policy (hg_start config q sink now) h" "hs_stop sink = Not_Stopped"
  shows "hs_stop (hg_sink h) = Not_Stopped \<or> gm_main (hg_main h) = Main_Returned"
  using assms(1)
proof (induction rule: rtranclp_induct)
  case base
  then show ?case using assms(2) by (simp add: hg_start_def)
next
  case (step h h')
  have main: "gm_main m' = Main_Returned" if "main_step J Q policy collect m m'" "gm_main m = Main_Returned" for m m'
    using main_step_mono [OF that(1)] that(2) by simp
  from step(2,3) show ?case
  proof (cases rule: hg_step.cases)
    case (quiet m')
    with main step(3) show ?thesis by auto
  next
    case (hand_over m' batch i body)
    with main step(3) show ?thesis by auto
  next
    case (consume_goes_on s')
    then have "hs_stop s' = hs_stop (hg_sink h)" by (auto elim!: consume_step.cases)
    with consume_goes_on step(3) show ?thesis by simp
  next
    case (thread_runs s')
    with sink_step_frame [OF thread_runs(2)] step(3) show ?thesis by simp
  qed (use step(3) in auto)
qed

context gateway_queue
begin

lemma lift_run:
  assumes J: "json_documented object printable utf8 J"
    and h: "hg_reach J Q pol (hg_start config q sink now) h" "settled (hg_sink h)" "hs_stop (hg_sink h) = Not_Stopped"
    and q: "invar N q" "contents q = []" "\<not> is_closed q"
    and "main_reach J Q pol collect (hg_main h) m" "pl_pushes (gw_pipe (gm_gateway m)) \<le> N"
  shows "\<exists>s. hg_reach J Q pol h \<lparr>hg_main = m, hg_sink = s\<rparr> \<and> settled s \<and> hs_stop s = Not_Stopped"
  using assms(8,9)
proof (induction rule: rtranclp_induct)
  case base
  show ?case using h(2,3) by (intro exI [of _ "hg_sink h"]) (cases h, simp)
next
  case (step m m')
  have m: "main_reach J Q pol collect (main_start config q [] now) m"
    using rtranclp_trans [OF hg_reach_parts(1) [OF h(1)] step(1)] .
  have "pl_pushes (gw_pipe (gm_gateway m)) \<le> N" using main_step_pushes [OF m step(2)] step(4) by simp
  then obtain s where s: "hg_reach J Q pol h \<lparr>hg_main = m, hg_sink = s\<rparr>" "settled s" "hs_stop s = Not_Stopped"
    using step(3) by blast
  have "handed m' = handed m \<or>
      (\<exists>batch. handed m' = handed m @ [batch] \<and> batch \<noteq> [] \<and> batch_body J [] batch \<noteq> None)"
    using handover_ok [OF J m step(2) q step(4)] batch_body_clean [OF J] by (fastforce simp: batch_ok_def)
  with lift_step [of J Q pol "\<lparr>hg_main = m, hg_sink = s\<rparr>" m'] s(2,3) step(2) obtain s' where
    "hg_reach J Q pol \<lparr>hg_main = m, hg_sink = s\<rparr> \<lparr>hg_main = m', hg_sink = s'\<rparr>" "settled s'" "hs_stop s' = Not_Stopped"
    by auto
  with s(1) show ?case by (meson rtranclp_trans)
qed

text \<open>\<open>main\<close> returns with no call of \<open>consume\<close> under way.\<close>

lemma hg_main_finishes:
  assumes J: "json_documented object printable utf8 J"
    and sink: "hs_new opts drawn start callers stats_new = Inr sink" "0 < callers"
    and h: "hg_reach J Q pol (hg_start config q sink now) h" "gm_flush_shutdown (hg_main h)"
    and q: "invar N q" "contents q = []" "\<not> is_closed q" "pl_pushes (gw_pipe (gm_gateway (hg_main h))) \<le> N"
  shows "\<exists>m s. hg_reach J Q pol h \<lparr>hg_main = m, hg_sink = s\<rparr> \<and> settled s \<and> gm_main m = Main_Returned \<and>
    pl_pushes (gw_pipe (gm_gateway m)) \<le> N \<and>
    st_events_accepted (pl_stats (gw_pipe (gm_gateway m))) = st_events_accepted (pl_stats (gw_pipe (gm_gateway (hg_main h))))"
proof -
  have new: "set (hs_callers sink) \<subseteq> {Outside}" "hs_callers sink \<noteq> []" "hs_made sink = []" "hs_stop sink = Not_Stopped"
    using sink by (auto simp: hs_new_def bind_result_Inr_iff)
  obtain i where i: "one_caller (hs_callers (hg_sink h)) i" using hg_reach_inv [OF h(1) new(1-3)] by (auto simp: hg_inv_def)
  obtain s where s: "hg_reach J Q pol h (h\<lparr>hg_sink := s\<rparr>)" "settled s" "hs_stop s = hs_stop (hg_sink h)"
    using settle [OF i] by blast
  show ?thesis
  proof (cases "hs_stop (hg_sink h) = Not_Stopped")
    case True
    obtain m where m: "main_reach J Q pol collect (hg_main h) m" "gm_main m = Main_Returned"
      "pl_pushes (gw_pipe (gm_gateway m)) \<le> N"
      "st_events_accepted (pl_stats (gw_pipe (gm_gateway m))) = st_events_accepted (pl_stats (gw_pipe (gm_gateway (hg_main h))))"
      using ending_finishes [OF main_reach_ending [OF hg_reach_parts(1) [OF h(1)] h(2) q]] by blast
    with lift_run [OF J rtranclp_trans [OF h(1) s(1)] _ _ q(1-3), of m] s True obtain s2 where
      "hg_reach J Q pol (h\<lparr>hg_sink := s\<rparr>) \<lparr>hg_main = m, hg_sink = s2\<rparr>" "settled s2" by auto
    with rtranclp_trans [OF s(1)] m show ?thesis by blast
  next
    case False
    then have "gm_main (hg_main h) = Main_Returned" using hg_stop_after_main [OF h(1) new(4)] by blast
    with s q(4) show ?thesis by (intro exI [of _ "hg_main h"] exI [of _ s]) (cases h, simp)
  qed
qed

lemma hg_finishes:
  assumes J: "json_documented object printable utf8 J"
    and sink: "hs_new opts drawn start callers stats_new = Inr sink" "0 < callers"
    and h: "hg_reach J Q pol (hg_start config q sink now) h" "gm_flush_shutdown (hg_main h)"
    and q: "invar N q" "contents q = []" "\<not> is_closed q" "pl_pushes (gw_pipe (gm_gateway (hg_main h))) \<le> N"
  shows "\<exists>h'. hg_reach J Q pol h h' \<and> gm_main (hg_main h') = Main_Returned \<and>
    th_pc ` set (hs_threads (hg_sink h')) \<subseteq> {Sink_Exited} \<and> pl_pushes (gw_pipe (gm_gateway (hg_main h'))) \<le> N \<and>
    st_events_accepted (pl_stats (gw_pipe (gm_gateway (hg_main h')))) = st_events_accepted (pl_stats (gw_pipe (gm_gateway (hg_main h))))"
proof -
  obtain m s where 1: "hg_reach J Q pol h \<lparr>hg_main = m, hg_sink = s\<rparr>" "settled s" "gm_main m = Main_Returned"
    "pl_pushes (gw_pipe (gm_gateway m)) \<le> N"
    "st_events_accepted (pl_stats (gw_pipe (gm_gateway m))) = st_events_accepted (pl_stats (gw_pipe (gm_gateway (hg_main h))))"
    using hg_main_finishes [OF J sink h q] by blast
  obtain s2 where s2: "stop_step\<^sup>*\<^sup>* s s2" "hs_stop s2 = Joining" using stop_joins 1(2) by (auto simp: settled_def)
  have 2: "hg_reach J Q pol h \<lparr>hg_main = m, hg_sink = s2\<rparr>"
    using rtranclp_trans [OF 1(1) lift_stop [of "\<lparr>hg_main = m, hg_sink = s\<rparr>" s2]] s2(1) 1(3) by simp
  have "http_inv s2" using http_reach_inv [OF hg_reach_parts(2) [OF rtranclp_trans [OF h(1) 2]] sink(1)] by simp
  from sink_threads_finish [OF this s2(2)] obtain s3 where s3: "sink_step\<^sup>*\<^sup>* s2 s3" "th_pc ` set (hs_threads s3) \<subseteq> {Sink_Exited}"
    by blast
  have "hg_reach J Q pol h \<lparr>hg_main = m, hg_sink = s3\<rparr>"
    using rtranclp_trans [OF 2 lift_threads [of "\<lparr>hg_main = m, hg_sink = s2\<rparr>" s3]] s3(1) by simp
  with 1 s3(2) show ?thesis by (intro exI [of _ "\<lparr>hg_main = m, hg_sink = s3\<rparr>"]) simp
qed

end

section \<open>Every run ends\<close>

text \<open>Time passes, and then some thread does something.\<close>

definition hg_acts ::
    "'j json_lib \<Rightarrow> ('q, Event TimedEvent) EventQueue \<Rightarrow> BackpressurePolicy \<Rightarrow> 'q http_gateway \<Rightarrow> 'q http_gateway \<Rightarrow> bool" where
  "hg_acts J Q policy h h' \<longleftrightarrow> (\<exists>now \<ge> hs_now (hg_sink h).
     let h1 = h\<lparr>hg_sink := (hg_sink h)\<lparr>hs_now := now\<rparr>\<rparr>
     in hg_step J Q policy h1 h' \<and> h' \<noteq> h1 \<and> hs_now (hg_sink h') = now)"

lemma hg_acts_reach: "hg_acts J Q policy h h' \<Longrightarrow> hg_reach J Q policy h h'"
  unfolding hg_acts_def Let_def by (blast intro: clock r_into_rtranclp converse_rtranclp_into_rtranclp)

lemma hg_actsI:
  assumes "hg_step J Q policy h h'" "h' \<noteq> h" "hs_now (hg_sink h') = hs_now (hg_sink h)"
  shows "hg_acts J Q policy h h'"
  unfolding hg_acts_def Let_def using assms by (intro exI [of _ "hs_now (hg_sink h)"]) simp

fun caller_weight :: "nat \<Rightarrow> consume_pc \<Rightarrow> nat" where
  "caller_weight k Outside = 0"
| "caller_weight k (Has_Result r) = 1"
| "caller_weight k (Has_Batch batch) = k + 2"
| "caller_weight k (Has_Body body) = k + 3"

fun stop_rank :: "stop_pc \<Rightarrow> nat" where
  "stop_rank Not_Stopped = 4"
| "stop_rank Stop_Claimed = 3"
| "stop_rank Deadline_Set = 2"
| "stop_rank Draining = 1"
| "stop_rank Joining = 0"

text \<open>A batch in the outbound queue or with a sink thread is at most so many steps of work.\<close>

abbreviation batch_steps :: "http_sink \<Rightarrow> nat" where
  "batch_steps s \<equiv> ho_max_retries (hs_options s) + 3"

abbreviation calls_weight :: "http_sink \<Rightarrow> nat" where
  "calls_weight s \<equiv> sum_list (map (caller_weight (batch_steps s)) (hs_callers s))"

definition sink_left :: "http_sink \<Rightarrow> nat" where
  "sink_left s = calls_weight s + sink_work s + stop_rank (hs_stop s)"

lemma caller_weight_update:
  assumes "i < length (hs_callers s)"
  shows "sum_list (map (caller_weight k) ((hs_callers s)[i := c])) + caller_weight k (hs_callers s ! i) =
    sum_list (map (caller_weight k) (hs_callers s)) + caller_weight k c"
  using caller_update [OF assms, of "caller_weight k" c] by simp

lemma bq_push_length: "bq_push q x = (r, q') \<Longrightarrow> length (bq_items q') \<le> Suc (length (bq_items q))"
  by (auto simp: bq_push_def split: if_splits)

lemma consume_step_left:
  assumes "consume_step J s s'" "idle s \<subseteq> idle s'"
  shows "sink_left s' < sink_left s"
  using assms(1)
proof (cases rule: consume_step.cases)
  case (consume_enter i batch body)
  then have "i \<in> idle s" "i \<notin> idle s'" by (auto simp: idle_def)
  with assms(2) show ?thesis by blast
next
  case (consume_mint i body key counter' queued)
  with caller_weight_update [OF consume_mint(2), of "batch_steps s" "Has_Batch queued"] show ?thesis
    by (simp add: sink_left_def sink_work_def)
next
  case (consume_push i queued r q')
  have "batch_steps s * length (bq_items q') \<le> batch_steps s * Suc (length (bq_items (hs_outbound s)))"
    by (intro mult_le_mono2 bq_push_length [OF consume_push(4)])
  with consume_push caller_weight_update [OF consume_push(2), of "batch_steps s" "Has_Result r"] show ?thesis
    by (simp add: sink_left_def sink_work_def)
next
  case (consume_return i r)
  with caller_weight_update [OF consume_return(2), of "batch_steps s" Outside] show ?thesis
    by (simp add: sink_left_def sink_work_def)
qed

lemma stop_step_left: "stop_step s s' \<Longrightarrow> sink_left s' < sink_left s"
  by (erule stop_step.cases) (auto simp: sink_left_def sink_work_def bq_shutdown_def)

lemma sink_step_options: "sink_step s s' \<Longrightarrow> hs_options s' = hs_options s"
  by (erule sink_step.cases) simp_all

lemma sink_step_left: "sink_step s s' \<Longrightarrow> stopping s \<Longrightarrow> sink_left s' < sink_left s"
  using sink_step_work [of s s'] sink_step_frame [of s s'] sink_step_options [of s s'] by (simp add: sink_left_def)

text \<open>A call that has begun goes on.\<close>

lemma caller_goes_on:
  assumes "one_caller (hs_callers (hg_sink h)) i" "hs_callers (hg_sink h) ! i \<noteq> Outside"
  shows "\<exists>h'. hg_step J Q policy h h' \<and> h' \<noteq> h \<and> hs_now (hg_sink h') = hs_now (hg_sink h)"
proof -
  let ?s = "hg_sink h"
  have len: "i < length (hs_callers ?s)" using assms(1) by (simp add: one_caller_def)
  have moves: "\<exists>h'. hg_step J Q policy h h' \<and> h' \<noteq> h \<and> hs_now (hg_sink h') = hs_now ?s"
    if "consume_step J ?s s'" "hs_callers s' = (hs_callers ?s)[i := c]" "c \<noteq> hs_callers ?s ! i" "hs_now s' = hs_now ?s" for s' c
  proof -
    have "hg_step J Q policy h (h\<lparr>hg_sink := s'\<rparr>)"
      by (rule consume_goes_on [OF that(1) idle_update [OF assms(2) that(2)]])
    moreover have "s' \<noteq> ?s" using that(2,3) len by (metis nth_list_update_eq)
    then have "h\<lparr>hg_sink := s'\<rparr> \<noteq> h" by (cases h) auto
    ultimately show ?thesis using that(4) by (intro exI [of _ "h\<lparr>hg_sink := s'\<rparr>"]) simp
  qed
  show ?thesis
  proof (cases "hs_callers ?s ! i")
    case (Has_Body body)
    obtain key counter' where "next_idempotency_key (hs_key_prefix ?s) (hs_key_counter ?s) = (key, counter')" by force
    from moves [OF consume_mint [OF len Has_Body this refl]] Has_Body show ?thesis by simp
  next
    case (Has_Batch queued)
    obtain r q' where "bq_push (hs_outbound ?s) queued = (r, q')" by force
    from moves [OF consume_push [OF len Has_Batch this]] Has_Batch show ?thesis by simp
  next
    case (Has_Result r)
    from moves [OF consume_return [OF len Has_Result]] Has_Result show ?thesis by simp
  qed (use assms(2) in simp)
qed

lemma stop_goes_on:
  assumes "set (hs_callers s) \<subseteq> {Outside}" "hs_stop s \<noteq> Joining"
  shows "\<exists>s'. stop_step s s'"
  using assms by (cases "hs_stop s") (blast intro: stop_step.intros)+

context gateway_queue
begin

definition hg_work :: "'q http_gateway \<Rightarrow> nat" where
  "hg_work h = (batch_steps (hg_sink h) + 4) * main_work (hg_main h) + sink_left (hg_sink h)"

definition winding_down :: "nat \<Rightarrow> 'q http_gateway \<Rightarrow> bool" where
  "winding_down N h \<longleftrightarrow> ending N collect [] (hg_main h) \<and> http_inv (hg_sink h)"

lemma hg_step_work:
  assumes "hg_step J Q pol h h'" "winding_down N h" "h' \<noteq> h" "hs_now (hg_sink h') = hs_now (hg_sink h)"
  shows "winding_down N h' \<and> hg_work h' < hg_work h"
proof -
  have E: "ending N collect [] (hg_main h)" and I: "http_inv (hg_sink h)" using assms(2) by (simp_all add: winding_down_def)
  have http: "http_inv (hg_sink h')" using hg_step_sink [OF assms(1)] I http_step_inv by metis
  have s: "stopping (hg_sink h)" using I by (simp add: http_inv_def)
  let ?K = "batch_steps (hg_sink h)"
  have main: "(?K + 4) * main_work m' + (?K + 4) \<le> (?K + 4) * main_work (hg_main h)" "ending N collect [] m'"
    if "main_step J Q pol collect (hg_main h) m'" for m'
  proof -
    have "Suc (main_work m') \<le> main_work (hg_main h)" using ending_step(1) [OF that E] by simp
    from mult_le_mono2 [OF this, of "?K + 4"] show "(?K + 4) * main_work m' + (?K + 4) \<le> (?K + 4) * main_work (hg_main h)"
      by simp
    show "ending N collect [] m'" by (rule ending_step(2) [OF that E])
  qed
  from assms(1) show ?thesis
  proof (cases rule: hg_step.cases)
    case (quiet m')
    with ending_step(1) [OF quiet(2) E] main(2) [OF quiet(2)] http show ?thesis by (simp add: winding_down_def hg_work_def)
  next
    case (hand_over m' batch i body)
    have "hs_callers (hg_sink h) ! i = Outside" by (rule one_caller_idle(2) [OF hand_over(4,5)])
    with caller_weight_update [OF hand_over(5), of ?K "Has_Body body"]
    have "sink_left (hg_sink h') = sink_left (hg_sink h) + ?K + 3"
      by (simp add: hand_over(1) sink_left_def sink_work_def)
    then show ?thesis using main [OF hand_over(2)] http hand_over(1) by (simp add: winding_down_def hg_work_def)
  next
    case (consume_goes_on s')
    have "hs_options s' = hs_options (hg_sink h)" using consume_goes_on(2) by (cases rule: consume_step.cases) simp_all
    with consume_step_left [OF consume_goes_on(2,3)] E http show ?thesis
      by (simp add: consume_goes_on(1) winding_down_def hg_work_def)
  next
    case (thread_runs s')
    have "hs_options s' = hs_options (hg_sink h)" by (rule sink_step_options [OF thread_runs(2)])
    with sink_step_left [OF thread_runs(2) s] E http show ?thesis by (simp add: thread_runs(1) winding_down_def hg_work_def)
  next
    case (destructor s')
    have "hs_options s' = hs_options (hg_sink h)" using destructor(3) by (cases rule: stop_step.cases) simp_all
    with stop_step_left [OF destructor(3)] E http show ?thesis by (simp add: destructor(1) winding_down_def hg_work_def)
  next
    case (clock now)
    then show ?thesis using assms(3,4) by (cases h; cases "hg_sink h") simp
  qed
qed

lemma hg_acts_work:
  assumes "hg_acts J Q pol h h'" "winding_down N h"
  shows "winding_down N h' \<and> hg_work h' < hg_work h"
proof -
  obtain now where now: "hs_now (hg_sink h) \<le> now" "hg_step J Q pol (h\<lparr>hg_sink := (hg_sink h)\<lparr>hs_now := now\<rparr>\<rparr>) h'"
    "h' \<noteq> h\<lparr>hg_sink := (hg_sink h)\<lparr>hs_now := now\<rparr>\<rparr>" "hs_now (hg_sink h') = now"
    using assms(1) unfolding hg_acts_def Let_def by blast
  let ?h = "h\<lparr>hg_sink := (hg_sink h)\<lparr>hs_now := now\<rparr>\<rparr>"
  have "http_inv (hg_sink ?h)"
    using http_step_inv [OF http_tick [OF now(1)]] assms(2) by (simp add: winding_down_def)
  then have w: "winding_down N ?h" using assms(2) by (simp add: winding_down_def)
  have "hg_work ?h = hg_work h" by (simp add: hg_work_def sink_left_def sink_work_def)
  with hg_step_work [OF now(2) w now(3)] now(4) show ?thesis by simp
qed

lemma hg_runs_bounded:
  "(hg_acts J Q pol ^^ n) h h' \<Longrightarrow> winding_down N h \<Longrightarrow> n + hg_work h' \<le> hg_work h \<and> winding_down N h' \<and> hg_reach J Q pol h h'"
proof (induction n arbitrary: h')
  case (Suc n)
  then obtain h1 where h1: "(hg_acts J Q pol ^^ n) h h1" "hg_acts J Q pol h1 h'" by auto
  with Suc have IH: "n + hg_work h1 \<le> hg_work h" "winding_down N h1" "hg_reach J Q pol h h1" by blast+
  with hg_acts_work [OF h1(2) IH(2)] rtranclp_trans [OF IH(3) hg_acts_reach [OF h1(2)]] show ?case by auto
qed simp

lemma hg_progress:
  assumes J: "json_documented object printable utf8 J"
    and sink: "hs_new opts drawn start callers stats_new = Inr sink" "0 < callers"
    and h: "hg_reach J Q pol (hg_start config q sink now) h" "winding_down N h"
    and q: "invar N q" "contents q = []" "\<not> is_closed q"
    and left: "\<not> (gm_main (hg_main h) = Main_Returned \<and> th_pc ` set (hs_threads (hg_sink h)) \<subseteq> {Sink_Exited})"
  shows "\<exists>h'. hg_acts J Q pol h h'"
proof -
  let ?s = "hg_sink h"
  have new: "set (hs_callers sink) \<subseteq> {Outside}" "hs_callers sink \<noteq> []" "hs_made sink = []" "hs_stop sink = Not_Stopped"
    using sink by (auto simp: hs_new_def bind_result_Inr_iff)
  obtain i where i: "one_caller (hs_callers ?s) i" using hg_reach_inv [OF h(1) new(1-3)] by (auto simp: hg_inv_def)
  have E: "ending N collect [] (hg_main h)" and I: "stopping ?s" using h(2) by (simp_all add: winding_down_def http_inv_def)
  have "\<exists>h'. hg_step J Q pol h h' \<and> h' \<noteq> h \<and> hs_now (hg_sink h') = hs_now ?s"
  proof (cases "hs_callers ?s ! i = Outside")
    case False
    show ?thesis by (rule caller_goes_on [OF i False])
  next
    case True
    have out: "set (hs_callers ?s) \<subseteq> {Outside}" using one_caller_settled [OF i] by (simp flip: True)
    have len: "i < length (hs_callers ?s)" using i by (simp add: one_caller_def)
    show ?thesis
    proof (cases "gm_main (hg_main h) = Main_Returned")
      case False
      obtain m' where m': "main_step J Q pol collect (hg_main h) m'" using ending_progress [OF E False] by blast
      note E' = ending_step [OF m' E]
      have neq: "m' \<noteq> hg_main h" using E'(1) by auto
      have "pl_pushes (gw_pipe (gm_gateway m')) \<le> N" using E'(2) by (simp add: ending_def)
      from handover_ok [OF J hg_reach_parts(1) [OF h(1)] m' q this] show ?thesis
      proof
        assume "handed m' = handed (hg_main h)"
        then have "hg_step J Q pol h (h\<lparr>hg_main := m'\<rparr>)" by (rule quiet [OF m'])
        moreover have "h\<lparr>hg_main := m'\<rparr> \<noteq> h" using neq by (cases h) auto
        ultimately show ?thesis by (intro exI [of _ "h\<lparr>hg_main := m'\<rparr>"]) simp
      next
        assume "\<exists>batch. handed m' = handed (hg_main h) @ [batch] \<and>
          batch_ok (ba_max_batch_size (pl_batcher (gw_pipe (gm_gateway (hg_main h))))) batch \<and> (\<forall>e\<in>set batch. event_clean utf8 e)"
        then obtain batch where b: "handed m' = handed (hg_main h) @ [batch]" "batch \<noteq> []" "\<forall>e\<in>set batch. event_clean utf8 e"
          by (auto simp: batch_ok_def)
        have "hs_stop ?s = Not_Stopped" using hg_stop_after_main [OF h(1) new(4)] False by blast
        from hand_over [OF m' b(1) out len this b(2) batch_body_clean [OF J b(3)]] neq show ?thesis
          by (intro exI) (rule conjI, assumption, cases h, auto)
      qed
    next
      case True
      show ?thesis
      proof (cases "hs_stop ?s = Joining")
        case False
        obtain s' where s': "stop_step ?s s'" using stop_goes_on [OF out False] by blast
        then have "s' \<noteq> ?s" using stop_step_left [OF s'] by auto
        then have "h\<lparr>hg_sink := s'\<rparr> \<noteq> h" by (cases h) auto
        moreover have "hs_now s' = hs_now ?s" using s' by (cases rule: stop_step.cases) simp_all
        ultimately show ?thesis using destructor [OF True s', of J Q pol] by (intro exI [of _ "h\<lparr>hg_sink := s'\<rparr>"]) simp
      next
        case joining: True
        obtain k where "k < length (hs_threads ?s)" "th_pc (hs_threads ?s ! k) \<noteq> Sink_Exited"
          using left True by (metis image_subsetI in_set_conv_nth singletonI)
        then obtain s' where s': "sink_step ?s s'" using sink_progress [OF I joining] by blast
        then have "s' \<noteq> ?s" using sink_step_left [OF s' I] by auto
        then have "h\<lparr>hg_sink := s'\<rparr> \<noteq> h" by (cases h) auto
        moreover have "hs_now s' = hs_now ?s" using s' by (cases rule: sink_step.cases) simp_all
        ultimately show ?thesis using thread_runs [OF s', of J Q pol] by (intro exI [of _ "h\<lparr>hg_sink := s'\<rparr>"]) simp
      qed
    qed
  qed
  then show ?thesis using hg_actsI by blast
qed

end

section \<open>Properties\<close>

lemma threads_kept: "http_reach J s0 s \<Longrightarrow> length (hs_threads s) = length (hs_threads s0)"
  by (induction rule: http_reach.induct) (auto elim!: http_step.cases consume_step.cases sink_step.cases stop_step.cases)

lemma fs_consume_returns:
  "\<forall>e\<in>set batch. serialize_event J e \<noteq> None \<Longrightarrow> fst (fs_consume J batch f)"
  by (induction batch arbitrary: f) (auto split: option.splits)

text \<open>C22: What reaches a sink is well formed. In every reachable state of the program with the mutex queue, a step of
  any thread hands over nothing, or one batch that is not empty and no larger than the batch size (one
  event at least), whose events all have finite numbers and text that is valid UTF-8. So neither sink throws on it:
  the body of the POST and the text appended to the file are its lines.\<close>

theorem handed_batches_serialise:
  assumes "json_documented object printable utf8 J" and "bq_new cap p = Inr q"
    and "main_reach J bounded_queue_ops pol collect (main_start config q [] now) m"
    and "main_step J bounded_queue_ops pol collect m m'"
  shows "handed m' = handed m \<or> (\<exists>batch. handed m' = handed m @ [batch] \<and>
    batch_ok (ba_max_batch_size (pl_batcher (gw_pipe (gm_gateway m)))) batch \<and> (\<forall>e\<in>set batch. event_clean utf8 e) \<and>
    batch_body J [] batch = Some (event_lines J batch) \<and> fst (fs_consume J batch f))"
proof -
  have q: "bq_inv q" "bq_items q = []" "\<not> bq_shutting_down q"
    using assms(2) bq_new_inv [OF assms(2)] by (auto simp: bq_new_def split: if_splits)
  from gbq.handover_ok [OF assms(1,3,4) q le_refl] show ?thesis
    using batch_body_clean [OF assms(1)] serialize_event_clean [OF assms(1)] fs_consume_returns by (metis option.simps(3))
qed

text \<open>When no call of \<open>consume\<close> is under way every batch handed over has got its key, in order.\<close>

lemma hg_made_handed:
  assumes "hg_reach J Q policy (hg_start config q sink now) h" "hs_new opts drawn start callers stats_new = Inr sink" "0 < callers"
    and "set (hs_callers (hg_sink h)) \<subseteq> {Outside}"
  shows "map ob_body (hs_made (hg_sink h)) = map (event_lines J) (handed (hg_main h))"
proof -
  have "set (hs_callers sink) \<subseteq> {Outside}" "hs_callers sink \<noteq> []" "hs_made sink = []"
    using assms(2,3) by (auto simp: hs_new_def bind_result_Inr_iff)
  from hg_reach_inv [OF assms(1) this] obtain i where "one_caller (hs_callers (hg_sink h)) i"
    "map ob_body (hs_made (hg_sink h)) @ in_hand (hs_callers (hg_sink h) ! i) = map (event_lines J) (handed (hg_main h))"
    by (auto simp: hg_inv_def)
  then show ?thesis using one_caller_idle(2) [OF assms(4)] by (fastforce simp: one_caller_def)
qed

text \<open>C9: From the sockets to the collector. When the program with the mutex queue and an HTTP sink has ended (\<open>main\<close>
  has returned and the destructor has joined the sink threads), the batches the batcher handed over hold the events the workers added, each
  once and in the order of the calls of \<open>add_event\<close>. These are all the events the queue has taken but for those \<open>DropOldest\<close>
  discarded, and their number is the counter of accepted events. The batches that got a key are these very batches, in that order, with bodies
  that parse back to their events. Each of them was delivered, given up after its retries or at the deadline, or dropped by
  the outbound queue, and the three counters of batches add up to their number.\<close>

theorem http_gateway_end_to_end:
  assumes "json_documented object printable utf8 J" and "parse_args argv = Inr config"
    and "bq_new (unat (cf_queue_capacity config)) (cf_backpressure config) = Inr q"
    and "hs_new opts drawn start callers stats_new = Inr sink" and "0 < callers" and "0 < ho_concurrency opts"
    and "hg_reach J bounded_queue_ops (cf_backpressure config) (hg_start config q sink now) h"
    and "gm_main (hg_main h) = Main_Returned" and "th_pc ` set (hs_threads (hg_sink h)) \<subseteq> {Sink_Exited}"
  shows "concat (handed (hg_main h)) = pl_added (gw_pipe (gm_gateway (hg_main h))) \<and>
    mset (pl_added (gw_pipe (gm_gateway (hg_main h)))) \<subseteq># mset (map te_event (pl_stored (gw_pipe (gm_gateway (hg_main h))))) \<and>
    length (pl_stored (gw_pipe (gm_gateway (hg_main h)))) =
      length (pl_added (gw_pipe (gm_gateway (hg_main h)))) + pl_discards (gw_pipe (gm_gateway (hg_main h))) \<and>
    st_events_accepted (pl_stats (gw_pipe (gm_gateway (hg_main h)))) =
      of_nat (length (pl_added (gw_pipe (gm_gateway (hg_main h))))) \<and>
    map (\<lambda>made. map (parse_event J) (text_lines (ob_body made))) (hs_made (hg_sink h)) = map (map Some) (handed (hg_main h)) \<and>
    mset (hs_made (hg_sink h)) =
      mset (hs_delivered (hg_sink h)) + mset (hs_abandoned (hg_sink h)) + mset (hs_evicted (hg_sink h)) \<and>
    st_batches_sent (hs_stats (hg_sink h)) + st_batches_dropped_exhausted (hs_stats (hg_sink h)) +
      st_batches_dropped_outbound (hs_stats (hg_sink h)) = of_nat (length (handed (hg_main h)))"
proof -
  let ?s = "hg_sink h" and ?m = "hg_main h"
  have q: "bq_inv q" "bq_items q = []" "\<not> bq_shutting_down q"
    using assms(3) bq_new_inv [OF assms(3)] by (auto simp: bq_new_def split: if_splits)
  note R = hg_reach_parts [OF assms(7)]
  have inv: "http_inv ?s" by (rule http_reach_inv [OF R(2) assms(4)])
  have "length (hs_threads ?s) = ho_concurrency opts"
    using threads_kept [OF R(2)] assms(4) by (auto simp: hs_new_def bind_result_Inr_iff)
  then have "hs_threads ?s \<noteq> []" using assms(6) by auto
  note D = sink_drained [OF inv this assms(9)]
  have counts: "st_batches_sent (hs_stats ?s) = of_nat (length (hs_delivered ?s))"
    "st_batches_dropped_exhausted (hs_stats ?s) = of_nat (length (hs_abandoned ?s))"
    using inv by (simp_all add: http_inv_def counters_def)
  have "set (hs_callers ?s) \<subseteq> {Outside}" using inv D(3) by (simp add: http_inv_def stopping_def)
  note made = hg_made_handed [OF assms(7,4,5) this]
  have G: "gateway_reach J bounded_queue_ops (cf_backpressure config) collect (gateway_start config q [] now) (gm_gateway ?m)"
    using main_reach_refines [OF R(1)] by simp
  have added: "concat (handed ?m) = pl_added (gw_pipe (gm_gateway ?m))" by (rule gbq.returned_in_order [OF R(1) assms(8) q le_refl])
  from gbq.main_returned_delivers [OF R(1) assms(8) q le_refl gateway_has_workers [OF G assms(2)]]
  have stored: "mset (concat (handed ?m)) \<subseteq># mset (map te_event (pl_stored (gw_pipe (gm_gateway ?m))))"
    "length (pl_stored (gw_pipe (gm_gateway ?m))) = length (concat (handed ?m)) + pl_discards (gw_pipe (gm_gateway ?m))"
    "st_events_accepted (pl_stats (gw_pipe (gm_gateway ?m))) = of_nat (length (concat (handed ?m)))"
    by (auto simp: fold_collect)
  have "map (parse_event J) (text_lines (event_lines J batch)) = map Some batch" if "batch \<in> set (handed ?m)" for batch
    using event_lines_parse [OF assms(1), of batch "[]"] gbq.handed_parsed [OF R(1) q le_refl that]
      parse_event_clean [OF assms(1)] by auto
  then have "map (\<lambda>body. map (parse_event J) (text_lines body)) (map ob_body (hs_made ?s)) = map (map Some) (handed ?m)"
    unfolding made by simp
  then have "map (\<lambda>made. map (parse_event J) (text_lines (ob_body made))) (hs_made ?s) = map (map Some) (handed ?m)"
    by (simp add: comp_def)
  moreover have "length (handed ?m) = length (hs_delivered ?s) + length (hs_abandoned ?s) + length (hs_evicted ?s)"
    using arg_cong [OF made, of length] arg_cong [OF D(1), of size] by simp
  ultimately show ?thesis using stored [unfolded added] added D(1,2) counts by simp
qed

lemma calls_weight_bound:
  assumes "one_caller cs i"
  shows "sum_list (map (caller_weight k) cs) \<le> k + 3"
proof -
  have "i < length cs" using assms by (simp add: one_caller_def)
  then have "sum_list (map (caller_weight k) (cs[i := Outside])) + caller_weight k (cs ! i) = sum_list (map (caller_weight k) cs)"
    using sum_list_map_update [of i cs "caller_weight k" Outside] by simp
  moreover have "sum_list (map (caller_weight k) (cs[i := Outside])) = 0"
    using one_caller_settled [OF assms] by (fastforce simp: sum_list_eq_0_iff)
  moreover have "caller_weight k (cs ! i) \<le> k + 3" by (cases "cs ! i") simp_all
  ultimately show ?thesis by linarith
qed

text \<open>C16: The program with an HTTP sink ends. Once \<open>main\<close> of the build with the mutex queue has set the flag of the flush thread, then
  whatever is queued, wherever the threads are, whatever the network answers and however long each step takes: some thread can always go on until \<open>main\<close> has
  returned and every sink thread has been joined (\<open>consume\<close> never keeps the shutdown waiting), and however the threads are scheduled, the steps that remain are
  bounded by the events and batches that are queued, the threads and the retries.\<close>

theorem http_gateway_terminates:
  assumes "json_documented object printable utf8 J" and "bq_new cap p = Inr q"
    and "hs_new opts drawn start callers stats_new = Inr sink" and "0 < callers"
    and "hg_reach J bounded_queue_ops pol (hg_start config q sink now) h" and "gm_flush_shutdown (hg_main h)"
    and "(hg_acts J bounded_queue_ops pol ^^ n) h h'"
  shows "n \<le> (ho_max_retries (hs_options (hg_sink h)) + 7) *
        (7 + 3 * length (bq_items (pl_queue (gw_pipe (gm_gateway (hg_main h))))) + 3 * unat (cf_workers config)) +
      (ho_max_retries (hs_options (hg_sink h)) + 3) *
        (length (bq_items (hs_outbound (hg_sink h))) + length (hs_threads (hg_sink h))) +
      ho_max_retries (hs_options (hg_sink h)) + 10 \<and>
    (gm_main (hg_main h') = Main_Returned \<and> th_pc ` set (hs_threads (hg_sink h')) \<subseteq> {Sink_Exited} \<or>
     (\<exists>h''. hg_acts J bounded_queue_ops pol h' h''))"
proof -
  let ?N = "pl_pushes (gw_pipe (gm_gateway (hg_main h)))" and ?r = "ho_max_retries (hs_options (hg_sink h))"
  have q: "bq_inv q" "bq_items q = []" "\<not> bq_shutting_down q"
    using assms(2) bq_new_inv [OF assms(2)] by (auto simp: bq_new_def split: if_splits)
  note R = hg_reach_parts [OF assms(5)]
  have w: "gbq.winding_down ?N h"
    using gbq.main_reach_ending [OF R(1) assms(6) q le_refl] http_reach_inv [OF R(2) assms(3)] by (simp add: gbq.winding_down_def)
  note B = gbq.hg_runs_bounded [OF assms(7) w]
  have new: "set (hs_callers sink) \<subseteq> {Outside}" "hs_callers sink \<noteq> []" "hs_made sink = []"
    using assms(3,4) by (auto simp: hs_new_def bind_result_Inr_iff)
  obtain i where "one_caller (hs_callers (hg_sink h)) i" using hg_reach_inv [OF assms(5) new] by (auto simp: hg_inv_def)
  from calls_weight_bound [OF this, of "?r + 3"] have "calls_weight (hg_sink h) \<le> ?r + 6" by simp
  moreover have "stop_rank (hs_stop (hg_sink h)) \<le> 4" by (cases "hs_stop (hg_sink h)") simp_all
  ultimately have "sink_left (hg_sink h) \<le> (?r + 3) * (length (bq_items (hs_outbound (hg_sink h))) + length (hs_threads (hg_sink h))) + ?r + 10"
    using sink_work_bound [of "hg_sink h"] by (simp add: sink_left_def)
  moreover have "(?r + 7) * gbq.main_work (hg_main h) \<le> (?r + 7) *
      (7 + 3 * length (bq_items (pl_queue (gw_pipe (gm_gateway (hg_main h))))) + 3 * unat (cf_workers config))"
    by (intro mult_le_mono2 gbq.main_work_bound [OF R(1) assms(6)])
  moreover have "gbq.hg_work h = (?r + 7) * gbq.main_work (hg_main h) + sink_left (hg_sink h)" by (simp add: gbq.hg_work_def)
  ultimately have "gbq.hg_work h \<le> (?r + 7) *
        (7 + 3 * length (bq_items (pl_queue (gw_pipe (gm_gateway (hg_main h))))) + 3 * unat (cf_workers config)) +
      (?r + 3) * (length (bq_items (hs_outbound (hg_sink h))) + length (hs_threads (hg_sink h))) + ?r + 10" by linarith
  moreover have "hg_reach J bounded_queue_ops pol (hg_start config q sink now) h'" using rtranclp_trans [OF assms(5)] B by blast
  ultimately show ?thesis using B gbq.hg_progress [OF assms(1,3,4) _ _ q, of pol config now h' ?N] by fastforce
qed

section \<open>Witnesses\<close>

lemma first_change:
  assumes "R\<^sup>*\<^sup>* x y" "P x" "\<not> P y"
  shows "\<exists>u v. R\<^sup>*\<^sup>* x u \<and> R u v \<and> P u \<and> \<not> P v"
  using assms by (induction rule: rtranclp_induct) blast+

theorem handed_batches_serialise_witness:
  "\<exists>m m' batch. main_reach bit_lib bounded_queue_ops (cf_backpressure one_worker) collect (main_start one_worker demo_bq [] 0) m \<and>
     main_step bit_lib bounded_queue_ops (cf_backpressure one_worker) collect m m' \<and> handed m' = [batch] \<and> batch \<noteq> [] \<and>
     batch_body bit_lib [] batch = Some (event_lines bit_lib batch)"
proof -
  let ?R = "main_step bit_lib bounded_queue_ops (cf_backpressure one_worker) collect" and ?m0 = "main_start one_worker demo_bq [] 0"
  obtain m1 where m1: "?R\<^sup>*\<^sup>* ?m0 m1" "gm_main m1 = Main_Returned" "st_events_accepted (pl_stats (gw_pipe (gm_gateway m1))) = 1"
    using demo_mutex_main [of collect "[]"] by blast
  have q: "bq_inv demo_bq" "bq_items demo_bq = []" "\<not> bq_shutting_down demo_bq"
    by (simp_all add: demo_bq_def bq_inv_def)
  have G: "gateway_reach bit_lib bounded_queue_ops (cf_backpressure one_worker) collect (gateway_start one_worker demo_bq [] 0) (gm_gateway m1)"
    using main_reach_refines [OF m1(1)] by simp
  from gbq.main_returned_delivers [OF m1(1,2) q le_refl gateway_has_workers [OF G one_worker_parsed]] m1(3)
  have "handed m1 \<noteq> []" by (auto simp: fold_collect)
  moreover have "handed ?m0 = []" by (simp add: main_start_def gateway_start_def pipeline_start_def)
  ultimately obtain m m' where m: "?R\<^sup>*\<^sup>* ?m0 m" "?R m m'" "handed m = []" "handed m' \<noteq> []"
    using first_change [OF m1(1), of "\<lambda>m. handed m = []"] by blast
  from handed_batches_serialise [OF bit_lib_documented demo_bq_new m(1,2), where f = "\<lparr>fs_good = True, fs_text = []\<rparr>"] m
  show ?thesis unfolding batch_ok_def by fastforce
qed

lemma demo_sink:
  "\<exists>sink. hs_new demo_options 7 0 1 stats_new = Inr sink \<and> settled sink \<and> hs_stop sink = Not_Stopped"
  unfolding demo_new by (simp add: settled_def)

text \<open>A run with one accepted event, up to the flag of the flush thread.\<close>

lemma demo_hg_stopping:
  "\<exists>sink h. hs_new demo_options 7 0 1 stats_new = Inr sink \<and>
     hg_reach bit_lib bounded_queue_ops (cf_backpressure one_worker) (hg_start one_worker demo_bq sink 0) h \<and>
     gm_flush_shutdown (hg_main h) \<and> st_events_accepted (pl_stats (gw_pipe (gm_gateway (hg_main h)))) = 1"
proof -
  obtain sink where sink: "hs_new demo_options 7 0 1 stats_new = Inr sink" "settled sink" "hs_stop sink = Not_Stopped"
    using demo_sink by blast
  let ?h = "hg_start one_worker demo_bq sink 0" and ?pol = "cf_backpressure one_worker"
  have q: "bq_inv demo_bq" "bq_items demo_bq = []" "\<not> bq_shutting_down demo_bq"
    by (simp_all add: demo_bq_def bq_inv_def)
  obtain line where line: "parse_event bit_lib line = Some sample_event" "CHR 0x0A \<notin> set line" by (rule sample_line)
  obtain m where m: "main_reach bit_lib bounded_queue_ops ?pol collect (hg_main ?h) m" "gm_flush_shutdown m"
    "st_events_accepted (pl_stats (gw_pipe (gm_gateway m))) = 1"
    using gbq.main_demo [OF q line, of ?pol collect one_worker "[]" 0] by (auto simp: hg_start_def)
  obtain s where "hg_reach bit_lib bounded_queue_ops ?pol ?h \<lparr>hg_main = m, hg_sink = s\<rparr>"
    using gbq.lift_run [OF bit_lib_documented rtranclp.rtrancl_refl _ _ q m(1) le_refl] sink by (auto simp: hg_start_def)
  with sink(1) m(2,3) show ?thesis by (intro exI [of _ sink] exI [of _ "\<lparr>hg_main = m, hg_sink = s\<rparr>"]) simp
qed

theorem http_gateway_end_to_end_witness:
  "\<exists>sink h. hg_reach bit_lib bounded_queue_ops (cf_backpressure one_worker) (hg_start one_worker demo_bq sink 0) h \<and>
     gm_main (hg_main h) = Main_Returned \<and> of_nat (length (concat (handed (hg_main h)))) = (1 :: u64) \<and>
     map (\<lambda>made. map (parse_event bit_lib) (text_lines (ob_body made))) (hs_made (hg_sink h)) = map (map Some) (handed (hg_main h))"
proof -
  let ?pol = "cf_backpressure one_worker"
  have q: "bq_inv demo_bq" "bq_items demo_bq = []" "\<not> bq_shutting_down demo_bq"
    by (simp_all add: demo_bq_def bq_inv_def)
  obtain sink h where h: "hs_new demo_options 7 0 1 stats_new = Inr sink"
    "hg_reach bit_lib bounded_queue_ops ?pol (hg_start one_worker demo_bq sink 0) h"
    "gm_flush_shutdown (hg_main h)" "st_events_accepted (pl_stats (gw_pipe (gm_gateway (hg_main h)))) = 1"
    using demo_hg_stopping by blast
  obtain h' where h': "hg_reach bit_lib bounded_queue_ops ?pol h h'" "gm_main (hg_main h') = Main_Returned"
    "th_pc ` set (hs_threads (hg_sink h')) \<subseteq> {Sink_Exited}" "st_events_accepted (pl_stats (gw_pipe (gm_gateway (hg_main h')))) = 1"
    using gbq.hg_finishes [OF bit_lib_documented h(1) _ h(2,3) q le_refl] h(4) by auto
  have c: "0 < ho_concurrency demo_options" by (simp add: demo_options_def)
  note r = rtranclp_trans [OF h(2) h'(1)]
  from http_gateway_end_to_end [OF bit_lib_documented one_worker_parsed demo_bq_new h(1) _ c r h'(2,3)] h'(4) r h'(2)
  show ?thesis by (intro exI [of _ sink] exI [of _ h']) simp
qed

theorem http_gateway_terminates_witness:
  "\<exists>sink h h'. hg_reach bit_lib bounded_queue_ops (cf_backpressure one_worker) (hg_start one_worker demo_bq sink 0) h \<and>
     gm_flush_shutdown (hg_main h) \<and> st_events_accepted (pl_stats (gw_pipe (gm_gateway (hg_main h)))) = 1 \<and>
     (gm_main (hg_main h) = Main_Returned \<or> hg_acts bit_lib bounded_queue_ops (cf_backpressure one_worker) h h')"
proof -
  obtain sink h where h: "hs_new demo_options 7 0 1 stats_new = Inr sink"
    "hg_reach bit_lib bounded_queue_ops (cf_backpressure one_worker) (hg_start one_worker demo_bq sink 0) h"
    "gm_flush_shutdown (hg_main h)" "st_events_accepted (pl_stats (gw_pipe (gm_gateway (hg_main h)))) = 1"
    using demo_hg_stopping by blast
  from http_gateway_terminates [OF bit_lib_documented demo_bq_new h(1) _ h(2,3), of 0 h] h show ?thesis by auto
qed

end
