(* ===== verification/Http_Start.thy ===== *)
theory Http_Start
  imports Http_Sink
begin

text \<open>
  The constructor of \<open>HttpSink\<close> in \<^verbatim>\<open>gateway/src/http_sink.cpp\<close>: it starts the sink threads one by one, and they run
  at once. When the system refuses a thread, the constructor calls \<open>stop()\<close>, which drains and joins the
  threads started so far, and throws the exception on; a thread left joinable would end the process.
  Nobody calls \<open>consume\<close> before the constructor has returned.
\<close>

section \<open>State and steps\<close>

datatype ctor_pc =
    Spawning nat     \<comment> \<open>in the loop, so many threads to go\<close>
  | Cleaning_Up      \<comment> \<open>in the handler, inside \<open>stop()\<close>\<close>
  | Ctor_Threw
  | Constructed

record hs_ctor =
  ct_sink :: http_sink
  ct_pc :: ctor_pc

definition fresh_thread :: sink_thread where
  "fresh_thread = \<lparr>th_pc = Sink_Popping, th_connection = pc_new\<rparr>"

text \<open>The member initialisers, which can throw by themselves, and the head of the loop.\<close>

definition ctor_begin :: "http_options \<Rightarrow> u64 \<Rightarrow> int \<Rightarrow> Stats \<Rightarrow> hs_ctor result" where
  "ctor_begin opts drawn now stats = bind_result (hs_new opts drawn now 0 stats)
     (\<lambda>s. Inr \<lparr>ct_sink = s\<lparr>hs_threads := []\<rparr>, ct_pc = Spawning (ho_concurrency opts)\<rparr>)"

inductive ctor_step :: "hs_ctor \<Rightarrow> hs_ctor \<Rightarrow> bool" where
  spawned: "ct_pc c = Spawning (Suc n) \<Longrightarrow>
    ctor_step c (c\<lparr>ct_sink := (ct_sink c)\<lparr>hs_threads := hs_threads (ct_sink c) @ [fresh_thread]\<rparr>, ct_pc := Spawning n\<rparr>)"
| spawn_failed: "ct_pc c = Spawning (Suc n) \<Longrightarrow> ctor_step c (c\<lparr>ct_pc := Cleaning_Up\<rparr>)"
| all_spawned: "ct_pc c = Spawning 0 \<Longrightarrow> ctor_step c (c\<lparr>ct_pc := Constructed\<rparr>)"
| ctor_thread: "ct_pc c \<noteq> Constructed \<Longrightarrow> sink_step (ct_sink c) s' \<Longrightarrow> ctor_step c (c\<lparr>ct_sink := s'\<rparr>)"
| ctor_stop: "ct_pc c = Cleaning_Up \<Longrightarrow> stop_step (ct_sink c) s' \<Longrightarrow> ctor_step c (c\<lparr>ct_sink := s'\<rparr>)"
| rethrown: "ct_pc c = Cleaning_Up \<Longrightarrow> hs_stop (ct_sink c) = Joining \<Longrightarrow>
    th_pc ` set (hs_threads (ct_sink c)) \<subseteq> {Sink_Exited} \<Longrightarrow> ctor_step c (c\<lparr>ct_pc := Ctor_Threw\<rparr>)"

inductive_simps ctor_step_constructed: "ctor_step \<lparr>ct_sink = s, ct_pc = Constructed\<rparr> c"

abbreviation ctor_reach :: "hs_ctor \<Rightarrow> hs_ctor \<Rightarrow> bool" where
  "ctor_reach \<equiv> ctor_step\<^sup>*\<^sup>*"

section \<open>Invariant\<close>

text \<open>While the loop runs the sink differs from the finished one in the number of threads only: on an open
  and empty queue a thread cannot take a step.\<close>

definition spawned_so_far :: "http_sink \<Rightarrow> nat \<Rightarrow> http_sink" where
  "spawned_so_far s k = s\<lparr>hs_threads := replicate k fresh_thread\<rparr>"

definition ctor_inv :: "http_sink \<Rightarrow> nat \<Rightarrow> hs_ctor \<Rightarrow> bool" where
  "ctor_inv s0 conc c \<longleftrightarrow> (case ct_pc c of
     Spawning n \<Rightarrow> n \<le> conc \<and> ct_sink c = spawned_so_far s0 (conc - n)
   | Constructed \<Rightarrow> ct_sink c = spawned_so_far s0 conc
   | Cleaning_Up \<Rightarrow> http_inv (ct_sink c) \<and> hs_made (ct_sink c) = [] \<and> hs_callers (ct_sink c) = []
   | Ctor_Threw \<Rightarrow> http_inv (ct_sink c) \<and> hs_made (ct_sink c) = [] \<and>
       th_pc ` set (hs_threads (ct_sink c)) \<subseteq> {Sink_Exited})"

lemma spawned_inv:
  assumes "hs_new opts drawn now 0 stats_new = Inr s0"
  shows "http_inv (spawned_so_far s0 k)"
proof -
  have "sum_list (map (\<lambda>t. sink_holds (th_pc t)) (replicate k fresh_thread)) = {#}"
    by (induction k) (simp_all add: fresh_thread_def)
  then show ?thesis using assms
    by (auto simp: spawned_so_far_def hs_new_def bq_new_def bind_result_def http_inv_def batch_ledger_def counters_def
        keys_def sending_def stopping_def stats_new_def bq_inv_def fresh_thread_def
        simp del: map_replicate sum_list_replicate split: sum.splits if_splits)
qed

lemma spawned_idle:
  assumes "hs_new opts drawn now 0 stats_new = Inr s0"
  shows "\<not> sink_step (spawned_so_far s0 k) s'"
proof
  assume "sink_step (spawned_so_far s0 k) s'"
  moreover have "bq_items (hs_outbound s0) = []" "\<not> bq_shutting_down (hs_outbound s0)"
    using assms by (auto simp: hs_new_def bq_new_def bind_result_def split: sum.splits if_splits)
  ultimately show False
    by (cases rule: sink_step.cases) (auto simp: spawned_so_far_def fresh_thread_def bq_pop_cases)
qed

lemma ctor_step_inv:
  assumes "ctor_step c c'" "ctor_inv s0 conc c" "hs_new opts drawn now 0 stats_new = Inr s0"
  shows "ctor_inv s0 conc c'"
  using assms(1,2)
proof (induction rule: ctor_step.induct)
  case (spawned c n)
  then have "conc - n = Suc (conc - Suc n)" by (auto simp: ctor_inv_def)
  with spawned show ?case by (simp add: ctor_inv_def spawned_so_far_def replicate_append_same)
next
  case (spawn_failed c n)
  then have "ct_sink c = spawned_so_far s0 (conc - Suc n)" by (simp add: ctor_inv_def)
  moreover have "hs_made s0 = []" "hs_callers s0 = []"
    using assms(3) by (auto simp: hs_new_def bind_result_Inr_iff)
  ultimately show ?case using spawned_inv [OF assms(3)] by (simp add: ctor_inv_def) (simp add: spawned_so_far_def)
next
  case (ctor_thread c s')
  show ?case
  proof (cases "ct_pc c")
    case (Spawning n)
    then show ?thesis using ctor_thread spawned_idle [OF assms(3)] by (simp add: ctor_inv_def)
  next
    case Cleaning_Up
    then have i: "http_inv (ct_sink c)" "hs_made (ct_sink c) = []" "hs_callers (ct_sink c) = []"
      using ctor_thread(3) by (simp_all add: ctor_inv_def)
    have "http_inv s'" by (rule http_step_inv [OF http_step.http_sink [OF ctor_thread(2)] i(1)])
    then show ?thesis using Cleaning_Up i sink_step_frame [OF ctor_thread(2)] by (simp add: ctor_inv_def)
  next
    case Ctor_Threw
    then have "th_pc ` set (hs_threads (ct_sink c)) \<subseteq> {Sink_Exited}" using ctor_thread(3) by (simp add: ctor_inv_def)
    moreover have "\<exists>i < length (hs_threads (ct_sink c)). th_pc (hs_threads (ct_sink c) ! i) \<noteq> Sink_Exited"
      using ctor_thread(2) by (cases rule: sink_step.cases) auto
    ultimately show ?thesis using nth_mem by fastforce
  qed (use ctor_thread(1) in simp)
next
  case (ctor_stop c s')
  then have i: "http_inv (ct_sink c)" "hs_made (ct_sink c) = []" "hs_callers (ct_sink c) = []"
    by (simp_all add: ctor_inv_def)
  have "http_inv s'" by (rule http_step_inv [OF http_stop [OF ctor_stop(2)] i(1)])
  moreover have "hs_made s' = hs_made (ct_sink c)" "hs_callers s' = hs_callers (ct_sink c)"
    using ctor_stop(2) by (cases rule: stop_step.cases; simp)+
  ultimately show ?case using ctor_stop(1) i by (simp add: ctor_inv_def)
qed (auto simp: ctor_inv_def)

lemma ctor_reach_inv:
  assumes "ctor_reach c0 c" "ctor_begin opts drawn now stats_new = Inr c0"
  shows "\<exists>s0. hs_new opts drawn now 0 stats_new = Inr s0 \<and> ctor_inv s0 (ho_concurrency opts) c"
proof -
  obtain s0 where s0: "hs_new opts drawn now 0 stats_new = Inr s0"
    "c0 = \<lparr>ct_sink = s0\<lparr>hs_threads := []\<rparr>, ct_pc = Spawning (ho_concurrency opts)\<rparr>"
    using assms(2) by (auto simp: ctor_begin_def bind_result_Inr_iff)
  from assms(1) have "ctor_inv s0 (ho_concurrency opts) c"
  proof (induction rule: rtranclp_induct)
    case base
    show ?case by (simp add: s0(2) ctor_inv_def spawned_so_far_def)
  next
    case (step c c')
    then show ?case by (blast intro: ctor_step_inv s0(1))
  qed
  with s0(1) show ?thesis by blast
qed

section \<open>Cleaning up comes to an end\<close>

lemma ctor_lift_stop:
  "stop_step\<^sup>*\<^sup>* (ct_sink c) s \<Longrightarrow> ct_pc c = Cleaning_Up \<Longrightarrow> ctor_reach c (c\<lparr>ct_sink := s\<rparr>)"
proof (induction rule: rtranclp_induct)
  case (step s s')
  from step(2,4) ctor_stop [of "c\<lparr>ct_sink := s\<rparr>" s'] have "ctor_step (c\<lparr>ct_sink := s\<rparr>) (c\<lparr>ct_sink := s'\<rparr>)" by simp
  with step show ?case by simp
qed simp

lemma ctor_lift_threads:
  "sink_step\<^sup>*\<^sup>* (ct_sink c) s \<Longrightarrow> ct_pc c = Cleaning_Up \<Longrightarrow> ctor_reach c (c\<lparr>ct_sink := s\<rparr>)"
proof (induction rule: rtranclp_induct)
  case (step s s')
  from step(2,4) ctor_thread [of "c\<lparr>ct_sink := s\<rparr>" s'] have "ctor_step (c\<lparr>ct_sink := s\<rparr>) (c\<lparr>ct_sink := s'\<rparr>)" by simp
  with step show ?case by simp
qed simp

lemma cleaning_finishes:
  assumes "http_inv (ct_sink c)" "hs_callers (ct_sink c) = []" "ct_pc c = Cleaning_Up"
  shows "\<exists>c'. ctor_reach c c' \<and> ct_pc c' = Ctor_Threw"
proof -
  obtain s1 where s1: "stop_step\<^sup>*\<^sup>* (ct_sink c) s1" "hs_stop s1 = Joining" using stop_joins [of "ct_sink c"] assms(2) by auto
  have "http_inv s1" using s1(1)
  proof (induction rule: rtranclp_induct)
    case (step s s')
    then show ?case using http_step_inv [OF http_stop] by blast
  qed (rule assms(1))
  from sink_threads_finish [OF this s1(2)] obtain s2 where s2: "sink_step\<^sup>*\<^sup>* s1 s2" "th_pc ` set (hs_threads s2) \<subseteq> {Sink_Exited}"
    by blast
  have "hs_stop s2 = Joining" using s2(1) s1(2)
    by (induction rule: rtranclp_induct) (auto dest: sink_step_frame)
  then have "ctor_step (c\<lparr>ct_sink := s2\<rparr>) (c\<lparr>ct_sink := s2, ct_pc := Ctor_Threw\<rparr>)"
    using rethrown [of "c\<lparr>ct_sink := s2\<rparr>"] assms(3) s2(2) by simp
  moreover have "ctor_reach c (c\<lparr>ct_sink := s2\<rparr>)"
    using rtranclp_trans [OF ctor_lift_stop [OF s1(1) assms(3)] ctor_lift_threads [of "c\<lparr>ct_sink := s1\<rparr>" s2]] s2(1) assms(3)
    by simp
  ultimately show ?thesis
    by (intro exI [of _ "c\<lparr>ct_sink := s2, ct_pc := Ctor_Threw\<rparr>"]) (simp add: rtranclp.rtrancl_into_rtrancl)
qed

section \<open>Properties\<close>

text \<open>C23: Construction of the HTTP sink, whatever thread the system refuses and however the threads that were started
  run. When the constructor returns, the sink is the one \<open>hs_new\<close> describes: all threads are there and have done nothing yet. When it has thrown,
  every thread it had started has returned, none is left joinable, and nothing was sent. Once a
  thread was refused the constructor always gets to that throw.\<close>

theorem sink_construction_outcome:
  assumes "ctor_begin opts drawn now stats_new = Inr c0" "ctor_reach c0 c"
  shows "(ct_pc c = Constructed \<longrightarrow> hs_new opts drawn now 0 stats_new = Inr (ct_sink c) \<and> \<not> Ex (ctor_step c)) \<and>
    (ct_pc c = Ctor_Threw \<longrightarrow> th_pc ` set (hs_threads (ct_sink c)) \<subseteq> {Sink_Exited} \<and> hs_wire (ct_sink c) = []) \<and>
    (ct_pc c = Cleaning_Up \<longrightarrow> (\<exists>c'. ctor_reach c c' \<and> ct_pc c' = Ctor_Threw))"
proof -
  obtain s0 where s0: "hs_new opts drawn now 0 stats_new = Inr s0" and inv: "ctor_inv s0 (ho_concurrency opts) c"
    using ctor_reach_inv [OF assms(2,1)] by blast
  have "spawned_so_far s0 (ho_concurrency opts) = s0"
    using s0 by (auto simp: spawned_so_far_def hs_new_def bind_result_Inr_iff fresh_thread_def)
  moreover have "hs_wire (ct_sink c) = []" if "http_inv (ct_sink c)" "hs_made (ct_sink c) = []"
    using that by (auto simp: http_inv_def sending_def intro: ccontr)
  moreover have "\<not> ctor_step c c'" if "ct_pc c = Constructed" for c'
    using that ctor_step_constructed [of "ct_sink c" c'] by (cases c) simp
  ultimately show ?thesis using inv s0 cleaning_finishes [of c] by (cases "ct_pc c") (simp_all add: ctor_inv_def)
qed

theorem sink_construction_outcome_witness:
  "\<exists>c0 c c'. ctor_begin demo_options 7 0 stats_new = Inr c0 \<and> ctor_reach c0 c \<and> ct_pc c = Cleaning_Up \<and>
     ctor_reach c c' \<and> ct_pc c' = Ctor_Threw"
proof -
  obtain s0 where s0: "hs_new demo_options 7 0 0 stats_new = Inr s0"
    using demo_new by (auto simp: hs_new_def bind_result_Inr_iff)
  let ?c0 = "\<lparr>ct_sink = s0\<lparr>hs_threads := []\<rparr>, ct_pc = Spawning (ho_concurrency demo_options)\<rparr>"
  have b: "ctor_begin demo_options 7 0 stats_new = Inr ?c0" by (simp add: ctor_begin_def s0)
  have "ctor_step ?c0 (?c0\<lparr>ct_pc := Cleaning_Up\<rparr>)" by (rule spawn_failed [of _ 0]) (simp add: demo_options_def)
  then have r: "ctor_reach ?c0 (?c0\<lparr>ct_pc := Cleaning_Up\<rparr>)" by simp
  from sink_construction_outcome [OF b r] b r show ?thesis by auto
qed

end
