(* ===== verification/Connection_Stream.thy ===== *)
theory Connection_Stream
  imports Gateway
begin

text \<open>
  A connection of \<^verbatim>\<open>gateway/include/edgeflow/gateway/connection.hpp\<close> together with the byte stream of its
  peer. TCP delivers the bytes in order but in pieces of any size; \<open>async_read_until\<close> completes once the
  stream buffer holds a line feed (at once if it already does) and fails with \<open>not_found\<close> when the
  buffer is full without one; it can also fail at any time. The worker threads may change the queue
  between two handlers in any way.
\<close>

section \<open>The stream buffer\<close>

text \<open>The limit given to \<open>boost::asio::streambuf\<close>.\<close>

definition buffer_limit :: nat where
  "buffer_limit = 2 ^ 20"

text \<open>A completion of \<open>async_read_until\<close> without an error, as Asio documents it: \<open>bytes\<close> were appended to the
  buffer, which stays within its limit and holds a line feed; nothing is read when it held one before.\<close>

definition read_until_ok :: "string \<Rightarrow> string \<Rightarrow> bool" where
  "read_until_ok buf bytes \<longleftrightarrow> CHR 0x0A \<in> set (buf @ bytes) \<and> length (buf @ bytes) \<le> buffer_limit \<and>
     (CHR 0x0A \<in> set buf \<longrightarrow> bytes = [])"

section \<open>A connection and its peer\<close>

record 'q stream =
  sr_conn :: Connection
  sr_queue :: 'q
  sr_stats :: Stats
  sr_wire :: string                       \<comment> \<open>sent by the peer, not yet read\<close>
  sr_sent :: string                       \<comment> \<open>history: everything the peer has sent\<close>
  sr_lines :: "string list"               \<comment> \<open>history: the lines handled\<close>
  sr_stored :: "Event list"               \<comment> \<open>history: the events the queue took\<close>

definition stream_new :: "'q \<Rightarrow> Stats \<Rightarrow> 'q stream" where
  "stream_new q stats = \<lparr>sr_conn = conn_new, sr_queue = q, sr_stats = stats, sr_wire = [], sr_sent = [],
     sr_lines = [], sr_stored = []\<rparr>"

text \<open>The event a handler gives to the queue, if the queue took it.\<close>

definition took :: "('q, Event TimedEvent) EventQueue \<Rightarrow> 'q \<Rightarrow> Event TimedEvent \<Rightarrow> Event list" where
  "took Q q timed = (case q_push Q q timed of
     Returns (r, _) \<Rightarrow> if r = RejectedBackpressure then [] else [te_event timed] | _ \<Rightarrow> [])"

inductive stream_step ::
    "'j json_lib \<Rightarrow> ('q, Event TimedEvent) EventQueue \<Rightarrow> BackpressurePolicy \<Rightarrow> 'q stream \<Rightarrow> 'q stream \<Rightarrow> bool"
    for J Q policy where
  peer_sends: "stream_step J Q policy s (s\<lparr>sr_wire := sr_wire s @ bytes, sr_sent := sr_sent s @ bytes\<rparr>)"
| read_done: "cn_pc (sr_conn s) = Reading \<Longrightarrow> sr_wire s = bytes @ rest \<Longrightarrow>
    read_until_ok (cn_buffer (sr_conn s)) bytes \<Longrightarrow>
    line = fst (getline (cn_buffer (sr_conn s) @ bytes)) \<Longrightarrow>
    conn_step J Q policy (Read_Done now (Some bytes)) (sr_conn s) (sr_queue s) (sr_stats s) = Returns (conn', q', stats') \<Longrightarrow>
    stream_step J Q policy s (s\<lparr>sr_conn := conn', sr_queue := q', sr_stats := stats', sr_wire := rest,
      sr_lines := sr_lines s @ [line],
      sr_stored := sr_stored s @ (case parse_event J line of None \<Rightarrow> []
        | Some event \<Rightarrow> took Q (sr_queue s) \<lparr>te_event = event, te_enqueued_at = now\<rparr>)\<rparr>)"
| read_fails: "cn_pc (sr_conn s) = Reading \<Longrightarrow>
    conn_step J Q policy (Read_Done now None) (sr_conn s) (sr_queue s) (sr_stats s) = Returns (conn', q', stats') \<Longrightarrow>
    stream_step J Q policy s (s\<lparr>sr_conn := conn', sr_queue := q', sr_stats := stats'\<rparr>)"
| timer_done: "cn_pc (sr_conn s) = Retrying timed \<Longrightarrow>
    conn_step J Q policy (Timer_Fired error) (sr_conn s) (sr_queue s) (sr_stats s) = Returns (conn', q', stats') \<Longrightarrow>
    stream_step J Q policy s (s\<lparr>sr_conn := conn', sr_queue := q', sr_stats := stats',
      sr_stored := sr_stored s @ (if error then [] else took Q (sr_queue s) timed)\<rparr>)"
| others: "stream_step J Q policy s (s\<lparr>sr_queue := q', sr_stats := stats'\<rparr>)"

abbreviation stream_reach ::
    "'j json_lib \<Rightarrow> ('q, Event TimedEvent) EventQueue \<Rightarrow> BackpressurePolicy \<Rightarrow> 'q stream \<Rightarrow> 'q stream \<Rightarrow> bool" where
  "stream_reach J Q policy \<equiv> (stream_step J Q policy)\<^sup>*\<^sup>*"

section \<open>Framing\<close>

text \<open>The bytes of a list of lines.\<close>

definition unlines :: "string list \<Rightarrow> string" where
  "unlines ls = concat (map (\<lambda>l. l @ [CHR 0x0A]) ls)"

lemma unlines_simps [simp]: "unlines [] = []" "unlines (ls @ [l]) = unlines ls @ l @ [CHR 0x0A]"
  by (simp_all add: unlines_def)

lemma getline_split:
  assumes "CHR 0x0A \<in> set buf"
  shows "buf = fst (getline buf) @ CHR 0x0A # snd (getline buf)" and "CHR 0x0A \<notin> set (fst (getline buf))"
proof -
  obtain l r where buf: "buf = l @ CHR 0x0A # r" "CHR 0x0A \<notin> set l" using assms by (metis split_list_first)
  then have "takeWhile (\<lambda>c. c \<noteq> CHR 0x0A) buf = l" by (subst buf) (simp add: takeWhile_tail takeWhile_eq_all_conv, metis takeWhile_eq_all_conv)
  then have "getline buf = (l, r)" using buf by (simp add: getline_def)
  with buf show "buf = fst (getline buf) @ CHR 0x0A # snd (getline buf)" "CHR 0x0A \<notin> set (fst (getline buf))"
    by simp_all
qed

lemma first_split_unique:
  assumes "a @ x # b = c @ x # d" "x \<notin> set a" "x \<notin> set c"
  shows "a = c"
  using assms
proof (induction a arbitrary: c)
  case Nil
  then show ?case by (cases c) auto
next
  case (Cons y a)
  then show ?case by (cases c) auto
qed

lemma getline_line:
  assumes "CHR 0x0A \<notin> set l"
  shows "getline (l @ CHR 0x0A # r) = (l, r)"
proof -
  let ?g = "getline (l @ CHR 0x0A # r)"
  have g: "l @ CHR 0x0A # r = fst ?g @ CHR 0x0A # snd ?g" "CHR 0x0A \<notin> set (fst ?g)"
    by (rule getline_split; simp)+
  then have "l = fst ?g" using assms by (intro first_split_unique [of l _ r "fst ?g"])
  with g(1) show ?thesis by (metis list.inject prod.collapse same_append_eq)
qed

text \<open>The handlers, as far as buffer, state and the events taken by the queue are concerned.\<close>

definition parsed_events :: "'j json_lib \<Rightarrow> string list \<Rightarrow> Event list" where
  "parsed_events J ls = concat (map (\<lambda>l. case parse_event J l of None \<Rightarrow> [] | Some e \<Rightarrow> [e]) ls)"

lemma parsed_events_simps [simp]:
  "parsed_events J [] = []"
  "parsed_events J (ls @ [l]) = parsed_events J ls @ (case parse_event J l of None \<Rightarrow> [] | Some e \<Rightarrow> [e])"
  by (simp_all add: parsed_events_def)

fun waiting :: "conn_pc \<Rightarrow> Event list" where
  "waiting (Retrying timed) = [te_event timed]"
| "waiting _ = []"

lemma push_event_took:
  assumes "push_event Q policy timed q stats = Returns (pc, q', stats')" "policy \<noteq> DropNewest"
  shows "took Q q timed @ waiting pc = [te_event timed] \<and> pc \<noteq> Closed"
  using assms
  by (auto simp: push_event_def map_call_Returns after_push_def took_def Let_def split: if_splits)
     (metis PushResult.exhaust)

lemma retry_push_took:
  assumes "retry_push Q timed False q stats = Returns (pc, q', stats')"
  shows "took Q q timed @ waiting pc = [te_event timed] \<and> pc \<noteq> Closed"
  using assms by (auto simp: retry_push_def map_call_Returns after_retry_def took_def Let_def split: if_splits)

lemma read_done_conn:
  assumes "conn_step J Q policy (Read_Done now (Some bytes)) conn q stats = Returns (conn', q', stats')" "cn_pc conn = Reading"
  shows "cn_buffer conn' = snd (getline (cn_buffer conn @ bytes)) \<and>
    handle_line J Q policy now (fst (getline (cn_buffer conn @ bytes))) q stats = Returns (cn_pc conn', q', stats')"
  using assms by (auto simp: conn_step_def read_line_def map_call_Returns split_beta Let_def)

lemma handle_line_took:
  assumes "handle_line J Q policy now line q stats = Returns (pc, q', stats')" "policy \<noteq> DropNewest"
  shows "(case parse_event J line of None \<Rightarrow> [] | Some e \<Rightarrow> took Q q \<lparr>te_event = e, te_enqueued_at = now\<rparr>) @ waiting pc
      = (case parse_event J line of None \<Rightarrow> [] | Some e \<Rightarrow> [e]) \<and> pc \<noteq> Closed"
proof (cases "parse_event J line")
  case (Some e)
  with assms(1) have "push_event Q policy \<lparr>te_event = e, te_enqueued_at = now\<rparr> q stats = Returns (pc, q', stats')"
    by (simp add: handle_line_def)
  from push_event_took [OF this assms(2)] Some show ?thesis by simp
qed (use assms in \<open>auto simp: handle_line_def\<close>)

section \<open>Invariants\<close>

text \<open>Every byte sent is in a line handled, in the buffer or under way.\<close>

definition framed :: "'q stream \<Rightarrow> bool" where
  "framed s \<longleftrightarrow> sr_sent s = unlines (sr_lines s) @ cn_buffer (sr_conn s) @ sr_wire s \<and>
     (\<forall>l\<in>set (sr_lines s). CHR 0x0A \<notin> set l) \<and> length (cn_buffer (sr_conn s)) \<le> buffer_limit"

text \<open>Every event parsed was taken by the queue, but for the last one while it is being retried or when its
  timer has failed.\<close>

definition delivered_in_order :: "'j json_lib \<Rightarrow> 'q stream \<Rightarrow> bool" where
  "delivered_in_order J s \<longleftrightarrow> (\<exists>lost. parsed_events J (sr_lines s) = sr_stored s @ lost \<and>
     (if cn_pc (sr_conn s) = Closed then length lost \<le> 1 else lost = waiting (cn_pc (sr_conn s))))"

lemma stream_step_framed:
  assumes "stream_step J Q policy s s'" "framed s"
  shows "framed s'"
  using assms
proof (induction rule: stream_step.induct)
  case (read_done s bytes rest line now conn' q' stats')
  let ?buf = "cn_buffer (sr_conn s) @ bytes"
  have lf: "CHR 0x0A \<in> set ?buf" and limit: "length ?buf \<le> buffer_limit"
    using read_done(3) by (simp_all add: read_until_ok_def)
  note G = getline_split [OF lf]
  have "cn_buffer conn' = snd (getline ?buf)" using read_done_conn [OF read_done(5,1)] by simp
  moreover have "length (snd (getline ?buf)) \<le> length ?buf" by (subst (2) G(1)) simp
  moreover have "sr_sent s = unlines (sr_lines s) @ ?buf @ rest" using read_done(2,6) by (simp add: framed_def)
  then have "sr_sent s = unlines (sr_lines s) @ fst (getline ?buf) @ CHR 0x0A # snd (getline ?buf) @ rest"
    by (subst (asm) G(1)) simp
  ultimately show ?case using read_done(4,6) limit G(2) by (auto simp: framed_def)
next
  case (read_fails s now conn' q' stats')
  then have "cn_buffer conn' = cn_buffer (sr_conn s)" by (auto simp: conn_step_def read_line_def)
  with read_fails show ?case by (simp add: framed_def)
next
  case (timer_done s timed error conn' q' stats')
  then have "cn_buffer conn' = cn_buffer (sr_conn s)" by (auto simp: conn_step_def map_call_Returns)
  with timer_done show ?case by (simp add: framed_def)
qed (simp_all add: framed_def)

lemma stream_step_in_order:
  assumes "stream_step J Q policy s s'" "delivered_in_order J s" "policy \<noteq> DropNewest"
  shows "delivered_in_order J s'"
  using assms
proof (induction rule: stream_step.induct)
  case (read_done s bytes rest line now conn' q' stats')
  have "handle_line J Q policy now line (sr_queue s) (sr_stats s) = Returns (cn_pc conn', q', stats')"
    using read_done_conn [OF read_done(5,1)] read_done(4) by simp
  from handle_line_took [OF this read_done(7)] read_done(1,6) show ?case
    by (auto simp: delivered_in_order_def)
next
  case (read_fails s now conn' q' stats')
  then have "cn_pc conn' = Closed" by (auto simp: conn_step_def read_line_def)
  with read_fails show ?case by (auto simp: delivered_in_order_def)
next
  case (timer_done s timed error conn' q' stats')
  then have step: "retry_push Q timed error (sr_queue s) (sr_stats s) = Returns (cn_pc conn', q', stats')"
    by (auto simp: conn_step_def map_call_Returns)
  show ?case
  proof (cases error)
    case True
    with step have "cn_pc conn' = Closed" by (simp add: retry_push_def)
    with True timer_done show ?thesis by (auto simp: delivered_in_order_def)
  next
    case False
    with retry_push_took [of Q timed] step timer_done(1,3) show ?thesis by (auto simp: delivered_in_order_def)
  qed
qed (simp_all add: delivered_in_order_def cong: if_cong)

lemma stream_reach_framed: "stream_reach J Q policy (stream_new q stats) s \<Longrightarrow> framed s"
proof (induction rule: rtranclp_induct)
  case base
  show ?case by (simp add: framed_def stream_new_def conn_new_def buffer_limit_def)
next
  case (step s s')
  then show ?case by (blast intro: stream_step_framed)
qed

lemma stream_reach_in_order:
  "stream_reach J Q policy (stream_new q stats) s \<Longrightarrow> policy \<noteq> DropNewest \<Longrightarrow> delivered_in_order J s"
proof (induction rule: rtranclp_induct)
  case base
  show ?case by (simp add: delivered_in_order_def stream_new_def conn_new_def)
next
  case (step s s')
  then show ?case by (blast intro: stream_step_in_order)
qed

text \<open>When a read can complete.\<close>

lemma append_cover:
  assumes "a @ b = l @ x # r" "x \<notin> set a"
  shows "\<exists>c. b = c @ r \<and> a @ c = l @ [x]"
proof -
  obtain us where "a = l @ us \<and> us @ b = x # r \<or> a @ us = l \<and> b = us @ x # r"
    using assms(1) by (auto simp: append_eq_append_conv2)
  then show ?thesis
  proof
    assume u: "a = l @ us \<and> us @ b = x # r"
    then have "us = []" using assms(2) by (cases us) auto
    with u show ?thesis by auto
  qed auto
qed

lemma read_possible:
  assumes "buf @ wire = l @ CHR 0x0A # r" "CHR 0x0A \<notin> set l" "length buf \<le> buffer_limit"
  shows "(\<exists>bytes rest. wire = bytes @ rest \<and> read_until_ok buf bytes) \<longleftrightarrow> length l < buffer_limit"
proof
  assume "\<exists>bytes rest. wire = bytes @ rest \<and> read_until_ok buf bytes"
  then obtain bytes rest where b: "wire = bytes @ rest" "read_until_ok buf bytes" by blast
  let ?t = "buf @ bytes"
  have "CHR 0x0A \<in> set ?t" "length ?t \<le> buffer_limit" using b(2) by (simp_all add: read_until_ok_def)
  moreover obtain l' r' where t: "?t = l' @ CHR 0x0A # r'" "CHR 0x0A \<notin> set l'"
    using calculation(1) by (metis split_list_first)
  moreover have "?t @ rest = l @ CHR 0x0A # r" using assms(1) b(1) by simp
  then have "l' @ CHR 0x0A # (r' @ rest) = l @ CHR 0x0A # r" unfolding t(1) by simp
  then have "l' = l" by (rule first_split_unique) (use t(2) assms(2) in simp_all)
  ultimately show "length l < buffer_limit" by simp
next
  assume l: "length l < buffer_limit"
  show "\<exists>bytes rest. wire = bytes @ rest \<and> read_until_ok buf bytes"
  proof (cases "CHR 0x0A \<in> set buf")
    case True
    then show ?thesis using assms(3) by (intro exI [of _ "[]"] exI [of _ wire]) (simp add: read_until_ok_def)
  next
    case False
    from append_cover [OF assms(1) this] obtain c where "wire = c @ r" "buf @ c = l @ [CHR 0x0A]" by blast
    with l False show ?thesis by (intro exI [of _ c] exI [of _ r]) (auto simp: read_until_ok_def)
  qed
qed

section \<open>Properties\<close>

text \<open>C15: Framing. However TCP cuts the stream of a peer into pieces, and whatever the worker threads do to the queue,
  the lines a connection has handled are the first lines of what the peer has sent, in order; no byte
  is skipped or read twice and the buffer stays within its megabyte. Unless the policy drops the
  newest, the events the queue has taken are those of these lines, in order, each once: the last one
  alone can be missing, while it waits for a retry or when the connection has ended. The next line of
  the stream can be read if and only if it fits the buffer with its line feed.\<close>

theorem connection_reads_the_stream:
  assumes "stream_reach J Q policy (stream_new q stats) s"
  shows "(\<exists>rest. sr_sent s = unlines (sr_lines s) @ rest \<and>
      (\<forall>l r. rest = l @ CHR 0x0A # r \<and> CHR 0x0A \<notin> set l \<longrightarrow>
         (\<exists>bytes rest'. sr_wire s = bytes @ rest' \<and> read_until_ok (cn_buffer (sr_conn s)) bytes) = (length l < 2 ^ 20))) \<and>
    (\<forall>l\<in>set (sr_lines s). CHR 0x0A \<notin> set l) \<and> length (cn_buffer (sr_conn s)) \<le> 2 ^ 20 \<and>
    (policy \<noteq> DropNewest \<longrightarrow>
       (\<exists>lost. parsed_events J (sr_lines s) = sr_stored s @ lost \<and> length lost \<le> 1 \<and>
          (cn_pc (sr_conn s) = Reading \<longrightarrow> lost = [])))"
proof -
  have F: "framed s" by (rule stream_reach_framed [OF assms])
  have "\<exists>rest. sr_sent s = unlines (sr_lines s) @ rest \<and>
      (\<forall>l r. rest = l @ CHR 0x0A # r \<and> CHR 0x0A \<notin> set l \<longrightarrow>
         (\<exists>bytes rest'. sr_wire s = bytes @ rest' \<and> read_until_ok (cn_buffer (sr_conn s)) bytes) = (length l < 2 ^ 20))"
    using F read_possible [of "cn_buffer (sr_conn s)" "sr_wire s"]
    by (intro exI [of _ "cn_buffer (sr_conn s) @ sr_wire s"]) (simp add: framed_def buffer_limit_def)
  moreover have "\<exists>lost. parsed_events J (sr_lines s) = sr_stored s @ lost \<and> length lost \<le> 1 \<and>
      (cn_pc (sr_conn s) = Reading \<longrightarrow> lost = [])" if p: "policy \<noteq> DropNewest"
  proof -
    obtain lost where "parsed_events J (sr_lines s) = sr_stored s @ lost"
      "if cn_pc (sr_conn s) = Closed then length lost \<le> 1 else lost = waiting (cn_pc (sr_conn s))"
      using stream_reach_in_order [OF assms p] by (auto simp: delivered_in_order_def)
    then show ?thesis by (intro exI [of _ lost]) (cases "cn_pc (sr_conn s)"; simp)
  qed
  ultimately show ?thesis using F by (auto simp: framed_def buffer_limit_def)
qed

text \<open>A line that arrives in two pieces, with the beginning of the next.\<close>

lemma demo_stream:
  "\<exists>s. stream_reach bit_lib bounded_queue_ops Block (stream_new demo_bq stats_new) s \<and>
     sr_lines s = [''ab''] \<and> sr_sent s = ''ab'' @ CHR 0x0A # ''c''"
proof -
  let ?step = "stream_step bit_lib bounded_queue_ops Block" and ?s0 = "stream_new demo_bq stats_new"
  let ?s1 = "?s0\<lparr>sr_wire := sr_wire ?s0 @ ''ab'' @ CHR 0x0A # ''c'', sr_sent := sr_sent ?s0 @ ''ab'' @ CHR 0x0A # ''c''\<rparr>"
  have s1: "?step ?s0 ?s1" by (rule peer_sends)
  have "\<exists>conn' q' stats'. conn_step bit_lib bounded_queue_ops Block (Read_Done 0 (Some (''ab'' @ CHR 0x0A # ''c'')))
      (sr_conn ?s1) (sr_queue ?s1) (sr_stats ?s1) = Returns (conn', q', stats')"
    by (auto simp: conn_step_def stream_new_def conn_new_def read_line_def handle_line_def push_event_def
        bounded_queue_ops_def split_beta Let_def map_call_Returns split: option.splits)
  then obtain conn' q' stats' where "conn_step bit_lib bounded_queue_ops Block (Read_Done 0 (Some (''ab'' @ CHR 0x0A # ''c'')))
      (sr_conn ?s1) (sr_queue ?s1) (sr_stats ?s1) = Returns (conn', q', stats')" by blast
  from read_done [OF _ _ _ refl this, of "[]"] have "\<exists>s2. ?step ?s1 s2 \<and> sr_lines s2 = [''ab''] \<and> sr_sent s2 = ''ab'' @ CHR 0x0A # ''c''"
    by (auto simp: stream_new_def conn_new_def read_until_ok_def buffer_limit_def getline_def)
  then show ?thesis using s1 by (meson converse_rtranclp_into_rtranclp r_into_rtranclp)
qed

theorem connection_reads_the_stream_witness:
  "\<exists>s rest. stream_reach bit_lib bounded_queue_ops Block (stream_new demo_bq stats_new) s \<and>
     sr_lines s = [''ab''] \<and> sr_sent s = unlines (sr_lines s) @ rest \<and> rest = ''c''"
proof -
  obtain s where s: "stream_reach bit_lib bounded_queue_ops Block (stream_new demo_bq stats_new) s"
    "sr_lines s = [''ab'']" "sr_sent s = ''ab'' @ CHR 0x0A # ''c''" using demo_stream by blast
  from conjunct1 [OF connection_reads_the_stream [OF s(1)]] obtain rest where "sr_sent s = unlines (sr_lines s) @ rest"
    by blast
  with s show ?thesis by (intro exI [of _ s] exI [of _ rest]) (simp add: unlines_def)
qed

end
