(* ===== verification/Simulator_Config.thy ===== *)
theory Simulator_Config
  imports Gateway_Config
begin

text \<open>
  \<^verbatim>\<open>simulator/include/edgeflow/simulator/config.hpp\<close> and \<^verbatim>\<open>simulator/src/config.cpp\<close>: the command line of the
  device simulator. The argument \<open>tiny_fails\<close> is the choice the C library makes in \<open>std::stod\<close>.
\<close>

section \<open>Operations\<close>

definition parse_positive_double :: "(nat \<Rightarrow> nat \<Rightarrow> bool) \<Rightarrow> string \<Rightarrow> string \<Rightarrow> cpp_double result" where
  "parse_positive_double tiny_fails val flag_name =
     (if val = [] \<or> hd val = CHR ''-'' then Inl (invalid_value flag_name val)
      else case stod tiny_fails val of
             Inl e \<Rightarrow> Inl (invalid_value flag_name val)
           | Inr (parsed, pos) \<Rightarrow>
               if pos \<noteq> length val then Inl (invalid_value flag_name val)
               else if \<not> isfinite parsed
               then Inl (Invalid_Argument (flag_name @ '' must be finite, got: '' @ val))
               else if double_le parsed (double_of_nat 0)
               then Inl (Invalid_Argument (flag_name @ '' must be greater than 0, got: '' @ val))
               else Inr parsed)"

record SimConfig =
  sc_host :: string
  sc_port :: u16
  sc_device_count :: u64
  sc_events_per_second :: cpp_double
  sc_duration_seconds :: u64
  sc_thread_count :: u64
  sc_chaos_latency :: int
  sc_packet_loss :: cpp_double
  sc_spike_count :: u64
  sc_spike_at_sec :: u64

definition sim_default_config :: SimConfig where
  "sim_default_config = \<lparr>sc_host = ''127.0.0.1'', sc_port = 9000, sc_device_count = 1000,
     sc_events_per_second = double_of_nat 1, sc_duration_seconds = 30, sc_thread_count = 1,
     sc_chaos_latency = 0, sc_packet_loss = double_of_nat 0, sc_spike_count = 0, sc_spike_at_sec = 0\<rparr>"

definition sim_apply_arg :: "(nat \<Rightarrow> nat \<Rightarrow> bool) \<Rightarrow> string \<Rightarrow> SimConfig \<Rightarrow> SimConfig result" where
  "sim_apply_arg tiny_fails arg config =
     (if starts_with arg ''--host='' then with_value arg Inr (\<lambda>v. sc_host_update (\<lambda>_. v)) config
      else if starts_with arg ''--port='' then with_value arg parse_port (\<lambda>v. sc_port_update (\<lambda>_. v)) config
      else if starts_with arg ''--devices='' then
        with_value arg (size_flag ''--devices'') (\<lambda>v. sc_device_count_update (\<lambda>_. v)) config
      else if starts_with arg ''--rate='' then
        with_value arg (\<lambda>val. parse_positive_double tiny_fails val ''--rate'')
          (\<lambda>v. sc_events_per_second_update (\<lambda>_. v)) config
      else if starts_with arg ''--duration='' then
        with_value arg (size_flag ''--duration'') (\<lambda>v. sc_duration_seconds_update (\<lambda>_. v)) config
      else if starts_with arg ''--chaos-latency-ms='' then
        with_value arg (size_flag ''--chaos-latency-ms'') (\<lambda>v. sc_chaos_latency_update (\<lambda>_. milliseconds v)) config
      else if starts_with arg ''--chaos-packet-loss-percent='' then
        with_value arg (\<lambda>val. parse_percentage tiny_fails val ''--chaos-packet-loss-percent'')
          (\<lambda>v. sc_packet_loss_update (\<lambda>_. v)) config
      else if starts_with arg ''--chaos-device-spike-at-sec='' then
        with_value arg (size_flag ''--chaos-device-spike-at-sec'') (\<lambda>v. sc_spike_at_sec_update (\<lambda>_. v)) config
      else if starts_with arg ''--chaos-device-spike='' then
        with_value arg (size_flag ''--chaos-device-spike'') (\<lambda>v. sc_spike_count_update (\<lambda>_. v)) config
      else if starts_with arg ''--threads='' then
        with_value arg (size_flag ''--threads'') (\<lambda>v. sc_thread_count_update (\<lambda>_. v)) config
      else Inl (Invalid_Argument (''unknown argument: '' @ arg)))"

fun sim_apply_args :: "(nat \<Rightarrow> nat \<Rightarrow> bool) \<Rightarrow> string list \<Rightarrow> SimConfig \<Rightarrow> SimConfig result" where
  "sim_apply_args tiny_fails [] config = Inr config"
| "sim_apply_args tiny_fails (arg # argv) config =
     bind_result (sim_apply_arg tiny_fails arg config) (sim_apply_args tiny_fails argv)"

definition sim_validate_config :: "SimConfig \<Rightarrow> SimConfig result" where
  "sim_validate_config config =
     (if sc_device_count config = 0 then Inl (Invalid_Argument ''--devices must be at least 1'')
      else if sc_device_count config > 100000 then Inl (Invalid_Argument ''--devices exceeds maximum of 100000'')
      else if sc_thread_count config = 0 then Inl (Invalid_Argument ''--threads must be at least 1'')
      else if sc_thread_count config > 256 then Inl (Invalid_Argument ''--threads exceeds maximum of 256'')
      else if sc_spike_count config > 0 \<and> sc_spike_at_sec config \<ge> sc_duration_seconds config then
        Inl (Invalid_Argument ''--chaos-device-spike-at-sec must be less than --duration for the spike to occur'')
      else Inr config)"

definition sim_parse_args :: "(nat \<Rightarrow> nat \<Rightarrow> bool) \<Rightarrow> string list \<Rightarrow> SimConfig result" where
  "sim_parse_args tiny_fails argv =
     bind_result (sim_apply_args tiny_fails argv sim_default_config) sim_validate_config"

section \<open>What the parsers guarantee\<close>

lemma parse_positive_double_Inr:
  assumes "parse_positive_double tiny_fails val flag_name = Inr d"
  shows "isfinite d \<and> 0 < real_of_double d"
proof -
  have "isfinite d" "\<not> double_le d (double_of_nat 0)"
    using assms by (auto simp: parse_positive_double_def split: if_splits sum.splits)
  then show ?thesis using real_double_of_nat [of 0] by (simp add: double_le_real)
qed

lemma parse_positive_double_to_string:
  assumes "0 < n" "n < 2 ^ 53"
  shows "parse_positive_double tiny_fails (to_string n) flag_name = Inr (double_of_nat n)"
proof -
  have "stod tiny_fails (to_string n) = Inr (double_of_nat n, length (to_string n))"
    using stod_digits [of "to_string n"] to_string_digits [of n] assms(2) by simp
  moreover have "\<not> double_le (double_of_nat n) (double_of_nat 0)"
    using real_double_of_nat [OF assms(2)] real_double_of_nat [of 0] assms(1) by (simp add: double_le_real)
  ultimately show ?thesis
    using real_double_of_nat [OF assms(2)] to_string_front [of n] by (simp add: parse_positive_double_def)
qed

text \<open>What every flag keeps of the port, the rate and the loss.\<close>

definition sim_values_ok :: "SimConfig \<Rightarrow> bool" where
  "sim_values_ok c \<longleftrightarrow> 1 \<le> unat (sc_port c) \<and>
     isfinite (sc_events_per_second c) \<and> 0 < real_of_double (sc_events_per_second c) \<and>
     isfinite (sc_packet_loss c) \<and> 0 \<le> real_of_double (sc_packet_loss c) \<and> real_of_double (sc_packet_loss c) \<le> 100"

lemma sim_apply_arg_ok:
  assumes "sim_apply_arg tiny_fails arg c = Inr c'" "sim_values_ok c"
  shows "sim_values_ok c'"
  using assms unfolding sim_apply_arg_def sim_values_ok_def
  by (auto dest!: with_value_Inr dest: parse_port_pos parse_positive_double_Inr parse_percentage_Inr
      split: if_splits)

lemma sim_apply_args_ok:
  "sim_apply_args tiny_fails argv c = Inr c' \<Longrightarrow> sim_values_ok c \<Longrightarrow> sim_values_ok c'"
proof (induction argv arbitrary: c)
  case (Cons arg argv)
  then obtain c1 where "sim_apply_arg tiny_fails arg c = Inr c1" "sim_apply_args tiny_fails argv c1 = Inr c'"
    by (auto simp: bind_result_Inr_iff)
  with Cons.IH [of c1] sim_apply_arg_ok Cons.prems(2) show ?case by blast
qed simp

lemma sim_default_ok: "sim_values_ok sim_default_config"
  using real_double_of_nat [of 1] real_double_of_nat [of 0] by (simp add: sim_values_ok_def sim_default_config_def)

lemma sim_validate_Inr:
  assumes "sim_validate_config c = Inr c'"
  shows "c' = c \<and> 1 \<le> unat (sc_device_count c) \<and> unat (sc_device_count c) \<le> 100000 \<and>
    1 \<le> unat (sc_thread_count c) \<and> unat (sc_thread_count c) \<le> 256 \<and>
    (sc_spike_count c \<noteq> 0 \<longrightarrow> sc_spike_at_sec c < sc_duration_seconds c)"
  using assms
  by (auto simp: sim_validate_config_def word_less_nat_alt word_le_nat_alt not_less not_le Suc_le_eq unat_gt_0
      split: if_splits)

section \<open>Properties\<close>

text \<open>A configuration the simulator accepts: a port, between 1 and 100000 devices and between 1 and
  256 threads, a finite positive rate, a finite loss between 0 and 100 per cent, and a spike (if there
  is one) before the end.\<close>

theorem sim_parse_args_valid:
  assumes "sim_parse_args tiny_fails argv = Inr c"
  shows "1 \<le> unat (sc_port c) \<and> unat (sc_device_count c) \<in> {1..100000} \<and> unat (sc_thread_count c) \<in> {1..256} \<and>
    isfinite (sc_events_per_second c) \<and> 0 < real_of_double (sc_events_per_second c) \<and>
    isfinite (sc_packet_loss c) \<and> real_of_double (sc_packet_loss c) \<in> {0..100} \<and>
    (sc_spike_count c \<noteq> 0 \<longrightarrow> sc_spike_at_sec c < sc_duration_seconds c)"
proof -
  obtain c1 where c1: "sim_apply_args tiny_fails argv sim_default_config = Inr c1" "sim_validate_config c1 = Inr c"
    using assms by (auto simp: sim_parse_args_def bind_result_Inr_iff)
  with sim_apply_args_ok [OF c1(1) sim_default_ok] sim_validate_Inr [OF c1(2)] show ?thesis
    by (simp add: sim_values_ok_def)
qed

theorem sim_parse_args_valid_witness:
  "\<exists>c. sim_parse_args (\<lambda>_ _. True) [''--rate='' @ to_string 400] = Inr c \<and>
     isfinite (sc_events_per_second c) \<and> real_of_double (sc_events_per_second c) = 400 \<and>
     unat (sc_device_count c) \<in> {1..100000}"
proof -
  have "sim_apply_arg (\<lambda>_ _. True) (''--rate='' @ to_string 400) sim_default_config
      = Inr (sim_default_config\<lparr>sc_events_per_second := double_of_nat 400\<rparr>)"
    using parse_positive_double_to_string [of 400 "\<lambda>_ _. True" "''--rate''"]
    by (simp add: sim_apply_arg_def starts_with_def with_value_def arg_value_def)
  then have p: "sim_parse_args (\<lambda>_ _. True) [''--rate='' @ to_string 400]
      = Inr (sim_default_config\<lparr>sc_events_per_second := double_of_nat 400\<rparr>)"
    unfolding sim_parse_args_def sim_apply_args.simps
    by (simp add: sim_validate_config_def sim_default_config_def del: append.simps)
  from sim_parse_args_valid [OF this] real_double_of_nat [of 400] p show ?thesis by simp
qed

end
