(* ===== verification/Iso_Timestamp.thy ===== *)
theory Iso_Timestamp
  imports Decimal
begin

text \<open>
  \<^verbatim>\<open>core/include/edgeflow/iso_timestamp.hpp\<close>: \<open>CachedIsoTimestamp\<close>. \<open>gmtime_r\<close> and the conversions of
  \<open>snprintf\<close> belong to the C library: \<open>gmtime\<close> is the civil date of the proleptic Gregorian calendar,
  found by cutting the days into cycles of 400, 100, 4 and 1 years.
\<close>

section \<open>The calendar\<close>

record tm =
  tm_year :: int   \<comment> \<open>years since 1900\<close>
  tm_mon :: int    \<comment> \<open>0 to 11\<close>
  tm_mday :: int
  tm_hour :: int
  tm_min :: int
  tm_sec :: int

definition leap_year :: "int \<Rightarrow> bool" where
  "leap_year y \<longleftrightarrow> 4 dvd y \<and> (\<not> 100 dvd y \<or> 400 dvd y)"

definition month_lengths :: "bool \<Rightarrow> int list" where
  "month_lengths leap = [31, if leap then 29 else 28, 31, 30, 31, 30, 31, 31, 30, 31, 30, 31]"

text \<open>The year and the day of the year of a day counted from 1 January of the year 1.\<close>

definition year_of_day :: "int \<Rightarrow> int \<times> int" where
  "year_of_day n =
     (let a = n div 146097; r400 = n mod 146097;
          b = min (r400 div 36524) 3; r100 = r400 - b * 36524;
          c = r100 div 1461; r4 = r100 mod 1461;
          d = min (r4 div 365) 3
      in (400 * a + 100 * b + 4 * c + d + 1, r4 - d * 365))"

fun month_scan :: "int list \<Rightarrow> int \<Rightarrow> int \<Rightarrow> int \<times> int" where
  "month_scan [] m d = (m, d)"
| "month_scan (l # ls) m d = (if d < l then (m, d) else month_scan ls (m + 1) (d - l))"

text \<open>\<open>gmtime_r\<close> fails when the year does not fit its field.\<close>

definition gmtime :: "int \<Rightarrow> tm option" where
  "gmtime seconds =
     (let (year, yday) = year_of_day (seconds div 86400 + 719162);
          (mon, mday) = month_scan (month_lengths (leap_year year)) 0 yday;
          s = seconds mod 86400
      in if year - 1900 < - (2 ^ 31) \<or> year - 1900 \<ge> 2 ^ 31 then None
         else Some \<lparr>tm_year = year - 1900, tm_mon = mon, tm_mday = mday + 1,
                    tm_hour = s div 3600, tm_min = s div 60 mod 60, tm_sec = s mod 60\<rparr>)"

definition zero_tm :: tm where
  "zero_tm = \<lparr>tm_year = 0, tm_mon = 0, tm_mday = 0, tm_hour = 0, tm_min = 0, tm_sec = 0\<rparr>"

section \<open>The timestamp\<close>

text \<open>\<^verbatim>\<open>%0<w>d\<close>\<close>

definition pad_int :: "nat \<Rightarrow> int \<Rightarrow> string" where
  "pad_int w n =
     (let s = to_string (nat \<bar>n\<bar>); w = (if n < 0 then w - 1 else w)
      in (if n < 0 then ''-'' else []) @ replicate (w - length s) CHR ''0'' @ s)"

definition iso_format :: "int \<Rightarrow> string" where
  "iso_format seconds =
     (let utc = (case gmtime seconds of Some t \<Rightarrow> t | None \<Rightarrow> zero_tm)
      in take 31 (pad_int 4 (tm_year utc + 1900) @ ''-'' @ pad_int 2 (tm_mon utc + 1) @ ''-'' @ pad_int 2 (tm_mday utc) @
         ''T'' @ pad_int 2 (tm_hour utc) @ '':'' @ pad_int 2 (tm_min utc) @ '':'' @ pad_int 2 (tm_sec utc) @ ''Z''))"

record CachedIsoTimestamp =
  ts_cached :: string
  ts_cached_second :: int
  ts_has_value :: bool

definition ts_new :: CachedIsoTimestamp where
  "ts_new = \<lparr>ts_cached = [], ts_cached_second = 0, ts_has_value = False\<rparr>"

definition ts_regenerate :: "int \<Rightarrow> CachedIsoTimestamp \<Rightarrow> CachedIsoTimestamp" where
  "ts_regenerate seconds c = c\<lparr>ts_cached := iso_format seconds, ts_cached_second := seconds, ts_has_value := True\<rparr>"

definition ts_format :: "int \<Rightarrow> CachedIsoTimestamp \<Rightarrow> string \<times> CachedIsoTimestamp" where
  "ts_format seconds c =
     (let c = (if \<not> ts_has_value c \<or> seconds \<noteq> ts_cached_second c then ts_regenerate seconds c else c)
      in (ts_cached c, c))"

text \<open>A sequence of calls on one object, at any times.\<close>

fun ts_formats :: "int list \<Rightarrow> CachedIsoTimestamp \<Rightarrow> string list \<times> CachedIsoTimestamp" where
  "ts_formats [] c = ([], c)"
| "ts_formats (t # ts) c =
     (let (s, c) = ts_format t c; (ss, c) = ts_formats ts c in (s # ss, c))"

section \<open>The calendar is right\<close>

text \<open>The reference: how many days there are before a date.\<close>

definition days_before_year :: "int \<Rightarrow> int" where
  "days_before_year y = 365 * (y - 1) + (y - 1) div 4 - (y - 1) div 100 + (y - 1) div 400"

definition day_number :: "int \<Rightarrow> int \<Rightarrow> int \<Rightarrow> int" where
  "day_number y m d = days_before_year y + sum_list (take (nat (m - 1)) (month_lengths (leap_year y))) + d - 1"

lemma div_of_parts: "0 \<le> r \<Longrightarrow> r < k \<Longrightarrow> (k * q + r) div k = q" for k q r :: int
  by simp

lemma dvd_of_parts: "0 < r \<Longrightarrow> r \<le> k \<Longrightarrow> k dvd k * q + r \<longleftrightarrow> r = k" for k q r :: int
  using zdvd_imp_le [of k r] by (auto simp: dvd_add_right_iff)

lemma year_digits:
  fixes a b c d :: int
  assumes "0 \<le> b" "b \<le> 3" "0 \<le> c" "c \<le> 24" "0 \<le> d" "d \<le> 3"
  shows "days_before_year (400 * a + 100 * b + 4 * c + d + 1) = 146097 * a + 36524 * b + 1461 * c + 365 * d"
    and "leap_year (400 * a + 100 * b + 4 * c + d + 1) \<longleftrightarrow> d = 3 \<and> (c \<noteq> 24 \<or> b = 3)"
proof -
  let ?y = "400 * a + 100 * b + 4 * c + d"
  have y: "?y = 4 * (100 * a + 25 * b + c) + d" "?y = 100 * (4 * a + b) + (4 * c + d)"
    "?y = 400 * a + (100 * b + 4 * c + d)" by simp_all
  have "?y div 4 = 100 * a + 25 * b + c" unfolding y(1) using assms by (intro div_of_parts) simp_all
  moreover have "?y div 100 = 4 * a + b" unfolding y(2) using assms by (intro div_of_parts) simp_all
  moreover have "?y div 400 = a" unfolding y(3) using assms by (intro div_of_parts) simp_all
  ultimately show "days_before_year (?y + 1) = 146097 * a + 36524 * b + 1461 * c + 365 * d"
    by (simp add: days_before_year_def)
  have "4 dvd ?y + 1 \<longleftrightarrow> d + 1 = 4"
    using dvd_of_parts [of "d + 1" 4 "100 * a + 25 * b + c"] assms by (simp add: ac_simps)
  moreover have "100 dvd ?y + 1 \<longleftrightarrow> 4 * c + d + 1 = 100"
    using dvd_of_parts [of "4 * c + d + 1" 100 "4 * a + b"] assms by (simp add: ac_simps)
  moreover have "400 dvd ?y + 1 \<longleftrightarrow> 100 * b + 4 * c + d + 1 = 400"
    using dvd_of_parts [of "100 * b + 4 * c + d + 1" 400 a] assms by (simp add: ac_simps)
  ultimately show "leap_year (?y + 1) \<longleftrightarrow> d = 3 \<and> (c \<noteq> 24 \<or> b = 3)"
    using assms by (auto simp: leap_year_def)
qed

lemma year_of_day_correct:
  assumes "year_of_day n = (y, yday)"
  shows "days_before_year y + yday = n" "0 \<le> yday" "yday < (if leap_year y then 366 else 365)"
proof -
  define a where "a = n div 146097"
  define r400 where "r400 = n mod 146097"
  define b where "b = min (r400 div 36524) 3"
  define r100 where "r100 = r400 - b * 36524"
  define c where "c = r100 div 1461"
  define r4 where "r4 = r100 mod 1461"
  define d where "d = min (r4 div 365) 3"
  have y: "y = 400 * a + 100 * b + 4 * c + d + 1" "yday = r4 - d * 365"
    using assms unfolding year_of_day_def Let_def a_def r400_def b_def r100_def c_def r4_def d_def by simp_all
  have cut: "0 \<le> x div k \<and> k * (x div k) \<le> x \<and> x < k * (x div k) + k" if "0 \<le> x" "0 < k" for x k :: int
    using that pos_mod_sign [of k x] pos_mod_bound [of k x]
    by (simp add: pos_imp_zdiv_nonneg_iff minus_mod_eq_mult_div [symmetric])
  have n: "n = 146097 * a + r400" "0 \<le> r400" "r400 < 146097" by (simp_all add: a_def r400_def)
  have b: "0 \<le> b" "b \<le> 3" "0 \<le> r100" "r100 < 36524 \<or> b = 3 \<and> r100 \<le> 36524"
    using cut [OF n(2), of 36524] n(3) unfolding r100_def b_def by (auto simp: min_def)
  have c: "r100 = 1461 * c + r4" "0 \<le> r4" "r4 < 1461" "0 \<le> c" using b(3) by (simp_all add: c_def r4_def)
  have c24: "c \<le> 24" "c = 24 \<Longrightarrow> b \<noteq> 3 \<Longrightarrow> r4 < 1460" using b(4) c by linarith+
  have d: "0 \<le> d" "d \<le> 3" "0 \<le> r4 - d * 365" "r4 - d * 365 < 365 \<or> d = 3 \<and> r4 - d * 365 \<le> r4 - 1095"
    using cut [OF c(2), of 365] c(3) unfolding d_def by (auto simp: min_def)
  note F = year_digits [OF b(1,2) c(4) c24(1) d(1,2)]
  show "days_before_year y + yday = n" using F(1) y n(1) c(1) by (simp add: r100_def)
  show "0 \<le> yday" using y(2) d(3) by simp
  show "yday < (if leap_year y then 366 else 365)"
    using F(2) [of a] y d(4) c(3) c24(2) by auto
qed

lemma month_scan_correct:
  assumes "0 \<le> d" "d < sum_list ls" "\<forall>l\<in>set ls. 0 < l" "month_scan ls m d = (m', d')"
  shows "\<exists>k<length ls. m' = m + int k \<and> d = sum_list (take k ls) + d' \<and> 0 \<le> d' \<and> d' < ls ! k"
  using assms
proof (induction ls arbitrary: m d)
  case (Cons l ls)
  show ?case
  proof (cases "d < l")
    case True
    with Cons.prems show ?thesis by (intro exI [of _ 0]) simp
  next
    case False
    then obtain k where "k < length ls" "m' = m + 1 + int k" "d - l = sum_list (take k ls) + d'" "0 \<le> d'" "d' < ls ! k"
      using Cons.IH [of "d - l" "m + 1"] Cons.prems by auto
    then show ?thesis by (intro exI [of _ "Suc k"]) simp
  qed
qed simp

lemma month_lengths_facts:
  "length (month_lengths l) = 12" "sum_list (month_lengths l) = (if l then 366 else 365)"
  "\<forall>x\<in>set (month_lengths l). 0 < x \<and> x \<le> 31"
  by (auto simp: month_lengths_def)

text \<open>The fields name the second they were computed from, and are in their ranges.\<close>

lemma gmtime_correct:
  assumes "gmtime seconds = Some t"
  shows "86400 * (day_number (tm_year t + 1900) (tm_mon t + 1) (tm_mday t) - 719162) +
      3600 * tm_hour t + 60 * tm_min t + tm_sec t = seconds"
    and "0 \<le> tm_mon t" "tm_mon t \<le> 11" "1 \<le> tm_mday t" "tm_mday t \<le> 31"
    and "0 \<le> tm_hour t" "tm_hour t \<le> 23" "0 \<le> tm_min t" "tm_min t \<le> 59" "0 \<le> tm_sec t" "tm_sec t \<le> 59"
    and "days_before_year (tm_year t + 1900) \<le> seconds div 86400 + 719162"
proof -
  let ?n = "seconds div 86400 + 719162" and ?s = "seconds mod 86400"
  obtain y yd where y: "year_of_day ?n = (y, yd)" by force
  note Y = year_of_day_correct [OF y]
  let ?ls = "month_lengths (leap_year y)"
  obtain m d where md: "month_scan ?ls 0 yd = (m, d)" by force
  obtain k where k: "k < 12" "m = int k" "yd = sum_list (take k ?ls) + d" "0 \<le> d" "d < ?ls ! k"
    using month_scan_correct [OF Y(2) _ _ md] Y(3) month_lengths_facts [of "leap_year y"] by auto
  have "?ls ! k \<le> 31" using month_lengths_facts(1,3) [of "leap_year y"] k(1) by simp
  then have d31: "d \<le> 30" using k(5) by simp
  have t: "t = \<lparr>tm_year = y - 1900, tm_mon = m, tm_mday = d + 1, tm_hour = ?s div 3600, tm_min = ?s div 60 mod 60,
      tm_sec = ?s mod 60\<rparr>"
    using assms y md by (simp add: gmtime_def Let_def split: if_splits)
  have s: "0 \<le> ?s" "?s < 86400" by simp_all
  have hms: "3600 * (?s div 3600) + 60 * (?s div 60 mod 60) + ?s mod 60 = ?s"
  proof -
    have "?s div 60 mod 60 + 60 * (?s div 60 div 60) = ?s div 60" by simp
    moreover have "?s div 60 div 60 = ?s div 3600" by (simp add: zdiv_zmult2_eq [symmetric])
    moreover have "?s mod 60 + 60 * (?s div 60) = ?s" by simp
    ultimately show ?thesis by linarith
  qed
  have "day_number y (m + 1) (d + 1) = ?n"
    using Y(1) k(2,3) by (simp add: day_number_def)
  then have "86400 * (day_number y (m + 1) (d + 1) - 719162) + ?s = seconds" by simp
  with hms show "86400 * (day_number (tm_year t + 1900) (tm_mon t + 1) (tm_mday t) - 719162) +
      3600 * tm_hour t + 60 * tm_min t + tm_sec t = seconds" by (simp add: t)
  show "0 \<le> tm_mon t" "tm_mon t \<le> 11" "1 \<le> tm_mday t" "tm_mday t \<le> 31" using k(1,2,4) d31 by (simp_all add: t)
  show "0 \<le> tm_hour t" "tm_hour t \<le> 23" using s by (simp_all add: t)
  show "0 \<le> tm_min t" "tm_min t \<le> 59" "0 \<le> tm_sec t" "tm_sec t \<le> 59" by (simp_all add: t)
  show "days_before_year (tm_year t + 1900) \<le> ?n" using Y(1,2) by (simp add: t)
qed

lemma year_range:
  assumes "0 \<le> n" "n < 3652059" "year_of_day n = (y, yd)"
  shows "1 \<le> y \<and> y \<le> 9999"
proof -
  have "days_before_year y \<le> n" "n < days_before_year y + 366"
    using year_of_day_correct [OF assms(3)] by (auto split: if_splits)
  moreover have "3652059 \<le> days_before_year y" if "10000 \<le> y"
  proof -
    have "(y - 1) div 100 \<le> (y - 1) div 4" using that by (intro zdiv_mono2) simp_all
    moreover have "24 \<le> (y - 1) div 400" using that zdiv_mono1 [of 9999 "y - 1" 400] by simp
    moreover have "2499 \<le> (y - 1) div 4" using that zdiv_mono1 [of 9999 "y - 1" 4] by simp
    ultimately show ?thesis
      using that unfolding days_before_year_def
      by (cases "y = 10000") (simp_all; linarith)+
  qed
  moreover have "days_before_year y \<le> - 366" if "y \<le> 0"
  proof -
    have "(y - 1) div 4 \<le> (y - 1) div 100" using that by (simp add: zdiv_mono2_neg)
    moreover have "(y - 1) div 400 < 0" using that by (simp add: neg_imp_zdiv_neg_iff)
    moreover have "365 * (y - 1) + A - B + C \<le> - 366" if "A \<le> B" "C < 0" for A B C :: int
      using that \<open>y \<le> 0\<close> by presburger
    ultimately show ?thesis unfolding days_before_year_def by blast
  qed
  ultimately show ?thesis using assms(1,2) by (cases "y \<le> 0"; cases "10000 \<le> y") auto
qed

section \<open>Reading a timestamp back\<close>

lemma to_string_length: "n < 10 ^ w \<Longrightarrow> 0 < w \<Longrightarrow> length (to_string n) \<le> w"
proof (induction n arbitrary: w rule: to_string.induct)
  case (1 n)
  show ?case
  proof (cases "n < 10")
    case False
    then obtain v where v: "w = Suc v" "0 < v" using 1(2,3) by (cases w; cases "w - 1") auto
    then have "n div 10 < 10 ^ v" using 1(2) by (simp add: less_mult_imp_div_less mult.commute)
    with 1(1) [OF False this v(2)] v(1) False show ?thesis by (simp add: to_string.simps [of n])
  qed (use 1 in \<open>simp add: to_string.simps [of n]\<close>)
qed

lemma digits_value_zeros: "digits_value (replicate k CHR ''0'' @ s) = digits_value s"
proof -
  have "foldl (\<lambda>n c. 10 * n + digit_value c) 0 (replicate k CHR ''0'') = 0"
    by (induction k) (simp_all add: digit_value_def)
  then show ?thesis by (simp add: digits_value_def)
qed

lemma pad_int_field:
  assumes "0 \<le> n" "n < 10 ^ w" "0 < w"
  shows "length (pad_int w n) = w" "digits_value (pad_int w n) = nat n" "\<forall>c\<in>set (pad_int w n). isdigit c"
proof -
  have "nat n < 10 ^ w" using assms(1,2) by (simp add: nat_less_iff)
  from to_string_length [OF this assms(3)] assms(1)
  show "length (pad_int w n) = w" by (simp add: pad_int_def Let_def)
  show "digits_value (pad_int w n) = nat n" using assms(1) by (simp add: pad_int_def Let_def digits_value_zeros)
  show "\<forall>c\<in>set (pad_int w n). isdigit c"
    using assms(1) to_string_digits [of "nat n"] by (auto simp: pad_int_def Let_def isdigit_def)
qed

text \<open>The reader takes the fields at their fixed places.\<close>

definition iso_field :: "string \<Rightarrow> nat \<Rightarrow> nat \<Rightarrow> int" where
  "iso_field s at w = int (digits_value (take w (drop at s)))"

definition read_iso :: "string \<Rightarrow> int" where
  "read_iso s = 86400 * (day_number (iso_field s 0 4) (iso_field s 5 2) (iso_field s 8 2) - 719162) +
     3600 * iso_field s 11 2 + 60 * iso_field s 14 2 + iso_field s 17 2"

lemma gmtime_range:
  assumes "0 \<le> seconds" "seconds < 253402300800"
  shows "\<exists>t. gmtime seconds = Some t \<and> 1 \<le> tm_year t + 1900 \<and> tm_year t + 1900 \<le> 9999"
proof -
  have n: "0 \<le> seconds div 86400 + 719162" "seconds div 86400 + 719162 < 3652059" using assms by linarith+
  obtain y yd where y: "year_of_day (seconds div 86400 + 719162) = (y, yd)" by force
  from year_range [OF n y] y show ?thesis by (auto simp: gmtime_def Let_def split: prod.splits)
qed

lemma iso_format_fields:
  assumes "gmtime seconds = Some t" "1 \<le> tm_year t + 1900" "tm_year t + 1900 \<le> 9999"
  shows "\<exists>Y M D h m s. iso_format seconds = Y @ ''-'' @ M @ ''-'' @ D @ ''T'' @ h @ '':'' @ m @ '':'' @ s @ ''Z'' \<and>
    length Y = 4 \<and> length M = 2 \<and> length D = 2 \<and> length h = 2 \<and> length m = 2 \<and> length s = 2 \<and>
    int (digits_value Y) = tm_year t + 1900 \<and> int (digits_value M) = tm_mon t + 1 \<and> int (digits_value D) = tm_mday t \<and>
    int (digits_value h) = tm_hour t \<and> int (digits_value m) = tm_min t \<and> int (digits_value s) = tm_sec t"
proof -
  note G = gmtime_correct [OF assms(1)]
  let ?Y = "pad_int 4 (tm_year t + 1900)" and ?M = "pad_int 2 (tm_mon t + 1)" and ?D = "pad_int 2 (tm_mday t)"
    and ?h = "pad_int 2 (tm_hour t)" and ?m = "pad_int 2 (tm_min t)" and ?s = "pad_int 2 (tm_sec t)"
  have field: "length (pad_int w n) = w \<and> int (digits_value (pad_int w n)) = n" if "0 \<le> n" "n < 10 ^ w" "0 < w" for w n
    using pad_int_field [OF that] that(1) by simp
  have F: "length ?Y = 4 \<and> int (digits_value ?Y) = tm_year t + 1900"
    "length ?M = 2 \<and> int (digits_value ?M) = tm_mon t + 1" "length ?D = 2 \<and> int (digits_value ?D) = tm_mday t"
    "length ?h = 2 \<and> int (digits_value ?h) = tm_hour t" "length ?m = 2 \<and> int (digits_value ?m) = tm_min t"
    "length ?s = 2 \<and> int (digits_value ?s) = tm_sec t"
    using G(2-11) assms(2,3) by (intro field; simp)+
  moreover have "iso_format seconds = ?Y @ ''-'' @ ?M @ ''-'' @ ?D @ ''T'' @ ?h @ '':'' @ ?m @ '':'' @ ?s @ ''Z''"
    unfolding iso_format_def assms(1) option.case Let_def using F by (intro take_all) simp
  ultimately show ?thesis by blast
qed

section \<open>The cache\<close>

definition ts_ok :: "CachedIsoTimestamp \<Rightarrow> bool" where
  "ts_ok c \<longleftrightarrow> (ts_has_value c \<longrightarrow> ts_cached c = iso_format (ts_cached_second c))"

lemma ts_format_ok: "ts_ok c \<Longrightarrow> ts_format t c = (s, c') \<Longrightarrow> s = iso_format t \<and> ts_ok c'"
  by (auto simp: ts_ok_def ts_format_def ts_regenerate_def Let_def split: if_splits)

lemma ts_formats_ok: "ts_ok c \<Longrightarrow> ts_formats ts c = (ss, c') \<Longrightarrow> ss = map iso_format ts \<and> ts_ok c'"
proof (induction ts arbitrary: c ss)
  case (Cons t ts)
  obtain s c1 where 1: "ts_format t c = (s, c1)" by force
  obtain ss1 where 2: "ts_formats ts c1 = (ss1, c')" "ss = s # ss1" using Cons.prems(2) 1 by (auto split: prod.splits)
  from ts_format_ok [OF Cons.prems(1) 1] Cons.IH [OF _ 2(1)] 2(2) show ?case by simp
qed simp

section \<open>Properties\<close>

text \<open>The cache never shows: on one object, for any sequence of times, also when the clock steps
  backwards, every call returns the text the calendar gives for its own second.\<close>

theorem cached_timestamps_fresh:
  "fst (ts_formats clock ts_new) = map iso_format clock"
  using ts_formats_ok [of ts_new clock] by (simp add: ts_ok_def ts_new_def prod_eq_iff)

text \<open>C36: The timestamp of every second from 1970 to the end of the year 9999 has the form
  \<^verbatim>\<open>YYYY-MM-DDThh:mm:ssZ\<close>, twenty characters, and names that second: reading its fields back with the
  Gregorian calendar gives the number of seconds it was made from.\<close>

theorem timestamp_round_trip:
  assumes "0 \<le> seconds" "seconds < 253402300800"
  shows "length (iso_format seconds) = 20 \<and>
    map (\<lambda>i. iso_format seconds ! i) [4, 7, 10, 13, 16, 19] = ''--T::Z'' \<and>
    read_iso (iso_format seconds) = seconds"
proof -
  obtain t where t: "gmtime seconds = Some t" "1 \<le> tm_year t + 1900" "tm_year t + 1900 \<le> 9999"
    using gmtime_range [OF assms] by blast
  obtain Y M D h m s where F: "iso_format seconds = Y @ ''-'' @ M @ ''-'' @ D @ ''T'' @ h @ '':'' @ m @ '':'' @ s @ ''Z''"
    "length Y = 4" "length M = 2" "length D = 2" "length h = 2" "length m = 2" "length s = 2"
    "int (digits_value Y) = tm_year t + 1900" "int (digits_value M) = tm_mon t + 1" "int (digits_value D) = tm_mday t"
    "int (digits_value h) = tm_hour t" "int (digits_value m) = tm_min t" "int (digits_value s) = tm_sec t"
    using iso_format_fields [OF t] by blast
  have "read_iso (iso_format seconds) = seconds"
    using gmtime_correct(1) [OF t(1)] F by (simp add: read_iso_def iso_field_def)
  then show ?thesis using F by (simp add: nth_append)
qed

theorem timestamp_round_trip_witness:
  "read_iso (iso_format 1787920496) = 1787920496 \<and> length (iso_format 1787920496) = 20"
  using timestamp_round_trip [of 1787920496] by simp

end
