(* ===== verification/Device_Client.thy ===== *)
theory Device_Client
  imports Simulator_Config Iso_Timestamp Event "HOL-Library.Signed_Division"
begin

text \<open>
  \<^verbatim>\<open>simulator/include/edgeflow/simulator/device_client.hpp\<close> and \<^verbatim>\<open>simulator/src/device_client.cpp\<close>: one simulated
  device. Every asynchronous operation that is pending is a field of the state; a completion, with
  its error code, runs the handler. The clock, the random distribution and the network are inputs of
  the handlers. The events handed to the socket are recorded in a history variable.
\<close>

section \<open>State\<close>

record DeviceClient =
  dc_host :: string
  dc_port :: u16
  dc_device_id :: "64 word"
  dc_send_interval :: int          \<comment> \<open>microseconds\<close>
  dc_chaos_latency :: int          \<comment> \<open>milliseconds\<close>
  dc_packet_loss :: cpp_double
  dc_timestamp :: CachedIsoTimestamp
  dc_events_sent :: u64
  dc_stopped :: bool
  dc_write_in_flight :: bool
  dc_socket_closed :: bool         \<comment> \<open>\<open>socket_.close()\<close> was called\<close>
  dc_connecting :: bool            \<comment> \<open>\<open>async_connect\<close> is pending\<close>
  dc_timer :: bool                 \<comment> \<open>\<open>timer_\<close> is pending\<close>
  dc_timer_cancelled :: bool       \<comment> \<open>and its wait was cancelled\<close>
  dc_latency_timer :: bool         \<comment> \<open>\<open>chaos_latency_timer_\<close> is pending\<close>
  dc_latency_cancelled :: bool     \<comment> \<open>and its wait was cancelled\<close>
  dc_writing :: "string option"    \<comment> \<open>\<open>async_write\<close> is pending on this buffer\<close>
  dc_history :: "Event list"       \<comment> \<open>history: the events written to the socket\<close>

text \<open>\<open>None\<close>: the cast to an integer is undefined.\<close>

definition send_interval :: "cpp_double \<Rightarrow> int option" where
  "send_interval events_per_second =
     double_trunc (clamp (double_div (double_of_nat 1000000) events_per_second)
       (double_of_nat 1) (double_of_nat 3600000000))"

definition dc_new ::
    "string \<Rightarrow> u16 \<Rightarrow> 64 word \<Rightarrow> cpp_double \<Rightarrow> int \<Rightarrow> cpp_double \<Rightarrow> DeviceClient option" where
  "dc_new host port device_id events_per_second chaos_latency packet_loss =
     map_option (\<lambda>interval. \<lparr>dc_host = host, dc_port = port, dc_device_id = device_id, dc_send_interval = interval,
       dc_chaos_latency = chaos_latency, dc_packet_loss = packet_loss, dc_timestamp = ts_new, dc_events_sent = 0,
       dc_stopped = False, dc_write_in_flight = False, dc_socket_closed = False, dc_connecting = False,
       dc_timer = False, dc_timer_cancelled = False, dc_latency_timer = False, dc_latency_cancelled = False,
       dc_writing = None, dc_history = []\<rparr>) (send_interval events_per_second)"

section \<open>Handlers\<close>

definition schedule_next_send :: "DeviceClient \<Rightarrow> DeviceClient" where
  "schedule_next_send c = (if dc_stopped c then c else c\<lparr>dc_timer := True\<rparr>)"

text \<open>\<open>start()\<close> and \<open>connect()\<close>: the resolver throws when the name does not resolve.\<close>

definition dc_connect :: "bool \<Rightarrow> DeviceClient \<Rightarrow> DeviceClient result" where
  "dc_connect resolved c = (if resolved then Inr (c\<lparr>dc_connecting := True\<rparr>) else Inl (Runtime_Error ''resolve''))"

definition on_connect :: "bool \<Rightarrow> DeviceClient \<Rightarrow> DeviceClient" where
  "on_connect error c =
     (let c = c\<lparr>dc_connecting := False\<rparr> in if error \<or> dc_stopped c then c else schedule_next_send c)"

definition should_drop_for_chaos :: "cpp_double \<Rightarrow> DeviceClient \<Rightarrow> bool" where
  "should_drop_for_chaos drawn c =
     (if double_le (dc_packet_loss c) (double_of_nat 0) then False else double_less drawn (dc_packet_loss c))"

text \<open>The telemetry event. The sum of 20 and a small integer is exact in binary64.\<close>

definition device_event :: "64 word \<Rightarrow> string \<Rightarrow> Event" where
  "device_event device_id timestamp =
     \<lparr>ev_device_id = device_id, ev_timestamp = timestamp,
      ev_temperature = double_of_nat (nat (20 + sint device_id smod 15)),
      ev_battery = word_of_int (100 - sint device_id smod 100),
      ev_latitude = round_frac False 377749 10000, ev_longitude = round_frac True 1224194 10000,
      ev_event_type = ''telemetry''\<rparr>"

text \<open>\<open>None\<close>: an exception of the serialiser leaves the handler.\<close>

definition do_send :: "'j json_lib \<Rightarrow> int \<Rightarrow> DeviceClient \<Rightarrow> DeviceClient option" where
  "do_send J now c =
     (let (timestamp, cache) = ts_format now (dc_timestamp c);
          event = device_event (dc_device_id c) timestamp
      in map_option (\<lambda>line. c\<lparr>dc_timestamp := cache, dc_events_sent := dc_events_sent c + 1,
           dc_writing := Some (line @ [CHR 0x0A]), dc_history := dc_history c @ [event]\<rparr>) (serialize_event J event))"

definition send_event :: "'j json_lib \<Rightarrow> int \<Rightarrow> DeviceClient \<Rightarrow> DeviceClient option" where
  "send_event J now c =
     (let c = c\<lparr>dc_write_in_flight := True\<rparr>
      in if dc_chaos_latency c \<le> 0 then do_send J now c else Some (c\<lparr>dc_latency_timer := True\<rparr>))"

definition on_timer :: "'j json_lib \<Rightarrow> bool \<Rightarrow> int \<Rightarrow> cpp_double \<Rightarrow> DeviceClient \<Rightarrow> DeviceClient option" where
  "on_timer J error now drawn c =
     (let c = c\<lparr>dc_timer := False\<rparr>
      in if error \<or> dc_stopped c then Some c
         else map_option schedule_next_send
                (if \<not> dc_write_in_flight c \<and> \<not> should_drop_for_chaos drawn c then send_event J now c else Some c))"

definition on_latency_timer :: "'j json_lib \<Rightarrow> bool \<Rightarrow> int \<Rightarrow> DeviceClient \<Rightarrow> DeviceClient option" where
  "on_latency_timer J error now c =
     (let c = c\<lparr>dc_latency_timer := False\<rparr>
      in if error \<or> dc_stopped c then Some (c\<lparr>dc_write_in_flight := False\<rparr>) else do_send J now c)"

definition on_write :: "DeviceClient \<Rightarrow> DeviceClient" where
  "on_write c = c\<lparr>dc_writing := None, dc_write_in_flight := False\<rparr>"

text \<open>\<open>stop()\<close> closes the socket and cancels the waits that are pending. A cancelled wait completes with an
  error, or without one when its completion was queued before; what is pending on the socket completes in
  either way too.\<close>

definition dc_stop :: "DeviceClient \<Rightarrow> DeviceClient" where
  "dc_stop c = c\<lparr>dc_stopped := True, dc_socket_closed := True, dc_timer_cancelled := dc_timer c,
     dc_latency_cancelled := dc_latency_timer c\<rparr>"

section \<open>Steps\<close>

text \<open>A wait of a timer reports an error only when it was cancelled; connecting and writing also fail when
  the network does.\<close>

inductive dc_handler :: "'j json_lib \<Rightarrow> DeviceClient \<Rightarrow> DeviceClient \<Rightarrow> bool" for J where
  connect_done: "dc_connecting c \<Longrightarrow> dc_handler J c (on_connect error c)"
| timer_done: "dc_timer c \<Longrightarrow> (error \<longrightarrow> dc_timer_cancelled c) \<Longrightarrow> on_timer J error now drawn c = Some c' \<Longrightarrow> dc_handler J c c'"
| latency_done: "dc_latency_timer c \<Longrightarrow> (error \<longrightarrow> dc_latency_cancelled c) \<Longrightarrow> on_latency_timer J error now c = Some c' \<Longrightarrow> dc_handler J c c'"
| write_done: "dc_writing c \<noteq> None \<Longrightarrow> dc_handler J c (on_write c)"

inductive dc_reach :: "'j json_lib \<Rightarrow> DeviceClient \<Rightarrow> DeviceClient \<Rightarrow> bool" for J c0 where
  dc_begin: "dc_connect True c0 = Inr c \<Longrightarrow> dc_reach J c0 c"
| dc_handle: "dc_reach J c0 c \<Longrightarrow> dc_handler J c c' \<Longrightarrow> dc_reach J c0 c'"
| dc_halt: "dc_reach J c0 c \<Longrightarrow> dc_reach J c0 (dc_stop c)"

section \<open>Invariant\<close>

definition dc_inv :: "'j json_lib \<Rightarrow> DeviceClient \<Rightarrow> bool" where
  "dc_inv J c \<longleftrightarrow>
     (dc_write_in_flight c \<longleftrightarrow> dc_latency_timer c \<or> dc_writing c \<noteq> None) \<and>
     \<not> (dc_latency_timer c \<and> dc_writing c \<noteq> None) \<and> \<not> (dc_connecting c \<and> dc_timer c) \<and>
     dc_events_sent c = of_nat (length (dc_history c)) \<and> ts_ok (dc_timestamp c) \<and>
     (\<forall>e\<in>set (dc_history c). \<exists>now. e = device_event (dc_device_id c) (iso_format now)) \<and>
     (\<forall>line. dc_writing c = Some line \<longrightarrow>
        dc_history c \<noteq> [] \<and> map_option (\<lambda>l. l @ [CHR 0x0A]) (serialize_event J (last (dc_history c))) = Some line)"

lemma do_send_inv:
  assumes "do_send J now c = Some c'" "dc_inv J (c\<lparr>dc_write_in_flight := False\<rparr>)" "dc_writing c = None"
    "\<not> dc_latency_timer c" "dc_write_in_flight c"
  shows "dc_inv J c'"
proof -
  obtain s cache where ts: "ts_format now (dc_timestamp c) = (s, cache)" by force
  have s: "s = iso_format now" "ts_ok cache" using ts_format_ok [OF _ ts] assms(2) by (simp_all add: dc_inv_def)
  let ?e = "device_event (dc_device_id c) (iso_format now)"
  obtain line where line: "serialize_event J ?e = Some line"
    "c' = c\<lparr>dc_timestamp := cache, dc_events_sent := dc_events_sent c + 1,
       dc_writing := Some (line @ [CHR 0x0A]), dc_history := dc_history c @ [?e]\<rparr>"
    using assms(1) ts s(1) by (auto simp: do_send_def Let_def)
  show ?thesis using assms(2-5) s(2) line(1) by (auto simp: line(2) dc_inv_def)
qed

lemma do_send_frame:
  assumes "do_send J now c = Some c'"
  shows "\<exists>l e. dc_writing c' = Some l \<and> dc_history c' = dc_history c @ [e] \<and> dc_latency_timer c' = dc_latency_timer c \<and>
    dc_timer c' = dc_timer c \<and> dc_connecting c' = dc_connecting c \<and> dc_stopped c' = dc_stopped c \<and>
    dc_device_id c' = dc_device_id c"
  using assms by (auto simp: do_send_def split_beta Let_def)

lemma schedule_inv: "dc_inv J c \<Longrightarrow> \<not> dc_connecting c \<Longrightarrow> dc_inv J (schedule_next_send c)"
  by (simp add: dc_inv_def schedule_next_send_def)

lemma send_event_inv:
  assumes "send_event J now c = Some c'" "dc_inv J c" "\<not> dc_write_in_flight c"
  shows "dc_inv J c' \<and> dc_connecting c' = dc_connecting c"
proof (cases "dc_chaos_latency c \<le> 0")
  case True
  then have s: "do_send J now (c\<lparr>dc_write_in_flight := True\<rparr>) = Some c'"
    using assms(1) by (simp add: send_event_def)
  have "dc_inv J c'" by (rule do_send_inv [OF s]) (use assms(2,3) in \<open>auto simp: dc_inv_def\<close>)
  with do_send_frame [OF s] show ?thesis by auto
next
  case False
  with assms show ?thesis by (auto simp: send_event_def dc_inv_def)
qed

lemma dc_handler_inv:
  assumes "dc_handler J c c'" "dc_inv J c"
  shows "dc_inv J c'"
  using assms
proof (induction rule: dc_handler.induct)
  case (connect_done c error)
  have "dc_inv J (c\<lparr>dc_connecting := False\<rparr>)" using connect_done(2) by (simp add: dc_inv_def)
  with schedule_inv [OF this] show ?case by (simp add: on_connect_def Let_def)
next
  case (timer_done c error now drawn c')
  let ?c = "c\<lparr>dc_timer := False\<rparr>"
  have inv: "dc_inv J ?c" "\<not> dc_connecting ?c" using timer_done(1,4) by (auto simp: dc_inv_def)
  show ?case
    using timer_done(3) inv send_event_inv [of J now ?c] schedule_inv
    by (auto simp: on_timer_def Let_def split: if_splits)
next
  case (latency_done c error now c')
  let ?c = "c\<lparr>dc_latency_timer := False\<rparr>"
  show ?case
  proof (cases "error \<or> dc_stopped c")
    case True
    with latency_done show ?thesis by (auto simp: on_latency_timer_def Let_def dc_inv_def)
  next
    case False
    then have s: "do_send J now ?c = Some c'" using latency_done(3) by (simp add: on_latency_timer_def Let_def)
    show ?thesis by (rule do_send_inv [OF s]) (use latency_done(1,4) in \<open>auto simp: dc_inv_def\<close>)
  qed
next
  case (write_done c)
  then show ?case by (auto simp: on_write_def dc_inv_def)
qed

lemma dc_reach_inv:
  assumes "dc_reach J c0 c" "dc_new host port device_id eps latency loss = Some c0"
  shows "dc_inv J c"
  using assms
proof (induction rule: dc_reach.induct)
  case (dc_begin c)
  then show ?case
    by (auto simp: dc_new_def dc_connect_def dc_inv_def ts_ok_def ts_new_def)
next
  case (dc_handle c c')
  then show ?case using dc_handler_inv by blast
next
  case (dc_halt c)
  then show ?case by (simp add: dc_stop_def dc_inv_def)
qed

text \<open>What is pending, as a number: after \<open>stop()\<close> no handler starts anything new.\<close>

definition dc_pending :: "DeviceClient \<Rightarrow> nat" where
  "dc_pending c = of_bool (dc_connecting c) + of_bool (dc_timer c) + of_bool (dc_latency_timer c) +
     of_bool (dc_writing c \<noteq> None)"

lemma stopped_handler:
  assumes "dc_handler J c c'" "dc_stopped c"
  shows "dc_stopped c' \<and> dc_history c' = dc_history c \<and> dc_events_sent c' = dc_events_sent c \<and>
    dc_pending c' < dc_pending c"
  using assms
proof (cases rule: dc_handler.cases)
  case (timer_done error now drawn)
  with assms(2) show ?thesis by (simp add: on_timer_def dc_pending_def Let_def) force
next
  case (latency_done error now)
  with assms(2) show ?thesis by (simp add: on_latency_timer_def dc_pending_def Let_def) force
qed (simp_all add: on_connect_def on_write_def dc_pending_def Let_def)

lemma stopped_run:
  "(dc_handler J ^^ n) c c' \<Longrightarrow> dc_stopped c \<Longrightarrow>
   dc_history c' = dc_history c \<and> dc_events_sent c' = dc_events_sent c \<and> dc_stopped c' \<and> n + dc_pending c' \<le> dc_pending c"
proof (induction n arbitrary: c')
  case (Suc n)
  then obtain c1 where c1: "(dc_handler J ^^ n) c c1" "dc_handler J c1 c'" by auto
  with Suc stopped_handler [OF c1(2)] show ?case by fastforce
qed simp

lemma dc_pending_le: "dc_inv J c \<Longrightarrow> dc_pending c \<le> 2"
  by (auto simp: dc_inv_def dc_pending_def)

lemma write_not_replaced:
  assumes "dc_handler J c c'" "dc_inv J c" "dc_writing c = Some line"
  shows "(dc_writing c' = Some line \<or> dc_writing c' = None) \<and> dc_history c' = dc_history c"
  using assms
  by (cases rule: dc_handler.cases)
     (auto simp: on_connect_def on_timer_def on_latency_timer_def on_write_def schedule_next_send_def dc_inv_def Let_def
       split: if_splits)

section \<open>The event a device sends\<close>

lemma ascii_digits: "\<forall>c\<in>set (to_string n). (of_char c :: nat) < 128"
  using to_string_digits [of n] by (auto simp: isdigit_def)

lemma iso_format_ascii: "\<forall>c\<in>set (iso_format t). (of_char c :: nat) < 128"
proof -
  have "\<forall>c\<in>set (pad_int w n). (of_char c :: nat) < 128" for w n
    using ascii_digits [of "nat \<bar>n\<bar>"] by (auto simp: pad_int_def Let_def)
  then show ?thesis unfolding iso_format_def Let_def
    by (intro ballI) (drule in_set_takeD, auto)
qed

lemma round_frac_finite:
  assumes "0 < p" "0 < q" "p < q * 2 ^ 30"
  shows "isfinite (round_frac s p q)"
  using frac_exponent_small [OF assms] assms(1) by (auto simp: round_frac_def Let_def)

lemma device_event_clean:
  assumes "\<And>s. \<forall>c\<in>set s. (of_char c :: nat) < 128 \<Longrightarrow> utf8 s"
  shows "event_clean utf8 (device_event device_id (iso_format t))"
proof -
  have "nat (20 + sint device_id smod 15) < 2 ^ 53"
  proof -
    have "\<bar>sint device_id smod 15\<bar> < 15" using smod_int_range [of 15 "sint device_id"] by auto
    then show ?thesis by (simp add: nat_less_iff)
  qed
  from real_double_of_nat [OF this] show ?thesis
    using assms iso_format_ascii [of t]
    by (simp add: event_clean_def device_event_def round_frac_finite round_frac_binary64)
qed

section \<open>The send interval\<close>

lemma double_of_nat_trunc:
  assumes "0 < n" "n < 2 ^ 53"
  shows "double_trunc (double_of_nat n) = Some (int n)"
  using double_trunc_floor real_double_of_nat [OF assms(2)] unfolding double_of_nat_exact [OF assms]
  by (simp only: floor_of_nat)

lemma clamp_trunc_range:
  assumes "0 < lo" "lo \<le> hi" "hi < 2 ^ 53" "v = Infinite_Double False \<or> (\<exists>m e. v = Finite_Double False m e)"
  shows "\<exists>i. double_trunc (clamp v (double_of_nat lo) (double_of_nat hi)) = Some i \<and> int lo \<le> i \<and> i \<le> int hi"
proof -
  have hi: "0 < hi" "lo < 2 ^ 53" using assms(1-3) by simp_all
  note L = real_double_of_nat [OF hi(2)] and H = real_double_of_nat [OF assms(3)]
  show ?thesis
  proof (cases "double_less v (double_of_nat lo) \<or> double_less (double_of_nat hi) v")
    case True
    then show ?thesis
      using double_of_nat_trunc [OF assms(1) hi(2)] double_of_nat_trunc [OF hi(1) assms(3)] assms(2)
      by (auto simp: clamp_def)
  next
    case False
    then obtain m e where v: "v = Finite_Double False m e"
      using assms(4) double_of_nat_exact [OF hi(1) assms(3)] by auto
    then have "real lo \<le> real_of_double v" "real_of_double v \<le> real hi"
      using False L H double_less_real by force+
    then have "int lo \<le> \<lfloor>real_of_double v\<rfloor>" "\<lfloor>real_of_double v\<rfloor> \<le> int hi" by linarith+
    then show ?thesis using False v double_trunc_floor [of m e] by (auto simp: clamp_def simp del: real_of_double.simps)
  qed
qed

lemma double_posE:
  assumes "0 < real_of_double x"
  obtains m e where "x = Finite_Double False m e" "0 < m"
proof (cases x)
  case (Finite_Double s m e)
  have "0 \<le> real m * 2 powi e" by simp
  then have "\<not> s" using assms unfolding Finite_Double by (cases s) (simp_all add: not_less [symmetric] del: not_less)
  moreover have "0 < m" using assms by (cases m) (auto simp: Finite_Double)
  ultimately show thesis using that Finite_Double by simp
qed (use assms in simp_all)

text \<open>The quotient of two positive numbers is the rounding of the exact one.\<close>

lemma double_div_frac:
  assumes "0 < real_of_double x" "0 < real_of_double y"
  shows "\<exists>p q. 0 < p \<and> 0 < q \<and> double_div x y = round_frac False p q \<and>
    real p / real q = real_of_double x / real_of_double y"
proof -
  obtain m e m' e' where xy: "x = Finite_Double False m e" "y = Finite_Double False m' e'" and p: "0 < m" "0 < m'"
    by (rule double_posE [OF assms(1)], rule double_posE [OF assms(2)])
  let ?p = "m * 2 ^ nat (e - e')" and ?q = "m' * 2 ^ nat (e' - e)"
  have "(2 :: real) ^ nat (e - e') / 2 ^ nat (e' - e) = 2 powi (e - e')"
  proof (cases "e' \<le> e")
    case True
    then show ?thesis by (simp add: power_int_def)
  next
    case False
    then have "e - e' = - int (nat (e' - e))" "nat (e - e') = 0" by simp_all
    then show ?thesis by (simp only: power_int_minus power_int_of_nat power_0 divide_inverse mult_1)
  qed
  also have "\<dots> = 2 powi e / 2 powi e'" by (rule power_int_diff) simp
  finally have scale: "(2 :: real) ^ nat (e - e') / 2 ^ nat (e' - e) = 2 powi e / 2 powi e'" .
  have "real ?p / real ?q = real m / real m' * (2 ^ nat (e - e') / 2 ^ nat (e' - e))"
    by (simp only: of_nat_mult of_nat_power of_nat_numeral times_divide_times_eq)
  also have "\<dots> = real_of_double x / real_of_double y"
    by (simp only: scale xy real_of_double.simps if_False mult_1 times_divide_times_eq)
  finally have "real ?p / real ?q = real_of_double x / real_of_double y" .
  moreover have "double_div x y = round_frac False ?p ?q" using p by (simp add: xy)
  ultimately show ?thesis using p by (intro exI [of _ ?p] exI [of _ ?q]) simp
qed

lemma clamp_trunc:
  assumes "0 < lo" "lo \<le> hi" "hi < 2 ^ 53"
  shows "double_trunc (clamp (Infinite_Double False) (double_of_nat lo) (double_of_nat hi)) = Some (int hi)"
    and "double_trunc (clamp (Finite_Double False m e) (double_of_nat lo) (double_of_nat hi)) =
      Some \<lfloor>min (max (real_of_double (Finite_Double False m e)) (real lo)) (real hi)\<rfloor>"
proof -
  have hi: "0 < hi" "lo < 2 ^ 53" using assms by simp_all
  let ?v = "Finite_Double False m e"
  note L = real_double_of_nat [OF hi(2)] and H = real_double_of_nat [OF assms(3)]
  have less: "double_less ?v (double_of_nat lo) \<longleftrightarrow> real_of_double ?v < real lo"
    "double_less (double_of_nat hi) ?v \<longleftrightarrow> real hi < real_of_double ?v"
    using L H double_less_real [of ?v "double_of_nat lo"] double_less_real [of "double_of_nat hi" ?v]
    by (simp_all del: real_of_double.simps)
  note T = double_of_nat_trunc [OF assms(1) hi(2)] double_of_nat_trunc [OF hi(1) assms(3)]
  show "double_trunc (clamp (Infinite_Double False) (double_of_nat lo) (double_of_nat hi)) = Some (int hi)"
    using T double_of_nat_exact [OF hi(1) assms(3)] double_of_nat_exact [OF assms(1) hi(2)] by (simp add: clamp_def)
  show "double_trunc (clamp ?v (double_of_nat lo) (double_of_nat hi)) = Some \<lfloor>min (max (real_of_double ?v) (real lo)) (real hi)\<rfloor>"
    using T double_trunc_floor [of m e] assms(2) unfolding clamp_def less
    by (auto simp: min_def max_def simp del: real_of_double.simps double_trunc.simps)
qed

lemma send_interval_rounded:
  assumes "is_binary64 eps" "0 < real_of_double eps"
  shows "\<exists>v. \<bar>v - 1000000 / real_of_double eps\<bar> \<le> 1000000 / real_of_double eps / 2 ^ 53 \<and>
    send_interval eps = Some \<lfloor>min (max v 1) 3600000000\<rfloor>"
proof -
  let ?r = "1000000 / real_of_double eps"
  have d: "isfinite (double_of_nat 1000000)" "real_of_double (double_of_nat 1000000) = 1000000"
    using real_double_of_nat [of 1000000] by simp_all
  then obtain p q where pq: "0 < p" "0 < q" "double_div (double_of_nat 1000000) eps = round_frac False p q" "real p / real q = ?r"
    using double_div_frac [of "double_of_nat 1000000" eps] assms(2) by auto
  have clamp: "double_trunc (clamp (Infinite_Double False) (double_of_nat 1) (double_of_nat 3600000000)) = Some 3600000000"
    "double_trunc (clamp (Finite_Double False m e) (double_of_nat 1) (double_of_nat 3600000000)) =
      Some \<lfloor>min (max (real_of_double (Finite_Double False m e)) 1) 3600000000\<rfloor>" for m e
    using clamp_trunc [of 1 3600000000] by (simp_all del: real_of_double.simps)
  show ?thesis
  proof (cases "isfinite (round_frac False p q)")
    case True
    then obtain m e where v: "round_frac False p q = Finite_Double False m e"
      using pq(1) by (auto simp: round_frac_def Let_def split: if_splits)
    have "real_of_double eps < 2 powi 1024"
      using double_posE [OF assms(2)] binary64_less assms(1) by (metis (full_types) mult_1 real_of_double.simps(1))
    then have "inverse (2 powi 1024) \<le> inverse (real_of_double eps)"
      using assms(2) by (intro le_imp_inverse_le) linarith+
    moreover have "(2 :: real) powi (- 1021) = 8 * inverse (2 powi 1024)" by (simp add: power_int_minus)
    ultimately have "2 powi (- 1021) \<le> 8 * inverse (real_of_double eps)" by linarith
    also have "\<dots> \<le> ?r" using assms(2) by (simp add: divide_inverse)
    finally have "2 powi (- 1021) \<le> ?r" .
    from round_frac_error [OF pq(1,2) True] this have "\<bar>real_of_double (Finite_Double False m e) - ?r\<bar> \<le> ?r / 2 ^ 53"
      by (simp add: pq(4) v del: real_of_double.simps)
    then show ?thesis using clamp(2) [of m e] by (auto simp: send_interval_def pq(3) v simp del: real_of_double.simps)
  next
    case False
    from round_frac_overflow [OF pq(1,2) this] have big: "2 powi 1000 \<le> ?r" "round_frac False p q = Infinite_Double False"
      by (simp_all add: pq(4))
    have "(3600000000 :: real) \<le> 2 ^ 32" by simp
    also have "\<dots> \<le> 2 powi 1000" by (simp add: power_int_def)
    finally have "min (max ?r 1) 3600000000 = 3600000000" using big(1) by simp
    then show ?thesis using clamp(1) assms(2) by (intro exI [of _ ?r]) (simp add: send_interval_def pq(3) big(2))
  qed
qed

lemma send_interval_bounded:
  assumes "isfinite eps" "0 < real_of_double eps"
  shows "\<exists>i. send_interval eps = Some i \<and> 1 \<le> i \<and> i \<le> 3600000000"
proof -
  obtain m e where eps: "eps = Finite_Double False m e" "0 < m" using double_posE [OF assms(2)] .
  moreover obtain m1 e1 where "double_of_nat 1000000 = Finite_Double False m1 e1"
    using double_of_nat_exact [of 1000000] by auto
  ultimately have "double_div (double_of_nat 1000000) eps = Infinite_Double False \<or>
      (\<exists>m e. double_div (double_of_nat 1000000) eps = Finite_Double False m e)"
    by (auto simp: eps round_frac_def Let_def split: prod.splits)
  from clamp_trunc_range [OF _ _ _ this, of 1 3600000000] show ?thesis by (simp add: send_interval_def)
qed

lemma send_interval_exact:
  assumes "1 \<le> n" "n \<le> 1000000"
  shows "send_interval (double_of_nat n) = Some (int (1000000 div n))"
proof -
  let ?b = "bit_length n"
  have n: "0 < n" "n < 2 ^ 53" "n < 2 ^ 20" using assms by simp_all
  have b: "?b \<le> 20" using n(3) by (rule bit_length_le)
  have "bit_length 1000000 = 20" using bit_length_eqI [of 19 1000000] by simp
  then have d: "double_of_nat 1000000 = Finite_Double False (1000000 * 2 ^ 33) (- 33)"
    using double_of_nat_exact [of 1000000] by simp
  have "nat (- 33 - (int ?b - 53)) = 20 - ?b" "nat (int ?b - 53 - - 33) = 0" using b by auto
  then have dd: "double_div (double_of_nat 1000000) (double_of_nat n)
      = round_frac False (8589934592000000 * 2 ^ (20 - ?b)) (n * 2 ^ (53 - ?b))"
    using n(1) by (simp add: d double_of_nat_exact [OF n(1,2)])
  have "(2 :: nat) ^ 33 * 2 ^ (20 - ?b) = 2 ^ (53 - ?b)"
    unfolding power_add [symmetric] using b by (intro arg_cong [of _ _ "\<lambda>k. 2 ^ k"]) simp
  then have c: "8589934592000000 * 2 ^ (20 - ?b) = 1000000 * (2 :: nat) ^ (53 - ?b)" by simp
  note dd [unfolded c]
  then obtain m e where v: "double_div (double_of_nat 1000000) (double_of_nat n) = Finite_Double False m e"
    "double_trunc (Finite_Double False m e) = Some (int (1000000 div n))"
    using round_frac_floor [of "2 ^ (53 - ?b)" 1000000 n] n assms by auto
  let ?v = "Finite_Double False m e"
  have fl: "\<lfloor>real_of_double ?v\<rfloor> = int (1000000 div n)" using v(2) double_trunc_floor [of m e] by (simp del: real_of_double.simps)
  have "1 \<le> 1000000 div n" using assms by (simp add: less_eq_div_iff_mult_less_eq)
  moreover have "1000000 div n \<le> 1000000" by simp
  ultimately have "1 \<le> real_of_double ?v" "real_of_double ?v \<le> 3600000000"
    using fl by linarith+
  then have "\<not> double_less ?v (double_of_nat 1)" "\<not> double_less (double_of_nat 3600000000) ?v"
    using real_double_of_nat [of 1] real_double_of_nat [of 3600000000]
    by (auto simp: double_less_real simp del: real_of_double.simps)
  then show ?thesis unfolding send_interval_def v(1) clamp_def using v(2) by simp
qed

section \<open>Properties\<close>

text \<open>C26: One write at a time. Asio forbids a second \<open>async_write\<close> on a stream while one is pending: in
  every reachable state of a device, whatever the order of the completions, a handler that runs while
  a write is pending leaves that write alone (or is its completion) and writes nothing, the flag
  \<open>write_in_flight_\<close> says exactly whether an event is on its way, and \<open>events_sent_\<close> counts the events
  handed to the socket.\<close>

theorem device_one_write_at_a_time:
  assumes "dc_new host port device_id eps latency loss = Some c0" "dc_reach J c0 c" "dc_handler J c c'"
  shows "(dc_write_in_flight c \<longleftrightarrow> dc_latency_timer c \<or> dc_writing c \<noteq> None) \<and>
    dc_events_sent c = of_nat (length (dc_history c)) \<and>
    (\<forall>line. dc_writing c = Some line \<longrightarrow>
       (dc_writing c' = Some line \<or> dc_writing c' = None) \<and> dc_history c' = dc_history c)"
  using dc_reach_inv [OF assms(2,1)] write_not_replaced [OF assms(3)] by (auto simp: dc_inv_def)

text \<open>C34: Stopping a device. After \<open>stop()\<close> no event is counted or written any more, and at most two
  handlers run before nothing is pending, so the device does not keep its \<open>io_context\<close> alive.\<close>

theorem device_stop_quiesces:
  assumes "dc_new host port device_id eps latency loss = Some c0" "dc_reach J c0 c"
    "(dc_handler J ^^ n) (dc_stop c) c'"
  shows "dc_history c' = dc_history c \<and> dc_events_sent c' = dc_events_sent c \<and> n \<le> 2"
proof -
  have "dc_inv J (dc_stop c)" using dc_reach_inv [OF assms(2,1)] by (simp add: dc_stop_def dc_inv_def)
  with stopped_run [OF assms(3)] dc_pending_le show ?thesis by (fastforce simp: dc_stop_def)
qed

text \<open>The gateway accepts what the simulator sends. With a JSON library as documented, every line a device has pending on its socket ends with the only line feed
  in it, and \<^verbatim>\<open>parse_event\<close> reads it back to the device's own event: its id, a timestamp, a battery level and
  finite measurements.\<close>

theorem device_line_accepted:
  assumes "json_documented object printable utf8 J" "dc_new host port device_id eps latency loss = Some c0"
    "dc_reach J c0 c" "dc_writing c = Some out"
  shows "\<exists>line now. out = line @ [CHR 0x0A] \<and> CHR 0x0A \<notin> set line \<and>
    parse_event J line = Some (device_event (dc_device_id c) (iso_format now))"
proof -
  have inv: "dc_inv J c" by (rule dc_reach_inv [OF assms(3,2)])
  then obtain l where l: "dc_history c \<noteq> []" "serialize_event J (last (dc_history c)) = Some l" "out = l @ [CHR 0x0A]"
    using assms(4) by (auto simp: dc_inv_def)
  then obtain now where e: "last (dc_history c) = device_event (dc_device_id c) (iso_format now)"
    using inv last_in_set [OF l(1)] unfolding dc_inv_def by blast
  from serialize_event_clean [OF assms(1) device_event_clean [OF json_ascii [OF assms(1)]], of "dc_device_id c" now] l e
  show ?thesis by auto
qed

text \<open>C35: The send interval of every rate \<open>r\<close> the command line accepts: it is defined, and it is the whole number
  of microseconds in the rounded quotient \<open>1000000 / r\<close>, which is within a relative error of \<open>2\<^sup>-\<^sup>5\<^sup>3\<close> of the exact one, cut to
  between one microsecond and one hour (also when the quotient overflows). For a whole rate of up to a million events per
  second the interval is exactly the whole number of microseconds in the exact quotient.\<close>

theorem send_interval_right:
  assumes "is_binary64 eps" "isfinite eps" "0 < real_of_double eps"
  shows "(\<exists>v i. \<bar>v - 1000000 / real_of_double eps\<bar> \<le> 1000000 / real_of_double eps / 2 ^ 53 \<and>
      send_interval eps = Some i \<and> i = \<lfloor>min (max v 1) 3600000000\<rfloor> \<and> 1 \<le> i \<and> i \<le> 3600000000) \<and>
    (\<forall>n. 1 \<le> n \<and> n \<le> 1000000 \<and> eps = double_of_nat n \<longrightarrow> send_interval eps = Some (int (1000000 div n)))"
  using send_interval_rounded [OF assms(1,3)] send_interval_bounded [OF assms(2,3)] send_interval_exact by auto

theorem send_interval_right_witness:
  "send_interval (double_of_nat 800) = Some 1250 \<and> (\<exists>i. send_interval (round_frac False 1 3) = Some i \<and> 1 \<le> i)"
proof -
  have "isfinite (double_of_nat 800)" "0 < real_of_double (double_of_nat 800)"
    using real_double_of_nat [of 800] by simp_all
  from send_interval_right [OF _ this] have whole: "send_interval (double_of_nat 800) = Some 1250" by fastforce
  have third: "is_binary64 (round_frac False 1 3)" "isfinite (round_frac False 1 3)"
    by (simp_all add: round_frac_binary64 round_frac_finite)
  have "(2 :: real) powi (- 1021) \<le> 2 powi (- 2)" by (intro power_int_increasing) simp_all
  then have "\<bar>real_of_double (round_frac False 1 3) - 1 / 3\<bar> \<le> 1 / 3 / 2 ^ 53"
    using round_frac_error [of 1 3] third(2) by (simp add: power_int_minus)
  moreover have "(1 :: real) / 3 / 2 ^ 53 < 1 / 3" by simp
  ultimately have "0 < real_of_double (round_frac False 1 3)" by linarith
  from send_interval_right [OF third this] whole show ?thesis by blast
qed

section \<open>A run\<close>

lemma demo_device_new:
  "\<exists>c0. dc_new ''h'' 9000 7 (double_of_nat 1) 0 (double_of_nat 0) = Some c0"
  using send_interval_exact [of 1] by (simp add: dc_new_def)

text \<open>A device that connects and whose first write is then pending.\<close>

lemma demo_device_steps:
  assumes "dc_new ''h'' 9000 7 (double_of_nat 1) 0 (double_of_nat 0) = Some c0"
  shows "\<exists>c1 c2 c3 line. dc_connect True c0 = Inr c1 \<and> dc_handler bit_lib c1 c2 \<and> dc_handler bit_lib c2 c3 \<and>
    dc_writing c1 = None \<and> dc_writing c2 = None \<and> dc_writing c3 = Some (line @ [CHR 0x0A]) \<and> dc_device_id c3 = 7 \<and>
    dc_history c3 = [device_event 7 (iso_format 0)] \<and> \<not> dc_socket_closed c3 \<and>
    serialize_event bit_lib (device_event 7 (iso_format 0)) = Some line"
proof -
  let ?e = "device_event 7 (iso_format 0)"
  have "event_clean (\<lambda>_. True) ?e" by (rule device_event_clean) simp
  from serialize_event_clean [OF bit_lib_documented this] obtain line where line: "serialize_event bit_lib ?e = Some line"
    by blast
  have c0: "dc_device_id c0 = 7" "\<not> dc_stopped c0" "\<not> dc_socket_closed c0" "\<not> dc_write_in_flight c0" "dc_history c0 = []" "dc_timestamp c0 = ts_new"
    "dc_chaos_latency c0 = 0" "dc_packet_loss c0 = double_of_nat 0" "dc_writing c0 = None"
    using assms by (auto simp: dc_new_def)
  let ?c1 = "c0\<lparr>dc_connecting := True\<rparr>" and ?c2 = "on_connect False (c0\<lparr>dc_connecting := True\<rparr>)"
  have ts: "ts_format 0 ts_new = (iso_format 0, ts_regenerate 0 ts_new)"
    by (simp add: ts_format_def ts_new_def ts_regenerate_def)
  obtain c3 where c3: "on_timer bit_lib False 0 (double_of_nat 50) ?c2 = Some c3"
    "dc_writing c3 = Some (line @ [CHR 0x0A])" "dc_device_id c3 = 7" "dc_history c3 = [?e]" "\<not> dc_socket_closed c3"
    using c0 line ts
    by (simp add: on_connect_def schedule_next_send_def on_timer_def should_drop_for_chaos_def double_le_def
        double_of_nat_def round_frac_def send_event_def do_send_def Let_def signed_scaled_def)
  have c2: "dc_timer ?c2" "dc_writing ?c2 = None" using c0 by (simp_all add: on_connect_def schedule_next_send_def Let_def)
  have "dc_handler bit_lib ?c1 ?c2" by (rule connect_done) simp
  moreover have "dc_handler bit_lib ?c2 c3" using c2(1) _ c3(1) by (rule timer_done) simp
  moreover have "dc_connect True c0 = Inr ?c1" "dc_writing ?c1 = None" using c0 by (simp_all add: dc_connect_def)
  ultimately show ?thesis using c2(2) c3(2-5) line by blast
qed

lemma demo_device_run:
  assumes "dc_new ''h'' 9000 7 (double_of_nat 1) 0 (double_of_nat 0) = Some c0"
  shows "\<exists>c out. dc_reach bit_lib c0 c \<and> dc_writing c = Some out \<and> dc_device_id c = 7 \<and> length (dc_history c) = 1"
proof -
  obtain c1 c2 c3 line where "dc_connect True c0 = Inr c1" "dc_handler bit_lib c1 c2" "dc_handler bit_lib c2 c3" and
    c3: "dc_writing c3 = Some (line @ [CHR 0x0A])" "dc_device_id c3 = 7" "dc_history c3 = [device_event 7 (iso_format 0)]"
    using demo_device_steps [OF assms] by blast
  then have "dc_reach bit_lib c0 c3" by (blast intro: dc_begin dc_handle)
  with c3 show ?thesis by auto
qed

theorem device_one_write_at_a_time_witness:
  "\<exists>c0 c. dc_reach bit_lib c0 c \<and> dc_writing c \<noteq> None \<and> dc_write_in_flight c \<and> dc_events_sent c = 1"
proof -
  obtain c0 where c0: "dc_new ''h'' 9000 7 (double_of_nat 1) 0 (double_of_nat 0) = Some c0" using demo_device_new by blast
  obtain c out where c: "dc_reach bit_lib c0 c" "dc_writing c = Some out" "length (dc_history c) = 1"
    using demo_device_run [OF c0] by blast
  have "dc_handler bit_lib c (on_write c)" using c(2) by (simp add: write_done)
  from device_one_write_at_a_time [OF c0 c(1) this] c show ?thesis by auto
qed

theorem device_stop_quiesces_witness:
  "\<exists>c0 c. dc_reach bit_lib c0 c \<and> dc_events_sent c = dc_events_sent (on_write (dc_stop c)) \<and> dc_writing c \<noteq> None"
proof -
  obtain c0 where c0: "dc_new ''h'' 9000 7 (double_of_nat 1) 0 (double_of_nat 0) = Some c0" using demo_device_new by blast
  obtain c out where c: "dc_reach bit_lib c0 c" "dc_writing c = Some out"
    using demo_device_run [OF c0] by blast
  have "dc_handler bit_lib (dc_stop c) (on_write (dc_stop c))" using c(2) by (intro write_done) (simp add: dc_stop_def)
  then have "(dc_handler bit_lib ^^ 1) (dc_stop c) (on_write (dc_stop c))" by (simp add: relcompp_apply)
  from device_stop_quiesces [OF c0 c(1) this] c show ?thesis by (intro exI [of _ c0] exI [of _ c]) simp
qed

theorem device_line_accepted_witness:
  "\<exists>c0 c line now. dc_reach bit_lib c0 c \<and> dc_writing c = Some (line @ [CHR 0x0A]) \<and>
     parse_event bit_lib line = Some (device_event 7 (iso_format now))"
proof -
  obtain c0 where c0: "dc_new ''h'' 9000 7 (double_of_nat 1) 0 (double_of_nat 0) = Some c0" using demo_device_new by blast
  obtain c out where c: "dc_reach bit_lib c0 c" "dc_writing c = Some out" "dc_device_id c = 7"
    using demo_device_run [OF c0] by blast
  from device_line_accepted [OF bit_lib_documented c0 c(1,2)] c show ?thesis by auto
qed

end
