(* ===== verification/Device_Link.thy ===== *)
theory Device_Link
  imports Connection_Stream Device_Client "HOL-Library.Sublist"
begin

text \<open>
  A device of the simulator and the gateway's connection to it: the \<open>async_write\<close> of
  \<^verbatim>\<open>simulator/src/device_client.cpp\<close> puts its buffer on the wire in pieces, the \<open>async_read_until\<close> of
  \<^verbatim>\<open>gateway/include/edgeflow/gateway/connection.hpp\<close> takes it off in other pieces. The write can
  fail in the middle of a line, the device can be stopped, and the connection can end at any time.
\<close>

section \<open>State and steps\<close>

record 'q link =
  ln_device :: DeviceClient
  ln_stream :: "'q stream"
  ln_left :: string           \<comment> \<open>of the buffer being written, what is not on the wire yet\<close>
  ln_broken :: bool           \<comment> \<open>a write has failed: nothing more goes on the wire\<close>

definition link_new :: "DeviceClient \<Rightarrow> 'q \<Rightarrow> Stats \<Rightarrow> 'q link" where
  "link_new c q stats = \<lparr>ln_device = c, ln_stream = stream_new q stats, ln_left = [], ln_broken = False\<rparr>"

definition put_on_wire :: "string \<Rightarrow> 'q stream \<Rightarrow> 'q stream" where
  "put_on_wire bytes s = s\<lparr>sr_wire := sr_wire s @ bytes, sr_sent := sr_sent s @ bytes\<rparr>"

text \<open>A write that completes without an error has transferred its whole buffer. A stopped device has
  closed its socket.\<close>

inductive link_step ::
    "'j json_lib \<Rightarrow> ('q, Event TimedEvent) EventQueue \<Rightarrow> BackpressurePolicy \<Rightarrow> 'q link \<Rightarrow> 'q link \<Rightarrow> bool"
    for J Q policy where
  starts_write: "dc_handler J (ln_device k) c' \<Longrightarrow> dc_writing (ln_device k) = None \<Longrightarrow> dc_writing c' = Some out \<Longrightarrow>
    link_step J Q policy k (k\<lparr>ln_device := c', ln_left := out\<rparr>)"
| other_handler: "dc_handler J (ln_device k) c' \<Longrightarrow> dc_writing c' = dc_writing (ln_device k) \<Longrightarrow>
    link_step J Q policy k (k\<lparr>ln_device := c'\<rparr>)"
| write_completes: "dc_writing (ln_device k) \<noteq> None \<Longrightarrow> ln_left k = [] \<Longrightarrow>
    link_step J Q policy k (k\<lparr>ln_device := on_write (ln_device k)\<rparr>)"
| write_fails: "dc_writing (ln_device k) \<noteq> None \<Longrightarrow>
    link_step J Q policy k (k\<lparr>ln_device := on_write (ln_device k), ln_left := [], ln_broken := True\<rparr>)"
| stops: "link_step J Q policy k (k\<lparr>ln_device := dc_stop (ln_device k)\<rparr>)"
| transmits: "\<not> ln_broken k \<Longrightarrow> \<not> dc_socket_closed (ln_device k) \<Longrightarrow> ln_left k = bytes @ left' \<Longrightarrow>
    link_step J Q policy k (k\<lparr>ln_left := left', ln_stream := put_on_wire bytes (ln_stream k)\<rparr>)"
| gateway_moves: "stream_step J Q policy (ln_stream k) s' \<Longrightarrow> sr_sent s' = sr_sent (ln_stream k) \<Longrightarrow>
    link_step J Q policy k (k\<lparr>ln_stream := s'\<rparr>)"

abbreviation link_reach ::
    "'j json_lib \<Rightarrow> ('q, Event TimedEvent) EventQueue \<Rightarrow> BackpressurePolicy \<Rightarrow> 'q link \<Rightarrow> 'q link \<Rightarrow> bool" where
  "link_reach J Q policy \<equiv> (link_step J Q policy)\<^sup>*\<^sup>*"

section \<open>The product projects to its parts\<close>

lemma link_step_device:
  assumes "link_step J Q policy k k'" "dc_reach J c0 (ln_device k)"
  shows "dc_reach J c0 (ln_device k')"
  using assms by (cases rule: link_step.cases) (auto intro: dc_reach.intros dc_handler.intros)

lemma link_step_stream:
  assumes "link_step J Q policy k k'"
  shows "stream_reach J Q policy (ln_stream k) (ln_stream k')"
  using assms
proof (cases rule: link_step.cases)
  case (transmits bytes left')
  have "stream_step J Q policy (ln_stream k) (put_on_wire bytes (ln_stream k))"
    unfolding put_on_wire_def by (rule peer_sends)
  with transmits show ?thesis by auto
qed auto

lemma link_reach_parts:
  assumes "link_reach J Q policy (link_new c1 q stats) k" "dc_connect True c0 = Inr c1"
  shows "dc_reach J c0 (ln_device k)" "stream_reach J Q policy (stream_new q stats) (ln_stream k)"
  using assms(1)
proof (induction rule: rtranclp_induct)
  case base
  { case 1 show ?case using dc_begin [OF assms(2)] by (simp add: link_new_def) }
  { case 2 show ?case by (simp add: link_new_def) }
next
  case (step k k')
  { case 1 show ?case using link_step_device [OF step(2)] step(3) by blast }
  { case 2 show ?case using rtranclp_trans [OF step(4) link_step_stream [OF step(2)]] . }
qed

section \<open>What is on the wire\<close>

text \<open>The lines of the events a device has written.\<close>

definition sent_lines :: "'j json_lib \<Rightarrow> Event list \<Rightarrow> string list" where
  "sent_lines J es = map (\<lambda>e. the (serialize_event J e)) es"

definition link_inv :: "'j json_lib \<Rightarrow> 'q link \<Rightarrow> bool" where
  "link_inv J k \<longleftrightarrow>
     (if ln_broken k then prefix (sr_sent (ln_stream k)) (unlines (sent_lines J (dc_history (ln_device k))))
      else sr_sent (ln_stream k) @ ln_left k = unlines (sent_lines J (dc_history (ln_device k))) \<and>
        (dc_writing (ln_device k) = None \<longrightarrow> ln_left k = []))"

lemma link_inv_prefix: "link_inv J k \<Longrightarrow> prefix (sr_sent (ln_stream k)) (unlines (sent_lines J (dc_history (ln_device k))))"
  by (auto simp: link_inv_def split: if_splits intro: prefixI [OF sym])

text \<open>What a handler does to the write: it leaves it alone, completes it, or starts the write of one event.\<close>

definition write_started :: "'j json_lib \<Rightarrow> DeviceClient \<Rightarrow> DeviceClient \<Rightarrow> bool" where
  "write_started J c c' \<longleftrightarrow> (\<exists>e l. dc_history c' = dc_history c @ [e] \<and> serialize_event J e = Some l \<and>
     dc_writing c' = Some (l @ [CHR 0x0A]))"

definition write_kept :: "DeviceClient \<Rightarrow> DeviceClient \<Rightarrow> bool" where
  "write_kept c c' \<longleftrightarrow> dc_history c' = dc_history c \<and> dc_writing c' = dc_writing c"

lemma do_send_writes: "do_send J now c = Some c' \<Longrightarrow> write_started J c c'"
  by (auto simp: do_send_def write_started_def split_beta Let_def)

lemma send_event_writes: "send_event J now c = Some c' \<Longrightarrow> write_started J c c' \<or> write_kept c c'"
  using do_send_writes [of J now "c\<lparr>dc_write_in_flight := True\<rparr>" c']
  by (auto simp: send_event_def Let_def write_kept_def write_started_def split: if_splits)

lemma schedule_writes [simp]:
  "dc_history (schedule_next_send c) = dc_history c" "dc_writing (schedule_next_send c) = dc_writing c"
  by (simp_all add: schedule_next_send_def)

lemma on_timer_writes: "on_timer J error now drawn c = Some c' \<Longrightarrow> write_started J c c' \<or> write_kept c c'"
  using send_event_writes [of J now "c\<lparr>dc_timer := False\<rparr>"]
  by (auto simp: on_timer_def Let_def write_kept_def write_started_def split: if_splits)

lemma on_latency_writes: "on_latency_timer J error now c = Some c' \<Longrightarrow> write_started J c c' \<or> write_kept c c'"
  using do_send_writes [of J now "c\<lparr>dc_latency_timer := False\<rparr>"]
  by (auto simp: on_latency_timer_def Let_def write_kept_def write_started_def split: if_splits)

lemma handler_writes:
  assumes "dc_handler J c c'"
  shows "write_started J c c' \<or> write_kept c c' \<or> dc_writing c \<noteq> None \<and> c' = on_write c"
  using assms
proof (cases rule: dc_handler.cases)
  case (connect_done error)
  then have "write_kept c c'" by (simp add: on_connect_def schedule_next_send_def write_kept_def Let_def)
  then show ?thesis by blast
qed (use on_timer_writes on_latency_writes in blast)+

lemma handler_starts_write:
  assumes "dc_handler J c c'" "dc_writing c = None" "dc_writing c' = Some out"
  shows "\<exists>e l. dc_history c' = dc_history c @ [e] \<and> serialize_event J e = Some l \<and> out = l @ [CHR 0x0A]"
  using handler_writes [OF assms(1)] assms(2,3) by (auto simp: write_started_def write_kept_def)

lemma handler_keeps_write:
  assumes "dc_handler J c c'" "dc_inv J c" "dc_writing c' = dc_writing c"
  shows "dc_history c' = dc_history c"
proof (cases "dc_writing c")
  case None
  with handler_writes [OF assms(1)] assms(3) show ?thesis by (auto simp: write_started_def write_kept_def)
qed (use write_not_replaced [OF assms(1,2)] in blast)

lemma link_step_inv:
  assumes "link_step J Q policy k k'" "link_inv J k" "dc_inv J (ln_device k)"
  shows "link_inv J k'"
  using assms(1)
proof (cases rule: link_step.cases)
  case (starts_write c' out)
  from handler_starts_write [OF starts_write(2-4)] obtain e l where
    "dc_history c' = dc_history (ln_device k) @ [e]" "serialize_event J e = Some l" "out = l @ [CHR 0x0A]" by blast
  with starts_write assms(2) show ?thesis by (auto simp: link_inv_def sent_lines_def)
next
  case (other_handler c')
  with handler_keeps_write [OF other_handler(2) assms(3) other_handler(3)] assms(2) show ?thesis
    by (simp add: link_inv_def cong: if_cong)
next
  case write_fails
  with link_inv_prefix [OF assms(2)] show ?thesis by (simp add: link_inv_def on_write_def)
next
  case (transmits bytes left')
  then have "dc_writing (ln_device k) = None \<longrightarrow> bytes = [] \<and> left' = []" using assms(2) by (simp add: link_inv_def)
  with transmits assms(2) show ?thesis by (auto simp: link_inv_def put_on_wire_def)
qed (use assms(2) in \<open>simp_all add: link_inv_def on_write_def dc_stop_def cong: if_cong\<close>)

lemma link_reach_inv:
  assumes "link_reach J Q policy (link_new c1 q stats) k" "dc_connect True c0 = Inr c1"
    "dc_new host port device_id eps latency loss = Some c0"
  shows "link_inv J k"
  using assms(1)
proof (induction rule: rtranclp_induct)
  case base
  have "dc_history c1 = []" using assms(2,3) by (auto simp: dc_connect_def dc_new_def)
  then show ?case by (simp add: link_inv_def link_new_def stream_new_def sent_lines_def)
next
  case (step k k')
  show ?case using link_step_inv [OF step(2,3)] dc_reach_inv [OF link_reach_parts(1) [OF step(1) assms(2)] assms(3)] by blast
qed

section \<open>Lines and bytes\<close>

lemma unlines_Cons [simp]: "unlines (l # ls) = l @ CHR 0x0A # unlines ls"
  by (simp add: unlines_def)

lemma unlines_prefix:
  assumes "unlines ls @ rest = unlines ms" "\<forall>l\<in>set ls. CHR 0x0A \<notin> set l" "\<forall>m\<in>set ms. CHR 0x0A \<notin> set m"
  shows "\<exists>ns. ms = ls @ ns \<and> rest = unlines ns"
  using assms
proof (induction ls arbitrary: ms)
  case (Cons l ls)
  then obtain m ms' where ms: "ms = m # ms'" by (cases ms) auto
  with Cons.prems have "l = m" by (intro first_split_unique [of l _ _ m]) auto
  with ms Cons show ?case by auto
qed simp

lemma unlines_prefix_take:
  assumes "prefix (unlines ls @ rest) (unlines ms)" "\<forall>l\<in>set ls. CHR 0x0A \<notin> set l" "\<forall>m\<in>set ms. CHR 0x0A \<notin> set m"
  shows "prefix ls ms"
  using unlines_prefix [of ls "rest @ _" ms] assms by (auto simp: prefix_def)

lemma unlines_no_LF: "CHR 0x0A \<notin> set (unlines ls) \<Longrightarrow> ls = []"
  by (cases ls) auto

lemma sent_lines_prefix: "prefix ls (sent_lines J es) \<Longrightarrow> \<exists>n. ls = sent_lines J (take n es)"
  by (intro exI [of _ "length ls"]) (auto simp: prefix_def sent_lines_def take_map [symmetric])

lemma parsed_sent_lines:
  assumes "\<forall>e\<in>set es. parse_event J (the (serialize_event J e)) = Some e"
  shows "parsed_events J (sent_lines J es) = es"
  using assms by (induction es) (auto simp: parsed_events_def sent_lines_def)

section \<open>Properties\<close>

text \<open>What a device writes is read back.\<close>

lemma device_history_lines:
  assumes J: "json_documented object printable utf8 J"
    and inv: "dc_inv J c" and e: "e \<in> set (dc_history c)"
  shows "CHR 0x0A \<notin> set (the (serialize_event J e)) \<and> parse_event J (the (serialize_event J e)) = Some e"
proof -
  obtain now where "e = device_event (dc_device_id c) (iso_format now)" using inv e unfolding dc_inv_def by blast
  with serialize_event_clean [OF J device_event_clean [OF json_ascii [OF J]], of "dc_device_id c" now] show ?thesis by auto
qed

text \<open>The events of one device arrive in order, none missing before the last that has arrived.\<close>

lemma link_in_order:
  assumes "json_documented object printable utf8 J"
    "dc_new host port device_id eps latency loss = Some c0" "dc_connect True c0 = Inr c1"
    "link_reach J Q policy (link_new c1 q stats) k" "policy \<noteq> DropNewest"
  shows "prefix (sr_stored (ln_stream k)) (dc_history (ln_device k)) \<and>
    (\<not> ln_broken k \<and> dc_writing (ln_device k) = None \<and> sr_wire (ln_stream k) = [] \<and>
       cn_pc (sr_conn (ln_stream k)) = Reading \<and> CHR 0x0A \<notin> set (cn_buffer (sr_conn (ln_stream k))) \<longrightarrow>
     sr_stored (ln_stream k) = dc_history (ln_device k))"
proof -
  let ?s = "ln_stream k" and ?h = "dc_history (ln_device k)"
  let ?ls = "sr_lines ?s" and ?ms = "sent_lines J ?h" and ?rest = "cn_buffer (sr_conn ?s) @ sr_wire ?s"
  have inv: "link_inv J k" by (rule link_reach_inv [OF assms(4,3,2)])
  have dinv: "dc_inv J (ln_device k)" by (rule dc_reach_inv [OF link_reach_parts(1) [OF assms(4,3)] assms(2)])
  note sr = link_reach_parts(2) [OF assms(4,3)]
  have F: "sr_sent ?s = unlines ?ls @ ?rest" "\<forall>l\<in>set ?ls. CHR 0x0A \<notin> set l"
    using stream_reach_framed [OF sr] by (simp_all add: framed_def)
  have H: "\<forall>e\<in>set ?h. CHR 0x0A \<notin> set (the (serialize_event J e)) \<and> parse_event J (the (serialize_event J e)) = Some e"
    using device_history_lines [OF assms(1) dinv] by blast
  then have M: "\<forall>m\<in>set ?ms. CHR 0x0A \<notin> set m" by (auto simp: sent_lines_def)
  have "prefix (sr_sent ?s) (unlines ?ms)" by (rule link_inv_prefix [OF inv])
  with F M have "prefix ?ls ?ms" using unlines_prefix_take by metis
  then obtain n where "?ls = sent_lines J (take n ?h)" using sent_lines_prefix by blast
  moreover have "parsed_events J (sent_lines J (take n ?h)) = take n ?h"
    by (rule parsed_sent_lines) (use H in \<open>auto dest: in_set_takeD\<close>)
  ultimately have parsed: "parsed_events J ?ls = take n ?h" by simp
  have all: "parsed_events J ?ls = ?h" if q: "\<not> ln_broken k" "dc_writing (ln_device k) = None" "sr_wire ?s = []"
    "CHR 0x0A \<notin> set (cn_buffer (sr_conn ?s))"
  proof -
    have "unlines ?ls @ cn_buffer (sr_conn ?s) = unlines ?ms" using inv F(1) q by (auto simp: link_inv_def)
    from unlines_prefix [OF this F(2) M] q(4) have "?ls = ?ms" using unlines_no_LF by fastforce
    with parsed_sent_lines [of ?h J] H show ?thesis by simp
  qed
  obtain lost where lost: "parsed_events J ?ls = sr_stored ?s @ lost"
    "cn_pc (sr_conn ?s) = Reading \<Longrightarrow> lost = []"
    using stream_reach_in_order [OF sr assms(5)] by (auto simp: delivered_in_order_def)
  have "prefix (sr_stored ?s) ?h" using lost(1) parsed by (metis prefixI prefix_order.trans take_is_prefix)
  with all lost show ?thesis by auto
qed

text \<open>C12: From device to queue. With a JSON library as documented and any
  policy but the one that drops the newest: whatever the pieces in which the lines of a device travel,
  wherever a write fails and whenever the device or the connection stops, the events the gateway's
  queue has taken from the connection are, in order, the first events the device has written. When no
  write has failed or is under way, nothing is left on the wire and the connection waits for a line, they are all of them.\<close>

theorem device_events_reach_the_queue:
  assumes "json_documented object printable utf8 J"
    "dc_new host port device_id eps latency loss = Some c0" "dc_connect True c0 = Inr c1"
    "link_reach J Q policy (link_new c1 q stats) k" "policy \<noteq> DropNewest"
  shows "prefix (sr_stored (ln_stream k)) (dc_history (ln_device k)) \<and>
    (\<not> ln_broken k \<and> dc_writing (ln_device k) = None \<and> sr_wire (ln_stream k) = [] \<and>
       cn_pc (sr_conn (ln_stream k)) = Reading \<and> CHR 0x0A \<notin> set (cn_buffer (sr_conn (ln_stream k))) \<longrightarrow>
     sr_stored (ln_stream k) = dc_history (ln_device k))"
  by (rule link_in_order [OF assms])

section \<open>A run\<close>

text \<open>How long a line of the concrete library is.\<close>

lemma length_put_nat: "n < 2 ^ k \<Longrightarrow> length (put_nat n) \<le> 2 * k + 1"
proof (induction k arbitrary: n)
  case 0
  then show ?case by (simp add: put_nat.simps)
next
  case (Suc k)
  then have "length (put_nat (n div 2)) \<le> 2 * k + 1" by (simp add: less_mult_imp_div_less)
  then show ?case by (subst put_nat.simps) simp
qed

lemma length_put_list:
  assumes "\<And>x. x \<in> set xs \<Longrightarrow> length (put x) \<le> b" "length xs < 2 ^ 64"
  shows "length (put_list put xs) \<le> 129 + length xs * b"
proof -
  have "length (concat (map put xs)) \<le> length xs * b" using assms(1) by (induction xs) (simp_all add: add_mono)
  with length_put_nat [OF assms(2)] show ?thesis by (simp add: put_list_def)
qed

lemma length_put_nats:
  assumes "\<forall>n\<in>set ns. n < 2 ^ 64" "length ns < 2 ^ 64"
  shows "length (put_list put_nat ns) \<le> 129 + length ns * 129"
  using length_put_list [of ns put_nat 129] length_put_nat [of _ 64] assms by fastforce

lemma char_small: "of_char c < (2::nat) ^ 64"
proof -
  have "of_char c < (256::nat)" by simp
  also have "\<dots> < 2 ^ 64" by simp
  finally show ?thesis .
qed

lemma length_put_entry:
  assumes "\<forall>n\<in>set (scalar_nats x). n < 2 ^ 64" "length (scalar_nats x) \<le> 30" "length key \<le> 11"
  shows "length (put_entry (key, x)) \<le> 5547"
proof -
  have "length (put_list put_nat (map of_char key)) \<le> 129 + 11 * 129"
    using length_put_nats [of "map of_char key"] assms(3) char_small by simp
  moreover have "length (put_list put_nat (scalar_nats x)) \<le> 129 + 30 * 129"
    using length_put_nats [OF assms(1)] assms(2) by simp
  ultimately show ?thesis by (simp add: put_entry_def)
qed

lemma demo_doubles:
  "double_of_nat 27 = Finite_Double False (27 * 2 ^ 48) (- 48)"
  "\<exists>m. round_frac False 377749 10000 = Finite_Double False m (- 47) \<and> m < 2 ^ 64"
  "\<exists>m. round_frac True 1224194 10000 = Finite_Double True m (- 46) \<and> m < 2 ^ 64"
proof -
  have b: "bit_length 27 = 5" "bit_length 377749 = 19" "bit_length 10000 = 14" "bit_length 1224194 = 21"
    using bit_length_eqI [of 4 27] bit_length_eqI [of 18 377749] bit_length_eqI [of 13 10000] bit_length_eqI [of 20 1224194]
    by simp_all
  then show "double_of_nat 27 = Finite_Double False (27 * 2 ^ 48) (- 48)" using double_of_nat_exact [of 27] by simp
  show "\<exists>m. round_frac False 377749 10000 = Finite_Double False m (- 47) \<and> m < 2 ^ 64"
    "\<exists>m. round_frac True 1224194 10000 = Finite_Double True m (- 46) \<and> m < 2 ^ 64"
    using b by (simp_all add: round_frac_def frac_exponent_def round_div_def Let_def)
qed

lemma demo_line_short:
  assumes "serialize_event bit_lib (device_event 7 (iso_format 0)) = Some line"
  shows "length line < 2 ^ 20 - 1"
proof -
  let ?e = "device_event 7 (iso_format 0)"
  obtain m m' where m: "round_frac False 377749 10000 = Finite_Double False m (- 47)" "m < 2 ^ 64"
    "round_frac True 1224194 10000 = Finite_Double True m' (- 46)" "m' < 2 ^ 64" using demo_doubles by blast
  let ?kvs = "[(''event_type'', B_String ''telemetry''), (''longitude'', B_Double (ev_longitude ?e)),
    (''latitude'', B_Double (ev_latitude ?e)), (''battery'', B_Int (ev_battery ?e)),
    (''temperature'', B_Double (ev_temperature ?e)), (''timestamp'', B_String (iso_format 0)), (''device_id'', B_Int64 7)]"
  have line: "line = CHR ''o'' # put_list put_entry ?kvs"
    using assms by (simp add: serialize_event_def event_json_def bit_lib_def bit_dump_def device_event_def Let_def)
  have "length (iso_format 0) = 20" by code_simp
  moreover have "unat (ev_battery ?e) < 2 ^ 64"
    by (rule less_trans [OF unsigned_less]) simp
  moreover have "ev_temperature ?e = Finite_Double False (27 * 2 ^ 48) (- 48)"
    using demo_doubles(1) by (simp add: device_event_def signed_modulo_int_def)
  ultimately have "length (put_entry kv) \<le> 5547" if "kv \<in> set ?kvs" for kv
    using that m char_small by (cases kv) (auto intro!: length_put_entry simp: device_event_def)
  from length_put_list [of ?kvs put_entry, OF this] line show ?thesis by simp
qed

text \<open>The device connects, writes its first event, the gateway reads the line and the queue takes the event.\<close>

lemma demo_conn_reads:
  assumes "serialize_event bit_lib (device_event 7 (iso_format 0)) = Some line"
  shows "\<exists>q' stats'. conn_step bit_lib bounded_queue_ops Block (Read_Done 0 (Some (line @ [CHR 0x0A]))) conn_new demo_bq stats_new
      = Returns (conn_new, q', stats')" "read_until_ok [] (line @ [CHR 0x0A])"
proof -
  let ?e = "device_event 7 (iso_format 0)"
  have "event_clean (\<lambda>_. True) ?e" by (rule device_event_clean) simp
  from serialize_event_clean [OF bit_lib_documented this] assms(1)
  have line: "CHR 0x0A \<notin> set line" "parse_event bit_lib line = Some ?e" by auto
  have getline: "getline (line @ [CHR 0x0A]) = (line, [])" by (rule getline_line [OF line(1)])
  show "\<exists>q' stats'. conn_step bit_lib bounded_queue_ops Block (Read_Done 0 (Some (line @ [CHR 0x0A]))) conn_new demo_bq stats_new
      = Returns (conn_new, q', stats')"
    using getline line(2)
    by (simp add: conn_new_def conn_step_def read_line_def handle_line_def
        push_event_def after_push_def bounded_queue_ops_def bq_push_def demo_bq_def Let_def)
  show "read_until_ok [] (line @ [CHR 0x0A])"
    using demo_line_short [OF assms(1)] by (simp add: read_until_ok_def buffer_limit_def)
qed

lemma demo_gateway_reads:
  fixes s :: "Event TimedEvent BoundedQueue stream"
  assumes "serialize_event bit_lib (device_event 7 (iso_format 0)) = Some line"
    and s: "s = put_on_wire (line @ [CHR 0x0A]) (stream_new demo_bq stats_new)"
  shows "\<exists>s'. stream_step bit_lib bounded_queue_ops Block s s' \<and> sr_sent s' = sr_sent s \<and> sr_wire s' = [] \<and>
    cn_pc (sr_conn s') = Reading \<and> cn_buffer (sr_conn s') = []"
proof -
  obtain q' stats' where step: "conn_step bit_lib bounded_queue_ops Block (Read_Done 0 (Some (line @ [CHR 0x0A])))
      (sr_conn s) (sr_queue s) (sr_stats s) = Returns (conn_new, q', stats')"
    using demo_conn_reads(1) [OF assms(1)] by (auto simp: s put_on_wire_def stream_new_def)
  from read_done [OF _ _ _ refl step, of "[]"] demo_conn_reads(2) [OF assms(1)] show ?thesis
    by (fastforce simp: s put_on_wire_def stream_new_def conn_new_def)
qed

theorem device_events_reach_the_queue_witness:
  "\<exists>c1 k. link_reach bit_lib bounded_queue_ops Block (link_new c1 demo_bq stats_new) k \<and>
     sr_stored (ln_stream k) = [device_event 7 (iso_format 0)] \<and>
     sr_stored (ln_stream k) = dc_history (ln_device k)"
proof -
  obtain c0 where c0: "dc_new ''h'' 9000 7 (double_of_nat 1) 0 (double_of_nat 0) = Some c0" using demo_device_new by blast
  obtain c1 c2 c3 line where c: "dc_connect True c0 = Inr c1" "dc_handler bit_lib c1 c2" "dc_handler bit_lib c2 c3"
    "dc_writing c1 = None" "dc_writing c2 = None" "dc_writing c3 = Some (line @ [CHR 0x0A])"
    "dc_history c3 = [device_event 7 (iso_format 0)]" "\<not> dc_socket_closed c3"
    "serialize_event bit_lib (device_event 7 (iso_format 0)) = Some line"
    using demo_device_steps [OF c0] by blast
  let ?step = "link_step bit_lib bounded_queue_ops Block" and ?k = "link_new c1 demo_bq stats_new"
  let ?s = "put_on_wire (line @ [CHR 0x0A]) (stream_new demo_bq stats_new)"
  obtain s' where s': "stream_step bit_lib bounded_queue_ops Block ?s s'" "sr_sent s' = sr_sent ?s" "sr_wire s' = []"
    "cn_pc (sr_conn s') = Reading" "cn_buffer (sr_conn s') = []" using demo_gateway_reads [OF c(9) refl] by blast
  let ?k2 = "?k\<lparr>ln_device := c2\<rparr>" and ?k3 = "?k\<lparr>ln_device := c3, ln_left := line @ [CHR 0x0A]\<rparr>"
  let ?k4 = "?k\<lparr>ln_device := c3, ln_stream := ?s\<rparr>" and ?k5 = "?k\<lparr>ln_device := c3, ln_stream := s'\<rparr>"
  let ?k6 = "?k\<lparr>ln_device := on_write c3, ln_stream := s'\<rparr>"
  have "?step ?k ?k2" using other_handler [of bit_lib ?k c2] c by (simp add: link_new_def)
  moreover have "?step ?k2 ?k3" using starts_write [of bit_lib ?k2 c3] c by (simp add: link_new_def)
  moreover have "?step ?k3 ?k4" using transmits [of ?k3 "line @ [CHR 0x0A]" "[]"] c by (simp add: link_new_def)
  moreover have "?step ?k4 ?k5" using gateway_moves [of bit_lib bounded_queue_ops Block ?k4 s'] s' by (simp add: link_new_def)
  moreover have "?step ?k5 ?k6" using write_completes [of ?k5] c by (simp add: link_new_def)
  ultimately have r: "link_reach bit_lib bounded_queue_ops Block ?k ?k6"
    by (meson converse_rtranclp_into_rtranclp r_into_rtranclp)
  from device_events_reach_the_queue [OF bit_lib_documented c0 c(1) r] s' c(7)
  have "sr_stored s' = [device_event 7 (iso_format 0)]" by (simp add: link_new_def on_write_def)
  with r c(7) show ?thesis by (intro exI [of _ c1] exI [of _ ?k6]) (simp add: on_write_def)
qed

end
