(* ===== verification/Fleet.thy ===== *)
theory Fleet
  imports Device_Link
begin

text \<open>
  A whole fleet and the gateway it writes to: any number of devices of \<^verbatim>\<open>simulator/src/device_client.cpp\<close>, each behind its
  own connection of \<^verbatim>\<open>gateway/include/edgeflow/gateway/connection.hpp\<close>, and the reactor, the workers, the
  batcher and the shutdown of \<^verbatim>\<open>gateway/src/main.cpp\<close>. The device side of the \<open>i\<close>-th connection is the \<open>i\<close>-th
  peer. Seen from one peer, a run of the fleet is a run of \<open>Device_Link\<close>; seen from the gateway, it is a
  run of \<open>Gateway\<close>.
\<close>

section \<open>State\<close>

record peer =
  pe_device :: DeviceClient
  pe_left :: string
  pe_broken :: bool
  pe_wire :: string
  pe_sent :: string
  pe_lines :: "string list"
  pe_stored :: "Event list"

record ('q, 's) fleet =
  fl_gateway :: "('q, 's) gateway"
  fl_peers :: "peer list"

definition peer_new :: "DeviceClient \<Rightarrow> peer" where
  "peer_new c = \<lparr>pe_device = c, pe_left = [], pe_broken = False, pe_wire = [], pe_sent = [], pe_lines = [], pe_stored = []\<rparr>"

text \<open>A connection of the gateway and its peer, as a link.\<close>

definition mk_link :: "('q, 's) gateway \<Rightarrow> Connection \<Rightarrow> peer \<Rightarrow> 'q link" where
  "mk_link g conn p = \<lparr>ln_device = pe_device p,
     ln_stream = \<lparr>sr_conn = conn, sr_queue = pl_queue (gw_pipe g), sr_stats = pl_stats (gw_pipe g), sr_wire = pe_wire p,
       sr_sent = pe_sent p, sr_lines = pe_lines p, sr_stored = pe_stored p\<rparr>,
     ln_left = pe_left p, ln_broken = pe_broken p\<rparr>"

abbreviation the_link :: "('q, 's) fleet \<Rightarrow> nat \<Rightarrow> 'q link" where
  "the_link f i \<equiv> mk_link (fl_gateway f) (gw_conns (fl_gateway f) ! i) (fl_peers f ! i)"

section \<open>Steps\<close>

text \<open>A completion for which the connection waits, and what it leaves on the wire.\<close>

definition ready :: "conn_input \<Rightarrow> Connection \<Rightarrow> string \<Rightarrow> string \<Rightarrow> bool" where
  "ready inp conn wire rest = (case (inp, cn_pc conn) of
     (Read_Done now (Some bytes), Reading) \<Rightarrow> wire = bytes @ rest \<and> read_until_ok (cn_buffer conn) bytes
   | (Read_Done now None, Reading) \<Rightarrow> rest = wire
   | (Timer_Fired error, Retrying timed) \<Rightarrow> rest = wire
   | _ \<Rightarrow> False)"

definition lines_read :: "conn_input \<Rightarrow> Connection \<Rightarrow> string list" where
  "lines_read inp conn = (case inp of
     Read_Done now (Some bytes) \<Rightarrow> [fst (getline (cn_buffer conn @ bytes))] | _ \<Rightarrow> [])"

definition events_taken :: "'j json_lib \<Rightarrow> ('q, Event TimedEvent) EventQueue \<Rightarrow> conn_input \<Rightarrow> Connection \<Rightarrow> 'q \<Rightarrow> Event list" where
  "events_taken J Q inp conn q = (case conn_pushes J inp conn of None \<Rightarrow> [] | Some timed \<Rightarrow> took Q q timed)"

inductive fleet_step ::
    "'j json_lib \<Rightarrow> ('q, Event TimedEvent) EventQueue \<Rightarrow> BackpressurePolicy \<Rightarrow> (Event list \<Rightarrow> 's \<Rightarrow> 's) \<Rightarrow>
     ('q, 's) fleet \<Rightarrow> ('q, 's) fleet \<Rightarrow> bool" for J Q policy on_flush where
  device_joins: "fl_gateway f = g \<Longrightarrow> gw_running g \<Longrightarrow> gw_acceptor g = Accepting \<Longrightarrow>
    dc_new host port device_id eps latency loss = Some c0 \<Longrightarrow> dc_connect True c0 = Inr c \<Longrightarrow>
    fleet_step J Q policy on_flush f \<lparr>fl_gateway = on_accept Accept_Ok g, fl_peers = fl_peers f @ [peer_new c]\<rparr>"
| device_moves: "fl_gateway f = g \<Longrightarrow> i < length (fl_peers f) \<Longrightarrow> i < length (gw_conns g) \<Longrightarrow>
    link_step J Q policy (the_link f i) (mk_link g (gw_conns g ! i) p') \<Longrightarrow>
    pe_lines p' = pe_lines (fl_peers f ! i) \<Longrightarrow> pe_stored p' = pe_stored (fl_peers f ! i) \<Longrightarrow>
    fleet_step J Q policy on_flush f (f\<lparr>fl_peers := (fl_peers f)[i := p']\<rparr>)"
| connection_handles: "fl_gateway f = g \<Longrightarrow> gw_running g \<Longrightarrow> i < length (gw_conns g) \<Longrightarrow>
    gw_conns g ! i = conn \<Longrightarrow> fl_peers f ! i = p \<Longrightarrow> ready inp conn (pe_wire p) rest \<Longrightarrow>
    conn_step J Q policy inp conn (pl_queue (gw_pipe g)) (pl_stats (gw_pipe g)) = Returns (conn', q', stats') \<Longrightarrow>
    fleet_step J Q policy on_flush f
      \<lparr>fl_gateway = g\<lparr>gw_pipe := (log_push Q (conn_pushes J inp conn) (gw_pipe g))\<lparr>pl_queue := q', pl_stats := stats'\<rparr>,
         gw_conns := (gw_conns g)[i := conn'], gw_lines := gw_lines g + lines_taken inp conn,
         gw_given_up := gw_given_up g + given_up inp conn\<rparr>,
       fl_peers = (fl_peers f)[i := p\<lparr>pe_wire := rest, pe_lines := pe_lines p @ lines_read inp conn,
         pe_stored := pe_stored p @ events_taken J Q inp conn (pl_queue (gw_pipe g))\<rparr>]\<rparr>"
| gateway_works: "gateway_step J Q policy on_flush (fl_gateway f) g' \<Longrightarrow> gw_conns g' = gw_conns (fl_gateway f) \<Longrightarrow>
    gw_lines g' = gw_lines (fl_gateway f) \<Longrightarrow> pl_pushes (gw_pipe g') = pl_pushes (gw_pipe (fl_gateway f)) \<Longrightarrow>
    fleet_step J Q policy on_flush f (f\<lparr>fl_gateway := g'\<rparr>)"

definition fleet_start :: "('q, 's) gateway \<Rightarrow> ('q, 's) fleet" where
  "fleet_start g = \<lparr>fl_gateway = g, fl_peers = []\<rparr>"

abbreviation fleet_reach ::
    "'j json_lib \<Rightarrow> ('q, Event TimedEvent) EventQueue \<Rightarrow> BackpressurePolicy \<Rightarrow> (Event list \<Rightarrow> 's \<Rightarrow> 's) \<Rightarrow>
     ('q, 's) fleet \<Rightarrow> ('q, 's) fleet \<Rightarrow> bool" where
  "fleet_reach J Q policy on_flush \<equiv> (fleet_step J Q policy on_flush)\<^sup>*\<^sup>*"

section \<open>Seen from the gateway\<close>

lemma fleet_step_gateway:
  assumes "fleet_step J Q policy on_flush f f'"
  shows "fl_gateway f' = fl_gateway f \<or> gateway_step J Q policy on_flush (fl_gateway f) (fl_gateway f')"
  using assms
proof (cases rule: fleet_step.cases)
  case (device_joins g host port device_id eps latency loss c0 c)
  then show ?thesis by (auto intro!: gateway_step.reactor reactor_step.accepted)
next
  case (connection_handles g i conn p inp rest conn' q' stats')
  from reactor_step.connection [OF connection_handles(4), of J Q policy inp conn' q' stats'] connection_handles
  show ?thesis by (auto intro!: gateway_step.reactor)
qed auto

lemma fleet_reach_gateway:
  assumes "fleet_reach J Q policy on_flush (fleet_start g) f"
  shows "gateway_reach J Q policy on_flush g (fl_gateway f)"
  using assms
proof (induction rule: rtranclp_induct)
  case base
  show ?case by (simp add: fleet_start_def gateway_reach.start)
next
  case (step f f')
  then show ?case using fleet_step_gateway [OF step(2)] by (metis gateway_reach.step)
qed

section \<open>Seen from a peer\<close>

definition is_link :: "'j json_lib \<Rightarrow> ('q, Event TimedEvent) EventQueue \<Rightarrow> BackpressurePolicy \<Rightarrow> 'q link \<Rightarrow> bool" where
  "is_link J Q policy k \<longleftrightarrow> (\<exists>host port device_id eps latency loss c0 c q stats.
     dc_new host port device_id eps latency loss = Some c0 \<and> dc_connect True c0 = Inr c \<and>
     link_reach J Q policy (link_new c q stats) k)"

lemma is_link_step: "is_link J Q policy k \<Longrightarrow> link_step J Q policy k k' \<Longrightarrow> is_link J Q policy k'"
  unfolding is_link_def by (meson rtranclp.rtrancl_into_rtrancl)

text \<open>What the rest of the gateway does to a link.\<close>

lemma is_link_others:
  assumes "is_link J Q policy (mk_link g conn p)"
  shows "is_link J Q policy (mk_link g' conn p)"
proof -
  have "stream_step J Q policy (ln_stream (mk_link g conn p))
      ((ln_stream (mk_link g conn p))\<lparr>sr_queue := pl_queue (gw_pipe g'), sr_stats := pl_stats (gw_pipe g')\<rparr>)"
    by (rule stream_step.others)
  from gateway_moves [of J Q policy "mk_link g conn p", OF this]
  have "link_step J Q policy (mk_link g conn p) (mk_link g' conn p)" by (simp add: mk_link_def)
  with assms show ?thesis by (rule is_link_step)
qed

text \<open>A handler of the connection is a step of its link.\<close>

lemma handler_link_step:
  assumes "ready inp conn (pe_wire p) rest"
    and "conn_step J Q policy inp conn (pl_queue (gw_pipe g)) (pl_stats (gw_pipe g)) = Returns (conn', q', stats')"
    and "pl_queue (gw_pipe g') = q'" "pl_stats (gw_pipe g') = stats'"
  shows "link_step J Q policy (mk_link g conn p) (mk_link g' conn' (p\<lparr>pe_wire := rest,
    pe_lines := pe_lines p @ lines_read inp conn, pe_stored := pe_stored p @ events_taken J Q inp conn (pl_queue (gw_pipe g))\<rparr>))"
    (is "link_step J Q policy ?k (mk_link g' conn' ?p)")
proof -
  have "stream_step J Q policy (ln_stream ?k) (ln_stream (mk_link g' conn' ?p))"
  proof (cases inp)
    case (Read_Done now completion)
    then have pc: "cn_pc conn = Reading" using assms(1) by (auto simp: ready_def split: option.splits conn_pc.splits)
    show ?thesis
    proof (cases completion)
      case None
      with Read_Done pc read_fails [of "ln_stream ?k" J Q policy now conn' q' stats'] assms show ?thesis
        by (simp add: mk_link_def ready_def lines_read_def events_taken_def conn_pushes_def)
    next
      case (Some bytes)
      with Read_Done pc assms(1) have "pe_wire p = bytes @ rest" "read_until_ok (cn_buffer conn) bytes" by (simp_all add: ready_def)
      with Read_Done Some pc read_done [of "ln_stream ?k" bytes rest _ J Q policy now conn' q' stats', OF _ _ _ refl] assms
      show ?thesis by (simp add: mk_link_def lines_read_def events_taken_def conn_pushes_def split: option.splits)
    qed
  next
    case (Timer_Fired error)
    then obtain timed where pc: "cn_pc conn = Retrying timed" using assms(1) by (auto simp: ready_def split: conn_pc.splits)
    with Timer_Fired assms stream_step.timer_done [of "ln_stream ?k" timed J Q policy error conn' q' stats'] show ?thesis
      by (cases error) (simp_all add: mk_link_def ready_def lines_read_def events_taken_def conn_pushes_def)
  qed
  from gateway_moves [OF this] show ?thesis by (simp add: mk_link_def)
qed

definition fleet_links :: "'j json_lib \<Rightarrow> ('q, Event TimedEvent) EventQueue \<Rightarrow> BackpressurePolicy \<Rightarrow> ('q, 's) fleet \<Rightarrow> bool" where
  "fleet_links J Q policy f \<longleftrightarrow> length (fl_peers f) = length (gw_conns (fl_gateway f)) \<and>
     (\<forall>i < length (fl_peers f). is_link J Q policy (the_link f i))"

lemma fleet_step_links:
  assumes "fleet_step J Q policy on_flush f f'" "fleet_links J Q policy f"
  shows "fleet_links J Q policy f'"
  using assms(1)
proof (cases rule: fleet_step.cases)
  case (device_joins g host port device_id eps latency loss c0 c)
  have "mk_link (on_accept Accept_Ok g) conn_new (peer_new c) = link_new c (pl_queue (gw_pipe g)) (pl_stats (gw_pipe g))"
    by (simp add: mk_link_def peer_new_def link_new_def stream_new_def on_accept_def)
  moreover have "is_link J Q policy (link_new c (pl_queue (gw_pipe g)) (pl_stats (gw_pipe g)))"
    unfolding is_link_def using device_joins(5,6) by (blast intro: rtranclp.rtrancl_refl)
  ultimately have "is_link J Q policy (mk_link (on_accept Accept_Ok g) conn_new (peer_new c))" by simp
  moreover have "is_link J Q policy (mk_link (on_accept Accept_Ok g) (gw_conns g ! i) (fl_peers f ! i))"
    if "i < length (fl_peers f)" for i
    using that assms(2) device_joins(2) by (auto simp: fleet_links_def intro: is_link_others)
  ultimately show ?thesis using assms(2) device_joins(1,2)
    by (auto simp: fleet_links_def on_accept_def nth_append less_Suc_eq)
next
  case (device_moves g i p')
  have "is_link J Q policy (the_link f i)" using assms(2) device_moves(3) by (simp add: fleet_links_def)
  from is_link_step [OF this device_moves(5)] have "is_link J Q policy (mk_link g (gw_conns g ! i) p')" .
  then show ?thesis using device_moves(1-4) assms(2) by (auto simp: fleet_links_def nth_list_update)
next
  case (connection_handles g i conn p inp rest conn' q' stats')
  have "is_link J Q policy (mk_link g conn p)" using assms(2) connection_handles(2-6) by (auto simp: fleet_links_def)
  moreover have "pl_queue (gw_pipe (fl_gateway f')) = q'" "pl_stats (gw_pipe (fl_gateway f')) = stats'"
    using connection_handles(1) by simp_all
  note handler_link_step [OF connection_handles(7,8) this]
  moreover have "gw_conns (fl_gateway f') ! i = conn'" "fl_peers f' ! i = p\<lparr>pe_wire := rest,
      pe_lines := pe_lines p @ lines_read inp conn, pe_stored := pe_stored p @ events_taken J Q inp conn (pl_queue (gw_pipe g))\<rparr>"
    using connection_handles(1,2,4) assms(2) by (simp_all add: fleet_links_def)
  ultimately have new: "is_link J Q policy (the_link f' i)" by (simp only: is_link_step)
  have "is_link J Q policy (the_link f' j)" if "j < length (fl_peers f')" for j
  proof (cases "j = i")
    case False
    then have "is_link J Q policy (mk_link g (gw_conns g ! j) (fl_peers f ! j))"
      using that assms(2) connection_handles(1,2) by (simp add: fleet_links_def)
    from is_link_others [OF this] False connection_handles(1) show ?thesis by simp
  qed (use new in simp)
  then show ?thesis using assms(2) connection_handles(1,2) by (simp add: fleet_links_def)
next
  case (gateway_works g')
  then show ?thesis using assms(2) by (auto simp: fleet_links_def intro: is_link_others)
qed

lemma fleet_reach_links:
  assumes "fleet_reach J Q policy on_flush (fleet_start g) f" "gw_conns g = []"
  shows "fleet_links J Q policy f"
  using assms(1)
proof (induction rule: rtranclp_induct)
  case base
  show ?case using assms(2) by (simp add: fleet_links_def fleet_start_def)
next
  case (step f f')
  then show ?case by (blast intro: fleet_step_links)
qed

section \<open>What the queue has stored\<close>

lemma log_push_stored:
  "map te_event (pl_stored (log_push Q pushed s)) =
     map te_event (pl_stored s) @ (case pushed of None \<Rightarrow> [] | Some timed \<Rightarrow> took Q (pl_queue s) timed)"
  by (auto simp: log_push_def took_def split: option.splits call.splits)

lemma gateway_step_stored:
  assumes "gateway_step J Q policy on_flush g g'" "pl_pushes (gw_pipe g') = pl_pushes (gw_pipe g)"
  shows "pl_stored (gw_pipe g') = pl_stored (gw_pipe g)"
  using assms(1)
proof (cases rule: gateway_step.cases)
  case reactor
  from reactor(2) show ?thesis
  proof (cases rule: reactor_step.cases)
    case (connection i inp conn' q' stats')
    show ?thesis
    proof (cases "conn_pushes J inp (gw_conns g ! i)")
      case None
      with connection(1) show ?thesis by (simp add: log_push_def)
    next
      case (Some timed)
      from conn_step_push [OF connection(3) Some] obtain r where "q_push Q (pl_queue (gw_pipe g)) timed = Returns (r, q')" by blast
      with Some connection(1) assms(2) show ?thesis by (simp add: log_push_def)
    qed
  qed (simp_all add: acceptor_frame)
next
  case (worker pipe')
  with worker_step_frame [OF worker(2)] show ?thesis by simp
qed auto

abbreviation peers_stored :: "('q, 's) fleet \<Rightarrow> Event multiset" where
  "peers_stored f \<equiv> (\<Sum>p\<leftarrow>fl_peers f. mset (pe_stored p))"

lemma peers_stored_update:
  "i < length ps \<Longrightarrow> pe_stored p' = pe_stored (ps ! i) @ es \<Longrightarrow>
   (\<Sum>p\<leftarrow>ps[i := p']. mset (pe_stored p)) = (\<Sum>p\<leftarrow>ps. mset (pe_stored p)) + mset es"
  using sum_list_map_update [of i ps "\<lambda>p. mset (pe_stored p)" p'] by (simp add: ac_simps)

lemma fleet_step_stored:
  assumes "fleet_step J Q policy on_flush f f'" "fleet_links J Q policy f"
    and "mset (map te_event (pl_stored (gw_pipe (fl_gateway f)))) = peers_stored f"
  shows "mset (map te_event (pl_stored (gw_pipe (fl_gateway f')))) = peers_stored f'"
  using assms(1)
proof (cases rule: fleet_step.cases)
  case (device_joins g host port device_id eps latency loss c0 c)
  with assms(3) show ?thesis by (simp add: acceptor_frame peer_new_def)
next
  case (device_moves g i p')
  with assms(3) peers_stored_update [OF device_moves(3), of p' "[]"] show ?thesis by simp
next
  case (connection_handles g i conn p inp rest conn' q' stats')
  have "i < length (fl_peers f)" using connection_handles(2,4) assms(2) by (simp add: fleet_links_def)
  from peers_stored_update [OF this] connection_handles(6)
  have "peers_stored f' = peers_stored f + mset (events_taken J Q inp conn (pl_queue (gw_pipe g)))"
    unfolding connection_handles(1) by simp
  moreover have "map te_event (pl_stored (gw_pipe (fl_gateway f'))) =
      map te_event (pl_stored (gw_pipe g)) @ events_taken J Q inp conn (pl_queue (gw_pipe g))"
    unfolding connection_handles(1) by (simp add: log_push_stored events_taken_def)
  ultimately show ?thesis using assms(3) connection_handles(2) by (metis mset_append)
next
  case (gateway_works g')
  with assms(3) gateway_step_stored [OF gateway_works(2,5)] show ?thesis by simp
qed

lemma fleet_reach_stored:
  assumes "fleet_reach J Q policy on_flush (fleet_start g) f" "gw_conns g = []" "pl_stored (gw_pipe g) = []"
  shows "mset (map te_event (pl_stored (gw_pipe (fl_gateway f)))) = peers_stored f"
  using assms(1)
proof (induction rule: rtranclp_induct)
  case base
  show ?case using assms(3) by (simp add: fleet_start_def)
next
  case (step f f')
  show ?case using fleet_step_stored [OF step(2) fleet_reach_links [OF step(1) assms(2)] step(3)] .
qed

context gateway_queue
begin

text \<open>A queue that does not drop the oldest never discards an event.\<close>

lemma nothing_discarded:
  assumes "gateway_reach J Q pol on_flush (gateway_start config q k0 now) g"
    and "invar N q" "contents q = []" "\<not> is_closed q" "policy q \<noteq> DropOldest" "pl_pushes (gw_pipe g) \<le> N"
  shows "policy (pl_queue (gw_pipe g)) = policy q \<and> pl_discards (gw_pipe g) = 0"
  using assms(1,6)
proof (induction rule: gateway_reach.induct)
  case start
  show ?case by (simp add: gateway_start_def pipeline_start_def)
next
  case (step g g')
  let ?s = "gw_pipe g"
  have N: "pl_pushes ?s \<le> N" using gateway_step_pushes [OF step(2)] step(4) by simp
  then have IH: "policy (pl_queue ?s) = policy q" "pl_discards ?s = 0" using step(3) by simp_all
  have inv: "invar (N - pl_pushes ?s) (pl_queue ?s)"
    using gateway_reach_inv [OF step(1) assms(2-4) N] by (simp add: gw_inv_def pool_inv_def Let_def)
  from step(2) show ?case
  proof (cases rule: gateway_step.cases)
    case reactor
    from reactor(2) show ?thesis
    proof (cases rule: reactor_step.cases)
      case (connection i inp conn' q' stats')
      show ?thesis
      proof (cases "conn_pushes J inp (gw_conns g ! i)")
        case None
        with connection(1) conn_step_no_push(1) [OF connection(3)] IH show ?thesis by (simp add: log_push_def)
      next
        case (Some timed)
        from conn_step_push [OF connection(3) Some] obtain r where r: "q_push Q (pl_queue ?s) timed = Returns (r, q')" by blast
        have "pl_pushes ?s < N" using Some connection(1) r step(4) by (simp add: log_push_def)
        then have inv': "invar (Suc (N - Suc (pl_pushes ?s))) (pl_queue ?s)" using inv by (simp add: Suc_diff_Suc)
        have "r \<noteq> DroppedOldest" using push_contents [OF inv' r] IH(1) assms(5) by (auto simp: spec_push_def split: if_splits)
        with Some connection(1) r IH push_frame [OF inv' r] show ?thesis by (simp add: log_push_def)
      qed
    qed (use IH in \<open>simp_all add: acceptor_frame\<close>)
  next
    case (worker pipe')
    from worker(2) show ?thesis
      by (cases rule: worker_step.cases) (use worker(1) IH pop_frame [OF inv] in auto)
  qed (use IH shutdown_frame [OF inv] in auto)
qed

end

section \<open>Properties\<close>

text \<open>No write of the device has failed or is under way, nothing is on the wire, and the connection waits for a line.\<close>

definition quiet :: "peer \<Rightarrow> Connection \<Rightarrow> bool" where
  "quiet p conn \<longleftrightarrow> \<not> pe_broken p \<and> dc_writing (pe_device p) = None \<and> pe_wire p = [] \<and> cn_pc conn = Reading \<and>
     CHR 0x0A \<notin> set (cn_buffer conn)"

lemma is_link_in_order:
  assumes "json_documented object printable utf8 J"
    "is_link J Q policy (mk_link g conn p)" "policy \<noteq> DropNewest"
  shows "prefix (pe_stored p) (dc_history (pe_device p)) \<and> (quiet p conn \<longrightarrow> pe_stored p = dc_history (pe_device p))"
proof -
  obtain host port device_id eps latency loss c0 c q stats where
    l: "dc_new host port device_id eps latency loss = Some c0" "dc_connect True c0 = Inr c"
       "link_reach J Q policy (link_new c q stats) (mk_link g conn p)" using assms(2) unfolding is_link_def by blast
  from link_in_order [OF assms(1) l assms(3)] show ?thesis by (simp add: mk_link_def quiet_def)
qed

context gateway_queue
begin

text \<open>For any queue that satisfies the contract.\<close>

lemma fleet_delivered:
  assumes "json_documented object printable utf8 J"
    "parse_args argv = Inr config" "pol \<noteq> DropNewest"
    and q: "invar N q" "contents q = []" "\<not> is_closed q" "policy q \<noteq> DropOldest"
    and "pl_pushes (gw_pipe (fl_gateway fl)) \<le> N" "fs (cf_sink_file config) = Some ''''" "fs_new fs (cf_sink_file config) = Inr f0"
    and reach: "fleet_reach J Q pol (\<lambda>batch f. snd (fs_consume J batch f)) (fleet_start (gateway_start config q f0 now)) fl"
    and "set (pl_workers (gw_pipe (fl_gateway fl))) \<subseteq> {Exited}"
    and "f = snd (batcher_flush (\<lambda>batch f. snd (fs_consume J batch f)) (pl_batcher (gw_pipe (fl_gateway fl))) (pl_sink (gw_pipe (fl_gateway fl))))"
  shows "\<exists>events. map (parse_event J) (text_lines (fs_text f)) = map Some events \<and>
    mset events = (\<Sum>p\<leftarrow>fl_peers fl. mset (pe_stored p)) \<and> length (fl_peers fl) = length (gw_conns (fl_gateway fl)) \<and>
    (\<forall>i < length (fl_peers fl). let p = fl_peers fl ! i in
       prefix (pe_stored p) (dc_history (pe_device p)) \<and>
       (quiet p (gw_conns (fl_gateway fl) ! i) \<longrightarrow> pe_stored p = dc_history (pe_device p)))"
proof -
  let ?s = "gw_pipe (fl_gateway fl)"
  have start: "gw_conns (gateway_start config q f0 now) = []" "pl_stored (gw_pipe (gateway_start config q f0 now)) = []"
    by (simp_all add: gateway_start_def pipeline_start_def)
  note G = fleet_reach_gateway [OF reach]
  have "pl_discards ?s = 0" using nothing_discarded [OF G q assms(8)] by blast
  with drained_to_file [OF assms(1,2) q(1-3) assms(8-10) G assms(12,13)] obtain events where
    ev: "map (parse_event J) (text_lines (fs_text f)) = map Some events"
      "mset events \<subseteq># mset (map te_event (pl_stored ?s))" "length (pl_stored ?s) = length events"
    by fastforce
  have "mset events = mset (map te_event (pl_stored ?s))"
    using ev(2,3) by (metis length_map less_irrefl mset_subset_size size_mset subset_mset.le_imp_less_or_eq)
  also have "\<dots> = (\<Sum>p\<leftarrow>fl_peers fl. mset (pe_stored p))" by (rule fleet_reach_stored [OF reach start])
  finally have "mset events = (\<Sum>p\<leftarrow>fl_peers fl. mset (pe_stored p))" .
  moreover have L: "fleet_links J Q pol fl" by (rule fleet_reach_links [OF reach start(1)])
  have "prefix (pe_stored (fl_peers fl ! i)) (dc_history (pe_device (fl_peers fl ! i))) \<and>
      (quiet (fl_peers fl ! i) (gw_conns (fl_gateway fl) ! i) \<longrightarrow> pe_stored (fl_peers fl ! i) = dc_history (pe_device (fl_peers fl ! i)))"
    if "i < length (fl_peers fl)" for i
    using L that assms(3) by (intro is_link_in_order [OF assms(1), where Q = Q and policy = pol and g = "fl_gateway fl"])
      (simp_all add: fleet_links_def)
  ultimately show ?thesis using ev(1) L unfolding fleet_links_def Let_def by blast
qed

end

text \<open>C3: From the fleet to the disk. With a JSON library as documented, the mutex
  queue under \<^verbatim>\<open>Block\<close> and a file sink on a new file: any number of devices connect, send, stop and fail at any time, their
  bytes travel in any pieces, and reactor, workers and flush thread interleave in any way. Once the workers have been joined and the
  last batch is flushed, every line of the file parses, and the events of the file are exactly, each as many times as it was
  taken, what the queue has taken from the peers: of each device the first events it has written, in order, and all of them
  when its connection is quiet. Nothing is lost, doubled or invented between the queue and the disk.\<close>

theorem fleet_to_file:
  assumes "json_documented object printable utf8 J"
    "parse_args argv = Inr config" "cf_backpressure config = Block"
    "bq_new (unat (cf_queue_capacity config)) Block = Inr q"
    "fs (cf_sink_file config) = Some ''''" "fs_new fs (cf_sink_file config) = Inr f0"
    "fleet_reach J bounded_queue_ops Block (\<lambda>batch f. snd (fs_consume J batch f)) (fleet_start (gateway_start config q f0 now)) fl"
    "set (pl_workers (gw_pipe (fl_gateway fl))) \<subseteq> {Exited}"
    "f = snd (batcher_flush (\<lambda>batch f. snd (fs_consume J batch f)) (pl_batcher (gw_pipe (fl_gateway fl))) (pl_sink (gw_pipe (fl_gateway fl))))"
  shows "\<exists>events. map (parse_event J) (text_lines (fs_text f)) = map Some events \<and>
    mset events = (\<Sum>p\<leftarrow>fl_peers fl. mset (pe_stored p)) \<and> length (fl_peers fl) = length (gw_conns (fl_gateway fl)) \<and>
    (\<forall>i < length (fl_peers fl). let p = fl_peers fl ! i in
       prefix (pe_stored p) (dc_history (pe_device p)) \<and>
       (quiet p (gw_conns (fl_gateway fl) ! i) \<longrightarrow> pe_stored p = dc_history (pe_device p)))"
proof -
  have q: "bq_inv q" "bq_items q = []" "\<not> bq_shutting_down q" "bq_policy q \<noteq> DropOldest"
    using assms(4) bq_new_inv [OF assms(4)] by (auto simp: bq_new_def split: if_splits)
  show ?thesis by (rule gbq.fleet_delivered [OF assms(1,2) _ q le_refl assms(5-9)]) simp_all
qed

text \<open>The same holds of the build with the lock-free queue, up to \<open>2 ^ 62\<close> pushes and with each call of the queue as one step.\<close>

lemma lock_free_fleet_to_file:
  assumes "json_documented object printable utf8 J"
    "parse_args argv = Inr config" "lf_new dflt (cf_queue_capacity config) Block = Some (Inr q)"
    "pl_pushes (gw_pipe (fl_gateway fl)) \<le> 2 ^ 62"
    "fs (cf_sink_file config) = Some ''''" "fs_new fs (cf_sink_file config) = Inr f0"
    "fleet_reach J lock_free_queue_ops Block (\<lambda>batch f. snd (fs_consume J batch f)) (fleet_start (gateway_start config q f0 now)) fl"
    "set (pl_workers (gw_pipe (fl_gateway fl))) \<subseteq> {Exited}"
    "f = snd (batcher_flush (\<lambda>batch f. snd (fs_consume J batch f)) (pl_batcher (gw_pipe (fl_gateway fl))) (pl_sink (gw_pipe (fl_gateway fl))))"
  shows "\<exists>events. map (parse_event J) (text_lines (fs_text f)) = map Some events \<and>
    mset events = (\<Sum>p\<leftarrow>fl_peers fl. mset (pe_stored p)) \<and> length (fl_peers fl) = length (gw_conns (fl_gateway fl)) \<and>
    (\<forall>i < length (fl_peers fl). let p = fl_peers fl ! i in
       prefix (pe_stored p) (dc_history (pe_device p)) \<and>
       (quiet p (gw_conns (fl_gateway fl) ! i) \<longrightarrow> pe_stored p = dc_history (pe_device p)))"
proof -
  from assms(3) obtain k where k: "1 \<le> k" "k \<le> 30" "q = lf_ring dflt (2 ^ k) Block" by (rule lf_new_Inr)
  have q: "lf_inv (2 ^ 62) q" "lf_contents q = []" "\<not> lf_shutting_down q" "lf_policy q \<noteq> DropOldest"
    using lf_ring_inv [OF k(1,2) order_refl] by (simp_all add: k(3))
  show ?thesis by (rule glf.fleet_delivered [OF assms(1,2) _ q assms(4-9)]) simp_all
qed

section \<open>A run\<close>

abbreviation one_peer :: "('q, 's) gateway \<Rightarrow> peer \<Rightarrow> ('q, 's) fleet" where
  "one_peer g p \<equiv> \<lparr>fl_gateway = g, fl_peers = [p]\<rparr>"

lemma one_peer_moves:
  assumes "link_step J Q policy (mk_link g conn p) (mk_link g conn p')" "gw_conns g = [conn]"
    "pe_lines p' = pe_lines p" "pe_stored p' = pe_stored p"
  shows "fleet_step J Q policy on_flush (one_peer g p) (one_peer g p')"
  using device_moves [of "one_peer g p" g 0 J Q policy p' on_flush] assms by simp

lemma fleet_workers:
  assumes "(worker_step Q on_flush)\<^sup>*\<^sup>* (gw_pipe (fl_gateway f)) s"
  shows "fleet_reach J Q policy on_flush f (f\<lparr>fl_gateway := (fl_gateway f)\<lparr>gw_pipe := s\<rparr>\<rparr>)"
  using assms
proof (induction rule: rtranclp_induct)
  case (step s s')
  let ?f = "\<lambda>s. f\<lparr>fl_gateway := (fl_gateway f)\<lparr>gw_pipe := s\<rparr>\<rparr>"
  from worker_step_frame [OF step(2)]
  have "fleet_step J Q policy on_flush (?f s) ((?f s)\<lparr>fl_gateway := (fl_gateway (?f s))\<lparr>gw_pipe := s'\<rparr>\<rparr>)"
    using step(2) by (intro gateway_works gateway_step.worker) simp_all
  then have "fleet_step J Q policy on_flush (?f s) (?f s')" by simp
  with step(3) show ?case by (rule rtranclp.rtrancl_into_rtrancl)
qed simp

text \<open>A device connects and writes its first event; then the gateway reads it.\<close>

lemma demo_fleet_writes:
  assumes c0: "dc_new ''h'' 9000 7 (double_of_nat 1) 0 (double_of_nat 0) = Some c0"
  shows "\<exists>p line. fleet_reach bit_lib bounded_queue_ops Block on_flush (fleet_start (gateway_start one_worker demo_bq k0 0))
      (one_peer (on_accept Accept_Ok (gateway_start one_worker demo_bq k0 0)) p) \<and>
    serialize_event bit_lib (device_event 7 (iso_format 0)) = Some line \<and> pe_wire p = line @ [CHR 0x0A] \<and> \<not> pe_broken p \<and>
    dc_writing (pe_device p) = None \<and> dc_history (pe_device p) = [device_event 7 (iso_format 0)]"
proof -
  obtain c1 c2 c3 line where c: "dc_connect True c0 = Inr c1" "dc_handler bit_lib c1 c2" "dc_handler bit_lib c2 c3"
    "dc_writing c1 = None" "dc_writing c2 = None" "dc_writing c3 = Some (line @ [CHR 0x0A])"
    "dc_history c3 = [device_event 7 (iso_format 0)]" "\<not> dc_socket_closed c3"
    "serialize_event bit_lib (device_event 7 (iso_format 0)) = Some line"
    using demo_device_steps [OF c0] by blast
  let ?out = "line @ [CHR 0x0A]"
  let ?step = "fleet_step bit_lib bounded_queue_ops Block on_flush"
  let ?f0 = "fleet_start (gateway_start one_worker demo_bq k0 0)" and ?g = "on_accept Accept_Ok (gateway_start one_worker demo_bq k0 0)"
  have g: "gw_conns ?g = [conn_new]" by (simp add: on_accept_def gateway_start_def)
  let ?p1 = "peer_new c1"
  let ?p2 = "?p1\<lparr>pe_device := c2\<rparr>" and ?p3 = "?p1\<lparr>pe_device := c3, pe_left := ?out\<rparr>"
  let ?p4 = "?p1\<lparr>pe_device := c3, pe_wire := ?out, pe_sent := ?out\<rparr>"
  let ?p5 = "?p1\<lparr>pe_device := on_write c3, pe_wire := ?out, pe_sent := ?out\<rparr>"
  have 1: "?step ?f0 (one_peer ?g ?p1)"
    using device_joins [OF refl _ _ c0 c(1), of ?f0] by (simp add: fleet_start_def gateway_start_def)
  have 2: "?step (one_peer ?g ?p1) (one_peer ?g ?p2)"
    using other_handler [of bit_lib "mk_link ?g conn_new ?p1" c2] c
    by (intro one_peer_moves [OF _ g]) (simp_all add: mk_link_def peer_new_def)
  have 3: "?step (one_peer ?g ?p2) (one_peer ?g ?p3)"
    using starts_write [of bit_lib "mk_link ?g conn_new ?p2" c3] c
    by (intro one_peer_moves [OF _ g]) (simp_all add: mk_link_def peer_new_def)
  have 4: "?step (one_peer ?g ?p3) (one_peer ?g ?p4)"
    using transmits [of "mk_link ?g conn_new ?p3" ?out "[]"] c
    by (intro one_peer_moves [OF _ g]) (simp_all add: mk_link_def peer_new_def put_on_wire_def)
  have 5: "?step (one_peer ?g ?p4) (one_peer ?g ?p5)"
    using write_completes [of "mk_link ?g conn_new ?p4"] c
    by (intro one_peer_moves [OF _ g]) (simp_all add: mk_link_def peer_new_def)
  have "(?step)\<^sup>*\<^sup>* ?f0 (one_peer ?g ?p5)"
    using 1 2 3 4 5 by (meson converse_rtranclp_into_rtranclp r_into_rtranclp)
  with c(7,9) show ?thesis by (intro exI [of _ ?p5] exI [of _ line]) (simp add: peer_new_def on_write_def)
qed

lemma demo_fleet_reads:
  assumes c0: "dc_new ''h'' 9000 7 (double_of_nat 1) 0 (double_of_nat 0) = Some c0"
  shows "\<exists>g p. fleet_reach bit_lib bounded_queue_ops Block on_flush (fleet_start (gateway_start one_worker demo_bq k0 0)) (one_peer g p) \<and>
    gw_running g \<and> \<not> pl_stopped (gw_pipe g) \<and> gw_conns g = [conn_new] \<and> quiet p conn_new \<and>
    dc_history (pe_device p) = [device_event 7 (iso_format 0)]"
proof -
  let ?step = "fleet_step bit_lib bounded_queue_ops Block on_flush"
  let ?f0 = "fleet_start (gateway_start one_worker demo_bq k0 0)" and ?g = "on_accept Accept_Ok (gateway_start one_worker demo_bq k0 0)"
  obtain p0 line where p0: "(?step)\<^sup>*\<^sup>* ?f0 (one_peer ?g p0)" "serialize_event bit_lib (device_event 7 (iso_format 0)) = Some line"
    "pe_wire p0 = line @ [CHR 0x0A]" "\<not> pe_broken p0" "dc_writing (pe_device p0) = None"
    "dc_history (pe_device p0) = [device_event 7 (iso_format 0)]" using demo_fleet_writes [OF c0, of on_flush k0] by blast
  let ?inp = "Read_Done 0 (Some (line @ [CHR 0x0A]))"
  have g: "gw_conns ?g = [conn_new]" "gw_running ?g" "\<not> pl_stopped (gw_pipe ?g)" "pl_queue (gw_pipe ?g) = demo_bq"
    "pl_stats (gw_pipe ?g) = stats_new"
    by (simp_all add: on_accept_def gateway_start_def pipeline_start_def)
  obtain q' stats' where conn: "conn_step bit_lib bounded_queue_ops Block ?inp conn_new demo_bq stats_new = Returns (conn_new, q', stats')"
    using demo_conn_reads(1) [OF p0(2)] by blast
  have "ready ?inp conn_new (pe_wire p0) []"
    using demo_conn_reads(2) [OF p0(2)] p0(3) by (simp add: ready_def conn_new_def)
  from connection_handles [of "one_peer ?g p0" ?g 0 conn_new p0, OF _ _ _ _ _ this, of bit_lib bounded_queue_ops Block conn_new q' stats' on_flush]
  have "\<exists>g p. ?step (one_peer ?g p0) (one_peer g p) \<and> gw_running g \<and> \<not> pl_stopped (gw_pipe g) \<and> gw_conns g = [conn_new] \<and>
      pe_wire p = [] \<and> pe_device p = pe_device p0 \<and> \<not> pe_broken p"
    using g conn p0(4) by (fastforce simp: log_push_def split: option.splits call.splits)
  then obtain g' p where s: "?step (one_peer ?g p0) (one_peer g' p)" and g': "gw_running g'" "\<not> pl_stopped (gw_pipe g')"
    "gw_conns g' = [conn_new]" and p: "pe_wire p = []" "pe_device p = pe_device p0" "\<not> pe_broken p" by blast
  have "(?step)\<^sup>*\<^sup>* ?f0 (one_peer g' p)" using p0(1) s by (rule rtranclp.rtrancl_into_rtrancl)
  with g' p p0(5,6) show ?thesis by (intro exI [of _ g'] exI [of _ p]) (simp add: quiet_def conn_new_def)
qed

theorem fleet_to_file_witness:
  "\<exists>fl f. fleet_reach bit_lib bounded_queue_ops Block (\<lambda>batch f. snd (fs_consume bit_lib batch f))
      (fleet_start (gateway_start one_worker demo_bq \<lparr>fs_good = True, fs_text = ''''\<rparr> 0)) fl \<and> length (fl_peers fl) = 1 \<and>
    f = snd (batcher_flush (\<lambda>batch f. snd (fs_consume bit_lib batch f)) (pl_batcher (gw_pipe (fl_gateway fl))) (pl_sink (gw_pipe (fl_gateway fl)))) \<and>
    map (parse_event bit_lib) (text_lines (fs_text f)) = [Some (device_event 7 (iso_format 0))]"
proof -
  let ?k = "\<lparr>fs_good = True, fs_text = ''''\<rparr>" and ?flush = "\<lambda>batch f. snd (fs_consume bit_lib batch f)"
  let ?R = "fleet_reach bit_lib bounded_queue_ops Block ?flush" and ?g0 = "gateway_start one_worker demo_bq ?k 0"
  obtain c0 where c0: "dc_new ''h'' 9000 7 (double_of_nat 1) 0 (double_of_nat 0) = Some c0" using demo_device_new by blast
  obtain g p where g: "?R (fleet_start ?g0) (one_peer g p)" "gw_running g" "\<not> pl_stopped (gw_pipe g)" "gw_conns g = [conn_new]"
    and p: "quiet p conn_new" "dc_history (pe_device p) = [device_event 7 (iso_format 0)]"
    using demo_fleet_reads [OF c0, of ?flush ?k] by auto
  let ?g1 = "g\<lparr>gw_running := False\<rparr>"
  let ?g2 = "?g1\<lparr>gw_pipe := (gw_pipe g)\<lparr>pl_stopped := True, pl_queue := q_shutdown bounded_queue_ops (pl_queue (gw_pipe g))\<rparr>\<rparr>"
  have "fleet_step bit_lib bounded_queue_ops Block ?flush (one_peer g p) (one_peer ?g1 p)"
    using gateway_works [of bit_lib bounded_queue_ops Block ?flush "one_peer g p" ?g1] gateway_step.signal [OF g(2), of bit_lib bounded_queue_ops Block ?flush] by simp
  moreover have "fleet_step bit_lib bounded_queue_ops Block ?flush (one_peer ?g1 p) (one_peer ?g2 p)"
    using gateway_works [of bit_lib bounded_queue_ops Block ?flush "one_peer ?g1 p" ?g2] gateway_step.stop [of ?g1 bit_lib bounded_queue_ops Block ?flush] g(3) by simp
  ultimately have r2: "?R (fleet_start ?g0) (one_peer ?g2 p)"
    using g(1) by (meson rtranclp.rtrancl_into_rtrancl)
  have q: "bq_inv demo_bq" "bq_items demo_bq = []" "\<not> bq_shutting_down demo_bq" by (simp_all add: demo_bq_def bq_inv_def)
  have "gateway_reach bit_lib bounded_queue_ops Block ?flush ?g0 ?g2" using fleet_reach_gateway [OF r2] by simp
  from gbq.gateway_workers_finish [OF this q le_refl] obtain s where
    s: "(worker_step bounded_queue_ops ?flush)\<^sup>*\<^sup>* (gw_pipe ?g2) s" "set (pl_workers s) \<subseteq> {Exited}" by auto
  let ?fl = "one_peer (?g2\<lparr>gw_pipe := s\<rparr>) p"
  let ?f = "snd (batcher_flush ?flush (pl_batcher (gw_pipe (fl_gateway ?fl))) (pl_sink (gw_pipe (fl_gateway ?fl))))"
  have "?R (one_peer ?g2 p) ?fl" using fleet_workers [of bounded_queue_ops ?flush "one_peer ?g2 p" s] s(1) by simp
  with r2 have r: "?R (fleet_start ?g0) ?fl" by (rule rtranclp_trans)
  have blk: "cf_backpressure one_worker = Block" by (simp add: one_worker_def default_config_def)
  have new: "fs_new (\<lambda>_. Some '''') (cf_sink_file one_worker) = Inr ?k" by (simp add: fs_new_def)
  have "\<exists>events. map (parse_event bit_lib) (text_lines (fs_text ?f)) = map Some events \<and>
    mset events = (\<Sum>p\<leftarrow>fl_peers ?fl. mset (pe_stored p)) \<and> length (fl_peers ?fl) = length (gw_conns (fl_gateway ?fl)) \<and>
    (\<forall>i < length (fl_peers ?fl). let p = fl_peers ?fl ! i in prefix (pe_stored p) (dc_history (pe_device p)) \<and>
       (quiet p (gw_conns (fl_gateway ?fl) ! i) \<longrightarrow> pe_stored p = dc_history (pe_device p)))"
    by (rule fleet_to_file [OF bit_lib_documented one_worker_parsed blk demo_bq_new [unfolded blk] refl new r _ refl])
      (use s(2) in simp_all)
  then obtain events where "map (parse_event bit_lib) (text_lines (fs_text ?f)) = map Some events" "mset events = mset (pe_stored p)"
    "pe_stored p = dc_history (pe_device p)" using g(4) p(1) by (auto simp: Let_def)
  then have "map (parse_event bit_lib) (text_lines (fs_text ?f)) = [Some (device_event 7 (iso_format 0))]"
    using p(2) by simp
  with r show ?thesis by (intro exI [of _ ?fl] exI [of _ ?f]) simp
qed

end
