(* ===== verification/Simulator.thy ===== *)
theory Simulator
  imports Device_Client
begin

text \<open>
  \<^verbatim>\<open>simulator/src/main.cpp\<close>: the fleet. Device \<open>j\<close> belongs to the \<open>io_context\<close> number \<open>j mod thread_count\<close>, each
  context is run by one thread, and the spike and stop timers are on context 0. \<open>run()\<close> of a context
  returns when the context is stopped or when nothing is pending on it any more; a context that has
  returned runs no further handler. Timers of one context fire in the order of their expiry, so the
  spike, which is configured before the end, comes before the stop.
\<close>

section \<open>State\<close>

datatype context_state = Running | Swept | Out_Of_Work

record simulator =
  sm_config :: SimConfig
  sm_clients :: "DeviceClient list"
  sm_contexts :: "context_state list"
  sm_posted :: "bool list"        \<comment> \<open>the stop sweep is posted on this context and has not run\<close>
  sm_spike_timer :: bool
  sm_stop_timer :: bool

abbreviation thread_count :: "simulator \<Rightarrow> nat" where
  "thread_count s \<equiv> unat (sc_thread_count (sm_config s))"

text \<open>\<open>make_client\<close> for the index \<open>i\<close>; the resolver throws, or the device starts to connect.\<close>

definition make_client :: "bool \<Rightarrow> SimConfig \<Rightarrow> nat \<Rightarrow> DeviceClient list \<Rightarrow> DeviceClient list result" where
  "make_client resolved config i clients =
     (case dc_new (sc_host config) (sc_port config) (of_nat i) (sc_events_per_second config)
             (sc_chaos_latency config) (sc_packet_loss config) of
        None \<Rightarrow> Inl (Runtime_Error ''cast'')
      | Some c \<Rightarrow> bind_result (dc_connect resolved c) (\<lambda>c. Inr (clients @ [c])))"

fun make_clients :: "bool \<Rightarrow> SimConfig \<Rightarrow> nat list \<Rightarrow> DeviceClient list \<Rightarrow> DeviceClient list result" where
  "make_clients resolved config [] clients = Inr clients"
| "make_clients resolved config (i # is) clients =
     bind_result (make_client resolved config i clients) (make_clients resolved config is)"

definition sim_start :: "bool \<Rightarrow> SimConfig \<Rightarrow> simulator result" where
  "sim_start resolved config =
     bind_result (make_clients resolved config [0..<unat (sc_device_count config)] [])
       (\<lambda>clients. Inr \<lparr>sm_config = config, sm_clients = clients,
          sm_contexts = replicate (unat (sc_thread_count config)) Running,
          sm_posted = replicate (unat (sc_thread_count config)) False,
          sm_spike_timer = (sc_spike_count config > 0), sm_stop_timer = True\<rparr>)"

text \<open>The loop of the stop sweep of context \<open>i\<close>: \<^verbatim>\<open>for (j = i; j < clients.size(); j += thread_count)\<close>.\<close>

function sweep_indices :: "nat \<Rightarrow> nat \<Rightarrow> nat \<Rightarrow> nat list" where
  "sweep_indices T n j = (if j < n \<and> 0 < T then j # sweep_indices T n (j + T) else [])"
  by pat_completeness auto

termination by (relation "measure (\<lambda>(T, n, j). n - j)") auto

declare sweep_indices.simps [simp del]

definition stop_sweep :: "nat list \<Rightarrow> DeviceClient list \<Rightarrow> DeviceClient list" where
  "stop_sweep js clients = fold (\<lambda>j cs. cs[j := dc_stop (cs ! j)]) js clients"

text \<open>Work pending on a context: an operation of one of its devices, the sweep, a timer.\<close>

definition context_busy :: "simulator \<Rightarrow> nat \<Rightarrow> bool" where
  "context_busy s i \<longleftrightarrow> sm_posted s ! i \<or> i = 0 \<and> (sm_spike_timer s \<or> sm_stop_timer s) \<or>
     (\<exists>j<length (sm_clients s). j mod thread_count s = i \<and> dc_pending (sm_clients s ! j) > 0)"

section \<open>Steps\<close>

inductive sim_step :: "'j json_lib \<Rightarrow> simulator \<Rightarrow> simulator \<Rightarrow> bool" for J where
  device: "j < length (sm_clients s) \<Longrightarrow> sm_contexts s ! (j mod thread_count s) = Running \<Longrightarrow>
    dc_handler J (sm_clients s ! j) c' \<Longrightarrow> sim_step J s (s\<lparr>sm_clients := (sm_clients s)[j := c']\<rparr>)"
| spike: "sm_contexts s ! 0 = Running \<Longrightarrow> sm_spike_timer s \<Longrightarrow>
    make_clients True (sm_config s) (map (\<lambda>i. unat (sc_device_count (sm_config s)) + i)
      [0..<unat (sc_spike_count (sm_config s))]) (sm_clients s) = Inr clients \<Longrightarrow>
    sim_step J s (s\<lparr>sm_clients := clients, sm_spike_timer := False\<rparr>)"
| stop_timer: "sm_contexts s ! 0 = Running \<Longrightarrow> sm_stop_timer s \<Longrightarrow> \<not> sm_spike_timer s \<Longrightarrow>
    sim_step J s (s\<lparr>sm_stop_timer := False, sm_posted := replicate (thread_count s) True\<rparr>)"
| sweep: "i < thread_count s \<Longrightarrow> sm_contexts s ! i = Running \<Longrightarrow> sm_posted s ! i \<Longrightarrow>
    sim_step J s (s\<lparr>sm_clients := stop_sweep (sweep_indices (thread_count s) (length (sm_clients s)) i) (sm_clients s),
      sm_posted := (sm_posted s)[i := False], sm_contexts := (sm_contexts s)[i := Swept]\<rparr>)"
| out_of_work: "i < thread_count s \<Longrightarrow> sm_contexts s ! i = Running \<Longrightarrow> \<not> context_busy s i \<Longrightarrow>
    sim_step J s (s\<lparr>sm_contexts := (sm_contexts s)[i := Out_Of_Work]\<rparr>)"

inductive sim_reach :: "'j json_lib \<Rightarrow> simulator \<Rightarrow> simulator \<Rightarrow> bool" for J s0 where
  sim_begin: "sim_reach J s0 s0"
| sim_next: "sim_reach J s0 s \<Longrightarrow> sim_step J s s' \<Longrightarrow> sim_reach J s0 s'"

text \<open>What \<open>main\<close> reports at the end.\<close>

definition sim_total :: "simulator \<Rightarrow> u64" where
  "sim_total s = sum_list (map dc_events_sent (sm_clients s))"

definition sim_done_line :: "simulator \<Rightarrow> string" where
  "sim_done_line s = ''edgeflow-simulator: done ('' @ to_string (length (sm_clients s)) @ '' total devices, '' @
     to_string (unat (sim_total s)) @ '' events sent)'' @ [CHR 0x0A]"

text \<open>From the command line to the running fleet, and what \<open>main\<close> prints and returns when that fails.\<close>

definition sim_setup :: "(nat \<Rightarrow> nat \<Rightarrow> bool) \<Rightarrow> bool \<Rightarrow> string list \<Rightarrow> simulator result" where
  "sim_setup tiny_fails resolved argv = bind_result (sim_parse_args tiny_fails argv) (sim_start resolved)"

definition sim_status :: "simulator result \<Rightarrow> string \<times> nat" where
  "sim_status r = main_status ''edgeflow-simulator'' r"

section \<open>Facts\<close>

lemma sweep_indices_set:
  assumes "0 < T"
  shows "set (sweep_indices T n j) = {k. k < n \<and> j \<le> k \<and> k mod T = j mod T} \<and> distinct (sweep_indices T n j)"
  using assms
proof (induction T n j rule: sweep_indices.induct)
  case (1 T n j)
  show ?case
  proof (cases "j < n")
    case True
    have IH: "set (sweep_indices T n (j + T)) = {k. k < n \<and> j + T \<le> k \<and> k mod T = j mod T}"
      "distinct (sweep_indices T n (j + T))" using 1 True by simp_all
    have next_one: "j + T \<le> k" if "j \<le> k" "k mod T = j mod T" "k \<noteq> j" for k
    proof -
      have "T dvd k - j" using that(1,2) by (metis mod_eq_dvd_iff_nat)
      then have "T \<le> k - j" using that(1,3) by (intro dvd_imp_le) auto
      then show ?thesis using that(1) by simp
    qed
    have "insert j {k. k < n \<and> j + T \<le> k \<and> k mod T = j mod T} = {k. k < n \<and> j \<le> k \<and> k mod T = j mod T}"
      using True next_one by auto
    then show ?thesis using True 1(2) IH by (subst (1 2) sweep_indices.simps) auto
  next
    case False
    then show ?thesis by (subst (1 2) sweep_indices.simps) auto
  qed
qed

lemma own_indices:
  "i < T \<Longrightarrow> set (sweep_indices T n i) = {k. k < n \<and> k mod T = i}"
proof -
  assume i: "i < T"
  then have "set (sweep_indices T n i) = {k. k < n \<and> i \<le> k \<and> k mod T = i mod T}"
    using sweep_indices_set [of T n i] by simp
  also have "\<dots> = {k. k < n \<and> k mod T = i}"
    using mod_less [OF i] mod_less_eq_dividend by (intro Collect_cong) metis
  finally show ?thesis .
qed

lemma dc_stop_stop [simp]: "dc_stop (dc_stop c) = dc_stop c" "dc_stopped (dc_stop c)"
  by (simp_all add: dc_stop_def)

lemma stop_sweep_length [simp]: "length (stop_sweep js cs) = length cs"
  unfolding stop_sweep_def by (induction js arbitrary: cs) auto

lemma stop_sweep_nth:
  "k < length cs \<Longrightarrow> stop_sweep js cs ! k = (if k \<in> set js then dc_stop (cs ! k) else cs ! k)"
proof (induction js arbitrary: cs)
  case (Cons j js)
  have "stop_sweep (j # js) cs = stop_sweep js (cs[j := dc_stop (cs ! j)])" by (simp add: stop_sweep_def)
  with Cons.IH [of "cs[j := dc_stop (cs ! j)]"] Cons.prems show ?case by (cases "k = j") simp_all
qed (simp add: stop_sweep_def)

text \<open>Every accepted configuration can be started: no cast is undefined, and the fleet is complete.\<close>

definition fresh_client :: "'j json_lib \<Rightarrow> nat \<Rightarrow> DeviceClient \<Rightarrow> bool" where
  "fresh_client J i c \<longleftrightarrow> dc_inv J c \<and> dc_device_id c = of_nat i \<and> dc_history c = [] \<and> dc_events_sent c = 0 \<and>
     dc_connecting c \<and> \<not> dc_stopped c"

lemma make_client_fresh:
  assumes "sim_values_ok config"
  shows "\<exists>c. make_client True config i cs = Inr (cs @ [c]) \<and> fresh_client J i c"
proof -
  obtain c where c: "dc_new (sc_host config) (sc_port config) (of_nat i) (sc_events_per_second config)
      (sc_chaos_latency config) (sc_packet_loss config) = Some c"
    using send_interval_bounded [of "sc_events_per_second config"] assms by (auto simp: dc_new_def sim_values_ok_def)
  have d: "dc_connect True c = Inr (c\<lparr>dc_connecting := True\<rparr>)" by (simp add: dc_connect_def)
  have "fresh_client J i (c\<lparr>dc_connecting := True\<rparr>)"
    using dc_reach_inv [OF dc_begin [OF d] c, of J] c by (auto simp: fresh_client_def dc_new_def)
  moreover have "make_client True config i cs = Inr (cs @ [c\<lparr>dc_connecting := True\<rparr>])"
    using c d by (simp add: make_client_def bind_result_Inr_iff)
  ultimately show ?thesis by blast
qed

lemma make_clients_fresh:
  assumes "sim_values_ok config"
  shows "\<exists>ds. make_clients True config is cs = Inr (cs @ ds) \<and> length ds = length is \<and>
    (\<forall>k<length is. fresh_client J (is ! k) (ds ! k))"
proof (induction "is" arbitrary: cs)
  case (Cons i "is")
  obtain c where c: "make_client True config i cs = Inr (cs @ [c])" "fresh_client J i c"
    using make_client_fresh [OF assms] by blast
  obtain ds where ds: "make_clients True config is (cs @ [c]) = Inr (cs @ [c] @ ds)" "length ds = length is"
    "\<forall>k<length is. fresh_client J (is ! k) (ds ! k)"
    using Cons.IH [of "cs @ [c]"] by auto
  have "\<forall>k<length (i # is). fresh_client J ((i # is) ! k) ((c # ds) ! k)"
    using c(2) ds(3) by (auto simp: less_Suc_eq_0_disj)
  then show ?case using c(1) ds(1,2) by (intro exI [of _ "c # ds"]) (simp add: bind_result_Inr_iff)
qed simp

lemma send_event_keeps_id: "send_event J now c = Some c' \<Longrightarrow> dc_device_id c' = dc_device_id c"
  by (auto simp: send_event_def Let_def split: if_splits dest!: do_send_frame)

lemma handler_keeps_id:
  assumes "dc_handler J c c'"
  shows "dc_device_id c' = dc_device_id c"
  using assms
proof (cases rule: dc_handler.cases)
  case (timer_done error now drawn)
  then show ?thesis
    by (auto simp: on_timer_def schedule_next_send_def Let_def split: if_splits dest!: send_event_keeps_id)
next
  case (latency_done error now)
  then show ?thesis by (auto simp: on_latency_timer_def Let_def split: if_splits dest!: do_send_frame)
qed (simp_all add: on_connect_def on_write_def schedule_next_send_def Let_def)

section \<open>Invariant\<close>

text \<open>The control of the fleet: until the stop timer has fired nothing is swept or posted, and afterwards
  every context that still runs has its sweep pending; context 0 never runs out of work.\<close>

definition sim_control :: "simulator \<Rightarrow> bool" where
  "sim_control s \<longleftrightarrow> 0 < thread_count s \<and> length (sm_contexts s) = thread_count s \<and> length (sm_posted s) = thread_count s \<and>
     (sm_spike_timer s \<longrightarrow> sm_stop_timer s) \<and> sm_contexts s ! 0 \<noteq> Out_Of_Work \<and>
     (\<forall>i<thread_count s. if sm_stop_timer s then \<not> sm_posted s ! i \<and> sm_contexts s ! i \<noteq> Swept
                         else sm_contexts s ! i = Running \<longrightarrow> sm_posted s ! i)"

definition sim_fleet :: "'j json_lib \<Rightarrow> simulator \<Rightarrow> bool" where
  "sim_fleet J s \<longleftrightarrow>
     length (sm_clients s) = unat (sc_device_count (sm_config s)) +
       (if sm_spike_timer s then 0 else unat (sc_spike_count (sm_config s))) \<and>
     (\<forall>j<length (sm_clients s). dc_inv J (sm_clients s ! j) \<and> dc_device_id (sm_clients s ! j) = of_nat j)"

definition sim_swept :: "simulator \<Rightarrow> bool" where
  "sim_swept s \<longleftrightarrow> (\<forall>j<length (sm_clients s).
     sm_contexts s ! (j mod thread_count s) = Swept \<longrightarrow> dc_stopped (sm_clients s ! j))"

lemma sim_step_config: "sim_step J s s' \<Longrightarrow> sm_config s' = sm_config s"
  by (erule sim_step.cases) auto

lemma sim_step_control:
  assumes "sim_step J s s'" "sim_control s"
  shows "sim_control s'"
  using assms
proof (cases rule: sim_step.cases)
  case (sweep i)
  with assms(2) show ?thesis unfolding sim_control_def by (auto simp: nth_list_update)
next
  case (out_of_work i)
  have "sm_stop_timer s \<or> sm_posted s ! i"
    using assms(2) out_of_work(2,3) unfolding sim_control_def by (meson)
  then have "sm_stop_timer s" "i \<noteq> 0" using out_of_work(4) by (auto simp: context_busy_def)
  then show ?thesis using assms(2) out_of_work unfolding sim_control_def by (auto simp: nth_list_update)
qed (auto simp: sim_control_def)

lemma sim_step_swept:
  assumes "sim_step J s s'" "sim_control s" "sim_swept s"
  shows "sim_swept s'"
  using assms(1)
proof (cases rule: sim_step.cases)
  case (device j c')
  with assms(3) stopped_handler [of J "sm_clients s ! j" c'] show ?thesis
    by (auto simp: sim_swept_def nth_list_update)
next
  case (spike clients)
  have "sm_contexts s ! (j mod thread_count s) \<noteq> Swept" for j
    using assms(2) spike by (simp add: sim_control_def)
  with spike show ?thesis by (simp add: sim_swept_def)
next
  case stop_timer
  with assms(3) show ?thesis by (simp add: sim_swept_def)
next
  case (sweep i)
  have "dc_stopped (sm_clients s' ! j)" if "j < length (sm_clients s)" "sm_contexts s' ! (j mod thread_count s) = Swept" for j
  proof (cases "j mod thread_count s = i")
    case True
    with sweep that show ?thesis by (simp add: stop_sweep_nth own_indices)
  next
    case False
    with sweep that assms(3) show ?thesis by (simp add: stop_sweep_nth own_indices sim_swept_def)
  qed
  then show ?thesis using sweep by (simp add: sim_swept_def)
next
  case (out_of_work i)
  with assms(2,3) show ?thesis by (auto simp: sim_swept_def sim_control_def nth_list_update split: if_splits)
qed

lemma sim_step_fleet:
  assumes "sim_step J s s'" "sim_control s" "sim_fleet J s" "sim_values_ok (sm_config s)"
  shows "sim_fleet J s'"
  using assms(1)
proof (cases rule: sim_step.cases)
  case (device j c')
  with assms(3) dc_handler_inv [of J "sm_clients s ! j" c'] handler_keeps_id [of J "sm_clients s ! j" c'] show ?thesis
    by (auto simp: sim_fleet_def nth_list_update)
next
  case (spike clients)
  let ?n = "unat (sc_device_count (sm_config s))" and ?k = "unat (sc_spike_count (sm_config s))"
  obtain ds where ds: "clients = sm_clients s @ ds" "length ds = ?k" "\<forall>k<?k. fresh_client J (?n + k) (ds ! k)"
    using make_clients_fresh [OF assms(4), of "map (\<lambda>i. ?n + i) [0..<?k]" "sm_clients s" J] spike by auto
  then show ?thesis using spike assms(3) by (auto simp: sim_fleet_def fresh_client_def nth_append)
next
  case (sweep i)
  have "dc_inv J (dc_stop c) = dc_inv J c" "dc_device_id (dc_stop c) = dc_device_id c" for c
    by (simp_all add: dc_inv_def dc_stop_def)
  with sweep assms(3) show ?thesis by (simp add: sim_fleet_def stop_sweep_nth)
qed (use assms(3) in \<open>auto simp: sim_fleet_def\<close>)


text \<open>The three together, over a run of the program.\<close>

definition sim_inv :: "'j json_lib \<Rightarrow> SimConfig \<Rightarrow> simulator \<Rightarrow> bool" where
  "sim_inv J config s \<longleftrightarrow> sm_config s = config \<and> sim_control s \<and> sim_fleet J s \<and> sim_swept s"

lemma sim_step_inv: "sim_step J s s' \<Longrightarrow> sim_inv J config s \<Longrightarrow> sim_values_ok config \<Longrightarrow> sim_inv J config s'"
  unfolding sim_inv_def
  using sim_step_config sim_step_control sim_step_fleet sim_step_swept by metis

lemma sim_reach_inv:
  "sim_reach J s s' \<Longrightarrow> sim_inv J config s \<Longrightarrow> sim_values_ok config \<Longrightarrow> sim_inv J config s'"
  by (induction rule: sim_reach.induct) (auto intro: sim_step_inv)

lemma sim_reach_trans: "sim_reach J s1 s2 \<Longrightarrow> sim_reach J s0 s1 \<Longrightarrow> sim_reach J s0 s2"
  by (induction rule: sim_reach.induct) (auto intro: sim_next)

lemma sim_reach_step: "sim_step J s s' \<Longrightarrow> sim_reach J s s'"
  by (rule sim_next [OF sim_begin])

lemma sim_start_inv:
  assumes "sim_values_ok config" "1 \<le> unat (sc_thread_count config)"
  shows "\<exists>s0. sim_start True config = Inr s0 \<and> sim_inv J config s0 \<and>
    length (sm_clients s0) = unat (sc_device_count config)"
proof -
  let ?n = "unat (sc_device_count config)"
  obtain ds where ds: "make_clients True config [0..<?n] [] = Inr ds" "length ds = ?n"
    "\<forall>k<?n. fresh_client J k (ds ! k)"
    using make_clients_fresh [OF assms(1), of "[0..<?n]" "[]" J] by auto
  let ?s = "\<lparr>sm_config = config, sm_clients = ds,
          sm_contexts = replicate (unat (sc_thread_count config)) Running,
          sm_posted = replicate (unat (sc_thread_count config)) False,
          sm_spike_timer = (sc_spike_count config > 0), sm_stop_timer = True\<rparr>"
  have "sim_control ?s" using assms(2) by (simp add: sim_control_def)
  moreover have "sim_fleet J ?s"
    using ds(2,3) by (auto simp: sim_fleet_def fresh_client_def word_gt_0)
  moreover have "sim_swept ?s" using assms(2) by (simp add: sim_swept_def)
  ultimately show ?thesis using ds(1,2) by (simp add: sim_start_def bind_result_Inr_iff sim_inv_def)
qed

lemma sim_parse_args_ok:
  assumes "sim_parse_args tiny_fails argv = Inr config"
  shows "sim_values_ok config \<and> 1 \<le> unat (sc_thread_count config)"
proof -
  obtain c1 where c1: "sim_apply_args tiny_fails argv sim_default_config = Inr c1" "sim_validate_config c1 = Inr config"
    using assms by (auto simp: sim_parse_args_def bind_result_Inr_iff)
  with sim_apply_args_ok [OF c1(1) sim_default_ok] sim_validate_Inr [OF c1(2)] show ?thesis by simp
qed

section \<open>The end of a run\<close>




lemma make_clients_append: "make_clients resolved config is cs = Inr cs' \<Longrightarrow> \<exists>ds. cs' = cs @ ds"
proof (induction "is" arbitrary: cs)
  case (Cons i "is")
  then obtain cs1 where cs1: "make_client resolved config i cs = Inr cs1" "make_clients resolved config is cs1 = Inr cs'"
    by (auto simp: bind_result_Inr_iff)
  then show ?case using Cons.IH [OF cs1(2)] by (auto simp: make_client_def bind_result_Inr_iff split: option.splits)
qed simp






text \<open>A context whose \<open>run()\<close> returned for want of work never runs again, and nothing else touches its devices.\<close>

lemma idle_context_frozen:
  assumes "sim_reach J s s'" "sim_control s" "j < length (sm_clients s)"
    "sm_contexts s ! (j mod thread_count s) = Out_Of_Work"
  shows "sim_control s' \<and> j < length (sm_clients s') \<and> sm_clients s' ! j = sm_clients s ! j \<and>
    sm_config s' = sm_config s \<and> sm_contexts s' ! (j mod thread_count s) = Out_Of_Work"
  using assms
proof (induction rule: sim_reach.induct)
  case (sim_next s1 s2)
  then have IH: "sim_control s1" "j < length (sm_clients s1)" "sm_clients s1 ! j = sm_clients s ! j"
    "sm_config s1 = sm_config s" "sm_contexts s1 ! (j mod thread_count s) = Out_Of_Work" by simp_all
  have "j < length (sm_clients s2) \<and> sm_clients s2 ! j = sm_clients s1 ! j \<and> 
    sm_contexts s2 ! (j mod thread_count s) = Out_Of_Work"
    using sim_next.hyps(2)
  proof (cases rule: sim_step.cases)
    case (device k c')
    then show ?thesis using IH by (cases "k = j") auto
  next
    case (spike clients)
    have "\<exists>ds. clients = sm_clients s1 @ ds" using make_clients_append [OF spike(4)] .
    then show ?thesis using IH spike by (auto simp: nth_append)
  next
    case (sweep i)
    then have "j mod thread_count s \<noteq> i" using IH by auto
    then show ?thesis using IH sweep by (simp add: stop_sweep_nth own_indices)
  next
    case (out_of_work i)
    then show ?thesis using IH by (cases "j mod thread_count s = i") auto
  qed (use IH in auto)
  then show ?case using IH sim_step_control [OF sim_next.hyps(2)] sim_step_config [OF sim_next.hyps(2)] by simp
qed simp


section \<open>Properties\<close>



text \<open>C40: A device that the spike adds to a context whose \<open>run()\<close> has already returned for want of work. Whatever happens
  after the spike, no handler of the device ever runs: its connect stays pending, it sends nothing, and the stop sweep does not
  reach it.\<close>

theorem spike_device_never_runs:
  assumes "sim_parse_args tiny_fails argv = Inr config" "sim_start True config = Inr s0" "sim_reach J s0 s"
    "sm_spike_timer s" "sim_step J s s1" "\<not> sm_spike_timer s1"
    "length (sm_clients s) \<le> j" "j < length (sm_clients s1)" "sm_contexts s1 ! (j mod thread_count s1) = Out_Of_Work"
    "sim_reach J s1 s'"
  shows "j < length (sm_clients s') \<and> dc_device_id (sm_clients s' ! j) = of_nat j \<and> dc_connecting (sm_clients s' ! j) \<and>
    dc_history (sm_clients s' ! j) = [] \<and> dc_events_sent (sm_clients s' ! j) = 0 \<and> \<not> dc_stopped (sm_clients s' ! j)"
proof -
  have ok: "sim_values_ok config" "1 \<le> unat (sc_thread_count config)" using sim_parse_args_ok [OF assms(1)] by simp_all
  have "sim_inv J config s0" using sim_start_inv [OF ok, of J] assms(2) by auto
  from sim_reach_inv [OF assms(3) this ok(1)] have inv: "sim_inv J config s" .
  then have s: "sm_config s = config" "length (sm_clients s) = unat (sc_device_count config)"
    using assms(4) by (simp_all add: sim_inv_def sim_fleet_def)
  let ?n = "unat (sc_device_count config)" and ?k = "unat (sc_spike_count config)"
  obtain clients where s1: "s1 = s\<lparr>sm_clients := clients, sm_spike_timer := False\<rparr>"
    "make_clients True config (map (\<lambda>i. ?n + i) [0..<?k]) (sm_clients s) = Inr clients"
    using assms(5) by (cases rule: sim_step.cases) (use assms(4,6) s(1) in auto)
  obtain ds where ds: "clients = sm_clients s @ ds" "length ds = ?k" "\<forall>k<?k. fresh_client J (?n + k) (ds ! k)"
    using make_clients_fresh [OF ok(1), of "map (\<lambda>i. ?n + i) [0..<?k]" "sm_clients s" J] s1(2) by auto
  have "j - ?n < ?k" using assms(7,8) ds(1,2) s(2) s1(1) by simp
  then have "fresh_client J j (sm_clients s1 ! j)" using ds assms(7) s(2) s1(1) by (auto simp: nth_append)
  moreover have "sim_control s1" using sim_step_inv [OF assms(5) inv ok(1)] by (simp add: sim_inv_def)
  ultimately show ?thesis
    using idle_context_frozen [OF assms(10) _ assms(8,9)] by (simp add: fresh_client_def)
qed

text \<open>One device, two threads and a spike of one device: the second context can be out of work before the spike.\<close>

lemma idle_spike_run:
  fixes J :: "'j json_lib"
  defines "config \<equiv> sim_default_config\<lparr>sc_device_count := 1, sc_thread_count := 2, sc_spike_count := 1\<rparr>"
  shows "\<exists>s0 s s1. sim_start True config = Inr s0 \<and> sim_reach J s0 s \<and> sm_spike_timer s \<and> sim_step J s s1 \<and>
    \<not> sm_spike_timer s1 \<and> length (sm_clients s) = 1 \<and> length (sm_clients s1) = 2 \<and>
    sm_contexts s1 ! (1 mod thread_count s1) = Out_Of_Work"
proof -
  have f: "unat (sc_device_count config) = 1" "unat (sc_thread_count config) = 2" "unat (sc_spike_count config) = 1"
    by (simp_all add: config_def sim_default_config_def)
  have ok: "sim_values_ok config" using sim_default_ok by (simp add: config_def sim_values_ok_def)
  obtain s0 where s0: "sim_start True config = Inr s0" "length (sm_clients s0) = 1"
    using sim_start_inv [OF ok, of J] f by auto
  have init: "sm_config s0 = config" "sm_contexts s0 = [Running, Running]" "sm_posted s0 = [False, False]" "sm_spike_timer s0"
    using s0(1) f by (auto simp: sim_start_def bind_result_Inr_iff numeral_2_eq_2 config_def)
  define s where "s = s0\<lparr>sm_contexts := [Running, Out_Of_Work]\<rparr>"
  have "sim_step J s0 (s0\<lparr>sm_contexts := (sm_contexts s0)[1 := Out_Of_Work]\<rparr>)"
    by (rule out_of_work) (use init f s0(2) in \<open>auto simp: context_busy_def\<close>)
  then have r: "sim_reach J s0 s" using sim_reach_step init by (simp add: s_def)
  obtain c where c: "make_clients True config [1] (sm_clients s0) = Inr (sm_clients s0 @ [c])"
    using make_clients_fresh [OF ok, of "[1]" "sm_clients s0" J] by (auto simp: length_Suc_conv)
  define s1 where "s1 = s\<lparr>sm_clients := sm_clients s0 @ [c], sm_spike_timer := False\<rparr>"
  have "sim_step J s s1" unfolding s1_def by (rule spike) (use init f c in \<open>simp_all add: s_def\<close>)
  then show ?thesis using s0 r init f by (intro exI [of _ s0] exI [of _ s] exI [of _ s1]) (simp add: s_def s1_def)
qed

section \<open>Witnesses\<close>



lemma idle_spike_parsed:
  "sim_parse_args tiny_fails [''--devices='' @ to_string 1, ''--threads='' @ to_string 2, ''--chaos-device-spike='' @ to_string 1] =
   Inr (sim_default_config\<lparr>sc_device_count := 1, sc_thread_count := 2, sc_spike_count := 1\<rparr>)"
proof -
  have "sim_apply_arg tiny_fails (''--devices='' @ to_string 1) c = Inr (c\<lparr>sc_device_count := 1\<rparr>)"
    "sim_apply_arg tiny_fails (''--threads='' @ to_string 2) c = Inr (c\<lparr>sc_thread_count := 2\<rparr>)"
    "sim_apply_arg tiny_fails (''--chaos-device-spike='' @ to_string 1) c = Inr (c\<lparr>sc_spike_count := 1\<rparr>)" for c
    using parse_positive_size_to_string [of 1] parse_positive_size_to_string [of 2]
    by (simp_all add: sim_apply_arg_def starts_with_def with_value_def arg_value_def)
  then show ?thesis
    unfolding sim_parse_args_def sim_apply_args.simps
    by (simp add: sim_validate_config_def sim_default_config_def del: append.simps)
qed

theorem spike_device_never_runs_witness:
  "\<exists>s0 s. sim_start True (sim_default_config\<lparr>sc_device_count := 1, sc_thread_count := 2, sc_spike_count := 1\<rparr>) = Inr s0 \<and>
     sim_reach bit_lib s0 s \<and> length (sm_clients s) = 2 \<and>
     dc_connecting (sm_clients s ! 1) \<and> dc_events_sent (sm_clients s ! 1) = 0 \<and> \<not> dc_stopped (sm_clients s ! 1)"
proof -
  obtain s0 s s1 where run: "sim_start True (sim_default_config\<lparr>sc_device_count := 1, sc_thread_count := 2, sc_spike_count := 1\<rparr>) = Inr s0"
    "sim_reach bit_lib s0 s" "sm_spike_timer s" "sim_step bit_lib s s1" "\<not> sm_spike_timer s1"
    "length (sm_clients s) = 1" "length (sm_clients s1) = 2" "sm_contexts s1 ! (1 mod thread_count s1) = Out_Of_Work"
    using idle_spike_run [of bit_lib] by blast
  from spike_device_never_runs [OF idle_spike_parsed run(1-5) _ _ run(8) sim_begin] run(6,7) sim_next [OF run(2,4)] run(1)
  show ?thesis by (intro exI [of _ s0] exI [of _ s1]) simp
qed

section \<open>The exit status\<close>

lemma unresolved_fleet:
  assumes "i \<in> set is"
  shows "\<exists>e. make_clients False config is clients = Inl e"
proof -
  obtain j js where "is = j # js" using assms by (cases "is") auto
  then show ?thesis by (auto simp: make_client_def dc_connect_def bind_result_def split: option.splits)
qed

text \<open>The program returns 0 exactly when the command line is accepted and the host of the devices, if there are any, resolves;
  otherwise it prints the reason and returns 1.\<close>

theorem sim_setup_outcome:
  "snd (sim_status (sim_setup tiny_fails resolved argv)) =
     (case sim_parse_args tiny_fails argv of
        Inl e \<Rightarrow> 1
      | Inr config \<Rightarrow> of_bool (\<not> resolved \<and> sc_device_count config \<noteq> 0)) \<and>
   (\<forall>e. sim_parse_args tiny_fails argv = Inl e \<longrightarrow>
      fst (sim_status (sim_setup tiny_fails resolved argv)) = ''edgeflow-simulator: '' @ what e @ [CHR 0x0A])"
proof (cases "sim_parse_args tiny_fails argv")
  case (Inl e)
  then show ?thesis by (simp add: sim_status_def sim_setup_def main_status_def bind_result_def)
next
  case (Inr config)
  have ok: "sim_values_ok config" "1 \<le> unat (sc_thread_count config)" using sim_parse_args_ok [OF Inr] by simp_all
  have "(\<exists>s. sim_start resolved config = Inr s) \<longleftrightarrow> resolved \<or> sc_device_count config = 0"
  proof (cases "resolved \<or> sc_device_count config = 0")
    case True
    then show ?thesis using sim_start_inv [OF ok, of undefined] by (cases resolved) (auto simp: sim_start_def)
  next
    case False
    then have "0 \<in> set [0..<unat (sc_device_count config)]" by (simp add: unat_gt_0)
    from unresolved_fleet [OF this, of config "[]"] False show ?thesis by (auto simp: sim_start_def bind_result_def)
  qed
  with Inr show ?thesis
    by (cases "sim_start resolved config") (auto simp: sim_status_def sim_setup_def main_status_def)
qed

end
