(* ===== verification/Sink_Roundtrip.thy ===== *)
theory Sink_Roundtrip
  imports Http_Sink Gateway_Config
begin

text \<open>
  \<^verbatim>\<open>gateway/src/bench_sink_roundtrip.cpp\<close>: the harness that measures where the time of a POST to the back
  end goes. What the clock and the network answer during one round trip is the record \<open>bench_net\<close>; a
  number of milliseconds is a double. The texts that \<open>printf\<close> makes are not modelled, the numbers in
  them are.
\<close>

section \<open>Arithmetic\<close>

fun double_mul :: "cpp_double \<Rightarrow> cpp_double \<Rightarrow> cpp_double" where
  "double_mul (Finite_Double s m e) (Finite_Double s' m' e') =
     round_frac (s \<noteq> s') (m * m' * 2 ^ nat (e + e')) (2 ^ nat (- (e + e')))"
| "double_mul (Infinite_Double s) (Finite_Double s' m' e') = (if m' = 0 then NaN_Double else Infinite_Double (s \<noteq> s'))"
| "double_mul (Finite_Double s m e) (Infinite_Double s') = (if m = 0 then NaN_Double else Infinite_Double (s \<noteq> s'))"
| "double_mul (Infinite_Double s) (Infinite_Double s') = Infinite_Double (s \<noteq> s')"
| "double_mul _ _ = NaN_Double"

fun double_add :: "cpp_double \<Rightarrow> cpp_double \<Rightarrow> cpp_double" where
  "double_add (Finite_Double s m e) (Finite_Double s' m' e') =
     (let E = min e e'; v = signed_scaled E s m e + signed_scaled E s' m' e'
      in round_frac (if v = 0 then s \<and> s' else v < 0) (nat \<bar>v\<bar> * 2 ^ nat E) (2 ^ nat (- E)))"
| "double_add (Infinite_Double s) (Infinite_Double s') = (if s = s' then Infinite_Double s else NaN_Double)"
| "double_add (Infinite_Double s) (Finite_Double s' m' e') = Infinite_Double s"
| "double_add (Finite_Double s m e) (Infinite_Double s') = Infinite_Double s'"
| "double_add _ _ = NaN_Double"

section \<open>Target and body\<close>

record Steps =
  sp_resolve_ms :: cpp_double
  sp_connect_ms :: cpp_double
  sp_write_ms :: cpp_double
  sp_wait_ms :: cpp_double
  sp_read_ms :: cpp_double
  sp_total_ms :: cpp_double

definition steps_new :: Steps where
  "steps_new = (let z = double_of_nat 0 in
     \<lparr>sp_resolve_ms = z, sp_connect_ms = z, sp_write_ms = z, sp_wait_ms = z, sp_read_ms = z, sp_total_ms = z\<rparr>)"

record BenchTarget =
  bt_host :: string
  bt_port :: string
  bt_path :: string

definition bench_parse_url :: "string \<Rightarrow> BenchTarget result" where
  "bench_parse_url url =
     (if \<not> has_prefix ''http://'' url then Inl (Invalid_Argument (''--url must start with http:// , got: '' @ url))
      else let rest = drop 7 url;
               authority = before CHR ''/'' rest;
               path = (case from_char CHR ''/'' rest of None \<Rightarrow> ''/'' | Some p \<Rightarrow> p)
           in case from_char CHR '':'' authority of
                None \<Rightarrow> Inr \<lparr>bt_host = authority, bt_port = ''80'', bt_path = path\<rparr>
              | Some colon_port \<Rightarrow>
                  Inr \<lparr>bt_host = before CHR '':'' authority, bt_port = tl colon_port, bt_path = path\<rparr>)"

definition bench_event :: "nat \<Rightarrow> Event" where
  "bench_event i = \<lparr>ev_device_id = of_nat (9000 + i mod 100), ev_timestamp = ''2026-08-31T00:00:00Z'',
     ev_temperature = round_frac False 205 10, ev_battery = 90, ev_latitude = round_frac False 377749 10000,
     ev_longitude = round_frac True 1224194 10000, ev_event_type = ''telemetry''\<rparr>"

text \<open>\<open>None\<close>: an exception of the serialiser.\<close>

fun body_loop :: "'j json_lib \<Rightarrow> string \<Rightarrow> nat list \<Rightarrow> string option" where
  "body_loop J body [] = Some body"
| "body_loop J body (i # is) =
     (case serialize_event J (bench_event i) of
        None \<Rightarrow> None
      | Some line \<Rightarrow> body_loop J ((body @ line) @ [CHR 0x0A]) is)"

definition make_body :: "'j json_lib \<Rightarrow> nat \<Rightarrow> string option" where
  "make_body J rows = body_loop J [] [0..<rows]"

section \<open>One round trip\<close>

record bench_net =
  bn_resolve_error :: bool
  bn_connect_error :: bool
  bn_write_error :: bool
  bn_wait_error :: bool
  bn_read_error :: bool
  bn_status :: nat
  bn_resolve_ms :: cpp_double
  bn_connect_ms :: cpp_double
  bn_write_ms :: cpp_double
  bn_wait_ms :: cpp_double
  bn_read_ms :: cpp_double
  bn_total_ms :: cpp_double

definition bench_request :: "BenchTarget \<Rightarrow> string \<Rightarrow> u64 \<Rightarrow> Request" where
  "bench_request target body sequence = \<lparr>rq_target = bt_path target, rq_host = bt_host target,
     rq_user_agent = ''edgeflow-bench-sink'', rq_content_type = ''application/x-ndjson'',
     rq_idempotency_key = ''bench-'' @ to_string (unat sequence), rq_body = body\<rparr>"

text \<open>The result, the steps, and the requests handed to the network.\<close>

definition one_round_trip ::
    "BenchTarget \<Rightarrow> string \<Rightarrow> u64 \<Rightarrow> bench_net \<Rightarrow> Steps \<Rightarrow> bool \<times> Steps \<times> Request list" where
  "one_round_trip target body sequence n steps =
     (let steps = steps\<lparr>sp_resolve_ms := bn_resolve_ms n\<rparr>
      in if bn_resolve_error n then (False, steps, [])
      else let steps = steps\<lparr>sp_connect_ms := bn_connect_ms n\<rparr>
      in if bn_connect_error n then (False, steps, [])
      else let sent = [bench_request target body sequence];
               steps = steps\<lparr>sp_write_ms := bn_write_ms n\<rparr>
      in if bn_write_error n then (False, steps, sent)
      else let steps = steps\<lparr>sp_wait_ms := bn_wait_ms n\<rparr>
      in if bn_wait_error n then (False, steps, sent)
      else let steps = steps\<lparr>sp_read_ms := bn_read_ms n\<rparr>
      in if bn_read_error n then (False, steps, sent)
      else (bn_status n \<ge> 200 \<and> bn_status n < 300, steps\<lparr>sp_total_ms := bn_total_ms n\<rparr>, sent))"

section \<open>Summaries\<close>

text \<open>\<open>std::sort\<close> with the order of doubles.\<close>

fun insert_double :: "cpp_double \<Rightarrow> cpp_double list \<Rightarrow> cpp_double list" where
  "insert_double x [] = [x]"
| "insert_double x (y # ys) = (if double_less y x then y # insert_double x ys else x # y # ys)"

definition sort_doubles :: "cpp_double list \<Rightarrow> cpp_double list" where
  "sort_doubles xs = foldr insert_double xs []"

definition median :: "cpp_double list \<Rightarrow> cpp_double" where
  "median values = (if values = [] then double_of_nat 0 else sort_doubles values ! (length values div 2))"

text \<open>The double nearest to 0.90 is \<open>8106479329266893 / 2 ^ 53\<close>; the product is rounded, then truncated.\<close>

definition fraction_p90 :: nat where
  "fraction_p90 = 8106479329266893"

definition bench_percentile :: "cpp_double list \<Rightarrow> nat \<Rightarrow> cpp_double" where
  "bench_percentile values fraction =
     (if values = [] then double_of_nat 0
      else sort_doubles values ! (round_sig53 (fraction * round_sig53 (length values - 1)) div 2 ^ 53))"

definition min_element :: "cpp_double list \<Rightarrow> cpp_double" where
  "min_element xs = foldl (\<lambda>a x. if double_less x a then x else a) (hd xs) (tl xs)"

definition max_element :: "cpp_double list \<Rightarrow> cpp_double" where
  "max_element xs = foldl (\<lambda>a x. if double_less a x then x else a) (hd xs) (tl xs)"

record bench_report =
  br_label :: string
  br_median :: cpp_double
  br_p90 :: cpp_double
  br_min :: cpp_double
  br_max :: cpp_double
  br_share :: cpp_double

definition report :: "string \<Rightarrow> cpp_double list \<Rightarrow> cpp_double \<Rightarrow> bench_report" where
  "report label values total_median =
     (let med = median values;
          share = (if double_less (double_of_nat 0) total_median
                   then double_mul (double_div med total_median) (double_of_nat 100) else double_of_nat 0)
      in \<lparr>br_label = label, br_median = med, br_p90 = bench_percentile values fraction_p90,
          br_min = min_element values, br_max = max_element values, br_share = share\<rparr>)"

section \<open>main\<close>

datatype bench_end = Returned nat | Uncaught cpp_exception

record bench_args =
  bg_url :: string
  bg_reps :: u64
  bg_rows :: u64

definition bench_default_args :: bench_args where
  "bench_default_args = \<lparr>bg_url = ''http://127.0.0.1:3000/v1/events'', bg_reps = 500, bg_rows = 100\<rparr>"

text \<open>\<^verbatim>\<open>arg.substr(arg.find('=') + 1)\<close>, which is the whole string when there is no \<open>=\<close>.\<close>

definition bench_arg_value :: "string \<Rightarrow> string" where
  "bench_arg_value arg = (case from_char CHR ''='' arg of None \<Rightarrow> arg | Some rest \<Rightarrow> tl rest)"

fun bench_apply_args :: "string list \<Rightarrow> bench_args \<Rightarrow> bench_end + bench_args" where
  "bench_apply_args [] a = Inr a"
| "bench_apply_args (arg # argv) a =
     (if starts_with arg ''--url='' then bench_apply_args argv (a\<lparr>bg_url := bench_arg_value arg\<rparr>)
      else if starts_with arg ''--reps='' then
        (case stoul (bench_arg_value arg) of
           Inl e \<Rightarrow> Inl (Uncaught e) | Inr (v, _) \<Rightarrow> bench_apply_args argv (a\<lparr>bg_reps := v\<rparr>))
      else if starts_with arg ''--rows='' then
        (case stoul (bench_arg_value arg) of
           Inl e \<Rightarrow> Inl (Uncaught e) | Inr (v, _) \<Rightarrow> bench_apply_args argv (a\<lparr>bg_rows := v\<rparr>))
      else Inl (Returned 2))"

record bench_state =
  bs_resolve :: "cpp_double list"
  bs_connect :: "cpp_double list"
  bs_write :: "cpp_double list"
  bs_wait :: "cpp_double list"
  bs_read :: "cpp_double list"
  bs_total :: "cpp_double list"
  bs_sequence :: u64
  bs_failures :: nat
  bs_sent :: "Request list"   \<comment> \<open>history: what was handed to the network\<close>

definition bench_start :: bench_state where
  "bench_start = \<lparr>bs_resolve = [], bs_connect = [], bs_write = [], bs_wait = [], bs_read = [], bs_total = [],
     bs_sequence = 0, bs_failures = 0, bs_sent = []\<rparr>"

definition bench_warm_up :: "BenchTarget \<Rightarrow> string \<Rightarrow> bench_net \<Rightarrow> bench_state \<Rightarrow> bench_state" where
  "bench_warm_up target body n s =
     (let (_, _, sent) = one_round_trip target body (bs_sequence s) n steps_new
      in s\<lparr>bs_sequence := bs_sequence s + 1, bs_sent := bs_sent s @ sent\<rparr>)"

definition bench_rep :: "BenchTarget \<Rightarrow> string \<Rightarrow> bench_net \<Rightarrow> bench_state \<Rightarrow> bench_state" where
  "bench_rep target body n s =
     (let (good, steps, sent) = one_round_trip target body (bs_sequence s) n steps_new;
          s = s\<lparr>bs_sequence := bs_sequence s + 1, bs_sent := bs_sent s @ sent\<rparr>
      in if \<not> good then s\<lparr>bs_failures := bs_failures s + 1\<rparr>
         else s\<lparr>bs_resolve := bs_resolve s @ [sp_resolve_ms steps], bs_connect := bs_connect s @ [sp_connect_ms steps],
                bs_write := bs_write s @ [sp_write_ms steps], bs_wait := bs_wait s @ [sp_wait_ms steps],
                bs_read := bs_read s @ [sp_read_ms steps], bs_total := bs_total s @ [sp_total_ms steps]\<rparr>)"

text \<open>\<open>nets i\<close> is what round trip \<open>i\<close> meets, the warm-up being number 0.\<close>

definition bench_measure :: "BenchTarget \<Rightarrow> string \<Rightarrow> (nat \<Rightarrow> bench_net) \<Rightarrow> nat \<Rightarrow> bench_state" where
  "bench_measure target body nets reps =
     fold (\<lambda>i. bench_rep target body (nets (Suc i))) [0..<reps] (bench_warm_up target body (nets 0) bench_start)"

definition bench_reports :: "bench_state \<Rightarrow> bench_report list" where
  "bench_reports s =
     (let total_median = median (bs_total s)
      in [report ''resolve'' (bs_resolve s) total_median, report ''connect'' (bs_connect s) total_median,
          report ''write'' (bs_write s) total_median, report ''wait'' (bs_wait s) total_median,
          report ''read'' (bs_read s) total_median, report ''TOTAL'' (bs_total s) total_median])"

definition gate_answers :: "bench_state \<Rightarrow> cpp_double \<times> cpp_double" where
  "gate_answers s =
     (let total_median = median (bs_total s)
      in (double_mul (double_div (median (bs_wait s)) total_median) (double_of_nat 100),
          double_mul (double_div (double_add (median (bs_resolve s)) (median (bs_connect s))) total_median)
            (double_of_nat 100)))"

text \<open>The exit code, and what was printed when there was something to report.\<close>

definition bench_main ::
    "'j json_lib \<Rightarrow> (nat \<Rightarrow> bench_net) \<Rightarrow> string list \<Rightarrow>
     bench_end + bench_report list \<times> nat \<times> nat \<times> cpp_double \<times> cpp_double" where
  "bench_main J nets argv =
     (case bench_apply_args argv bench_default_args of
        Inl e \<Rightarrow> Inl e
      | Inr a \<Rightarrow>
          (case bench_parse_url (bg_url a) of
             Inl e \<Rightarrow> Inl (Uncaught e)
           | Inr target \<Rightarrow>
               (case make_body J (unat (bg_rows a)) of
                  None \<Rightarrow> Inl (Uncaught (Runtime_Error ''serialize_event''))
                | Some body \<Rightarrow>
                    let s = bench_measure target body nets (unat (bg_reps a))
                    in if bs_total s = [] then Inl (Returned 1)
                       else Inr (bench_reports s, length (bs_total s), bs_failures s, gate_answers s))))"


section \<open>Sorting doubles\<close>

lemma mset_insert_double: "mset (insert_double x ys) = add_mset x (mset ys)"
  by (induction ys) auto

lemma mset_sort_doubles [simp]: "mset (sort_doubles xs) = mset xs"
  unfolding sort_doubles_def by (induction xs) (simp_all add: mset_insert_double)

lemma set_sort_doubles [simp]: "set (sort_doubles xs) = set xs"
  using mset_sort_doubles by (rule mset_eq_setD)

lemma length_sort_doubles [simp]: "length (sort_doubles xs) = length xs"
  using mset_sort_doubles by (rule mset_eq_length)

lemma insert_double_sorted:
  assumes "isfinite x" "\<forall>y\<in>set ys. isfinite y" "sorted (map real_of_double ys)"
  shows "sorted (map real_of_double (insert_double x ys))"
  using assms(2,3)
proof (induction ys)
  case (Cons y ys)
  have less: "double_less y x \<longleftrightarrow> real_of_double y < real_of_double x"
    using Cons.prems(1) assms(1) by (intro double_less_real) simp_all
  have "set (insert_double x ys) = insert x (set ys)"
    by (metis mset_insert_double set_mset_add_mset_insert set_mset_mset)
  with Cons less show ?case by (auto simp: not_less)
qed simp

lemma sort_doubles_sorted:
  assumes "\<forall>x\<in>set xs. isfinite x"
  shows "sorted (map real_of_double (sort_doubles xs))"
  using assms
proof (induction xs)
  case (Cons x xs)
  have "sort_doubles (x # xs) = insert_double x (sort_doubles xs)" by (simp add: sort_doubles_def)
  with Cons show ?case by (simp add: insert_double_sorted)
qed (simp add: sort_doubles_def)

text \<open>How many elements are on either side of the element at a place of the sorted list.\<close>

lemma rank_of_place:
  fixes xs :: "cpp_double list"
  assumes "\<forall>x\<in>set xs. isfinite x" "k < length xs"
  defines "m \<equiv> sort_doubles xs ! k"
  shows "m \<in> set xs \<and> k < length (filter (\<lambda>x. real_of_double x \<le> real_of_double m) xs) \<and>
    length xs - k \<le> length (filter (\<lambda>x. real_of_double m \<le> real_of_double x) xs)"
proof -
  let ?zs = "sort_doubles xs" and ?r = real_of_double
  have sorted: "sorted (map ?r ?zs)" using assms(1) by (rule sort_doubles_sorted)
  have le: "?r (?zs ! i) \<le> ?r (?zs ! j)" if "i \<le> j" "j < length xs" for i j
    using sorted_nth_mono [OF sorted, of i j] that by simp
  have move: "length (filter P xs) = length (filter P ?zs)" for P
    by (metis mset_filter mset_sort_doubles size_mset)
  have "{..k} \<subseteq> {i. i < length ?zs \<and> ?r (?zs ! i) \<le> ?r m}"
    using assms(2) le by (auto simp: m_def)
  then have "card {..k} \<le> length (filter (\<lambda>x. ?r x \<le> ?r m) ?zs)"
    unfolding length_filter_conv_card by (intro card_mono) simp_all
  moreover have "{k..<length xs} \<subseteq> {i. i < length ?zs \<and> ?r m \<le> ?r (?zs ! i)}"
    using le by (auto simp: m_def)
  then have "card {k..<length xs} \<le> length (filter (\<lambda>x. ?r m \<le> ?r x) ?zs)"
    unfolding length_filter_conv_card by (intro card_mono) simp_all
  moreover have "m \<in> set xs" using nth_mem [of k ?zs] assms(2) by (simp add: m_def)
  ultimately show ?thesis by (simp add: move)
qed

text \<open>A fraction below 1 of the last index is an index.\<close>

lemma fraction_index:
  assumes "fraction < 2 ^ 53" "n < 2 ^ 53"
  shows "round_sig53 (fraction * round_sig53 n) div 2 ^ 53 \<le> n"
proof (cases "n = 0")
  case False
  have "fraction * n * (2 ^ 53 + 1) \<le> (2 ^ 53 - 1) * n * (2 ^ 53 + 1)"
    using assms(1) by (intro mult_right_mono) auto
  also have "\<dots> < n * 2 ^ 53 * 2 ^ 53" using False by (simp add: algebra_simps)
  finally have "round_sig53 (fraction * n) * 2 ^ 53 < n * 2 ^ 53 * 2 ^ 53"
    using round_sig53_upper [of "fraction * n"] by linarith
  then have "round_sig53 (fraction * n) < n * 2 ^ 53" by simp
  then show ?thesis using assms(2) by (simp add: less_mult_imp_div_less less_imp_le)
qed simp

lemma min_element_least:
  assumes "xs \<noteq> []" "\<forall>x\<in>set xs. isfinite x"
  shows "min_element xs \<in> set xs \<and> (\<forall>x\<in>set xs. real_of_double (min_element xs) \<le> real_of_double x)"
proof -
  have "foldl (\<lambda>a x. if double_less x a then x else a) a ys \<in> set (a # ys) \<and>
      (\<forall>x\<in>set (a # ys). real_of_double (foldl (\<lambda>a x. if double_less x a then x else a) a ys) \<le> real_of_double x)"
    if "\<forall>x\<in>set (a # ys). isfinite x" for a ys
    using that
  proof (induction ys arbitrary: a)
    case (Cons y ys)
    have "double_less y a \<longleftrightarrow> real_of_double y < real_of_double a" using Cons.prems by (intro double_less_real) simp_all
    with Cons.IH [of "if double_less y a then y else a"] Cons.prems show ?case by fastforce
  qed simp
  from this [of "hd xs" "tl xs"] assms show ?thesis by (simp add: min_element_def)
qed

lemma max_element_greatest:
  assumes "xs \<noteq> []" "\<forall>x\<in>set xs. isfinite x"
  shows "max_element xs \<in> set xs \<and> (\<forall>x\<in>set xs. real_of_double x \<le> real_of_double (max_element xs))"
proof -
  have "foldl (\<lambda>a x. if double_less a x then x else a) a ys \<in> set (a # ys) \<and>
      (\<forall>x\<in>set (a # ys). real_of_double x \<le> real_of_double (foldl (\<lambda>a x. if double_less a x then x else a) a ys))"
    if "\<forall>x\<in>set (a # ys). isfinite x" for a ys
    using that
  proof (induction ys arbitrary: a)
    case (Cons y ys)
    have "double_less a y \<longleftrightarrow> real_of_double a < real_of_double y" using Cons.prems by (intro double_less_real) simp_all
    with Cons.IH [of "if double_less a y then y else a"] Cons.prems show ?case by fastforce
  qed simp
  from this [of "hd xs" "tl xs"] assms show ?thesis by (simp add: max_element_def)
qed

section \<open>Counting the repetitions\<close>

lemma body_loop_batch: "body_loop J body is = batch_body J body (map bench_event is)"
  by (induction "is" arbitrary: body) (auto split: option.splits)

lemma round_trip_sent:
  "one_round_trip target body sequence n steps = (good, steps', sent) \<Longrightarrow>
   sent = [] \<or> sent = [bench_request target body sequence]"
  by (auto simp: one_round_trip_def Let_def split: if_splits)

definition bench_inv :: "BenchTarget \<Rightarrow> string \<Rightarrow> nat \<Rightarrow> bench_state \<Rightarrow> bool" where
  "bench_inv target body k s \<longleftrightarrow>
     length (bs_total s) + bs_failures s = k \<and> bs_sequence s = of_nat (Suc k) \<and>
     length (bs_resolve s) = length (bs_total s) \<and> length (bs_connect s) = length (bs_total s) \<and>
     length (bs_write s) = length (bs_total s) \<and> length (bs_wait s) = length (bs_total s) \<and>
     length (bs_read s) = length (bs_total s) \<and>
     (\<exists>is. bs_sent s = map (\<lambda>i. bench_request target body (of_nat i)) is \<and> distinct is \<and> set is \<subseteq> {..k})"

lemma bench_rep_inv:
  assumes "bench_inv target body k s"
  shows "bench_inv target body (Suc k) (bench_rep target body n s)"
proof -
  obtain good steps sent where r: "one_round_trip target body (bs_sequence s) n steps_new = (good, steps, sent)"
    by (metis prod_cases3)
  from assms obtain "is" where i: "bs_sent s = map (\<lambda>i. bench_request target body (of_nat i)) is" "distinct is" "set is \<subseteq> {..k}"
    "bs_sequence s = of_nat (Suc k)" by (auto simp: bench_inv_def)
  let ?P = "\<lambda>reqs. \<exists>is. reqs = map (\<lambda>i. bench_request target body (of_nat i)) is \<and> distinct is \<and> set is \<subseteq> {..Suc k}"
  have "?P (bs_sent s @ sent)"
  proof (cases "sent = []")
    case True
    then show ?thesis using i by (intro exI [of _ "is"]) auto
  next
    case False
    then have "sent = [bench_request target body (of_nat (Suc k))]" using round_trip_sent [OF r] i(4) by simp
    moreover have "Suc k \<notin> set is" using i(3) by auto
    ultimately show ?thesis using i by (intro exI [of _ "is @ [Suc k]"]) auto
  qed
  then show ?thesis using assms r i(4) by (cases good) (simp_all add: bench_rep_def bench_inv_def Let_def)
qed

lemma bench_warm_up_inv: "bench_inv target body 0 (bench_warm_up target body n bench_start)"
proof -
  obtain good steps sent where r: "one_round_trip target body 0 n steps_new = (good, steps, sent)"
    by (metis prod_cases3)
  have "\<exists>is. sent = map (\<lambda>i. bench_request target body (of_nat i)) is \<and> distinct is \<and> set is \<subseteq> {0}"
    using round_trip_sent [OF r] by (auto intro: exI [of _ "[]"] exI [of _ "[0]"])
  then show ?thesis using r by (simp add: bench_warm_up_def bench_start_def bench_inv_def)
qed

lemma bench_measure_inv: "bench_inv target body reps (bench_measure target body nets reps)"
  unfolding bench_measure_def
  by (induction reps) (simp_all add: bench_warm_up_inv bench_rep_inv)

lemma bench_key_inj: "i < 2 ^ 64 \<Longrightarrow> j < 2 ^ 64 \<Longrightarrow>
  rq_idempotency_key (bench_request target body (of_nat i)) = rq_idempotency_key (bench_request target body (of_nat j)) \<Longrightarrow>
  i = j"
  by (simp add: bench_request_def take_bit_nat_eq_self unsigned_of_nat to_string_inject)

section \<open>Properties\<close>

text \<open>The numbers of a report. For measurements that are finite, the median and the 90th percentile are
  measurements with at least the right number of others on either side, the extremes are the
  extremes, and no index is out of range.\<close>

theorem bench_summary_right:
  assumes "values \<noteq> []" "list_all isfinite values" "length values < 2 ^ 53"
    and "n = length values" "t = round_sig53 (fraction_p90 * (n - 1)) div 2 ^ 53" "r = report label values total_median"
  shows "br_median r \<in> set values \<and> t < n \<and> br_p90 r \<in> set values \<and>
    n div 2 < length (filter (\<lambda>x. real_of_double x \<le> real_of_double (br_median r)) values) \<and>
    n - n div 2 \<le> length (filter (\<lambda>x. real_of_double (br_median r) \<le> real_of_double x) values) \<and>
    t < length (filter (\<lambda>x. real_of_double x \<le> real_of_double (br_p90 r)) values) \<and>
    n - t \<le> length (filter (\<lambda>x. real_of_double (br_p90 r) \<le> real_of_double x) values) \<and>
    br_min r \<in> set values \<and> br_max r \<in> set values \<and>
    real_of_double ` set values \<subseteq> {real_of_double (br_min r)..real_of_double (br_max r)}"
proof -
  have fin: "\<forall>x\<in>set values. isfinite x" using assms(2) by (simp add: list_all_iff)
  have n: "0 < n" "n div 2 < length values" using assms(1,4) by auto
  have idx: "round_sig53 (fraction_p90 * round_sig53 (length values - 1)) div 2 ^ 53 \<le> length values - 1"
    by (rule fraction_index) (use assms(3) in \<open>simp_all add: fraction_p90_def\<close>)
  have t: "t = round_sig53 (fraction_p90 * round_sig53 (length values - 1)) div 2 ^ 53"
    using assms(3-5) by simp
  have "t \<le> length values - 1" unfolding t by (rule idx)
  then have tn: "t < length values" using n(1) unfolding assms(4) by arith
  have med: "br_median r = sort_doubles values ! (n div 2)" and p90: "br_p90 r = sort_doubles values ! t"
    using assms(1,4,6) by (simp_all add: report_def median_def bench_percentile_def t Let_def)
  have ends: "br_min r = min_element values" "br_max r = max_element values"
    using assms(6) by (simp_all add: report_def Let_def)
  show ?thesis
    using rank_of_place [OF fin n(2)] rank_of_place [OF fin tn] min_element_least [OF assms(1) fin]
      max_element_greatest [OF assms(1) fin] tn
    by (auto simp: med p90 ends assms(4))
qed

text \<open>The harness measures the traffic of the sink: a plain URL the sink accepts is split in the same way, and
  the body is the one the sink makes of the same events.\<close>

theorem bench_matches_sink:
  assumes "parse_url url = Inr t" "\<not> tg_use_tls t"
  shows "bench_parse_url url = Inr \<lparr>bt_host = tg_host t, bt_port = tg_port t, bt_path = tg_path t\<rparr> \<and>
    make_body J rows = batch_body J [] (map bench_event [0..<rows])"
proof -
  have "parse_rest url False (drop 7 url) = Inr t" "has_prefix ''http://'' url"
    using assms
    by (auto simp: parse_url_def parse_rest_def parse_authority_def Let_def split: if_splits option.splits)
  then show ?thesis
    by (auto simp: bench_parse_url_def make_body_def body_loop_batch parse_rest_def parse_authority_def Let_def
        split: if_splits option.splits)
qed

text \<open>Every repetition is counted once, as a failure or with all six measurements, and no two requests carry the
  same key, the warm-up included.\<close>

theorem bench_counts_every_repetition:
  assumes "reps < 2 ^ 64 - 1" "s = bench_measure target body nets reps"
  shows "length (bs_total s) + bs_failures s = reps \<and>
    length ` {bs_resolve s, bs_connect s, bs_write s, bs_wait s, bs_read s} = {length (bs_total s)} \<and>
    distinct (map rq_idempotency_key (bs_sent s)) \<and> rq_body ` set (bs_sent s) \<subseteq> {body}"
proof -
  have inv: "bench_inv target body reps s" unfolding assms(2) by (rule bench_measure_inv)
  then obtain "is" where i: "bs_sent s = map (\<lambda>i. bench_request target body (of_nat i)) is" "distinct is" "set is \<subseteq> {..reps}"
    by (auto simp: bench_inv_def)
  have "inj_on (\<lambda>i. rq_idempotency_key (bench_request target body (of_nat i))) (set is)"
    using i(3) assms(1) by (intro inj_onI bench_key_inj) force+
  then have "distinct (map rq_idempotency_key (bs_sent s))" using i(1,2) by (simp add: distinct_map comp_def)
  moreover have "rq_body ` set (bs_sent s) \<subseteq> {body}" using i(1) by (auto simp: bench_request_def)
  ultimately show ?thesis using inv by (auto simp: bench_inv_def)
qed

section \<open>Witnesses\<close>

theorem bench_summary_right_witness:
  "\<exists>r. r = report ''wait'' [double_of_nat 3, double_of_nat 1, double_of_nat 2] (double_of_nat 6) \<and>
     br_median r \<in> set [double_of_nat 3, double_of_nat 1, double_of_nat 2]"
proof -
  have fin: "list_all isfinite [double_of_nat 3, double_of_nat 1, double_of_nat 2]"
    using real_double_of_nat [of 3] real_double_of_nat [of 1] real_double_of_nat [of 2] by simp
  have "br_median (report ''wait'' [double_of_nat 3, double_of_nat 1, double_of_nat 2] (double_of_nat 6))
      \<in> set [double_of_nat 3, double_of_nat 1, double_of_nat 2]"
    by (rule conjunct1 [OF bench_summary_right [OF _ fin _ refl refl refl]]) simp_all
  then show ?thesis by (intro exI conjI) (rule refl)
qed

theorem bench_matches_sink_witness:
  "bench_parse_url ''http://h:3000/v1'' = Inr \<lparr>bt_host = ''h'', bt_port = ''3000'', bt_path = ''/v1''\<rparr>"
proof -
  have "parse_url ''http://h:3000/v1'' = Inr \<lparr>tg_host = ''h'', tg_port = ''3000'', tg_path = ''/v1'', tg_use_tls = False\<rparr>"
    by code_simp
  from bench_matches_sink [OF this, of bit_lib 0] show ?thesis by simp
qed

theorem bench_counts_every_repetition_witness:
  "\<forall>nets. length (bs_total (bench_measure \<lparr>bt_host = ''h'', bt_port = ''80'', bt_path = ''/''\<rparr> [] nets 3)) +
     bs_failures (bench_measure \<lparr>bt_host = ''h'', bt_port = ''80'', bt_path = ''/''\<rparr> [] nets 3) = 3"
  using bench_counts_every_repetition [of 3, OF _ refl] by simp

end
