(* ===== verification/Queue_Benchmarks.thy ===== *)
theory Queue_Benchmarks
  imports Gateway Device_Client
begin

text \<open>
  \<^verbatim>\<open>benchmarks/bench_queue_spmc.cpp\<close>, \<^verbatim>\<open>bench_bounded_queue.cpp\<close> and \<^verbatim>\<open>bench_support.hpp\<close>: the loops that exercise the two
  queues. Google Benchmark decides the number of iterations; the clock readings are arguments. The
  facts are proved once for any queue that keeps the contract.
\<close>

section \<open>The payload\<close>

definition make_sample_event :: "64 word \<Rightarrow> int \<Rightarrow> Event TimedEvent" where
  "make_sample_event device_id now =
     \<lparr>te_event = \<lparr>ev_device_id = device_id, ev_timestamp = ''2026-08-28T00:00:00Z'',
        ev_temperature = double_of_nat (nat (20 + sint device_id smod 15)),
        ev_battery = word_of_int (100 - sint device_id smod 100),
        ev_latitude = round_frac False 377749 10000, ev_longitude = round_frac True 1224194 10000,
        ev_event_type = ''telemetry''\<rparr>,
      te_enqueued_at = now\<rparr>"

section \<open>The loops on one thread\<close>

text \<open>\<open>BM_Queue_SingleThreaded\<close>: one push and one pop in each iteration, with the items popped.\<close>

fun single_threaded :: "('q, Event TimedEvent) EventQueue \<Rightarrow> int list \<Rightarrow> 64 word \<Rightarrow> 'q \<Rightarrow>
    (Event TimedEvent option list \<times> 'q) call" where
  "single_threaded Q [] device_id q = Returns ([], q)"
| "single_threaded Q (now # nows) device_id q =
     (case q_push Q q (make_sample_event device_id now) of
        Returns (_, q') \<Rightarrow>
          (case q_pop Q q' of
             Returns (item, q'') \<Rightarrow> map_call (\<lambda>(items, q). (item # items, q)) (single_threaded Q nows (device_id + 1) q'')
           | Parks \<Rightarrow> Parks | Diverges \<Rightarrow> Diverges)
      | Parks \<Rightarrow> Parks | Diverges \<Rightarrow> Diverges)"

text \<open>\<open>BM_Queue_BackpressurePolicy\<close>: pushes only, with what each of them returned.\<close>

fun backpressure_policy :: "('q, Event TimedEvent) EventQueue \<Rightarrow> int list \<Rightarrow> 64 word \<Rightarrow> 'q \<Rightarrow> (PushResult list \<times> 'q) call" where
  "backpressure_policy Q [] device_id q = Returns ([], q)"
| "backpressure_policy Q (now # nows) device_id q =
     (case q_push Q q (make_sample_event device_id now) of
        Returns (r, q') \<Rightarrow> map_call (\<lambda>(rs, q). (r # rs, q)) (backpressure_policy Q nows (device_id + 1) q')
      | Parks \<Rightarrow> Parks | Diverges \<Rightarrow> Diverges)"

section \<open>One producer and several consumers\<close>

datatype spmc_pc =
    Spmc_Loop          \<comment> \<open>in the timed loop\<close>
  | Spmc_Joining       \<comment> \<open>the queue is shut down\<close>
  | Spmc_Done nat      \<comment> \<open>the number of items reported\<close>

record 'q spmc =
  sp_queue :: 'q
  sp_pc :: spmc_pc
  sp_iterations :: nat
  sp_left :: nat                           \<comment> \<open>iterations still to do\<close>
  sp_device_id :: "64 word"
  sp_consumers :: "bool list"              \<comment> \<open>whether each consumer is still in its loop\<close>
  sp_pushes :: nat                         \<comment> \<open>history: calls of \<open>push\<close>\<close>
  sp_accepted :: "Event TimedEvent list"   \<comment> \<open>history\<close>
  sp_popped :: "Event TimedEvent list"     \<comment> \<open>history\<close>

definition spmc_start :: "nat \<Rightarrow> nat \<Rightarrow> 'q \<Rightarrow> 'q spmc" where
  "spmc_start consumers iterations q = \<lparr>sp_queue = q, sp_pc = Spmc_Loop, sp_iterations = iterations, sp_left = iterations,
     sp_device_id = 0, sp_consumers = replicate consumers True, sp_pushes = 0, sp_accepted = [], sp_popped = []\<rparr>"

text \<open>A push that is not accepted leaves the iteration where it is: the \<open>while\<close> loop tries again, with the
  next device id.\<close>

inductive spmc_step :: "('q, Event TimedEvent) EventQueue \<Rightarrow> 'q spmc \<Rightarrow> 'q spmc \<Rightarrow> bool" for Q where
  spmc_push: "sp_pc s = Spmc_Loop \<Longrightarrow> sp_left s = Suc n \<Longrightarrow> item = make_sample_event (sp_device_id s) now \<Longrightarrow>
    q_push Q (sp_queue s) item = Returns (r, q') \<Longrightarrow>
    spmc_step Q s (s\<lparr>sp_queue := q', sp_left := if r = Accepted then n else Suc n, sp_device_id := sp_device_id s + 1,
      sp_pushes := sp_pushes s + 1, sp_accepted := sp_accepted s @ (if r = Accepted then [item] else [])\<rparr>)"
| spmc_shutdown: "sp_pc s = Spmc_Loop \<Longrightarrow> sp_left s = 0 \<Longrightarrow>
    spmc_step Q s (s\<lparr>sp_queue := q_shutdown Q (sp_queue s), sp_pc := Spmc_Joining\<rparr>)"
| spmc_pop: "i < length (sp_consumers s) \<Longrightarrow> sp_consumers s ! i \<Longrightarrow> q_pop Q (sp_queue s) = Returns (Some item, q') \<Longrightarrow>
    spmc_step Q s (s\<lparr>sp_queue := q', sp_popped := sp_popped s @ [item]\<rparr>)"
| spmc_leave: "i < length (sp_consumers s) \<Longrightarrow> sp_consumers s ! i \<Longrightarrow> q_pop Q (sp_queue s) = Returns (None, q') \<Longrightarrow>
    spmc_step Q s (s\<lparr>sp_queue := q', sp_consumers := (sp_consumers s)[i := False]\<rparr>)"
| spmc_joined: "sp_pc s = Spmc_Joining \<Longrightarrow> True \<notin> set (sp_consumers s) \<Longrightarrow>
    spmc_step Q s (s\<lparr>sp_pc := Spmc_Done (sp_iterations s)\<rparr>)"

abbreviation spmc_reach :: "('q, Event TimedEvent) EventQueue \<Rightarrow> 'q spmc \<Rightarrow> 'q spmc \<Rightarrow> bool" where
  "spmc_reach Q \<equiv> (spmc_step Q)\<^sup>*\<^sup>*"

section \<open>Several producers and the drain thread\<close>

datatype drain_pc = Drain_Checking | Drain_Popping | Drain_Left

datatype fixture_pc = Fixture_Timed | Fixture_Flagged | Fixture_Shut | Fixture_Joined

record 'q fixture =
  fx_queue :: 'q
  fx_draining :: bool
  fx_drain :: drain_pc
  fx_pc :: fixture_pc                      \<comment> \<open>how far thread 0 has got: the loop, then \<open>TearDown\<close>\<close>
  fx_device_ids :: "64 word list"          \<comment> \<open>of each producer\<close>
  fx_left :: "nat list"                    \<comment> \<open>iterations still to do, of each producer\<close>

text \<open>After \<open>SetUp\<close> of all threads.\<close>

definition fixture_start :: "nat list \<Rightarrow> 'q \<Rightarrow> 'q fixture" where
  "fixture_start iterations q = \<lparr>fx_queue = q, fx_draining = True, fx_drain = Drain_Checking, fx_pc = Fixture_Timed,
     fx_device_ids = map (\<lambda>i. of_nat i * 1000000) [0..<length iterations], fx_left = iterations\<rparr>"

text \<open>The library calls \<open>TearDown\<close> when all producers have left their loops.\<close>

inductive fixture_step :: "('q, Event TimedEvent) EventQueue \<Rightarrow> 'q fixture \<Rightarrow> 'q fixture \<Rightarrow> bool" for Q where
  fixture_push: "i < length (fx_left s) \<Longrightarrow> fx_left s ! i = Suc n \<Longrightarrow>
    q_push Q (fx_queue s) (make_sample_event (fx_device_ids s ! i) now) = Returns (r, q') \<Longrightarrow>
    fixture_step Q s (s\<lparr>fx_queue := q', fx_device_ids := (fx_device_ids s)[i := fx_device_ids s ! i + 1],
      fx_left := (fx_left s)[i := n]\<rparr>)"
| fixture_flag: "fx_pc s = Fixture_Timed \<Longrightarrow> set (fx_left s) \<subseteq> {0} \<Longrightarrow>
    fixture_step Q s (s\<lparr>fx_draining := False, fx_pc := Fixture_Flagged\<rparr>)"
| fixture_shutdown: "fx_pc s = Fixture_Flagged \<Longrightarrow>
    fixture_step Q s (s\<lparr>fx_queue := q_shutdown Q (fx_queue s), fx_pc := Fixture_Shut\<rparr>)"
| fixture_join: "fx_pc s = Fixture_Shut \<Longrightarrow> fx_drain s = Drain_Left \<Longrightarrow> fixture_step Q s (s\<lparr>fx_pc := Fixture_Joined\<rparr>)"
| drain_check: "fx_drain s = Drain_Checking \<Longrightarrow>
    fixture_step Q s (s\<lparr>fx_drain := if fx_draining s then Drain_Popping else Drain_Left\<rparr>)"
| drain_pop: "fx_drain s = Drain_Popping \<Longrightarrow> q_pop Q (fx_queue s) = Returns (item, q') \<Longrightarrow>
    fixture_step Q s (s\<lparr>fx_queue := q', fx_drain := Drain_Checking\<rparr>)"

section \<open>Facts\<close>

text \<open>The payload is the event of a simulated device.\<close>

lemma sample_is_device_event:
  "te_event (make_sample_event device_id now) = device_event device_id ''2026-08-28T00:00:00Z''"
  by (simp add: make_sample_event_def device_event_def)

fun samples :: "64 word \<Rightarrow> int list \<Rightarrow> Event TimedEvent list" where
  "samples device_id [] = []"
| "samples device_id (now # nows) = make_sample_event device_id now # samples (device_id + 1) nows"

lemma length_samples [simp]: "length (samples device_id nows) = length nows"
  by (induction nows arbitrary: device_id) simp_all

definition overflow_result :: "BackpressurePolicy \<Rightarrow> PushResult" where
  "overflow_result p = (if p = DropOldest then DroppedOldest else RejectedBackpressure)"

text \<open>The last or the first items of a stream that does not fit, as the policy has it.\<close>

definition kept :: "BackpressurePolicy \<Rightarrow> nat \<Rightarrow> 'x list \<Rightarrow> 'x list" where
  "kept p cap xs = (if p = DropOldest then drop (length xs - cap) xs else take cap xs)"

lemma kept_full:
  assumes "c = length ws" "0 < c"
  shows "kept p c ((if p = DropOldest then tl ws @ [x] else ws) @ ys) = kept p c (ws @ x # ys)"
proof -
  obtain w ws' where ws: "ws = w # ws'" using assms by (cases ws) auto
  have "Suc (length ws' + length ys) - length ws' = Suc (length ys)" by simp
  then show ?thesis unfolding assms(1) ws by (simp add: kept_def)
qed

definition spmc_inv ::
    "('q \<Rightarrow> BackpressurePolicy) \<Rightarrow> ('q \<Rightarrow> Event TimedEvent list) \<Rightarrow> ('q \<Rightarrow> bool) \<Rightarrow> (nat \<Rightarrow> 'q \<Rightarrow> bool) \<Rightarrow> nat \<Rightarrow> 'q spmc \<Rightarrow> bool" where
  "spmc_inv policy contents is_closed invar N s \<longleftrightarrow>
     invar (N - sp_pushes s) (sp_queue s) \<and> policy (sp_queue s) = Block \<and>
     (is_closed (sp_queue s) \<longleftrightarrow> sp_pc s \<noteq> Spmc_Loop) \<and> (sp_pc s \<noteq> Spmc_Loop \<longrightarrow> sp_left s = 0) \<and>
     sp_accepted s = sp_popped s @ contents (sp_queue s) \<and> length (sp_accepted s) + sp_left s = sp_iterations s \<and>
     (False \<in> set (sp_consumers s) \<longrightarrow> is_closed (sp_queue s) \<and> contents (sp_queue s) = []) \<and>
     (\<forall>k. sp_pc s = Spmc_Done k \<longrightarrow> k = sp_iterations s \<and> True \<notin> set (sp_consumers s))"

context gateway_queue
begin

lemma single_threaded_run:
  assumes "invar (length nows + n) q" "contents q = []"
  shows "\<exists>q'. single_threaded Q nows device_id q = Returns (map Some (samples device_id nows), q') \<and> contents q' = []"
  using assms
proof (induction nows arbitrary: device_id q)
  case (Cons now nows)
  let ?x = "make_sample_event device_id now"
  have inv: "invar (Suc (length nows + n)) q" using Cons.prems(1) by simp
  obtain r q1 where push: "q_push Q q ?x = Returns (r, q1)" using push_returns [OF inv] by blast
  have "contents q1 = [?x]"
    using push_contents [OF inv push] Cons.prems(2) capacity_pos [OF inv] by (simp add: spec_push_def)
  moreover have "invar (length nows + n) q1" using push_frame [OF inv push] by simp
  ultimately obtain q2 where pop: "q_pop Q q1 = Returns (Some ?x, q2)" "contents q2 = []" "invar (length nows + n) q2"
    using pop_item by metis
  from Cons.IH [OF pop(3,2), of "device_id + 1"] push pop(1) show ?case by auto
qed simp

lemma backpressure_run:
  assumes "invar (length nows + n) q"
  shows "\<exists>q'. backpressure_policy Q nows device_id q =
      Returns (replicate (min (q_capacity Q q - length (contents q)) (length nows)) Accepted @
        replicate (length nows - (q_capacity Q q - length (contents q))) (overflow_result (policy q)), q') \<and>
    contents q' = kept (policy q) (q_capacity Q q) (contents q @ samples device_id nows)"
  using assms
proof (induction nows arbitrary: device_id q)
  case Nil
  then have "length (contents q) \<le> q_capacity Q q" using contents_bounded by simp
  then show ?case by (simp add: kept_def)
next
  case (Cons now nows)
  let ?x = "make_sample_event device_id now" and ?c = "q_capacity Q q" and ?ws = "contents q"
  have inv: "invar (Suc (length nows + n)) q" using Cons.prems by simp
  have le: "length ?ws \<le> ?c" and pos: "0 < ?c" using contents_bounded [OF inv] capacity_pos [OF inv] by simp_all
  obtain r q1 where push: "q_push Q q ?x = Returns (r, q1)" using push_returns [OF inv] by blast
  note C = push_contents [OF inv push]
  have F: "policy q1 = policy q" "q_capacity Q q1 = ?c" "invar (length nows + n) q1" using push_frame [OF inv push] by simp_all
  obtain q' where q': "backpressure_policy Q nows (device_id + 1) q1 =
      Returns (replicate (min (?c - length (contents q1)) (length nows)) Accepted @
        replicate (length nows - (?c - length (contents q1))) (overflow_result (policy q)), q')"
    "contents q' = kept (policy q) ?c (contents q1 @ samples (device_id + 1) nows)"
    using Cons.IH [OF F(3), of "device_id + 1"] F(1,2) by auto
  show ?case
  proof (cases "length ?ws < ?c")
    case True
    then have "r = Accepted" "contents q1 = ?ws @ [?x]" using C by (simp_all add: spec_push_def)
    moreover have "?c - length ?ws = Suc (?c - length (?ws @ [?x]))" using True by simp
    ultimately show ?thesis using q' push by simp
  next
    case False
    then have full: "length ?ws = ?c" using le by simp
    have r: "r = overflow_result (policy q)" "contents q1 = (if policy q = DropOldest then tl ?ws @ [?x] else ?ws)"
      using C False by (auto simp: spec_push_def overflow_result_def split: if_splits)
    then have len: "length (contents q1) = ?c" using full pos by simp
    have "kept (policy q) ?c (contents q1 @ samples (device_id + 1) nows) = kept (policy q) ?c (?ws @ samples device_id (now # nows))"
      using kept_full [of ?c ?ws "policy q" ?x "samples (device_id + 1) nows"] r(2) full pos by simp
    with q' push r(1) len full show ?thesis by auto
  qed
qed

lemma spmc_step_inv:
  assumes "spmc_step Q s s'" "spmc_inv policy contents is_closed invar N s" "sp_pushes s' \<le> N"
  shows "spmc_inv policy contents is_closed invar N s'"
  using assms
proof (induction rule: spmc_step.induct)
  case (spmc_push s n item now r q')
  have inv: "invar (Suc (N - (sp_pushes s + 1))) (sp_queue s)"
    using spmc_push(5,6) by (simp add: spmc_inv_def Suc_diff_Suc)
  note C = push_contents [OF inv spmc_push(4)] and F = push_frame [OF inv spmc_push(4)]
  have "policy (sp_queue s) = Block" using spmc_push(5) by (simp add: spmc_inv_def)
  then have "r = Accepted \<and> contents q' = contents (sp_queue s) @ [item] \<or> r \<noteq> Accepted \<and> contents q' = contents (sp_queue s)"
    using C by (auto simp: spec_push_def split: if_splits)
  with spmc_push F show ?case by (auto simp: spmc_inv_def)
next
  case (spmc_shutdown s)
  with shutdown_frame [of "N - sp_pushes s" "sp_queue s"] show ?case by (auto simp: spmc_inv_def)
next
  case (spmc_pop i s item q')
  then have inv: "invar (N - sp_pushes s) (sp_queue s)" by (simp add: spmc_inv_def)
  with spmc_pop pop_Some_item [OF inv spmc_pop(3)] pop_frame [OF inv spmc_pop(3)] show ?case by (auto simp: spmc_inv_def)
next
  case (spmc_leave i s q')
  then have inv: "invar (N - sp_pushes s) (sp_queue s)" by (simp add: spmc_inv_def)
  have "True \<notin> set ((sp_consumers s)[i := False])" if "True \<notin> set (sp_consumers s)"
    using that set_update_subset_insert [of "sp_consumers s" i False] by auto
  with spmc_leave pop_Some_nullopt [OF inv spmc_leave(3)] pop_frame [OF inv spmc_leave(3)] show ?case
    by (auto simp: spmc_inv_def)
qed (auto simp: spmc_inv_def)

end

section \<open>The benchmark with several consumers comes to its end\<close>

lemma spmc_step_frame:
  "spmc_step Q s s' \<Longrightarrow> length (sp_consumers s') = length (sp_consumers s) \<and> sp_pushes s \<le> sp_pushes s' \<and>
     sp_iterations s' = sp_iterations s"
  by (induction rule: spmc_step.induct) auto

lemma spmc_reach_frame:
  "spmc_reach Q s s' \<Longrightarrow> length (sp_consumers s') = length (sp_consumers s) \<and> sp_pushes s \<le> sp_pushes s' \<and>
     sp_iterations s' = sp_iterations s"
  by (induction rule: rtranclp_induct) (fastforce dest: spmc_step_frame)+

context gateway_queue
begin

abbreviation spmc_ok :: "nat \<Rightarrow> 'q spmc \<Rightarrow> bool" where
  "spmc_ok N s \<equiv> spmc_inv policy contents is_closed invar N s \<and> sp_pushes s + sp_left s \<le> N \<and> sp_consumers s \<noteq> []"

lemma spmc_reach_inv:
  assumes "spmc_reach Q (spmc_start consumers iterations q) s"
    and "invar N q" "contents q = []" "\<not> is_closed q" "policy q = Block" "sp_pushes s \<le> N"
  shows "spmc_inv policy contents is_closed invar N s"
  using assms(1,6)
proof (induction rule: rtranclp_induct)
  case base
  show ?case using assms(2-5) by (simp add: spmc_inv_def spmc_start_def)
next
  case (step s s')
  then show ?case using spmc_step_inv [OF step(2)] spmc_step_frame [OF step(2)] by (meson le_trans)
qed

text \<open>A consumer can take an item as long as there is one.\<close>

lemma spmc_take:
  assumes "spmc_ok N s" "contents (sp_queue s) \<noteq> []"
  shows "\<exists>s'. spmc_step Q s s' \<and> spmc_ok N s' \<and> sp_pc s' = sp_pc s \<and> sp_left s' = sp_left s \<and>
    q_capacity Q (sp_queue s') = q_capacity Q (sp_queue s) \<and> length (contents (sp_queue s')) < length (contents (sp_queue s))"
proof -
  have inv: "invar (N - sp_pushes s) (sp_queue s)" using assms(1) by (simp add: spmc_inv_def)
  obtain y ys where "contents (sp_queue s) = y # ys" using assms(2) by (cases "contents (sp_queue s)") auto
  then obtain q' where pop: "q_pop Q (sp_queue s) = Returns (Some y, q')" "contents q' = ys"
    using pop_item [OF inv] by metis
  have "False \<notin> set (sp_consumers s)" using assms by (auto simp: spmc_inv_def)
  then have 0: "0 < length (sp_consumers s)" "sp_consumers s ! 0"
    using assms(1) by (cases "sp_consumers s"; auto)+
  note step = spmc_pop [OF 0 pop(1)]
  have "sp_pushes s \<le> N" using assms(1) by simp
  with spmc_step_inv [OF step] assms(1) have "spmc_ok N (s\<lparr>sp_queue := q', sp_popped := sp_popped s @ [y]\<rparr>)" by simp
  with step pop(2) pop_frame [OF inv pop(1)] \<open>contents (sp_queue s) = y # ys\<close> show ?thesis by force
qed

text \<open>An iteration that finds room ends at once.\<close>

lemma spmc_accept:
  assumes "spmc_ok N s" "sp_pc s = Spmc_Loop" "sp_left s = Suc n" "length (contents (sp_queue s)) < q_capacity Q (sp_queue s)"
  shows "\<exists>s'. spmc_step Q s s' \<and> spmc_ok N s' \<and> sp_pc s' = Spmc_Loop \<and> sp_left s' = n"
proof -
  let ?x = "make_sample_event (sp_device_id s) 0"
  have "invar (N - sp_pushes s) (sp_queue s)" "sp_pushes s < N" using assms(1,3) by (simp_all add: spmc_inv_def)
  then have inv: "invar (Suc (N - (sp_pushes s + 1))) (sp_queue s)" by (simp add: Suc_diff_Suc)
  obtain r q' where push: "q_push Q (sp_queue s) ?x = Returns (r, q')" using push_returns [OF inv] by blast
  have "r = Accepted" using push_contents [OF inv push] assms(4) by (simp add: spec_push_def)
  let ?s = "s\<lparr>sp_queue := q', sp_left := n, sp_device_id := sp_device_id s + 1, sp_pushes := sp_pushes s + 1,
    sp_accepted := sp_accepted s @ [?x]\<rparr>"
  have step: "spmc_step Q s ?s" using spmc_push [OF assms(2,3) refl push] \<open>r = Accepted\<close> by simp
  have "sp_pushes s + 1 \<le> N" using assms(1,3) by simp
  with spmc_step_inv [OF step] assms(1,3) have "spmc_ok N ?s" by simp
  with step assms(2) show ?thesis by (intro exI [of _ ?s]) simp
qed

lemma spmc_loop_ends:
  "spmc_ok N s \<Longrightarrow> sp_pc s = Spmc_Loop \<Longrightarrow> \<exists>s'. spmc_reach Q s s' \<and> spmc_ok N s' \<and> sp_pc s' = Spmc_Loop \<and> sp_left s' = 0"
proof (induction "sp_left s" arbitrary: s)
  case (Suc n)
  let ?room = "\<lambda>s. length (contents (sp_queue s)) < q_capacity Q (sp_queue s)"
  have inv: "invar (N - sp_pushes s) (sp_queue s)" using Suc.prems(1) by (simp add: spmc_inv_def)
  obtain s1 where s1: "spmc_reach Q s s1" "spmc_ok N s1" "sp_pc s1 = Spmc_Loop" "sp_left s1 = Suc n" "?room s1"
  proof (cases "?room s")
    case True
    with Suc.prems Suc.hyps(2) show ?thesis by (intro that [of s]) simp_all
  next
    case False
    then have "contents (sp_queue s) \<noteq> []" using capacity_pos [OF inv] by auto
    from spmc_take [OF Suc.prems(1) this] obtain s1 where "spmc_step Q s s1" "spmc_ok N s1" "sp_pc s1 = sp_pc s"
      "sp_left s1 = sp_left s" "q_capacity Q (sp_queue s1) = q_capacity Q (sp_queue s)"
      "length (contents (sp_queue s1)) < length (contents (sp_queue s))" by blast
    with contents_bounded [OF inv] Suc.prems(2) Suc.hyps(2) show ?thesis by (intro that [of s1]) auto
  qed
  obtain s2 where s2: "spmc_step Q s1 s2" "spmc_ok N s2" "sp_pc s2 = Spmc_Loop" "sp_left s2 = n"
    using spmc_accept [OF s1(2-5)] by blast
  obtain s3 where "spmc_reach Q s2 s3" "spmc_ok N s3" "sp_pc s3 = Spmc_Loop" "sp_left s3 = 0"
    using Suc.hyps(1) [of s2] s2 by auto
  moreover have "spmc_reach Q s s3" using s1(1) s2(1) calculation(1) by (meson rtranclp_trans converse_rtranclp_into_rtranclp)
  ultimately show ?case by blast
qed auto

lemma spmc_drains:
  "spmc_ok N s \<Longrightarrow> sp_pc s = Spmc_Joining \<Longrightarrow>
   \<exists>s'. spmc_reach Q s s' \<and> spmc_ok N s' \<and> sp_pc s' = Spmc_Joining \<and> contents (sp_queue s') = []"
proof (induction "length (contents (sp_queue s))" arbitrary: s rule: less_induct)
  case less
  show ?case
  proof (cases "contents (sp_queue s) = []")
    case False
    from spmc_take [OF less.prems(1) False] obtain s1 where "spmc_step Q s s1" "spmc_ok N s1" "sp_pc s1 = sp_pc s"
      "length (contents (sp_queue s1)) < length (contents (sp_queue s))" by blast
    with less.hyps [of s1] less.prems(2) show ?thesis by (metis converse_rtranclp_into_rtranclp)
  qed (use less.prems in blast)
qed

lemma spmc_leaves:
  "spmc_ok N s \<Longrightarrow> sp_pc s = Spmc_Joining \<Longrightarrow> contents (sp_queue s) = [] \<Longrightarrow>
   \<exists>s'. spmc_reach Q s s' \<and> sp_pc s' = Spmc_Joining \<and> True \<notin> set (sp_consumers s')"
proof (induction "count_list (sp_consumers s) True" arbitrary: s)
  case 0
  then show ?case by (auto simp: count_list_0_iff)
next
  case (Suc n)
  have inv: "invar (N - sp_pushes s) (sp_queue s)" "is_closed (sp_queue s)" using Suc.prems(1,2) by (simp_all add: spmc_inv_def)
  have "True \<in> set (sp_consumers s)" using Suc.hyps(2) by (metis count_notin nat.distinct(1))
  then obtain i where i: "i < length (sp_consumers s)" "sp_consumers s ! i" by (auto simp: in_set_conv_nth)
  obtain q' where pop: "q_pop Q (sp_queue s) = Returns (None, q')" using pop_nullopt_iff [OF inv(1)] inv(2) Suc.prems(3) by blast
  let ?s = "s\<lparr>sp_queue := q', sp_consumers := (sp_consumers s)[i := False]\<rparr>"
  have step: "spmc_step Q s ?s" by (rule spmc_leave [OF i pop])
  have "sp_pushes s \<le> N" using Suc.prems(1) by simp
  with spmc_step_inv [OF step] Suc.prems(1) have ok: "spmc_ok N ?s" by simp
  have "count_list (xs[i := False]) True + 1 = count_list xs True" if "i < length xs" "xs ! i" for xs
    using that
  proof (induction xs arbitrary: i)
    case (Cons x xs)
    then show ?case by (cases i) auto
  qed simp
  from this [OF i] Suc.hyps(2) have "n = count_list (sp_consumers ?s) True" by simp
  from Suc.hyps(1) [OF this ok] Suc.prems(2) pop_Some_nullopt(2) [OF inv(1) pop] step show ?case
    by (auto intro: converse_rtranclp_into_rtranclp)
qed

lemma spmc_joins:
  assumes "spmc_ok N s" "sp_pc s = Spmc_Joining"
  shows "\<exists>s' k. spmc_reach Q s s' \<and> sp_pc s' = Spmc_Done k"
proof -
  obtain s1 where s1: "spmc_reach Q s s1" "spmc_ok N s1" "sp_pc s1 = Spmc_Joining" "contents (sp_queue s1) = []"
    using spmc_drains [OF assms] by blast
  obtain s2 where s2: "spmc_reach Q s1 s2" "sp_pc s2 = Spmc_Joining" "True \<notin> set (sp_consumers s2)"
    using spmc_leaves [OF s1(2-4)] by blast
  from spmc_joined [OF s2(2,3), of Q] rtranclp_trans [OF s1(1) s2(1)] show ?thesis
    by (intro exI [of _ "s2\<lparr>sp_pc := Spmc_Done (sp_iterations s2)\<rparr>"] exI) (auto intro: rtranclp.rtrancl_into_rtrancl)
qed

lemma spmc_finishes:
  assumes "spmc_ok N s"
  shows "\<exists>s' k. spmc_reach Q s s' \<and> sp_pc s' = Spmc_Done k"
proof (cases "sp_pc s")
  case Spmc_Loop
  obtain s1 where s1: "spmc_reach Q s s1" "spmc_ok N s1" "sp_pc s1 = Spmc_Loop" "sp_left s1 = 0"
    using spmc_loop_ends [OF assms Spmc_Loop] by blast
  let ?s = "s1\<lparr>sp_queue := q_shutdown Q (sp_queue s1), sp_pc := Spmc_Joining\<rparr>"
  have step: "spmc_step Q s1 ?s" by (rule spmc_shutdown [OF s1(3,4)])
  have "spmc_ok N ?s" using spmc_step_inv [OF step] s1(2) by simp
  then obtain s2 k where "spmc_reach Q ?s s2" "sp_pc s2 = Spmc_Done k" using spmc_joins [of N ?s] by auto
  with rtranclp_trans [OF rtranclp_trans [OF s1(1) r_into_rtranclp [of "spmc_step Q", OF step]]] show ?thesis by blast
qed (use spmc_joins [OF assms] in blast)+

end

section \<open>The tear-down\<close>

definition fixture_inv :: "('q \<Rightarrow> bool) \<Rightarrow> (nat \<Rightarrow> 'q \<Rightarrow> bool) \<Rightarrow> 'q fixture \<Rightarrow> bool" where
  "fixture_inv is_closed invar s \<longleftrightarrow> invar (sum_list (fx_left s)) (fx_queue s) \<and>
     (fx_draining s \<longleftrightarrow> fx_pc s = Fixture_Timed) \<and> (fx_pc s \<noteq> Fixture_Timed \<longrightarrow> set (fx_left s) \<subseteq> {0}) \<and>
     (fx_pc s \<in> {Fixture_Shut, Fixture_Joined} \<longrightarrow> is_closed (fx_queue s)) \<and>
     (fx_drain s = Drain_Left \<longrightarrow> \<not> fx_draining s) \<and> (fx_pc s = Fixture_Joined \<longrightarrow> fx_drain s = Drain_Left)"

text \<open>What is left to do after \<open>shutdown\<close>.\<close>

fun drain_weight :: "drain_pc \<Rightarrow> nat" where
  "drain_weight Drain_Popping = 2"
| "drain_weight Drain_Checking = 1"
| "drain_weight Drain_Left = 0"

definition fixture_work :: "'q fixture \<Rightarrow> nat" where
  "fixture_work s = drain_weight (fx_drain s) + of_bool (fx_pc s = Fixture_Shut)"

context gateway_queue
begin

lemma fixture_step_inv:
  assumes "fixture_step Q s s'" "fixture_inv is_closed invar s"
  shows "fixture_inv is_closed invar s'"
  using assms
proof (induction rule: fixture_step.induct)
  case (fixture_push i s n now r q')
  have "sum_list (fx_left s) = Suc (sum_list ((fx_left s)[i := n]))"
    using sum_list_map_update [OF fixture_push(1), of "\<lambda>x. x" n] fixture_push(2) by simp
  then have inv: "invar (Suc (sum_list ((fx_left s)[i := n]))) (fx_queue s)"
    using fixture_push(4) by (simp add: fixture_inv_def)
  have "fx_pc s = Fixture_Timed"
    using fixture_push(1,2,4) nth_mem [OF fixture_push(1)] by (auto simp: fixture_inv_def)
  with fixture_push push_frame [OF inv fixture_push(3)] show ?case by (auto simp: fixture_inv_def)
next
  case (fixture_shutdown s)
  with shutdown_frame [of "sum_list (fx_left s)" "fx_queue s"] show ?case by (auto simp: fixture_inv_def)
next
  case (drain_pop s item q')
  then have "invar (sum_list (fx_left s)) (fx_queue s)" by (simp add: fixture_inv_def)
  with drain_pop pop_frame [OF this drain_pop(2)] show ?case by (auto simp: fixture_inv_def)
qed (auto simp: fixture_inv_def)

lemma fixture_reach_inv:
  assumes "(fixture_step Q)\<^sup>*\<^sup>* (fixture_start iterations q) s" "invar (sum_list iterations) q"
  shows "fixture_inv is_closed invar s"
  using assms(1)
proof (induction rule: rtranclp_induct)
  case base
  show ?case using assms(2) by (simp add: fixture_inv_def fixture_start_def)
next
  case (step s s')
  then show ?case by (blast intro: fixture_step_inv)
qed

lemma fixture_shut_step:
  assumes "fixture_step Q s s'" "fixture_inv is_closed invar s" "fx_pc s \<in> {Fixture_Shut, Fixture_Joined}"
  shows "fixture_work s' < fixture_work s \<and> fx_pc s' \<in> {Fixture_Shut, Fixture_Joined}"
  using assms
proof (induction rule: fixture_step.induct)
  case (fixture_push i s n now r q')
  then show ?case using nth_mem [OF fixture_push(1)] by (auto simp: fixture_inv_def)
qed (auto simp: fixture_inv_def fixture_work_def)

lemma fixture_shut_progress:
  assumes "fixture_inv is_closed invar s" "fx_pc s = Fixture_Shut"
  shows "\<exists>s'. fixture_step Q s s'"
proof (cases "fx_drain s")
  case Drain_Popping
  have inv: "invar (sum_list (fx_left s)) (fx_queue s)" "is_closed (fx_queue s)"
    using assms by (simp_all add: fixture_inv_def)
  have "q_pop Q (fx_queue s) \<noteq> Parks" "q_pop Q (fx_queue s) \<noteq> Diverges"
    using pop_parks_iff [OF inv(1)] pop_never_diverges [OF inv(1)] inv(2) by simp_all
  then obtain r where "q_pop Q (fx_queue s) = Returns r" by (cases "q_pop Q (fx_queue s)") simp_all
  with drain_pop [OF Drain_Popping, of Q "fst r" "snd r"] show ?thesis by auto
qed (use drain_check fixture_join [OF assms(2)] in blast)+

lemma fixture_shut_bounded:
  "(fixture_step Q ^^ n) s s' \<Longrightarrow> fixture_inv is_closed invar s \<Longrightarrow> fx_pc s \<in> {Fixture_Shut, Fixture_Joined} \<Longrightarrow>
   n + fixture_work s' \<le> fixture_work s \<and> fixture_inv is_closed invar s' \<and> fx_pc s' \<in> {Fixture_Shut, Fixture_Joined}"
proof (induction n arbitrary: s')
  case (Suc n)
  then obtain s1 where s1: "(fixture_step Q ^^ n) s s1" "fixture_step Q s1 s'" by auto
  with Suc.IH [OF s1(1) Suc.prems(2,3)] fixture_shut_step [OF s1(2)] fixture_step_inv [OF s1(2)] show ?case by fastforce
qed simp

end

section \<open>Properties\<close>

text \<open>C38: The benchmark that models the gateway reports what it did. With one producer that tries again until its push
  is accepted, any number of consumers and the lock-free queue of 4096 slots under \<open>Block\<close>: however the
  threads are interleaved, the items popped are the first items accepted, in order, and the iterations
  done are the items accepted. The run can always go on to its end, and at the end every accepted item was popped once and
  their number is the number of items reported.\<close>

theorem spmc_benchmark_counts:
  assumes "lf_new dflt 4096 Block = Some (Inr q)" "0 < consumers"
    "spmc_reach lock_free_queue_ops (spmc_start consumers iterations q) s" "sp_pushes s + sp_left s \<le> 2 ^ 62"
  shows "(\<exists>rest. sp_accepted s = sp_popped s @ rest) \<and> length (sp_accepted s) + sp_left s = iterations \<and>
    (\<exists>s' k. spmc_reach lock_free_queue_ops s s' \<and> sp_pc s' = Spmc_Done k) \<and>
    (\<forall>k. sp_pc s = Spmc_Done k \<longrightarrow> sp_popped s = sp_accepted s \<and> k = length (sp_popped s) \<and> k = iterations)"
proof -
  from assms(1) obtain k where k: "1 \<le> k" "k \<le> 30" "q = lf_ring dflt (2 ^ k) Block" by (rule lf_new_Inr)
  have q: "lf_inv (2 ^ 62) q" "lf_contents q = []" "\<not> lf_shutting_down q" "lf_policy q = Block"
    using lf_ring_inv [OF k(1,2) order_refl] by (simp_all add: k(3))
  have p: "sp_pushes s \<le> 2 ^ 62" using assms(4) by simp
  note inv = glf.spmc_reach_inv [OF assms(3) q p]
  have c: "sp_consumers s \<noteq> []" "sp_iterations s = iterations"
    using spmc_reach_frame [OF assms(3)] assms(2) by (auto simp: spmc_start_def)
  have "lf_contents (sp_queue s) = []" if "sp_pc s = Spmc_Done k" for k
    using inv c(1) that by (cases "sp_consumers s") (auto simp: spmc_inv_def)
  with inv c glf.spmc_finishes [of "2 ^ 62" s] assms(4) show ?thesis by (fastforce simp: spmc_inv_def)
qed

text \<open>The other loops, for the mutex queue: pushing and popping by turns never parks and gives back what was
  pushed; a stream of pushes on a queue of 8 is accepted eight times and then refused, or takes the place of the oldest,
  as the policy has it; and the tear-down of the contended fixture returns within three steps of the
  drain thread and the join.\<close>

theorem single_threaded_benchmark:
  assumes "bq_new 1024 Block = Inr q"
  shows "\<exists>q'. single_threaded bounded_queue_ops nows 0 q = Returns (map Some (samples 0 nows), q')"
proof -
  have "bq_inv q" "bq_items q = []" using assms bq_new_inv [OF assms] by (auto simp: bq_new_def)
  from gbq.single_threaded_run [OF this] show ?thesis by blast
qed

theorem backpressure_benchmark:
  assumes "bq_new 8 p = Inr q"
  shows "\<exists>q'. backpressure_policy bounded_queue_ops nows 0 q =
      Returns (replicate (min 8 (length nows)) Accepted @ replicate (length nows - 8) (overflow_result p), q') \<and>
    bq_items q' = kept p 8 (samples 0 nows)"
proof -
  have "bq_inv q" "bq_items q = []" "bq_policy q = p" "bq_cap q = 8"
    using assms bq_new_inv [OF assms] by (auto simp: bq_new_def)
  with gbq.backpressure_run [of q nows 0] show ?thesis by (simp add: bounded_queue_ops_def bq_capacity_def)
qed

theorem fixture_tear_down_returns:
  assumes "lf_new dflt 4096 Block = Some (Inr q)" "sum_list iterations \<le> 2 ^ 62"
    "(fixture_step lock_free_queue_ops)\<^sup>*\<^sup>* (fixture_start iterations q) s" "fx_pc s = Fixture_Shut"
    "(fixture_step lock_free_queue_ops ^^ n) s s'"
  shows "n \<le> 3 \<and> (fx_pc s' = Fixture_Joined \<or> (\<exists>s''. fixture_step lock_free_queue_ops s' s''))"
proof -
  from assms(1) obtain k where k: "1 \<le> k" "k \<le> 30" "q = lf_ring dflt (2 ^ k) Block" by (rule lf_new_Inr)
  have "lf_inv (sum_list iterations) q" using lf_ring_inv [OF k(1,2) assms(2)] by (simp add: k(3))
  note inv = glf.fixture_reach_inv [OF assms(3) this]
  have "fixture_work s \<le> 3" by (cases "fx_drain s") (simp_all add: fixture_work_def)
  with glf.fixture_shut_bounded [OF assms(5) inv] assms(4) glf.fixture_shut_progress [of s'] show ?thesis by force
qed

text \<open>The benchmark at its start, with two consumers and three iterations.\<close>

theorem spmc_benchmark_counts_witness:
  "\<exists>q s k. lf_new sample_timed 4096 Block = Some (Inr q) \<and>
     spmc_reach lock_free_queue_ops (spmc_start 2 3 q) s \<and> sp_pc s = Spmc_Done k"
proof -
  obtain q where q: "lf_new sample_timed 4096 Block = Some (Inr q)"
    using lf_new_answers [of sample_timed 4096 Block] by fastforce
  from spmc_benchmark_counts [OF q, of 2 3 "spmc_start 2 3 q"] q show ?thesis by (fastforce simp: spmc_start_def)
qed

end
