(* ===== verification/Spec2Isabelle.thy ===== *)
theory Spec2Isabelle
  imports Bounded_Queue_Monitor Lock_Free_Pool Stats_Concurrent Gateway_Http Http_Start Fleet Simulator
    Sink_Roundtrip Queue_Benchmarks
begin

text \<open>
  EdgeFlow: a verification development for the C++ telemetry pipeline.

  \<^bold>\<open>The program.\<close> A fleet of simulated devices (\<^verbatim>\<open>simulator/\<close>) writes telemetry events as lines of JSON to a TCP
  gateway (\<^verbatim>\<open>gateway/\<close>). One reactor thread of the gateway accepts connections, splits the input into lines,
  parses them and pushes the events into a bounded queue (\<^verbatim>\<open>core/\<close>), under one of three policies for a full
  queue. Worker threads pop the events, record how long they waited and add them to a batcher, which hands
  batches to a sink: a file, or an HTTP back end with its own outbound queue, threads, retries and
  persistent (TLS) connections. A flush thread keeps batches from growing old. A signal ends the
  reactor; then the flush thread is joined, the queue is shut down and drained, the last batch handed
  over. The queue is a mutex queue or a lock-free ring, chosen when the gateway is built.

  \<^bold>\<open>Theories and sources\<close> (paths under \<^verbatim>\<open>src/\<close>).
  \<^item> \<open>Prelude\<close>: exceptions as values (\<open>result\<close>), calls that return or park (\<open>call\<close>), generic lemmas.
  \<^item> \<open>Queue_Types\<close> (\<^verbatim>\<open>core/include/edgeflow/queue_types.hpp\<close>, \<^verbatim>\<open>queue_concept.hpp\<close>): the policies, the push
    results, the \<open>EventQueue\<close> concept as a record of operations, and its contract as the locale
    \<open>event_queue_contract\<close> over an abstract list of items.
  \<^item> \<open>Bounded_Queue\<close>, \<open>Bounded_Queue_Monitor\<close> (\<^verbatim>\<open>bounded_queue.hpp\<close>): the mutex queue; then its condition variable
    with the threads that wait on it.
  \<^item> \<open>Lock_Free_Queue\<close>, \<open>Lock_Free_Ring\<close>, \<open>Lock_Free_Parking\<close> (\<^verbatim>\<open>lock_free_bounded_queue.hpp\<close>): every operation at
    64-bit width for one thread; \<open>try_push\<close> and \<open>try_pop\<close> of any number of threads, one shared access per
    step; the parking protocol of \<open>pop\<close>, \<open>notify_one_waiter\<close> and \<open>shutdown\<close>, step by step.
  \<^item> \<open>Lock_Free_Concurrent\<close>, \<open>Lock_Free_Calls\<close>, \<open>Lock_Free_Drain\<close> (the same header): the whole class under any number of threads, one
    shared access per step, as a machine that projects to the ring and refines the parking protocol; what its calls return
    taken together; how it drains after \<open>shutdown\<close>. \<open>Lock_Free_Pool\<close> (\<^verbatim>\<open>worker_pool.hpp\<close>): the workers on this machine.
  \<^item> \<open>Binary64\<close>, \<open>Decimal\<close>, \<open>Strtod\<close>: the doubles (every operation rounds to a value of \<open>is_binary64\<close>), \<open>std::stoul\<close>,
    \<open>std::to_string\<close> and \<open>std::stod\<close> that the code uses.
  \<^item> \<open>Stats\<close>, \<open>Stats_Concurrent\<close> (\<^verbatim>\<open>stats.hpp\<close>): counters, histogram, percentiles, snapshot; then
    \<open>record_queue_wait\<close> with its atomic accesses interleaved.
  \<^item> \<open>Batcher\<close> (\<^verbatim>\<open>batcher.hpp\<close>, \<^verbatim>\<open>batcher.cpp\<close>), \<open>Event\<close> (\<^verbatim>\<open>event.hpp\<close>, \<^verbatim>\<open>event.cpp\<close>), \<open>File_Sink\<close> (\<^verbatim>\<open>file_sink.cpp\<close>),
    \<open>Worker_Pool\<close> (\<^verbatim>\<open>worker_pool.hpp\<close>, \<^verbatim>\<open>timed_event.hpp\<close>), \<open>Args\<close> (\<^verbatim>\<open>args.hpp\<close>), \<open>Iso_Timestamp\<close>
    (\<^verbatim>\<open>iso_timestamp.hpp\<close>).
  \<^item> \<open>Gateway_Config\<close> (\<^verbatim>\<open>gateway/src/config.cpp\<close>), \<open>Connection\<close> and \<open>Connection_Stream\<close> (\<^verbatim>\<open>connection.hpp\<close>: the handlers;
    then a connection with the byte stream of its peer, in pieces of any size), \<open>Gateway\<close> (\<^verbatim>\<open>server.hpp\<close>, and
    \<^verbatim>\<open>gateway/src/main.cpp\<close> with the flushes at any time), \<open>Gateway_Main\<close> (\<^verbatim>\<open>main.cpp\<close>: construction with what the
    system grants or refuses, flush thread, order of the shutdown; it refines \<open>Gateway\<close>).
  \<^item> \<open>Http_Target\<close>, \<open>Http_Send\<close>, \<open>Http_Sink\<close>, \<open>Http_Start\<close> (\<^verbatim>\<open>http_sink.hpp\<close>, \<^verbatim>\<open>http_sink.cpp\<close>): the URL, one attempt and
    the retry loop on a persistent connection, the sink with all its threads and \<open>stop()\<close>, and the
    constructor with the threads it starts or fails to start.
  \<^item> \<open>Gateway_Http\<close>: the product of \<open>Gateway_Main\<close> and \<open>Http_Sink\<close>, joined where the batcher calls \<open>consume\<close> and
    where the destructor calls \<open>stop()\<close>.
  \<^item> \<open>Sink_Roundtrip\<close> (\<^verbatim>\<open>gateway/src/bench_sink_roundtrip.cpp\<close>): the harness that times POSTs to the back end, with
    its counts and its medians and percentiles.
  \<^item> \<open>Simulator_Config\<close>, \<open>Device_Client\<close>, \<open>Simulator\<close> (\<^verbatim>\<open>simulator/src/\<close>): the command line, one device, the fleet on
    its \<open>io_context\<close>s. \<open>Device_Link\<close>: the product of a device and of \<open>Connection_Stream\<close>, joined by the bytes of
    \<open>async_write\<close>. \<open>Fleet\<close>: any number of such devices and the whole of \<open>Gateway\<close>; it projects to a
    \<open>Device_Link\<close> for each peer and to a run of \<open>Gateway\<close>.
  \<^item> \<open>Queue_Benchmarks\<close> (\<^verbatim>\<open>benchmarks/\<close>): the loops that exercise the queues.

  \<^bold>\<open>How the code is modelled.\<close> Objects are records of their fields; an operation is a function from the state
  to the result and the new state; exceptions are values of \<open>result\<close>. Machine integers keep their width
  (\<open>u64\<close>, \<open>u16\<close>, \<open>64 word\<close>); durations are \<open>int\<close>. Where threads share state the model is a step relation, a
  step being one atomic access (\<open>ring_step\<close>, \<open>park_step\<close>, \<open>lq_step\<close>, \<open>wait_step\<close>), one critical section
  (\<open>bq_mon_step\<close>, \<open>main_step\<close>) or one call of an object that has its own proof (\<open>worker_step\<close>, \<open>gateway_step\<close>,
  \<open>http_step\<close>). Components that run against each other are products of their step relations (\<open>cpool_step\<close>, \<open>link_step\<close>, \<open>fleet_step\<close>, \<open>hg_step\<close>):
  each step is a step of one of them or a joint step of both, so what is proved of the parts holds in the product. Asynchronous operations are fields that say what is pending, and their completions, with
  any error, are inputs; a wait on a timer ends with an error only after it was cancelled. Atomics are sequentially consistent. History variables record what was
  pushed, popped, sent or written; no guard reads them.

  \<^bold>\<open>What is a parameter.\<close> The JSON library is a record of functions with its documented behaviour as the
  hypothesis \<open>json_documented\<close> (satisfied by \<open>bit_lib\<close>): which values \<open>get\<close> and \<open>contains\<close> see, that \<open>dump\<close> of an object with keys and strings
  in UTF-8 and finite numbers gives a text without a line feed, and that \<open>parse\<close> reads it back. The numbers are values of \<open>is_binary64\<close>,
  and nothing is assumed of a text that is not UTF-8. The network, the clock, the random numbers, the
  file system, the answers of the system to a new thread or a bind, and what OpenSSL finds out about a certificate are inputs. Whether \<open>std::stod\<close> reports an underflow is left open, as by the C standard.

  \<^bold>\<open>What is shown.\<close>
  \<^item> Queues: the storage of the ring is free of races, and its pops return the pushes in order, each
    once, a later pop a later push; at rest the ring refines the sequential queue; both queues satisfy the contract and answer
    alike; no wake-up is lost and shutdown wakes every consumer.
  \<^item> Calls of the lock-free queue with their single accesses interleaved: items stored are popped, discarded or left, each
    once; the consumers never all sleep on an item; once the pushes are over, \<^verbatim>\<open>nullopt\<close> means empty; every \<open>pop\<close> can return after a
    shutdown, with no further wakeup; the worker pool hands over exactly what was stored. The models of the gateway above it take a call of a queue
    as one step. For the mutex queue that is the critical section. For the lock-free queue it leaves out one behaviour of \<open>DropOldest\<close>, a push
    that discards an item and still answers \<open>RejectedBackpressure\<close> beside a slow consumer (\<open>drop_oldest_rejects_and_discards\<close>); what
    is said of the events a gateway with that queue delivers is therefore said of the other policies, or on \<open>lq_step\<close> itself.
  \<^item> Gateway: the lines handled are the first lines sent, with no byte skipped or read twice, and their
    events are queued in order; every line read is accounted for; when \<open>main\<close> returns the sink has been handed exactly the
    accepted events, in batches on which no sink throws; the file replays them; the shutdown always comes to its end; with which answers of the system the program starts.
  \<^item> HTTP sink: every batch is in one place and counted; an https URL never leads to a request in clear or to a peer whose certificate was not verified;
    what one delivery does, how long it waits, that keys are unique, that \<open>stop()\<close> ends, that a constructor
    which fails leaves no thread behind.
  \<^item> The whole program with an HTTP sink: the bodies made parse back to the accepted events, in the order of the calls of \<open>add_event\<close>;
    each was delivered, given up or dropped, and counted; from the beginning of the shutdown the program ends within a bounded number of steps.
  \<^item> Statistics, batcher, parsers and printers: interleavings count like sequences; percentiles are the
    least boundaries; round trips of events, configurations, URLs and timestamps.
  \<^item> Simulator: one write at a time, the interval of every rate, stop, the report at the end; the timers and sweeps alone end every run. From device to
    gateway: the queue takes a device's events in order, up to where the link breaks. From the fleet to the disk: under \<open>Block\<close>
    the file holds exactly the events the queue took from the devices, and of each device it took the first ones written, without a gap,
    with either queue.

  \<^bold>\<open>Bounds and fuel.\<close> The loops of \<open>try_push\<close>, \<open>try_pop\<close> and \<open>round_up\<close> are partial functions with \<open>None\<close> for not
  returning; the queue contract and \<open>lf_new_answers\<close> show that they return. Positions of the ring are
  followed up to \<open>2 ^ 62\<close> pushes, where the signed difference of positions is still defined. There is no
  other fuel.

  \<^bold>\<open>Not modelled.\<close> Weak memory orders; allocation failure; exceptions out of \<open>io_context.run()\<close>, such as a resolver that fails during the spike of the simulator; the log
  lines and other output, but for the line and the status with which a \<open>main\<close> reports a failure; Google
  Benchmark, which decides how often the loops of \<^verbatim>\<open>benchmarks/\<close> run.
\<close>

section \<open>The two queues are interchangeable\<close>

text \<open>C13: For every sequence of calls (push, pop, shutdown, size) by one thread, the lock-free queue
  and the mutex queue of the same capacity and policy answer every call alike: same push results,
  same items in the same order, parked in the same places, nullopt at the same point. With calls of several threads under way at
  once the answers of the lock-free queue are those of \<^verbatim>\<open>Lock_Free_Calls\<close>.\<close>

theorem lock_free_matches_mutex_queue:
  assumes "lf_new dflt c p = Some (Inr ql)" and "bq_new (unat (lf_capacity ql)) p = Inr qb"
    and "push_count cs \<le> 2 ^ 62"
  shows "fst (run_ops lock_free_queue_ops cs ql) = fst (run_ops bounded_queue_ops cs qb)"
proof -
  from assms(1) obtain k where k: "1 \<le> k" "k \<le> 30" "ql = lf_ring dflt (2 ^ k) p"
    by (rule lf_new_Inr)
  from lf_ring_inv [OF k(1,2) assms(3)] have "lf_inv (push_count cs + 0) ql"
    by (simp add: k(3))
  note L = lfq.run_ops_refines [OF this]
  have "bq_inv qb" using bq_new_inv [OF assms(2)] .
  note B = bq.run_ops_refines [OF this]
  have "q_capacity lock_free_queue_ops ql = q_capacity bounded_queue_ops qb"
    "bq_policy qb = p" "bq_items qb = []" "\<not> bq_shutting_down qb"
    using assms(2) by (auto simp: bq_new_def lock_free_queue_ops_def bounded_queue_ops_def
        bq_capacity_def split: if_splits)
  with L B show ?thesis by (simp add: k(3))
qed

theorem lock_free_matches_mutex_queue_witness:
  "fst (run_ops lock_free_queue_ops [Do_Push 1, Do_Push 2, Do_Push 3, Do_Pop, Do_Shutdown, Do_Pop, Do_Pop]
      (demo_queue))
   = [Saw_Push (Returns Accepted), Saw_Push (Returns Accepted), Saw_Push (Returns RejectedBackpressure),
      Saw_Pop (Returns (Some 1)), Saw_Unit, Saw_Pop (Returns (Some 2)), Saw_Pop (Returns None)]"
proof -
  have b: "bq_new (unat (lf_capacity demo_queue)) Block =
      Inr \<lparr>bq_cap = 2, bq_policy = Block, bq_items = [], bq_shutting_down = False\<rparr>"
    by (simp add: bq_new_def lf_capacity_def demo_queue_def lf_ring_def)
  have "push_count [Do_Push (1::nat), Do_Push 2, Do_Push 3, Do_Pop, Do_Shutdown, Do_Pop, Do_Pop] \<le> 2 ^ 62"
    by simp
  from lock_free_matches_mutex_queue [OF demo_queue_new b this] show ?thesis
    by (simp add: queue_defs)
qed

end
